(* ===== verification/Prelude.thy ===== *)
theory Prelude
  imports Main "HOL-Library.Word" "HOL-Library.Monad_Syntax"
begin

text \<open>
  What every component shares: the machine integers of the sources as words, the operations of
  Rust's standard library that the sources rely on (indexing, slicing, \<open>copy_from_slice\<close>,
  \<open>to_le_bytes\<close> and \<open>from_le_bytes\<close>), and generic lemmas on lists and words.

  A Rust function that may panic is modelled with an \<open>option\<close> result: \<open>None\<close> is the panic
  (out-of-range index, failed \<open>assert!\<close>, \<open>unwrap\<close> of a missing value), \<open>Some r\<close> is the normal
  return, and the \<open>do\<close> notation of the option monad sequences the calls, so that a panic ends the
  computation. \<open>Result<T, E>\<close> is the sum \<open>e + t\<close> with \<open>Inl\<close> the error. A Rust \<open>Option\<close>
  returned as a value is an \<open>option\<close> inside.
\<close>

unbundle bit_operations_syntax

type_synonym u8 = "8 word"
type_synonym u16 = "16 word"
type_synonym u32 = "32 word"
type_synonym u64 = "64 word"

named_theorems panics \<open>equations of the operations that may panic\<close>
named_theorems le_bytes \<open>byte-order conversions\<close>

section \<open>Slices\<close>

text \<open>\<open>xs[i]\<close>, \<open>xs[i] = v\<close>, \<open>&xs[a..b]\<close>, and \<open>xs[a..a + src.len()].copy_from_slice(src)\<close>.\<close>

definition idx :: "'a list \<Rightarrow> nat \<Rightarrow> 'a option" where
  "idx xs i = (if i < length xs then Some (xs ! i) else None)"

definition upd :: "'a list \<Rightarrow> nat \<Rightarrow> 'a \<Rightarrow> 'a list option" where
  "upd xs i v = (if i < length xs then Some (xs[i := v]) else None)"

definition subslice :: "'a list \<Rightarrow> nat \<Rightarrow> nat \<Rightarrow> 'a list option" where
  "subslice xs a b = (if a \<le> b \<and> b \<le> length xs then Some (take (b - a) (drop a xs)) else None)"

definition blit :: "'a list \<Rightarrow> nat \<Rightarrow> 'a list \<Rightarrow> 'a list" where
  "blit xs a src = take a xs @ src @ drop (a + length src) xs"

definition copy_into :: "'a list \<Rightarrow> nat \<Rightarrow> 'a list \<Rightarrow> 'a list option" where
  "copy_into xs a src = (if a + length src \<le> length xs then Some (blit xs a src) else None)"

definition assertion :: "bool \<Rightarrow> unit option" where
  "assertion b = (if b then Some () else None)"

lemma idx_Some [simp, panics]: "i < length xs \<Longrightarrow> idx xs i = Some (xs ! i)"
  by (simp add: idx_def)

lemma idx_None [simp, panics]: "length xs \<le> i \<Longrightarrow> idx xs i = None"
  by (simp add: idx_def)

lemma upd_Some [simp, panics]: "i < length xs \<Longrightarrow> upd xs i v = Some (xs[i := v])"
  by (simp add: upd_def)

lemma upd_None [simp, panics]: "length xs \<le> i \<Longrightarrow> upd xs i v = None"
  by (simp add: upd_def)

lemma subslice_Some [simp, panics]:
  "a \<le> b \<Longrightarrow> b \<le> length xs \<Longrightarrow> subslice xs a b = Some (take (b - a) (drop a xs))"
  by (simp add: subslice_def)

lemma subslice_None [simp, panics]: "b < a \<or> length xs < b \<Longrightarrow> subslice xs a b = None"
  by (auto simp: subslice_def)

lemma copy_into_Some [simp, panics]:
  "a + length src \<le> length xs \<Longrightarrow> copy_into xs a src = Some (blit xs a src)"
  by (simp add: copy_into_def)

lemma copy_into_None [simp, panics]: "length xs < a + length src \<Longrightarrow> copy_into xs a src = None"
  by (simp add: copy_into_def)

lemma assertion_True [simp, panics]: "assertion True = Some ()"
  by (simp add: assertion_def)

lemma assertion_False [simp, panics]: "assertion False = None"
  by (simp add: assertion_def)

lemma assertion_eq_Some: "assertion b = Some u \<longleftrightarrow> b"
  by (simp add: assertion_def)

lemma length_blit: "a + length src \<le> length xs \<Longrightarrow> length (blit xs a src) = length xs"
  by (simp add: blit_def)

lemma take_blit: "a \<le> length xs \<Longrightarrow> take (a + length src) (blit xs a src) = take a xs @ src"
  by (simp add: blit_def)

text \<open>Writing the next element after a prefix that is already in place.\<close>

lemma take_Suc_update: "i < length xs \<Longrightarrow> take (Suc i) (xs[i := v]) = take i xs @ [v]"
  by (simp add: take_Suc_conv_app_nth)

section \<open>Byte order\<close>

definition u16_to_be_bytes :: "u16 \<Rightarrow> u8 list" where
  "u16_to_be_bytes w = [ucast (drop_bit 8 w), ucast w]"

definition u16_to_le_bytes :: "u16 \<Rightarrow> u8 list" where
  "u16_to_le_bytes w = [ucast w, ucast (drop_bit 8 w)]"

definition u32_to_le_bytes :: "u32 \<Rightarrow> u8 list" where
  "u32_to_le_bytes w =
     [ucast w, ucast (drop_bit 8 w), ucast (drop_bit 16 w), ucast (drop_bit 24 w)]"

definition u32_to_be_bytes :: "u32 \<Rightarrow> u8 list" where
  "u32_to_be_bytes w = rev (u32_to_le_bytes w)"

text \<open>Reading takes exactly two or four bytes; \<open>try_into().unwrap()\<close> panics on any other length.\<close>

fun u16_from_le_bytes :: "u8 list \<Rightarrow> u16 option" where
  "u16_from_le_bytes [a, b] = Some (ucast a OR push_bit 8 (ucast b))"
| "u16_from_le_bytes _ = None"

fun u16_from_be_bytes :: "u8 list \<Rightarrow> u16 option" where
  "u16_from_be_bytes [a, b] = Some (push_bit 8 (ucast a) OR ucast b)"
| "u16_from_be_bytes _ = None"

definition u32_of_bytes :: "u8 \<Rightarrow> u8 \<Rightarrow> u8 \<Rightarrow> u8 \<Rightarrow> u32" where
  "u32_of_bytes a b c d =
     ucast a OR push_bit 8 (ucast b) OR push_bit 16 (ucast c) OR push_bit 24 (ucast d)"

fun u32_from_le_bytes :: "u8 list \<Rightarrow> u32 option" where
  "u32_from_le_bytes [a, b, c, d] = Some (u32_of_bytes a b c d)"
| "u32_from_le_bytes _ = None"

definition u32_from_be_bytes :: "u8 list \<Rightarrow> u32 option" where
  "u32_from_be_bytes bs = u32_from_le_bytes (rev bs)"

lemma length_u32_to_le_bytes [simp]: "length (u32_to_le_bytes w) = 4"
  by (simp add: u32_to_le_bytes_def)

lemma length_u16_to_be_bytes [simp]: "length (u16_to_be_bytes w) = 2"
  by (simp add: u16_to_be_bytes_def)

lemma length_u16_to_le_bytes [simp]: "length (u16_to_le_bytes w) = 2"
  by (simp add: u16_to_le_bytes_def)

lemma u32_of_bytes_split:
  "u32_of_bytes (ucast w) (ucast (drop_bit 8 w)) (ucast (drop_bit 16 w)) (ucast (drop_bit 24 w)) = w"
  unfolding u32_of_bytes_def
proof (rule bit_word_eqI)
  fix n assume "n < LENGTH(32)"
  then consider "n < 8" | "8 \<le> n" "n < 16" | "16 \<le> n" "n < 24" | "24 \<le> n" "n < 32"
    by fastforce
  then show "bit ((ucast (ucast w :: u8) :: u32) OR push_bit 8 (ucast (ucast (drop_bit 8 w) :: u8)) OR
      push_bit 16 (ucast (ucast (drop_bit 16 w) :: u8)) OR
      push_bit 24 (ucast (ucast (drop_bit 24 w) :: u8))) n = bit w n"
    by cases (auto simp: bit_simps)
qed

lemma u32_le_roundtrip [simp, le_bytes]: "u32_from_le_bytes (u32_to_le_bytes w) = Some w"
  by (simp add: u32_to_le_bytes_def u32_of_bytes_split)

lemma u32_be_roundtrip [simp, le_bytes]: "u32_from_be_bytes (u32_to_be_bytes w) = Some w"
  by (simp add: u32_from_be_bytes_def u32_to_be_bytes_def)

lemma u16_le_roundtrip [simp, le_bytes]: "u16_from_le_bytes (u16_to_le_bytes w) = Some w"
  unfolding u16_to_le_bytes_def u16_from_le_bytes.simps option.inject
  by (rule bit_word_eqI) (auto simp: bit_simps)

lemma u16_be_roundtrip [simp, le_bytes]: "u16_from_be_bytes (u16_to_be_bytes w) = Some w"
  unfolding u16_to_be_bytes_def u16_from_be_bytes.simps option.inject
  by (rule bit_word_eqI) (auto simp: bit_simps)

lemma u32_from_le_bytes_Some_iff: "(\<exists>w. u32_from_le_bytes bs = Some w) \<longleftrightarrow> length bs = 4"
  by (cases bs rule: u32_from_le_bytes.cases) auto

lemma u32_to_from_le_bytes:
  assumes "u32_from_le_bytes bs = Some w"
  shows "u32_to_le_bytes w = bs"
proof -
  have "length bs = 4"
    using assms u32_from_le_bytes_Some_iff by blast
  then obtain a b c d where bs: "bs = [a, b, c, d]"
    by (auto simp: numeral_eq_Suc length_Suc_conv)
  let ?w = "u32_of_bytes a b c d"
  have "ucast ?w = a" "ucast (drop_bit 8 ?w) = b" "ucast (drop_bit 16 ?w) = c"
    "ucast (drop_bit 24 ?w) = d"
    by (rule bit_word_eqI, auto simp: u32_of_bytes_def bit_simps dest: bit_imp_le_length)+
  with assms bs show ?thesis
    by (simp add: u32_to_le_bytes_def)
qed

section \<open>Words\<close>

lemma xor_cancel [simp]: "(x XOR k) XOR k = (x :: 'a::len word)"
  by (simp add: xor.assoc)

lemma map_xor_cancel [simp]: "map (\<lambda>x. (x XOR k) XOR k) xs = (xs :: 'a::len word list)"
  by simp

lemma xor_eq_right_iff: "x XOR k = k \<longleftrightarrow> x = (0 :: 'a::len word)"
  by (metis xor.left_neutral xor_cancel xor_self_eq)

lemma eq_xor_right_iff: "k = x XOR k \<longleftrightarrow> x = (0 :: 'a::len word)"
  using xor_eq_right_iff [of x k] by auto

lemma xor_eq_zero_iff: "x XOR k = 0 \<longleftrightarrow> x = (k :: 'a::len word)"
  by (metis xor.left_neutral xor_cancel xor_self_eq)

end
