(* ===== verification/Message.thy ===== *)
theory Message
  imports Prelude
begin

text \<open>
  The vocabulary both ends of the serial line share (\<open>okboot-common\<close>, files \<open>lib.rs\<close>,
  \<open>host.rs\<close> and \<open>device.rs\<close>): the message types with their wire codes, the commands of the
  legacy \<open>su_boot\<close> protocol, the supported protocol versions, and the message structures.
\<close>

section \<open>Constants\<close>

definition BAUD_RATE :: nat where "BAUD_RATE = 1500000"
definition INITIAL_BAUD_RATE :: u32 where "INITIAL_BAUD_RATE = 115200"
definition COBS_XOR :: u8 where "COBS_XOR = 0x55"
definition PREAMBLE_BYTES :: "u8 list" where "PREAMBLE_BYTES = [0x55, 0x55, 0x55, 0x5e]"

section \<open>Message types\<close>

datatype MessageType = PrintString | Probe | AllowedVersions | UseVersion
  | MetadataReq | Metadata | MetadataAck | MetadataAckAck
  | ChunkReq | Chunk | Booting | BootingAck

fun message_type_code :: "MessageType \<Rightarrow> u32" where
  "message_type_code PrintString = 101"
| "message_type_code Probe = 201"
| "message_type_code AllowedVersions = 202"
| "message_type_code UseVersion = 203"
| "message_type_code MetadataReq = 301"
| "message_type_code Metadata = 302"
| "message_type_code MetadataAck = 303"
| "message_type_code MetadataAckAck = 304"
| "message_type_code ChunkReq = 401"
| "message_type_code Chunk = 402"
| "message_type_code Booting = 501"
| "message_type_code BootingAck = 502"

definition message_type_try_from :: "u32 \<Rightarrow> unit + MessageType" where
  "message_type_try_from value =
    (if value = 101 then Inr PrintString
     else if value = 201 then Inr Probe
     else if value = 202 then Inr AllowedVersions
     else if value = 203 then Inr UseVersion
     else if value = 301 then Inr MetadataReq
     else if value = 302 then Inr Metadata
     else if value = 303 then Inr MetadataAck
     else if value = 304 then Inr MetadataAckAck
     else if value = 401 then Inr ChunkReq
     else if value = 402 then Inr Chunk
     else if value = 501 then Inr Booting
     else if value = 502 then Inr BootingAck
     else Inl ())"

datatype Command = BootStart | GetProgInfo | PutProgInfo | GetCode | PutCode
  | BootSuccess | BootError | CmdPrintString

fun command_code :: "Command \<Rightarrow> u32" where
  "command_code BootStart = 0xFFFF0000"
| "command_code GetProgInfo = 0x11112222"
| "command_code PutProgInfo = 0x33334444"
| "command_code GetCode = 0x55556666"
| "command_code PutCode = 0x77778888"
| "command_code BootSuccess = 0x9999AAAA"
| "command_code BootError = 0xBBBBCCCC"
| "command_code CmdPrintString = 0xDDDDEEEE"

datatype SupportedProtocol = ProtoV2

fun supported_protocol_code :: "SupportedProtocol \<Rightarrow> u32" where
  "supported_protocol_code ProtoV2 = 2"

definition supported_protocol_try_from :: "u32 \<Rightarrow> u32 + SupportedProtocol" where
  "supported_protocol_try_from value = (if value = 2 then Inr ProtoV2 else Inl value)"

fun baud_rate :: "SupportedProtocol \<Rightarrow> u32" where
  "baud_rate ProtoV2 = 1500000"

section \<open>Message structures\<close>

text \<open>Sent by the host. \<open>Probe\<close> and \<open>BootingAck\<close> have no fields.\<close>

datatype FormatDetails = Bin u64 | Elf

record UseVersion_msg =
  version :: u32

record Metadata_msg =
  deflated_crc :: u32
  deflated_len :: u32
  inflated_crc :: u32
  inflated_len :: u32
  format_details :: FormatDetails

record MetadataAckAck_msg =
  is_ok :: bool

record Chunk_msg =
  which :: u32
  chunk_bytes :: "u8 list"

text \<open>
  Sent by the device. \<open>MetadataReq\<close> and \<open>Booting\<close> have no fields; \<open>AllowedVersions\<close> keeps the
  versions as the bytes of the little-endian words that \<open>bytemuck\<close> reinterprets.
\<close>

record AllowedVersions_msg =
  versions :: "u8 list"

record MetadataAck_msg =
  chunk_size :: u32
  metadata :: Metadata_msg

record ChunkReq_msg =
  req_which :: u32

definition allowed_versions_new :: "u32 list \<Rightarrow> AllowedVersions_msg" where
  "allowed_versions_new vs = \<lparr>versions = concat (map u32_to_le_bytes vs)\<rparr>"

text \<open>\<open>AllowedVersionsIter::next\<close>: the offset is the iterator's state.\<close>

definition allowed_versions_next :: "AllowedVersions_msg \<Rightarrow> nat \<Rightarrow> (nat \<times> u32 option) option" where
  "allowed_versions_next av offset =
    (if offset \<ge> length (versions av) then Some (offset, None)
     else if offset + 4 > length (versions av) then Some (offset, None)
     else do {
       four \<leftarrow> subslice (versions av) offset (offset + 4);
       v \<leftarrow> u32_from_le_bytes four;
       Some (offset + 4, Some v)
     })"

text \<open>A \<open>for\<close> loop over the iterator: all the versions it yields from an offset on.\<close>

function allowed_versions_from :: "AllowedVersions_msg \<Rightarrow> nat \<Rightarrow> u32 list option" where
  "allowed_versions_from av offset =
    (case allowed_versions_next av offset of
       None \<Rightarrow> None
     | Some (offset', None) \<Rightarrow> Some []
     | Some (offset', Some v) \<Rightarrow> do { vs \<leftarrow> allowed_versions_from av offset'; Some (v # vs) })"
  by pat_completeness auto
termination
  by (relation "measure (\<lambda>(av, offset). length (versions av) - offset)")
     (auto simp: allowed_versions_next_def split: if_splits option.splits bind_splits)

declare allowed_versions_from.simps [simp del]

definition allowed_versions_iter :: "AllowedVersions_msg \<Rightarrow> u32 list option" where
  "allowed_versions_iter av = allowed_versions_from av 0"

section \<open>Codes and types\<close>

lemma message_type_try_from_code [simp]: "message_type_try_from (message_type_code t) = Inr t"
  by (cases t) (simp_all add: message_type_try_from_def)

lemma message_type_try_from_Inr: "message_type_try_from v = Inr t \<Longrightarrow> message_type_code t = v"
  by (auto simp: message_type_try_from_def split: if_splits)

lemma message_type_try_from_iff: "message_type_try_from v = Inr t \<longleftrightarrow> v = message_type_code t"
  using message_type_try_from_Inr by auto

section \<open>The version list\<close>

lemma allowed_versions_step:
  assumes "versions av = pre @ concat (map u32_to_le_bytes vs)" and "length pre = offset"
  shows "allowed_versions_from av offset = Some vs"
  using assms
proof (induction vs arbitrary: pre offset)
  case Nil
  then show ?case
    by (subst allowed_versions_from.simps) (simp add: allowed_versions_next_def)
next
  case (Cons v vs)
  have "allowed_versions_next av offset = Some (offset + 4, Some v)"
    using Cons.prems by (simp add: allowed_versions_next_def)
  moreover have "allowed_versions_from av (offset + 4) = Some vs"
    by (rule Cons.IH [of "pre @ u32_to_le_bytes v"]) (use Cons.prems in simp_all)
  ultimately show ?case
    by (subst allowed_versions_from.simps) simp
qed

end
