(* ===== verification/Cobs.thy ===== *)
theory Cobs
  imports Message
begin

text \<open>
  Consistent-overhead byte stuffing, both directions: the frame encoder of
  \<open>common/okboot-common/src/frame/encode.rs\<close> and the COBS decoder of \<open>frame/decode.rs\<close>, with
  the round trip, the placement of the delimiter and the size of the encoding.
\<close>

definition COBS_SENTINEL :: u8 where [simp]: "COBS_SENTINEL = 0"

section \<open>Length field\<close>

text \<open>
  Lengths are \<open>usize\<close> values; \<open>length & !0xff_ffff\<close> is what remains after clearing the low 24
  bits.
\<close>

definition encode_length :: "nat \<Rightarrow> u8 list option" where
  "encode_length len =
    (if push_bit 24 (drop_bit 24 len) \<noteq> 0 then None
     else Some (map (\<lambda>x. x OR 0xc0)
       [of_nat (len AND 0x3f),
        of_nat (drop_bit 6 (len AND 0xfc0)),
        of_nat (drop_bit 12 (len AND 0x3f000)),
        of_nat (drop_bit 18 (len AND 0xfc0000))]))"

section \<open>Encoder\<close>

record FrameEncoderInner =
  buf :: "u8 list"
  cursor :: nat

text \<open>\<open>Buf(&mut self.buf[0..n])\<close> is represented by the extent \<open>n\<close> of the borrowed prefix.\<close>

datatype EncodeStateInner = InnerBuf nat | InnerPass

datatype EncodeState = Buf "u8 list" | Pass

definition inner_with_buffer :: "u8 list \<Rightarrow> FrameEncoderInner option" where
  "inner_with_buffer underlying_buffer =
    (if length underlying_buffer = 255 then Some \<lparr>buf = underlying_buffer, cursor = 1\<rparr> else None)"

definition inner_write_u8 ::
  "FrameEncoderInner \<Rightarrow> u8 \<Rightarrow> (FrameEncoderInner \<times> EncodeStateInner) option" where
  "inner_write_u8 self x =
    (if cursor self = 254 then
       if x = COBS_SENTINEL then do {
         b \<leftarrow> upd (buf self) 0 0xfe;
         _ \<leftarrow> subslice b 0 254;
         Some (self\<lparr>buf := b, cursor := 1\<rparr>, InnerBuf 254)
       } else do {
         b \<leftarrow> upd (buf self) 0 0xff;
         b \<leftarrow> upd b 0xfe x;
         _ \<leftarrow> subslice b 0 255;
         Some (self\<lparr>buf := b, cursor := 1\<rparr>, InnerBuf 255)
       }
     else if x \<noteq> COBS_SENTINEL then do {
       b \<leftarrow> upd (buf self) (cursor self) x;
       Some (self\<lparr>buf := b, cursor := cursor self + 1\<rparr>, InnerPass)
     } else do {
       b \<leftarrow> upd (buf self) 0 (of_nat (cursor self));
       _ \<leftarrow> subslice b 0 (cursor self);
       Some (self\<lparr>buf := b, cursor := 1\<rparr>, InnerBuf (cursor self))
     })"

definition inner_finish :: "FrameEncoderInner \<Rightarrow> (FrameEncoderInner \<times> nat) option" where
  "inner_finish self = do {
     b \<leftarrow> upd (buf self) (cursor self) COBS_SENTINEL;
     b \<leftarrow> upd b 0 (of_nat (cursor self));
     _ \<leftarrow> subslice b 0 (cursor self + 1);
     Some (self\<lparr>buf := b, cursor := cursor self + 1\<rparr>, cursor self + 1)
   }"

record FrameEncoder =
  inner :: FrameEncoderInner
  enc_xor :: u8

definition with_buffer_xor :: "u8 list \<Rightarrow> u8 \<Rightarrow> FrameEncoder option" where
  "with_buffer_xor underlying_buffer k = do {
     i \<leftarrow> inner_with_buffer underlying_buffer;
     Some \<lparr>inner = i, enc_xor = k\<rparr>
   }"

text \<open>The exclusive-or happens in place, on the borrowed prefix of the encoder's buffer.\<close>

definition xor_prefix :: "u8 \<Rightarrow> nat \<Rightarrow> FrameEncoderInner \<Rightarrow> FrameEncoderInner" where
  "xor_prefix k n i = i\<lparr>buf := map (\<lambda>x. x XOR k) (take n (buf i)) @ drop n (buf i)\<rparr>"

definition enc_write_u8 :: "FrameEncoder \<Rightarrow> u8 \<Rightarrow> (FrameEncoder \<times> EncodeState) option" where
  "enc_write_u8 self x = do {
     (i, st) \<leftarrow> inner_write_u8 (inner self) x;
     (case st of
        InnerBuf n \<Rightarrow>
          let i' = xor_prefix (enc_xor self) n i
          in Some (self\<lparr>inner := i'\<rparr>, Buf (take n (buf i')))
      | InnerPass \<Rightarrow> Some (self\<lparr>inner := i\<rparr>, Pass))
   }"

text \<open>
  \<open>finish\<close> consumes the encoder and returns the slice; the buffer it borrowed keeps what was
  written, so the model returns both.
\<close>

definition enc_finish :: "FrameEncoder \<Rightarrow> (u8 list \<times> u8 list) option" where
  "enc_finish self = do {
     (i, n) \<leftarrow> inner_finish (inner self);
     let i' = xor_prefix (enc_xor self) n i;
     Some (take n (buf i'), buf i')
   }"

text \<open>
  \<open>BufferedEncoder\<close> owns the buffer between frames; \<open>frame()\<close> lends it to a new \<open>FrameEncoder\<close>.
\<close>

record BufferedEncoder =
  be_buffer :: "u8 list"
  be_xor :: u8

definition be_frame :: "BufferedEncoder \<Rightarrow> FrameEncoder option" where
  "be_frame self = with_buffer_xor (be_buffer self) (be_xor self)"

text \<open>The loop every sender runs over its bytes, collecting the slices the encoder lends out.\<close>

fun enc_write_all :: "FrameEncoder \<Rightarrow> u8 list \<Rightarrow> (FrameEncoder \<times> u8 list) option" where
  "enc_write_all e [] = Some (e, [])"
| "enc_write_all e (x # xs) = do {
     (e, st) \<leftarrow> enc_write_u8 e x;
     let out = (case st of Buf b \<Rightarrow> b | Pass \<Rightarrow> []);
     (e, outs) \<leftarrow> enc_write_all e xs;
     Some (e, out @ outs)
   }"

definition cobs_encode :: "u8 list \<Rightarrow> u8 \<Rightarrow> u8 list \<Rightarrow> u8 list option" where
  "cobs_encode buffer k data = do {
     e \<leftarrow> be_frame \<lparr>be_buffer = buffer, be_xor = k\<rparr>;
     (e, out) \<leftarrow> enc_write_all e data;
     (last_block, _) \<leftarrow> enc_finish e;
     Some (out @ last_block)
   }"

section \<open>Decoder\<close>

record CobsError =
  err_frame_loc :: nat
  err_bytes_since_last_jump :: nat
  err_last_jump :: nat
  err_found :: u8

datatype CobsState = CobsSkip | CobsByte u8 | CobsFinished

record CobsDecoder =
  frame_loc :: nat
  bytes_since_last_jump :: nat
  last_jump :: nat
  dec_xor :: u8

definition cobs_new :: "u8 \<Rightarrow> CobsDecoder" where
  "cobs_new k = \<lparr>frame_loc = 0, bytes_since_last_jump = 0, last_jump = 0, dec_xor = k\<rparr>"

definition cobs_reset :: "CobsDecoder \<Rightarrow> CobsDecoder" where
  "cobs_reset self = self\<lparr>frame_loc := 0, bytes_since_last_jump := 0, last_jump := 0\<rparr>"

definition cobs_error :: "CobsDecoder \<Rightarrow> u8 \<Rightarrow> CobsError" where
  "cobs_error self found =
    \<lparr>err_frame_loc = frame_loc self, err_bytes_since_last_jump = bytes_since_last_jump self,
     err_last_jump = last_jump self, err_found = found\<rparr>"

definition cobs_poll :: "CobsDecoder \<Rightarrow> u8 \<Rightarrow> CobsDecoder \<times> (CobsError + CobsState)" where
  "cobs_poll self wire_byte =
    (let byte = wire_byte XOR dec_xor self in
     if last_jump self = 0 then
       if byte = COBS_SENTINEL then (self, Inl (cobs_error self byte))
       else if bytes_since_last_jump self \<noteq> last_jump self
       then (self, Inl (cobs_error self byte))
       else (self\<lparr>last_jump := unat byte, bytes_since_last_jump := 0\<rparr>, Inr CobsSkip)
     else
       let self = self\<lparr>bytes_since_last_jump := bytes_since_last_jump self + 1\<rparr> in
       if bytes_since_last_jump self < last_jump self then
         if byte = COBS_SENTINEL then (self, Inl (cobs_error self byte))
         else (self, Inr (CobsByte byte))
       else
         let prev_jump = last_jump self;
             self = self\<lparr>last_jump := unat byte, bytes_since_last_jump := 0\<rparr>
         in if byte = 0 then (cobs_reset self, Inr CobsFinished)
            else if prev_jump < 0xff then (self, Inr (CobsByte 0))
            else (self, Inr CobsSkip))"

text \<open>Polling a run of wire bytes; the run ends at the first error.\<close>

fun cobs_poll_all :: "CobsDecoder \<Rightarrow> u8 list \<Rightarrow> CobsDecoder \<times> (CobsError + CobsState list)" where
  "cobs_poll_all d [] = (d, Inr [])"
| "cobs_poll_all d (b # bs) =
    (case cobs_poll d b of
       (d, Inl e) \<Rightarrow> (d, Inl e)
     | (d, Inr st) \<Rightarrow>
         (case cobs_poll_all d bs of
            (d, Inl e) \<Rightarrow> (d, Inl e)
          | (d, Inr sts) \<Rightarrow> (d, Inr (st # sts))))"

fun cobs_bytes :: "CobsState list \<Rightarrow> u8 list" where
  "cobs_bytes [] = []"
| "cobs_bytes (CobsByte b # sts) = b # cobs_bytes sts"
| "cobs_bytes (_ # sts) = cobs_bytes sts"

section \<open>Specification\<close>

text \<open>
  Byte stuffing on lists, without buffers: \<open>p\<close> is the block being collected. A block ends at a
  zero, which its length byte then stands for, or when 254 bytes are collected.
\<close>

fun cobs_stuff :: "u8 list \<Rightarrow> u8 list \<Rightarrow> u8 list" where
  "cobs_stuff p [] = of_nat (length p + 1) # p @ [0]"
| "cobs_stuff p (x # xs) =
    (if x = 0 then (of_nat (length p + 1) # p) @ cobs_stuff [] xs
     else if length p = 253 then (0xff # p @ [x]) @ cobs_stuff [] xs
     else cobs_stuff (p @ [x]) xs)"

definition pending :: "FrameEncoder \<Rightarrow> u8 list" where
  "pending e = take (cursor (inner e) - 1) (drop 1 (buf (inner e)))"

definition enc_inv :: "FrameEncoder \<Rightarrow> bool" where
  "enc_inv e \<longleftrightarrow> length (buf (inner e)) = 255 \<and> 1 \<le> cursor (inner e) \<and> cursor (inner e) \<le> 254"

text \<open>
  The decoder stands before a length byte: either before the first one, or at the end of a block,
  which owes a zero to the output unless it was a full one.
\<close>

definition at_boundary :: "u8 \<Rightarrow> CobsDecoder \<Rightarrow> u8 list \<Rightarrow> bool" where
  "at_boundary k d owed \<longleftrightarrow> dec_xor d = k \<and> frame_loc d = 0 \<and>
    (last_jump d = 0 \<and> bytes_since_last_jump d = 0 \<and> owed = [] \<or>
     0 < last_jump d \<and> bytes_since_last_jump d + 1 = last_jump d \<and>
       owed = (if last_jump d < 255 then [0] else []))"

section \<open>The encoder implements the specification\<close>

text \<open>The shape of the encoder's buffer: a slot for the length byte, then 254 bytes.\<close>

lemma enc_inv_cases:
  assumes "enc_inv e"
  obtains h r m where "buf (inner e) = h # r" "length r = 254" "cursor (inner e) = Suc m" "m \<le> 253"
    "pending e = take m r" "length (pending e) = m"
  using assms
  by (cases "buf (inner e)"; cases "cursor (inner e)") (auto simp: enc_inv_def pending_def)

lemma enc_inv_intro:
  "length (buf (inner e)) = 255 \<Longrightarrow> cursor (inner e) = 1 \<Longrightarrow> enc_inv e \<and> pending e = []"
  by (simp add: enc_inv_def pending_def)

lemma enc_new: "length b = 255 \<Longrightarrow>
  \<exists>e. with_buffer_xor b k = Some e \<and> enc_inv e \<and> pending e = [] \<and> enc_xor e = k"
  by (simp add: with_buffer_xor_def inner_with_buffer_def enc_inv_def pending_def)

lemma enc_write_zero:
  assumes "enc_inv e"
  shows "\<exists>e'. enc_write_u8 e 0 =
      Some (e', Buf (map (\<lambda>x. x XOR enc_xor e) (of_nat (length (pending e) + 1) # pending e)))
    \<and> enc_inv e' \<and> pending e' = [] \<and> enc_xor e' = enc_xor e"
  using assms
proof (cases rule: enc_inv_cases)
  case (1 h r m)
  then show ?thesis
    by (cases "m = 253")
      (auto simp: enc_write_u8_def inner_write_u8_def xor_prefix_def Let_def enc_inv_def
        pending_def)
qed

lemma enc_write_full:
  assumes "enc_inv e" and "x \<noteq> 0" and "length (pending e) = 253"
  shows "\<exists>e'. enc_write_u8 e x =
      Some (e', Buf (map (\<lambda>x. x XOR enc_xor e) (0xff # pending e @ [x])))
    \<and> enc_inv e' \<and> pending e' = [] \<and> enc_xor e' = enc_xor e"
  using assms(1)
proof (cases rule: enc_inv_cases)
  case (1 h r m)
  then have "take 254 (r[253 := x]) = take 253 r @ [x]"
    using take_Suc_update [of 253 r x] by simp
  with 1 assms show ?thesis
    by (auto simp: enc_write_u8_def inner_write_u8_def xor_prefix_def Let_def enc_inv_def
        pending_def)
qed

lemma enc_write_store:
  assumes "enc_inv e" and "x \<noteq> 0" and "length (pending e) \<noteq> 253"
  shows "\<exists>e'. enc_write_u8 e x = Some (e', Pass)
    \<and> enc_inv e' \<and> pending e' = pending e @ [x] \<and> enc_xor e' = enc_xor e"
  using assms(1)
proof (cases rule: enc_inv_cases)
  case (1 h r m)
  with assms show ?thesis
    by (auto simp: enc_write_u8_def inner_write_u8_def xor_prefix_def Let_def enc_inv_def
        pending_def take_Suc_update)
qed

lemma enc_finish_pending:
  assumes "enc_inv e"
  shows "\<exists>b. enc_finish e = Some (map (\<lambda>x. x XOR enc_xor e)
      (of_nat (length (pending e) + 1) # pending e @ [0]), b) \<and> length b = 255"
  using assms
proof (cases rule: enc_inv_cases)
  case (1 h r m)
  then show ?thesis
    by (auto simp: enc_finish_def inner_finish_def xor_prefix_def Let_def take_Suc_update)
qed

lemma enc_write_u8_total:
  assumes "enc_inv e"
  shows "\<exists>e' st. enc_write_u8 e x = Some (e', st) \<and> enc_inv e' \<and> enc_xor e' = enc_xor e"
proof -
  consider "x = 0" | "x \<noteq> 0" "length (pending e) = 253" | "x \<noteq> 0" "length (pending e) \<noteq> 253"
    by blast
  then show ?thesis
    using enc_write_zero [OF assms] enc_write_full [OF assms] enc_write_store [OF assms]
    by cases blast+
qed

lemma enc_write_all_append:
  "enc_write_all e (xs @ ys) = do {
     (e, out) \<leftarrow> enc_write_all e xs;
     (e, out') \<leftarrow> enc_write_all e ys;
     Some (e, out @ out')
   }"
proof (induction xs arbitrary: e)
  case Nil
  show ?case
    by (cases "enc_write_all e ys") auto
next
  case (Cons x xs)
  then show ?case
    by (auto simp: Let_def split: bind_splits)
qed

lemma enc_write_all_total:
  assumes "enc_inv e"
  shows "\<exists>e' out. enc_write_all e xs = Some (e', out) \<and> enc_inv e' \<and> enc_xor e' = enc_xor e"
  using assms
proof (induction xs arbitrary: e)
  case (Cons x xs)
  then show ?case
    using enc_write_u8_total [of e x] by fastforce
qed simp

lemma enc_write_all_spec:
  assumes "enc_inv e"
  shows "\<exists>e' out last_block b. enc_write_all e xs = Some (e', out)
    \<and> enc_finish e' = Some (last_block, b) \<and> length b = 255
    \<and> out @ last_block = map (\<lambda>x. x XOR enc_xor e) (cobs_stuff (pending e) xs)"
  using assms
proof (induction xs arbitrary: e)
  case Nil
  then show ?case
    using enc_finish_pending [of e] by auto
next
  case (Cons x xs)
  consider "x = 0" | "x \<noteq> 0" "length (pending e) = 253" | "x \<noteq> 0" "length (pending e) \<noteq> 253"
    by blast
  then show ?case
  proof cases
    case 1
    with enc_write_zero [OF Cons.prems] Cons.IH show ?thesis
      by fastforce
  next
    case 2
    with enc_write_full [OF Cons.prems 2] Cons.IH show ?thesis
      by fastforce
  next
    case 3
    with enc_write_store [OF Cons.prems 3] Cons.IH show ?thesis
      by fastforce
  qed
qed

lemma cobs_encode_stuff:
  assumes "length b = 255"
  shows "cobs_encode b k xs = Some (map (\<lambda>x. x XOR k) (cobs_stuff [] xs))"
proof -
  obtain e where "with_buffer_xor b k = Some e" "enc_inv e" "pending e = []" "enc_xor e = k"
    using enc_new [OF assms] by blast
  then show ?thesis
    using enc_write_all_spec [of e xs] by (auto simp: cobs_encode_def be_frame_def)
qed

section \<open>The decoder inverts the specification\<close>

lemma cobs_poll_all_append:
  "cobs_poll_all d (bs @ cs) =
    (case cobs_poll_all d bs of
       (d, Inl e) \<Rightarrow> (d, Inl e)
     | (d, Inr sts) \<Rightarrow>
         (case cobs_poll_all d cs of
            (d, Inl e) \<Rightarrow> (d, Inl e)
          | (d, Inr sts') \<Rightarrow> (d, Inr (sts @ sts'))))"
  by (induction bs arbitrary: d) (auto split: prod.splits sum.splits)

lemma cobs_bytes_append [simp]: "cobs_bytes (xs @ ys) = cobs_bytes xs @ cobs_bytes ys"
  by (induction xs rule: cobs_bytes.induct) auto

lemma cobs_bytes_map [simp]: "cobs_bytes (map CobsByte xs) = xs"
  by (induction xs) auto

text \<open>Inside a block, every non-zero byte is passed on.\<close>

lemma cobs_poll_block:
  assumes "0 \<notin> set p" and "bytes_since_last_jump d + length p < last_jump d"
  shows "cobs_poll_all d (map (\<lambda>x. x XOR dec_xor d) p) =
    (d\<lparr>bytes_since_last_jump := bytes_since_last_jump d + length p\<rparr>, Inr (map CobsByte p))"
  using assms
proof (induction p arbitrary: d)
  case (Cons x p)
  then show ?case
    using Cons.IH [of "d\<lparr>bytes_since_last_jump := bytes_since_last_jump d + 1\<rparr>"]
    by (auto simp: cobs_poll_def Let_def)
qed simp

text \<open>A length byte and its block bring the decoder from one boundary to the next.\<close>

definition owed_state :: "u8 list \<Rightarrow> CobsState" where
  "owed_state owed = (if owed = [] then CobsSkip else CobsByte 0)"

lemma cobs_poll_code:
  assumes "at_boundary k d owed" and "c \<noteq> 0"
  shows "\<exists>d'. cobs_poll d (c XOR k) = (d', Inr (owed_state owed)) \<and> dec_xor d' = k
    \<and> frame_loc d' = 0 \<and> bytes_since_last_jump d' = 0 \<and> last_jump d' = unat c"
  using assms by (auto simp: at_boundary_def cobs_poll_def owed_state_def Let_def split: if_splits)

lemma unat_of_nat_u8: "n < 256 \<Longrightarrow> unat (of_nat n :: u8) = n"
  by (simp add: unat_of_nat take_bit_nat_eq_self_iff)

lemma length_byte_nonzero:
  assumes "n \<le> 254"
  shows "(of_nat (n + 1) :: u8) \<noteq> 0"
proof
  assume "(of_nat (n + 1) :: u8) = 0"
  then have "unat (of_nat (n + 1) :: u8) = 0"
    by simp
  with assms show False
    by (subst (asm) unat_of_nat_u8) simp_all
qed

lemma cobs_poll_full_block:
  assumes "at_boundary k d owed" and "0 \<notin> set p" and "length p \<le> 254"
  shows "\<exists>d'. cobs_poll_all d (map (\<lambda>x. x XOR k) (of_nat (length p + 1) # p)) =
      (d', Inr (owed_state owed # map CobsByte p))
    \<and> at_boundary k d' (if length p = 254 then [] else [0])"
proof -
  let ?c = "of_nat (length p + 1) :: u8"
  have c: "unat ?c = length p + 1"
    using assms(3) by (intro unat_of_nat_u8) simp
  have "?c \<noteq> 0"
    using assms(3) by (rule length_byte_nonzero)
  then obtain d1 where d1: "cobs_poll d (?c XOR k) = (d1, Inr (owed_state owed))"
    "dec_xor d1 = k" "frame_loc d1 = 0" "bytes_since_last_jump d1 = 0" "last_jump d1 = length p + 1"
    using cobs_poll_code [OF assms(1)] c by metis
  then have "cobs_poll_all d1 (map (\<lambda>x. x XOR k) p) =
      (d1\<lparr>bytes_since_last_jump := length p\<rparr>, Inr (map CobsByte p))"
    using cobs_poll_block [of p d1] assms(2) by simp
  with d1 assms(3) show ?thesis
    by (auto simp: at_boundary_def)
qed

lemma owed_state_bytes [simp]:
  "at_boundary k d owed \<Longrightarrow> cobs_bytes (owed_state owed # sts) = owed @ cobs_bytes sts"
  by (auto simp: at_boundary_def owed_state_def split: if_splits)

lemma owed_state_not_finished [simp]: "owed_state owed \<noteq> CobsFinished" "CobsFinished \<noteq> owed_state owed"
  by (auto simp: owed_state_def)

lemma cobs_poll_sentinel:
  "at_boundary k d [0] \<Longrightarrow> cobs_poll d k = (cobs_new k, Inr CobsFinished)"
  by (auto simp: at_boundary_def cobs_poll_def cobs_reset_def cobs_new_def Let_def split: if_splits)

lemma at_boundary_new [simp]: "at_boundary k (cobs_new k) []"
  by (simp add: at_boundary_def cobs_new_def)

text \<open>A completed block: its bytes are followed by the zero it stands for, or it is full.\<close>

lemma cobs_stuff_block:
  assumes "x = 0 \<or> length p = 253" and "0 \<notin> set p" and "length p \<le> 253"
  obtains q owed where "cobs_stuff p (x # xs) = (of_nat (length q + 1) # q) @ cobs_stuff [] xs"
    "0 \<notin> set q" "length q \<le> 254" "owed = (if length q = 254 then [] else [0])"
    "q @ owed = p @ [x]"
proof (cases "x = 0")
  case True
  with assms show ?thesis
    by (intro that [of p "[0]"]) auto
next
  case False
  with assms show ?thesis
    by (intro that [of "p @ [x]" "[]"]) auto
qed

lemma cobs_stuff_decode:
  assumes "at_boundary k d owed" and "0 \<notin> set p" and "length p \<le> 253"
  shows "\<exists>sts. cobs_poll_all d (map (\<lambda>x. x XOR k) (cobs_stuff p xs)) =
      (cobs_new k, Inr (sts @ [CobsFinished]))
    \<and> cobs_bytes sts = owed @ p @ xs \<and> CobsFinished \<notin> set sts"
  using assms
proof (induction p xs arbitrary: d owed rule: cobs_stuff.induct)
  case (1 p)
  then obtain d' where d': "cobs_poll_all d (map (\<lambda>x. x XOR k) (of_nat (length p + 1) # p)) =
      (d', Inr (owed_state owed # map CobsByte p))" "at_boundary k d' [0]"
    using cobs_poll_full_block [of k d owed p] by (auto split: if_splits)
  have "cobs_poll_all d (map (\<lambda>x. x XOR k) (cobs_stuff p [])) =
      (cobs_new k, Inr ((owed_state owed # map CobsByte p) @ [CobsFinished]))"
    using d' cobs_poll_all_append [of d "map (\<lambda>x. x XOR k) (of_nat (length p + 1) # p)" "[k]"]
    by (simp add: cobs_poll_sentinel)
  with 1 show ?case
    by (intro exI [of _ "owed_state owed # map CobsByte p"]) auto
next
  case (2 p x xs)
  show ?case
  proof (cases "x = 0 \<or> length p = 253")
    case False
    with 2 show ?thesis
      by simp
  next
    case True
    obtain q w where q: "cobs_stuff p (x # xs) = (of_nat (length q + 1) # q) @ cobs_stuff [] xs"
      "0 \<notin> set q" "length q \<le> 254" "w = (if length q = 254 then [] else [0])" "q @ w = p @ [x]"
      by (rule cobs_stuff_block [OF True "2.prems"(2,3), of xs]) (rule that)
    obtain d' where d': "cobs_poll_all d (map (\<lambda>x. x XOR k) (of_nat (length q + 1) # q)) =
        (d', Inr (owed_state owed # map CobsByte q))" "at_boundary k d' w"
      using cobs_poll_full_block [OF "2.prems"(1) q(2,3)] q(4) by metis
    obtain sts where sts: "cobs_poll_all d' (map (\<lambda>x. x XOR k) (cobs_stuff [] xs)) =
        (cobs_new k, Inr (sts @ [CobsFinished]))"
      "cobs_bytes sts = w @ xs" "CobsFinished \<notin> set sts"
      using "2.IH"(1,2) [of d' w] True d'(2) by (cases "x = 0") auto
    have "cobs_poll_all d (map (\<lambda>x. x XOR k) (cobs_stuff p (x # xs))) =
        (cobs_new k, Inr (((owed_state owed # map CobsByte q) @ sts) @ [CobsFinished]))"
      unfolding q(1) map_append cobs_poll_all_append d'(1) by (simp add: sts(1))
    moreover have "cobs_bytes ((owed_state owed # map CobsByte q) @ sts) = owed @ (p @ [x]) @ xs"
      unfolding q(5) [symmetric] using owed_state_bytes [OF "2.prems"(1)] sts(2) by simp
    ultimately show ?thesis
      using sts(3) by (intro exI [of _ "(owed_state owed # map CobsByte q) @ sts"]) auto
  qed
qed

section \<open>Delimiter and size\<close>

lemma cobs_stuff_delimiter:
  assumes "0 \<notin> set p" and "length p \<le> 253"
  shows "\<exists>body. cobs_stuff p xs = body @ [0] \<and> 0 \<notin> set body"
  using assms
proof (induction p xs rule: cobs_stuff.induct)
  case (1 p)
  then show ?case
    using length_byte_nonzero [of "length p"] by auto
next
  case (2 p x xs)
  show ?case
  proof (cases "x = 0 \<or> length p = 253")
    case True
    obtain q where q: "cobs_stuff p (x # xs) = (of_nat (length q + 1) # q) @ cobs_stuff [] xs"
      "0 \<notin> set q" "length q \<le> 254"
      by (rule cobs_stuff_block [OF True "2.prems"(1,2), of xs]) (rule that)
    moreover obtain body where "cobs_stuff [] xs = body @ [0]" "0 \<notin> set body"
      using "2.IH"(1,2) True by (cases "x = 0") auto
    ultimately show ?thesis
      using length_byte_nonzero [of "length q"]
      by (intro exI [of _ "(of_nat (length q + 1) # q) @ body"]) auto
  qed (use 2 in auto)
qed

lemma length_cobs_stuff:
  assumes "length p \<le> 253"
  shows "length p + length xs + 2 \<le> length (cobs_stuff p xs) \<and>
    length (cobs_stuff p xs) \<le> length p + length xs + 2 + (length p + length xs) div 254"
  using assms
proof (induction p xs rule: cobs_stuff.induct)
  case (2 p x xs)
  show ?case
  proof (cases "x \<noteq> 0 \<and> length p = 253")
    case True
    moreover have "(length p + length (x # xs)) div 254 = 1 + length xs div 254"
      using True by (simp add: div_add_self1 [of 254, simplified])
    ultimately show ?thesis
      using 2 by auto
  next
    case False
    moreover have "length xs div 254 \<le> (length p + length (x # xs)) div 254"
      by (rule div_le_mono) simp
    ultimately show ?thesis
      using 2 by auto
  qed
qed simp

section \<open>Properties\<close>

text \<open>
  C8. Byte stuffing round trip: whatever the data, the encoder produces a frame (it never panics
  on its 255-byte buffer, whatever that buffer held before), and a fresh decoder with the same
  exclusive-or key reads it without an error, reports the end of the frame exactly at the last
  byte, delivers exactly the data, and is fresh again.
\<close>

theorem cobs_roundtrip:
  assumes "length b = 255"
  shows "\<exists>wire sts. cobs_encode b k data = Some wire
    \<and> cobs_poll_all (cobs_new k) wire = (cobs_new k, Inr (sts @ [CobsFinished]))
    \<and> CobsFinished \<notin> set sts \<and> cobs_bytes sts = data"
  using cobs_encode_stuff [OF assms] cobs_stuff_decode [OF at_boundary_new, of "[]" k data] by auto

theorem cobs_roundtrip_witness:
  "length (replicate 255 0 :: u8 list) = 255 \<and>
   (\<exists>wire sts. cobs_encode (replicate 255 0) COBS_XOR [1, 0, 2] = Some wire
    \<and> cobs_poll_all (cobs_new COBS_XOR) wire = (cobs_new COBS_XOR, Inr (sts @ [CobsFinished]))
    \<and> CobsFinished \<notin> set sts \<and> cobs_bytes sts = [1, 0, 2])"
  using cobs_roundtrip [of "replicate 255 0" COBS_XOR "[1, 0, 2]"] by simp

text \<open>
  C25. Delimiter and overhead: on the wire the byte equal to the exclusive-or key occurs exactly
  once, as the last byte of the frame, and \<open>n\<close> bytes of data take between \<open>n + 2\<close> and
  \<open>n + 2 + n div 254\<close> bytes.
\<close>

theorem cobs_delimiter_and_overhead:
  assumes "length b = 255"
  shows "\<exists>body. cobs_encode b k data = Some (body @ [k]) \<and> k \<notin> set body
    \<and> length data + 1 \<le> length body \<and> length body \<le> length data + 1 + length data div 254"
proof -
  obtain body where "cobs_stuff [] data = body @ [0]" "0 \<notin> set body"
    using cobs_stuff_delimiter [of "[]" data] by auto
  then show ?thesis
    using cobs_encode_stuff [OF assms, of k data] length_cobs_stuff [of "[]" data]
    by (intro exI [of _ "map (\<lambda>x. x XOR k) body"]) (auto simp: eq_xor_right_iff)
qed

theorem cobs_delimiter_and_overhead_witness:
  "length (replicate 255 7 :: u8 list) = 255 \<and>
   (\<exists>body. cobs_encode (replicate 255 7) COBS_XOR [0, 0] = Some (body @ [COBS_XOR])
     \<and> COBS_XOR \<notin> set body \<and> length [0 :: u8, 0] + 1 \<le> length body
     \<and> length body \<le> length [0 :: u8, 0] + 1 + length [0 :: u8, 0] div 254)"
  using cobs_delimiter_and_overhead [of "replicate 255 7" COBS_XOR "[0, 0]"] by simp

end
