(* ===== verification/Crc.thy ===== *)
theory Crc
  imports Prelude
begin

text \<open>
  The checksum interface. The sources use the \<open>crc32fast\<close> package through \<open>Hasher::new\<close>,
  \<open>update\<close>, \<open>Hasher::write_u8\<close>, \<open>finalize\<close> and \<open>hash\<close>; the package is a parameter of the
  model, a record of its operations, and the law the sources rely on (hashing is streaming: the
  digest depends on the concatenation of the updates only) is the locale \<open>crc_stream\<close>. The
  locale is interpreted on the IEEE CRC-32 that the package documents, computed bit by bit.
\<close>

record 'h crc_ops =
  hasher_new :: 'h
  hasher_update :: "'h \<Rightarrow> u8 list \<Rightarrow> 'h"
  hasher_finalize :: "'h \<Rightarrow> u32"

definition crc_hash :: "'h crc_ops \<Rightarrow> u8 list \<Rightarrow> u32" where
  "crc_hash ops bs = hasher_finalize ops (hasher_update ops (hasher_new ops) bs)"

definition hasher_write_u8 :: "'h crc_ops \<Rightarrow> 'h \<Rightarrow> u8 \<Rightarrow> 'h" where
  "hasher_write_u8 ops h b = hasher_update ops h [b]"

locale crc_stream =
  fixes ops :: "'h crc_ops"
  assumes update_append:
    "hasher_update ops h (xs @ ys) = hasher_update ops (hasher_update ops h xs) ys"
    and update_nil: "hasher_update ops h [] = h"
begin

lemma fold_write_u8: "fold (\<lambda>b h. hasher_write_u8 ops h b) bs h = hasher_update ops h bs"
proof (induction bs arbitrary: h)
  case (Cons b bs)
  then show ?case
    using update_append [of h "[b]" bs] by (simp add: hasher_write_u8_def)
qed (simp add: update_nil)

lemma fold_update: "fold (\<lambda>bs h. hasher_update ops h bs) bss h = hasher_update ops h (concat bss)"
  by (induction bss arbitrary: h) (simp_all add: update_nil update_append)

lemma hash_stream: "hasher_finalize ops (fold (\<lambda>bs h. hasher_update ops h bs) bss (hasher_new ops)) =
    crc_hash ops (concat bss)"
  by (simp add: fold_update crc_hash_def)

end

section \<open>CRC-32\<close>

fun crc32_bits :: "nat \<Rightarrow> u32 \<Rightarrow> u32" where
  "crc32_bits 0 r = r"
| "crc32_bits (Suc n) r =
    crc32_bits n (if bit r 0 then drop_bit 1 r XOR 0xEDB88320 else drop_bit 1 r)"

definition crc32_byte :: "u32 \<Rightarrow> u8 \<Rightarrow> u32" where
  "crc32_byte r b = crc32_bits 8 (r XOR ucast b)"

definition crc32_ops :: "u32 crc_ops" where
  "crc32_ops = \<lparr>hasher_new = 0xffffffff, hasher_update = foldl crc32_byte,
    hasher_finalize = (\<lambda>r. NOT r)\<rparr>"

interpretation crc32: crc_stream crc32_ops
  by unfold_locales (simp_all add: crc32_ops_def)

text \<open>The check value of the standard: the digest of the ASCII string \<open>123456789\<close>.\<close>

lemma crc32_check_value:
  "crc_hash crc32_ops [0x31, 0x32, 0x33, 0x34, 0x35, 0x36, 0x37, 0x38, 0x39] = 0xCBF43926"
  by code_simp

end
