(* ===== verification/Frame.thy ===== *)
theory Frame
  imports Cobs Crc
begin

text \<open>
  The frame decoder of \<open>common/okboot-common/src/frame/decode.rs\<close>, a state machine fed one byte
  at a time by both ends of the line: preamble (or one of the two legacy command prefixes), length
  field, then a byte-stuffed packet of message type, payload and checksum. The frame builder that
  the host runs (\<open>upload.rs\<close>, \<open>encode\<close>) is here too, since the theory's main results relate
  the two.
\<close>

section \<open>Preamble\<close>

datatype PreambleState =
    PsInitial | Preamble1 | Preamble2 | Preamble3
  | LegacyPutProgramInfo1 | LegacyPutProgramInfo2 | LegacyPutProgramInfo3
  | LegacyPutString1 | LegacyPutString2 | LegacyPutString3
  | LegacyPutStringLength0
  | LegacyPutStringLength1 u8
  | LegacyPutStringLength2 u8 u8
  | LegacyPutStringLength3 u8 u8 u8

datatype PreambleStatus = PreSkip | PrePreamble | PreLegacyPutProgramInfo | PreLegacyPutString u32

record PreambleError =
  err_state :: PreambleState
  wrong_byte :: u8

text \<open>
  The pairs of the source's \<open>match (self.state, byte)\<close>, arm by arm: the transition of a state on
  a byte, where \<open>None\<close> is the catch-all arm.
\<close>

fun preamble_arm :: "PreambleState \<Rightarrow> u8 \<Rightarrow> (PreambleState + PreambleStatus) option" where
  "preamble_arm PsInitial b =
    (if b = 0x55 then Some (Inl Preamble1)
     else if b = 0x44 then Some (Inl LegacyPutProgramInfo1)
     else if b = 0xee then Some (Inl LegacyPutString1)
     else None)"
| "preamble_arm Preamble1 b = (if b = 0x55 then Some (Inl Preamble2) else None)"
| "preamble_arm Preamble2 b = (if b = 0x55 then Some (Inl Preamble3) else None)"
| "preamble_arm Preamble3 b =
    (if b = 0x5e then Some (Inr PrePreamble)
     else if b = 0x55 then Some (Inl Preamble3)
     else None)"
| "preamble_arm LegacyPutProgramInfo1 b =
    (if b = 0x44 then Some (Inl LegacyPutProgramInfo2) else None)"
| "preamble_arm LegacyPutProgramInfo2 b =
    (if b = 0x33 then Some (Inl LegacyPutProgramInfo3) else None)"
| "preamble_arm LegacyPutProgramInfo3 b =
    (if b = 0x33 then Some (Inr PreLegacyPutProgramInfo) else None)"
| "preamble_arm LegacyPutString1 b = (if b = 0xee then Some (Inl LegacyPutString2) else None)"
| "preamble_arm LegacyPutString2 b = (if b = 0xdd then Some (Inl LegacyPutString3) else None)"
| "preamble_arm LegacyPutString3 b = (if b = 0xdd then Some (Inl LegacyPutStringLength0) else None)"
| "preamble_arm LegacyPutStringLength0 x = Some (Inl (LegacyPutStringLength1 x))"
| "preamble_arm (LegacyPutStringLength1 a) x = Some (Inl (LegacyPutStringLength2 a x))"
| "preamble_arm (LegacyPutStringLength2 a b) x = Some (Inl (LegacyPutStringLength3 a b x))"
| "preamble_arm (LegacyPutStringLength3 a b c) x =
    Some (Inr (PreLegacyPutString (u32_of_bytes a b c x)))"

definition preamble_feed ::
  "PreambleState \<Rightarrow> u8 \<Rightarrow> PreambleState \<times> (PreambleError + PreambleStatus)" where
  "preamble_feed st b =
    (case preamble_arm st b of
       Some (Inl st') \<Rightarrow> (st', Inr PreSkip)
     | Some (Inr out) \<Rightarrow> (PsInitial, Inr out)
     | None \<Rightarrow> (PsInitial, Inl \<lparr>err_state = st, wrong_byte = b\<rparr>))"

section \<open>Frames\<close>

record FrameHeader =
  message_type :: MessageType
  payload_len :: nat

datatype FrameError =
    InvalidType u32
  | InvalidCRC u32 u32
  | CobsErr CobsError
  | PreambleErr PreambleError
  | Overrun FrameHeader u8
  | HeaderCutoff "u8 list" nat
  | PayloadCutoff FrameHeader nat
  | CrcCutoff "u8 list" nat
  | LengthEncoding nat u8

datatype FrameState =
    FsPreamble
  | FsLength nat
  | FsPacketHeader nat nat
  | FsPacketBody nat FrameHeader
  | FsLegacy
  | FsLegacyPrintString nat nat

datatype FrameOutput =
    FoSkip
  | FoHeader FrameHeader
  | FoPayload u8
  | FoFinished
  | FoLegacy
  | FoLegacyPrintStringByte nat u8

text \<open>\<open>PreambleLayer\<close> and \<open>PreambleDecoder\<close> only wrap the preamble state.\<close>

record 'h FrameLayer =
  preamble_layer :: PreambleState
  cobs_decoder :: CobsDecoder
  length_bytes :: "u8 list"
  header_bytes :: "u8 list"
  crc_bytes :: "u8 list"
  decode_state :: FrameState
  crc :: 'h

definition frame_new :: "'h crc_ops \<Rightarrow> u8 \<Rightarrow> 'h FrameLayer" where
  "frame_new ops cobs_xor =
    \<lparr>preamble_layer = PsInitial, cobs_decoder = cobs_new cobs_xor,
     length_bytes = replicate 4 0, header_bytes = replicate 4 0, crc_bytes = replicate 4 0,
     decode_state = FsPreamble, crc = hasher_new ops\<rparr>"

definition skip_preamble :: "'h FrameLayer \<Rightarrow> 'h FrameLayer" where
  "skip_preamble self = self\<lparr>decode_state := FsLength 0\<rparr>"

definition decode_header_bytes :: "'h FrameLayer \<Rightarrow> nat \<Rightarrow> (FrameError + FrameHeader) option" where
  "decode_header_bytes self len = do {
     bs \<leftarrow> subslice (header_bytes self) 0 4;
     code \<leftarrow> u32_from_le_bytes bs;
     Some (case message_type_try_from code of
             Inl _ \<Rightarrow> Inl (InvalidType code)
           | Inr t \<Rightarrow> Inr \<lparr>message_type = t, payload_len = len\<rparr>)
   }"

definition frame_reset :: "'h crc_ops \<Rightarrow> 'h FrameLayer \<Rightarrow> 'h FrameLayer" where
  "frame_reset ops self = self
    \<lparr>preamble_layer := PsInitial, cobs_decoder := cobs_reset (cobs_decoder self),
     length_bytes := replicate (length (length_bytes self)) 0,
     header_bytes := replicate (length (header_bytes self)) 0,
     crc_bytes := replicate (length (crc_bytes self)) 0,
     decode_state := FsPreamble, crc := hasher_new ops\<rparr>"

definition decode_sextets :: "u8 list \<Rightarrow> nat option" where
  "decode_sextets bs = do {
     let sextets = map (\<lambda>x. x AND NOT 0xc0) bs;
     s0 \<leftarrow> idx sextets 0;
     s1 \<leftarrow> idx sextets 1;
     s2 \<leftarrow> idx sextets 2;
     s3 \<leftarrow> idx sextets 3;
     Some (unat s0 OR push_bit 6 (unat s1) OR push_bit 12 (unat s2) OR push_bit 18 (unat s3))
   }"

type_synonym 'h feed_result = "('h FrameLayer \<times> (FrameError + FrameOutput)) option"

definition feed_preamble :: "'h FrameLayer \<Rightarrow> u8 \<Rightarrow> 'h feed_result" where
  "feed_preamble self byte =
    (case preamble_feed (preamble_layer self) byte of
       (st, res) \<Rightarrow>
         let self = self\<lparr>preamble_layer := st\<rparr> in
         Some (case res of
           Inl e \<Rightarrow> (self, Inl (PreambleErr e))
         | Inr PrePreamble \<Rightarrow> (self\<lparr>decode_state := FsLength 0\<rparr>, Inr FoSkip)
         | Inr PreLegacyPutProgramInfo \<Rightarrow> (self\<lparr>decode_state := FsLegacy\<rparr>, Inr FoLegacy)
         | Inr PreSkip \<Rightarrow> (self, Inr FoSkip)
         | Inr (PreLegacyPutString len) \<Rightarrow>
             (self\<lparr>decode_state := FsLegacyPrintString (unat len) 0\<rparr>, Inr FoSkip)))"

definition feed_length :: "nat \<Rightarrow> 'h FrameLayer \<Rightarrow> u8 \<Rightarrow> 'h feed_result" where
  "feed_length i self byte =
    (if byte AND 0xc0 \<noteq> 0xc0 then Some (self, Inl (LengthEncoding i byte))
     else do {
       lb \<leftarrow> upd (length_bytes self) i byte;
       let self = self\<lparr>length_bytes := lb\<rparr>;
       if i = 3 then do {
         len \<leftarrow> decode_sextets lb;
         Some (self\<lparr>decode_state := FsPacketHeader 0 len\<rparr>, Inr FoSkip)
       } else Some (self\<lparr>decode_state := FsLength (i + 1)\<rparr>, Inr FoSkip)
     })"

text \<open>The arms of the two packet states, on what the COBS decoder made of the byte.\<close>

definition header_arm ::
  "'h crc_ops \<Rightarrow> nat \<Rightarrow> nat \<Rightarrow> 'h FrameLayer \<Rightarrow> CobsState \<Rightarrow> 'h feed_result" where
  "header_arm ops i len self st =
    (case st of
       CobsSkip \<Rightarrow> Some (self, Inr FoSkip)
     | CobsByte byte \<Rightarrow> do {
         let self = self\<lparr>decode_state := FsPacketHeader (i + 1) len\<rparr>;
         hb \<leftarrow> upd (header_bytes self) i byte;
         let self = self\<lparr>header_bytes := hb, crc := hasher_write_u8 ops (crc self) byte\<rparr>;
         if i = 3 then do {
           res \<leftarrow> decode_header_bytes self len;
           Some (case res of
             Inl e \<Rightarrow> (self, Inl e)
           | Inr h \<Rightarrow> (self\<lparr>decode_state := FsPacketBody (i + 1) h\<rparr>, Inr (FoHeader h)))
         } else Some (self, Inr FoSkip)
       }
     | CobsFinished \<Rightarrow> Some (self, Inl (HeaderCutoff (header_bytes self) i)))"

definition body_arm ::
  "'h crc_ops \<Rightarrow> nat \<Rightarrow> FrameHeader \<Rightarrow> 'h FrameLayer \<Rightarrow> CobsState \<Rightarrow> 'h feed_result" where
  "body_arm ops i h self st =
    (case st of
       CobsSkip \<Rightarrow> Some (self, Inr FoSkip)
     | CobsByte byte \<Rightarrow>
         let self = self\<lparr>decode_state := FsPacketBody (i + 1) h\<rparr>;
             packet_finishes_at_index = 4 + payload_len h in
         if i < packet_finishes_at_index then
           Some (self\<lparr>crc := hasher_write_u8 ops (crc self) byte\<rparr>, Inr (FoPayload byte))
         else if i < packet_finishes_at_index + 4 then do {
           cb \<leftarrow> upd (crc_bytes self) (i - packet_finishes_at_index) byte;
           Some (self\<lparr>crc_bytes := cb\<rparr>, Inr FoSkip)
         } else Some (self, Inl (Overrun h byte))
     | CobsFinished \<Rightarrow> do {
         let digest = hasher_finalize ops (crc self);
         let self = self\<lparr>crc := hasher_new ops\<rparr>;
         let expected_crc_begin = 4 + payload_len h;
         let expected_cobs_payload_len = 4 + payload_len h + 4;
         if i < expected_crc_begin then Some (self, Inl (PayloadCutoff h i))
         else if i < expected_cobs_payload_len then Some (self, Inl (CrcCutoff (crc_bytes self) i))
         else do {
           frame_crc \<leftarrow> u32_from_le_bytes (crc_bytes self);
           Some (if frame_crc \<noteq> digest then (self, Inl (InvalidCRC digest frame_crc))
                 else (self\<lparr>decode_state := FsPreamble\<rparr>, Inr FoFinished))
         }
       })"

definition feed :: "'h crc_ops \<Rightarrow> 'h FrameLayer \<Rightarrow> u8 \<Rightarrow> 'h feed_result" where
  "feed ops self byte =
    (case decode_state self of
       FsLegacy \<Rightarrow> Some (self, Inr FoLegacy)
     | FsPreamble \<Rightarrow> feed_preamble self byte
     | FsLength i \<Rightarrow> feed_length i self byte
     | FsPacketHeader i len \<Rightarrow>
         (case cobs_poll (cobs_decoder self) byte of
            (d, Inl e) \<Rightarrow> Some (self\<lparr>cobs_decoder := d\<rparr>, Inl (CobsErr e))
          | (d, Inr st) \<Rightarrow> header_arm ops i len (self\<lparr>cobs_decoder := d\<rparr>) st)
     | FsPacketBody i h \<Rightarrow>
         (case cobs_poll (cobs_decoder self) byte of
            (d, Inl e) \<Rightarrow> Some (self\<lparr>cobs_decoder := d\<rparr>, Inl (CobsErr e))
          | (d, Inr st) \<Rightarrow> body_arm ops i h (self\<lparr>cobs_decoder := d\<rparr>) st)
     | FsLegacyPrintString len index \<Rightarrow>
         let next_index = index + 1 in
         if next_index \<ge> len then
           Some (self\<lparr>decode_state := FsPreamble\<rparr>, Inr (FoLegacyPrintStringByte len byte))
         else
           Some (self\<lparr>decode_state := FsLegacyPrintString len next_index\<rparr>,
             Inr (FoLegacyPrintStringByte len byte)))"

text \<open>Feeding a run of bytes, up to the first error.\<close>

fun feed_all ::
  "'h crc_ops \<Rightarrow> 'h FrameLayer \<Rightarrow> u8 list \<Rightarrow> ('h FrameLayer \<times> (FrameError + FrameOutput list)) option"
where
  "feed_all ops self [] = Some (self, Inr [])"
| "feed_all ops self (b # bs) = do {
     (self, res) \<leftarrow> feed ops self b;
     (case res of
        Inl e \<Rightarrow> Some (self, Inl e)
      | Inr out \<Rightarrow> do {
          (self, rest) \<leftarrow> feed_all ops self bs;
          Some (self, case rest of Inl e \<Rightarrow> Inl e | Inr outs \<Rightarrow> Inr (out # outs))
        })
   }"

section \<open>Building a frame\<close>

text \<open>What the host's \<open>encode\<close> does with a serialized message (\<open>upload.rs\<close>).\<close>

definition message_bytes :: "'h crc_ops \<Rightarrow> MessageType \<Rightarrow> u8 list \<Rightarrow> u8 list" where
  "message_bytes ops t serialized_message =
    (let bytes = u32_to_le_bytes (message_type_code t) @ serialized_message
     in bytes @ u32_to_le_bytes (crc_hash ops bytes))"

definition encode_frame :: "'h crc_ops \<Rightarrow> MessageType \<Rightarrow> u8 list \<Rightarrow> u8 list option" where
  "encode_frame ops t serialized_message = do {
     length_field \<leftarrow> encode_length (length serialized_message);
     packet \<leftarrow> cobs_encode (replicate 255 0) COBS_XOR (message_bytes ops t serialized_message);
     Some (PREAMBLE_BYTES @ length_field @ packet)
   }"

end
