(* ===== verification/Frame_Correct.thy ===== *)
theory Frame_Correct
  imports Frame
begin

text \<open>
  The frame layer is correct: it never panics while its caller resets it after an error, it reads
  back every frame the encoder builds, frame after frame, and a damaged frame is reported.
\<close>

section \<open>Length field\<close>

lemma sextet_mask:
  fixes n :: nat
  shows "n AND 0x3f = take_bit 6 n"
    "drop_bit 6 (n AND 0xfc0) = take_bit 6 (drop_bit 6 n)"
    "drop_bit 12 (n AND 0x3f000) = take_bit 6 (drop_bit 12 n)"
    "drop_bit 18 (n AND 0xfc0000) = take_bit 6 (drop_bit 18 n)"
proof -
  have m: "(0x3f :: nat) = mask 6" "(0xfc0 :: nat) = push_bit 6 (mask 6)"
    "(0x3f000 :: nat) = push_bit 12 (mask 6)" "(0xfc0000 :: nat) = push_bit 18 (mask 6)"
    by (simp_all add: mask_eq_exp_minus_1 push_bit_eq_mult)
  show "n AND 0x3f = take_bit 6 n"
    unfolding m by (simp add: take_bit_eq_mask)
  show "drop_bit 6 (n AND 0xfc0) = take_bit 6 (drop_bit 6 n)"
    "drop_bit 12 (n AND 0x3f000) = take_bit 6 (drop_bit 12 n)"
    "drop_bit 18 (n AND 0xfc0000) = take_bit 6 (drop_bit 18 n)"
    unfolding m by (rule bit_eqI, auto simp: bit_simps)+
qed

lemma sextet_flag: "(w OR 0xc0 :: u8) AND 0xc0 = 0xc0"
  by (rule bit_word_eqI) (auto simp: bit_simps)

lemma sextet_unflag:
  "unat ((of_nat (take_bit 6 n) OR 0xc0 :: u8) AND NOT 0xc0) = take_bit 6 n"
proof (rule bit_eqI)
  fix i
  have m: "(0xc0 :: u8) = push_bit 6 (mask 2)"
    by (simp add: mask_eq_exp_minus_1 push_bit_eq_mult)
  show "bit (unat ((of_nat (take_bit 6 n) OR 0xc0 :: u8) AND NOT 0xc0)) i = bit (take_bit 6 n) i"
    unfolding m by (auto simp: bit_simps)
qed

lemma sextets_join:
  fixes n :: nat
  assumes "n < 2 ^ 24"
  shows "take_bit 6 n OR push_bit 6 (take_bit 6 (drop_bit 6 n)) OR
    push_bit 12 (take_bit 6 (drop_bit 12 n)) OR push_bit 18 (take_bit 6 (drop_bit 18 n)) = n"
proof -
  have "take_bit 24 n = n"
    using assms by (simp add: take_bit_nat_eq_self_iff)
  moreover have "take_bit 6 n OR push_bit 6 (take_bit 6 (drop_bit 6 n)) OR
    push_bit 12 (take_bit 6 (drop_bit 12 n)) OR push_bit 18 (take_bit 6 (drop_bit 18 n)) =
    take_bit 24 n"
  proof (rule bit_eqI)
    fix i :: nat
    consider "i < 6" | "6 \<le> i" "i < 12" | "12 \<le> i" "i < 18" | "18 \<le> i" "i < 24" | "24 \<le> i"
      by linarith
    then show "bit (take_bit 6 n OR push_bit 6 (take_bit 6 (drop_bit 6 n)) OR
      push_bit 12 (take_bit 6 (drop_bit 12 n)) OR push_bit 18 (take_bit 6 (drop_bit 18 n))) i =
      bit (take_bit 24 n) i"
      by cases (auto simp: bit_simps)
  qed
  ultimately show ?thesis by simp
qed

lemma encode_length_eq:
  "encode_length n = (if n < 2 ^ 24 then Some (map (\<lambda>x. of_nat (take_bit 6 x) OR 0xc0)
     [n, drop_bit 6 n, drop_bit 12 n, drop_bit 18 n]) else None)"
proof -
  have "push_bit 24 (drop_bit 24 n) \<noteq> 0 \<longleftrightarrow> \<not> n < 2 ^ 24"
    by (simp add: push_bit_eq_mult drop_bit_eq_div div_eq_0_iff)
  then show ?thesis
    by (simp add: encode_length_def sextet_mask)
qed

lemma decode_encode_length:
  "encode_length n = Some bs \<Longrightarrow> length bs = 4 \<and> (\<forall>b\<in>set bs. b AND 0xc0 = 0xc0) \<and>
    decode_sextets bs = Some n"
  by (auto simp: encode_length_eq decode_sextets_def sextet_unflag [simplified] sextets_join [simplified] sextet_flag
      split: if_splits)

section \<open>Well-formed layers\<close>

definition arrays_ok :: "'h FrameLayer \<Rightarrow> bool" where
  "arrays_ok l \<longleftrightarrow> length (length_bytes l) = 4 \<and> length (header_bytes l) = 4
    \<and> length (crc_bytes l) = 4"

definition state_ok :: "FrameState \<Rightarrow> bool" where
  "state_ok st \<longleftrightarrow> (case st of FsLength i \<Rightarrow> i \<le> 3 | FsPacketHeader i _ \<Rightarrow> i \<le> 3 | _ \<Rightarrow> True)"

definition layer_ok :: "'h FrameLayer \<Rightarrow> bool" where
  "layer_ok l \<longleftrightarrow> arrays_ok l \<and> state_ok (decode_state l)"

text \<open>What one byte may leave behind: a well-formed layer, or an error and intact arrays.\<close>

definition feed_ok :: "'h feed_result \<Rightarrow> bool" where
  "feed_ok res \<longleftrightarrow> (case res of None \<Rightarrow> False
    | Some (l, Inl _) \<Rightarrow> arrays_ok l | Some (l, Inr _) \<Rightarrow> layer_ok l)"

lemmas layer_defs = layer_ok_def arrays_ok_def state_ok_def

lemma feed_ok_simps [simp]:
  "feed_ok None = False"
  "feed_ok (Some (l, Inl e)) = arrays_ok l"
  "feed_ok (Some (l, Inr out)) = layer_ok l"
  by (simp_all add: feed_ok_def)

lemma feed_preamble_ok: "layer_ok l \<Longrightarrow> decode_state l = FsPreamble \<Longrightarrow> feed_ok (feed_preamble l b)"
  by (auto simp: feed_preamble_def layer_defs Let_def split: prod.splits sum.splits PreambleStatus.splits)

lemma feed_length_ok: "layer_ok l \<Longrightarrow> decode_state l = FsLength i \<Longrightarrow> feed_ok (feed_length i l b)"
  by (auto simp: feed_length_def layer_defs decode_sextets_def Let_def)

lemma decode_header_bytes_total:
  assumes "length (header_bytes l) = 4"
  shows "\<exists>res. decode_header_bytes l len = Some res"
proof -
  obtain code where "u32_from_le_bytes (header_bytes l) = Some code"
    using assms u32_from_le_bytes_Some_iff by metis
  then show ?thesis
    using assms by (simp add: decode_header_bytes_def)
qed

lemma header_arm_ok:
  assumes "arrays_ok l" and "i \<le> 3" and "decode_state l = FsPacketHeader i len"
  shows "feed_ok (header_arm ops i len l st)"
proof (cases st)
  case (CobsByte b)
  let ?l = "l\<lparr>decode_state := FsPacketHeader (Suc i) len, header_bytes := (header_bytes l)[i := b],
    crc := hasher_write_u8 ops (crc l) b\<rparr>"
  obtain res where "decode_header_bytes ?l len = Some res"
    using decode_header_bytes_total [of ?l len] assms(1) by (auto simp: arrays_ok_def)
  with assms CobsByte show ?thesis
    by (cases res) (auto simp: header_arm_def layer_defs Let_def)
qed (use assms in \<open>auto simp: header_arm_def layer_defs\<close>)

lemma body_arm_ok:
  assumes "arrays_ok l" and "decode_state l = FsPacketBody i h"
  shows "feed_ok (body_arm ops i h l st)"
proof (cases st)
  case CobsFinished
  obtain c where "u32_from_le_bytes (crc_bytes l) = Some c"
    using assms(1) u32_from_le_bytes_Some_iff [of "crc_bytes l"] by (auto simp: arrays_ok_def)
  with assms CobsFinished show ?thesis
    by (auto simp: body_arm_def layer_defs Let_def)
qed (use assms in \<open>auto simp: body_arm_def layer_defs Let_def\<close>)

lemma feed_keeps_ok:
  assumes "layer_ok l"
  shows "feed_ok (feed ops l b)"
proof (cases "decode_state l")
  case FsPreamble
  with assms show ?thesis by (simp add: feed_def feed_preamble_ok)
next
  case (FsLength i)
  with assms show ?thesis by (simp add: feed_def feed_length_ok)
next
  case (FsPacketHeader i len)
  with assms header_arm_ok [of "l\<lparr>cobs_decoder := d\<rparr>" for d] show ?thesis
    by (auto simp: feed_def layer_defs split: prod.splits sum.splits)
next
  case (FsPacketBody i h)
  with assms body_arm_ok [of "l\<lparr>cobs_decoder := d\<rparr>" for d] show ?thesis
    by (auto simp: feed_def layer_defs split: prod.splits sum.splits)
qed (use assms in \<open>auto simp: feed_def layer_defs Let_def\<close>)

section \<open>Reading a packet\<close>

definition visible :: "FrameOutput list \<Rightarrow> FrameOutput list" where
  "visible outs = filter (\<lambda>out. out \<noteq> FoSkip) outs"

lemma visible_simps [simp]:
  "visible [] = []"
  "visible (FoSkip # outs) = visible outs"
  "out \<noteq> FoSkip \<Longrightarrow> visible (out # outs) = out # visible outs"
  "visible (xs @ ys) = visible xs @ visible ys"
  by (simp_all add: visible_def)

text \<open>One step of the packet states, seen from the COBS decoder's side.\<close>

definition packet_step :: "'h crc_ops \<Rightarrow> 'h FrameLayer \<Rightarrow> CobsState \<Rightarrow> 'h feed_result" where
  "packet_step ops l st =
    (case decode_state l of
       FsPacketHeader i len \<Rightarrow> header_arm ops i len l st
     | FsPacketBody i h \<Rightarrow> body_arm ops i h l st
     | _ \<Rightarrow> None)"

fun packet_steps :: "'h crc_ops \<Rightarrow> 'h FrameLayer \<Rightarrow> CobsState list
  \<Rightarrow> ('h FrameLayer \<times> FrameOutput list) option" where
  "packet_steps ops l [] = Some (l, [])"
| "packet_steps ops l (st # sts) =
    (case packet_step ops l st of
       Some (l, Inr out) \<Rightarrow>
         (case packet_steps ops l sts of None \<Rightarrow> None | Some (l, outs) \<Rightarrow> Some (l, out # outs))
     | _ \<Rightarrow> None)"

lemma packet_steps_append:
  "packet_steps ops l (xs @ ys) =
    (case packet_steps ops l xs of None \<Rightarrow> None
     | Some (l, outs) \<Rightarrow>
         (case packet_steps ops l ys of None \<Rightarrow> None | Some (l, outs') \<Rightarrow> Some (l, outs @ outs')))"
  by (induction xs arbitrary: l) (auto split: option.splits prod.splits sum.splits)

lemma packet_step_feed:
  assumes "cobs_poll (cobs_decoder l) b = (d, Inr st)"
    and "packet_step ops (l\<lparr>cobs_decoder := d\<rparr>) st = Some r"
  shows "feed ops l b = Some r"
  using assms by (auto simp: packet_step_def feed_def split: FrameState.splits)

text \<open>The packet states do not look at the COBS decoder.\<close>

lemma packet_step_cobs:
  "packet_step ops (l\<lparr>cobs_decoder := d\<rparr>) st =
    (case packet_step ops l st of None \<Rightarrow> None | Some (l, r) \<Rightarrow> Some (l\<lparr>cobs_decoder := d\<rparr>, r))"
proof (cases "decode_state l")
  case (FsPacketHeader i len)
  then show ?thesis
    by (cases st) (auto simp: packet_step_def header_arm_def upd_def Let_def decode_header_bytes_def
        split: option.splits sum.splits bind_splits)
next
  case (FsPacketBody i h)
  then show ?thesis
    by (cases st) (auto simp: packet_step_def body_arm_def upd_def Let_def
        split: option.splits bind_splits)
qed (simp_all add: packet_step_def)

lemma packet_steps_cobs:
  "packet_steps ops (l\<lparr>cobs_decoder := d\<rparr>) sts =
    (case packet_steps ops l sts of None \<Rightarrow> None
     | Some (l, outs) \<Rightarrow> Some (l\<lparr>cobs_decoder := d\<rparr>, outs))"
  by (induction sts arbitrary: l)
     (auto simp: packet_step_cobs split: option.splits prod.splits sum.splits)

lemma feed_all_packet:
  assumes "cobs_poll_all (cobs_decoder l) bs = (d, Inr sts)"
    and "packet_steps ops l sts = Some (l', outs)"
  shows "feed_all ops l bs = Some (l'\<lparr>cobs_decoder := d\<rparr>, Inr outs)"
  using assms
proof (induction bs arbitrary: l l' sts outs)
  case Nil
  then show ?case by auto
next
  case (Cons b bs)
  then obtain d1 st sts1 where p: "cobs_poll (cobs_decoder l) b = (d1, Inr st)"
    "cobs_poll_all d1 bs = (d, Inr sts1)" "sts = st # sts1"
    by (auto split: prod.splits sum.splits)
  with Cons.prems(2) obtain l1 out outs1 where s: "packet_step ops l st = Some (l1, Inr out)"
    "packet_steps ops l1 sts1 = Some (l', outs1)" "outs = out # outs1"
    by (auto split: option.splits prod.splits sum.splits)
  have "feed ops l b = Some (l1\<lparr>cobs_decoder := d1\<rparr>, Inr out)"
    by (rule packet_step_feed [OF p(1)]) (simp add: packet_step_cobs s(1))
  moreover have "feed_all ops (l1\<lparr>cobs_decoder := d1\<rparr>) bs =
      Some (l'\<lparr>cobs_decoder := d1\<rparr>\<lparr>cobs_decoder := d\<rparr>, Inr outs1)"
    by (rule Cons.IH [of _ sts1]) (simp_all add: p(2) packet_steps_cobs s(2))
  ultimately show ?case
    using s(3) by simp
qed

text \<open>Only the data bytes matter: a skipped byte leaves the layer as it is.\<close>

lemma packet_steps_bytes:
  assumes "CobsFinished \<notin> set sts"
    and "packet_steps ops l (map CobsByte (cobs_bytes sts)) = Some (l', outs)"
    and "\<exists>i len h. decode_state l = FsPacketHeader i len \<or> decode_state l = FsPacketBody i h"
  shows "\<exists>outs'. packet_steps ops l sts = Some (l', outs') \<and> visible outs' = visible outs"
  using assms
proof (induction sts arbitrary: l outs)
  case (Cons st sts)
  show ?case
  proof (cases st)
    case CobsSkip
    then have "packet_step ops l st = Some (l, Inr FoSkip)"
      using Cons.prems(3) by (auto simp: packet_step_def header_arm_def body_arm_def)
    with Cons CobsSkip show ?thesis
      by fastforce
  next
    case (CobsByte b)
    with Cons.prems obtain l1 out outs1 where s: "packet_step ops l st = Some (l1, Inr out)"
      "packet_steps ops l1 (map CobsByte (cobs_bytes sts)) = Some (l', outs1)" "outs = out # outs1"
      by (auto split: option.splits prod.splits sum.splits)
    have "\<exists>i len h. decode_state l1 = FsPacketHeader i len \<or> decode_state l1 = FsPacketBody i h"
      using s(1) CobsByte
      by (auto simp: packet_step_def header_arm_def body_arm_def Let_def
          split: FrameState.splits if_splits bind_splits sum.splits)
    then obtain outs2 where "packet_steps ops l1 sts = Some (l', outs2)" "visible outs2 = visible outs1"
      using Cons.IH [OF _ s(2)] Cons.prems(1) by auto
    with s(1,3) show ?thesis
      by (cases "out = FoSkip") auto
  qed (use Cons.prems in simp)
qed simp

section \<open>Reading a frame\<close>

text \<open>The layer between two frames.\<close>

definition ready :: "'h crc_ops \<Rightarrow> u8 \<Rightarrow> 'h FrameLayer \<Rightarrow> bool" where
  "ready ops k l \<longleftrightarrow> arrays_ok l \<and> decode_state l = FsPreamble \<and> preamble_layer l = PsInitial
    \<and> cobs_decoder l = cobs_new k \<and> crc l = hasher_new ops"

lemma ready_new [simp]: "ready ops k (frame_new ops k)"
  by (simp add: ready_def frame_new_def arrays_ok_def)

lemma list_of_4: "length bs = 4 \<Longrightarrow> \<exists>a b c d. bs = [a, b, c, d]"
  by (auto simp: numeral_eq_Suc length_Suc_conv)

lemma feed_all_append:
  "feed_all ops l bs = Some (l1, Inr outs) \<Longrightarrow> feed_all ops l1 cs = Some (l2, Inr outs') \<Longrightarrow>
    feed_all ops l (bs @ cs) = Some (l2, Inr (outs @ outs'))"
  by (induction bs arbitrary: l outs) (auto split: bind_splits sum.splits option.splits)

lemma feed_preamble_bytes:
  assumes "ready ops k l"
  shows "feed_all ops l PREAMBLE_BYTES =
    Some (l\<lparr>decode_state := FsLength 0\<rparr>, Inr [FoSkip, FoSkip, FoSkip, FoSkip])"
  using assms
  by (simp add: PREAMBLE_BYTES_def ready_def feed_def feed_preamble_def preamble_feed_def Let_def)

lemma feed_length_bytes:
  assumes "arrays_ok l" and "decode_state l = FsLength 0" and "encode_length n = Some bs"
  shows "feed_all ops l bs =
    Some (l\<lparr>length_bytes := bs, decode_state := FsPacketHeader 0 n\<rparr>,
      Inr [FoSkip, FoSkip, FoSkip, FoSkip])"
proof -
  obtain a b c d where bs: "bs = [a, b, c, d]"
    using decode_encode_length [OF assms(3)] list_of_4 by blast
  obtain a' b' c' d' where lb: "length_bytes l = [a', b', c', d']"
    using assms(1) list_of_4 unfolding arrays_ok_def by metis
  show ?thesis
    using decode_encode_length [OF assms(3)] assms(2)
    unfolding bs by (simp add: feed_def feed_length_def lb Let_def)
qed

lemma packet_header_bytes:
  assumes "arrays_ok l" and "decode_state l = FsPacketHeader 0 n"
  shows "packet_steps ops l (map CobsByte (u32_to_le_bytes (message_type_code t))) =
    Some (l\<lparr>header_bytes := u32_to_le_bytes (message_type_code t),
        crc := fold (\<lambda>b h. hasher_write_u8 ops h b) (u32_to_le_bytes (message_type_code t)) (crc l),
        decode_state := FsPacketBody 4 \<lparr>message_type = t, payload_len = n\<rparr>\<rparr>,
      [FoSkip, FoSkip, FoSkip, FoHeader \<lparr>message_type = t, payload_len = n\<rparr>])"
proof -
  obtain a b c d where bs: "u32_to_le_bytes (message_type_code t) = [a, b, c, d]"
    using list_of_4 [OF length_u32_to_le_bytes] by blast
  obtain a' b' c' d' where hb: "header_bytes l = [a', b', c', d']"
    using assms(1) list_of_4 unfolding arrays_ok_def by metis
  have code: "u32_from_le_bytes [a, b, c, d] = Some (message_type_code t)"
    using u32_le_roundtrip [of "message_type_code t"] bs by simp
  show ?thesis
    unfolding bs
    by (simp add: packet_step_def header_arm_def decode_header_bytes_def assms(2) hb Let_def
        code [simplified])
qed

lemma packet_payload_bytes:
  assumes "decode_state l = FsPacketBody i h" and "i + length bs \<le> 4 + payload_len h"
  shows "packet_steps ops l (map CobsByte bs) =
    Some (l\<lparr>crc := fold (\<lambda>b h. hasher_write_u8 ops h b) bs (crc l),
        decode_state := FsPacketBody (i + length bs) h\<rparr>, map FoPayload bs)"
  using assms
proof (induction bs arbitrary: l i)
  case (Cons b bs)
  then show ?case
    by (simp add: packet_step_def body_arm_def Let_def)
qed simp

lemma packet_crc_bytes:
  assumes "arrays_ok l" and "decode_state l = FsPacketBody (4 + payload_len h) h" and "length bs = 4"
  shows "packet_steps ops l (map CobsByte bs) =
    Some (l\<lparr>crc_bytes := bs, decode_state := FsPacketBody (4 + payload_len h + 4) h\<rparr>,
      [FoSkip, FoSkip, FoSkip, FoSkip])"
proof -
  obtain a b c d where bs: "bs = [a, b, c, d]"
    using list_of_4 [OF assms(3)] by blast
  obtain a' b' c' d' where cb: "crc_bytes l = [a', b', c', d']"
    using assms(1) list_of_4 unfolding arrays_ok_def by metis
  show ?thesis
    unfolding bs by (simp add: packet_step_def body_arm_def assms(2) cb Let_def)
qed

definition frame_outputs :: "MessageType \<Rightarrow> u8 list \<Rightarrow> FrameOutput list" where
  "frame_outputs t p =
    FoHeader \<lparr>message_type = t, payload_len = length p\<rparr> # map FoPayload p @ [FoFinished]"

lemma visible_map_FoPayload [simp]: "visible (map FoPayload bs) = map FoPayload bs"
  by (induction bs) auto

lemma packet_frame:
  assumes "crc_stream ops" and "arrays_ok l" and "decode_state l = FsPacketHeader 0 (length p)"
    and "crc l = hasher_new ops"
  shows "\<exists>l' outs. packet_steps ops l (map CobsByte (message_bytes ops t p)) = Some (l', outs)
    \<and> packet_step ops l' CobsFinished =
        Some (l'\<lparr>crc := hasher_new ops, decode_state := FsPreamble\<rparr>, Inr FoFinished)
    \<and> visible outs @ [FoFinished] = frame_outputs t p
    \<and> arrays_ok l' \<and> preamble_layer l' = preamble_layer l"
proof -
  let ?h = "\<lparr>message_type = t, payload_len = length p\<rparr>"
  let ?code = "u32_to_le_bytes (message_type_code t)"
  let ?digest = "crc_hash ops (?code @ p)"
  let ?l1 = "l\<lparr>header_bytes := ?code, crc := hasher_update ops (hasher_new ops) ?code,
    decode_state := FsPacketBody 4 ?h\<rparr>"
  let ?l2 = "?l1\<lparr>crc := hasher_update ops (hasher_new ops) (?code @ p),
    decode_state := FsPacketBody (4 + payload_len ?h) ?h\<rparr>"
  have s1: "packet_steps ops l (map CobsByte ?code) =
      Some (?l1, [FoSkip, FoSkip, FoSkip, FoHeader ?h])"
    using packet_header_bytes [OF assms(2,3)] assms(4) by (simp add: crc_stream.fold_write_u8 [OF assms(1)])
  have s2: "packet_steps ops ?l1 (map CobsByte p) = Some (?l2, map FoPayload p)"
    using packet_payload_bytes [of ?l1 4 ?h p ops]
    by (simp add: crc_stream.fold_write_u8 [OF assms(1)] crc_stream.update_append [OF assms(1)])
  have ok: "arrays_ok ?l2"
    using assms(2) by (simp add: arrays_ok_def)
  have s3: "packet_steps ops ?l2 (map CobsByte (u32_to_le_bytes ?digest)) =
      Some (?l2\<lparr>crc_bytes := u32_to_le_bytes ?digest, decode_state := FsPacketBody (4 + payload_len ?h + 4) ?h\<rparr>,
        [FoSkip, FoSkip, FoSkip, FoSkip])" (is "_ = Some (?l3, _)")
    by (rule packet_crc_bytes [OF ok]) simp_all
  have steps: "packet_steps ops l (map CobsByte (message_bytes ops t p)) =
      Some (?l3, [FoSkip, FoSkip, FoSkip, FoHeader ?h] @ map FoPayload p @ [FoSkip, FoSkip, FoSkip, FoSkip])"
    unfolding message_bytes_def Let_def map_append packet_steps_append append_assoc s1 option.case prod.case s2 s3 by simp
  show ?thesis
  proof (intro exI conjI)
    show "packet_step ops ?l3 CobsFinished =
        Some (?l3\<lparr>crc := hasher_new ops, decode_state := FsPreamble\<rparr>, Inr FoFinished)"
      by (simp add: packet_step_def body_arm_def Let_def crc_hash_def)
    show "arrays_ok ?l3"
      using assms(2) by (simp add: arrays_ok_def)
  qed (rule steps, simp_all add: frame_outputs_def)
qed

lemma feed_packet:
  assumes "crc_stream ops" and "arrays_ok l" and "decode_state l = FsPacketHeader 0 (length p)"
    and "crc l = hasher_new ops" and "cobs_decoder l = cobs_new k" and "preamble_layer l = PsInitial"
  shows "\<exists>l' outs. feed_all ops l (map (\<lambda>x. x XOR k) (cobs_stuff [] (message_bytes ops t p))) =
      Some (l', Inr (outs @ [FoFinished]))
    \<and> visible outs @ [FoFinished] = frame_outputs t p \<and> ready ops k l'"
proof -
  let ?m = "message_bytes ops t p"
  obtain l2 outs where p: "packet_steps ops l (map CobsByte ?m) = Some (l2, outs)"
    "packet_step ops l2 CobsFinished =
      Some (l2\<lparr>crc := hasher_new ops, decode_state := FsPreamble\<rparr>, Inr FoFinished)"
    "visible outs @ [FoFinished] = frame_outputs t p" "arrays_ok l2" "preamble_layer l2 = PsInitial"
    using packet_frame [OF assms(1-4), of t] assms(6) by auto
  obtain sts where sts: "cobs_poll_all (cobs_new k) (map (\<lambda>x. x XOR k) (cobs_stuff [] ?m)) =
      (cobs_new k, Inr (sts @ [CobsFinished]))" "cobs_bytes sts = ?m" "CobsFinished \<notin> set sts"
    using cobs_stuff_decode [OF at_boundary_new, of "[]" k ?m] by auto
  obtain outs' where o: "packet_steps ops l sts = Some (l2, outs')" "visible outs' = visible outs"
    using packet_steps_bytes [OF sts(3), of ops l l2 outs] p(1) sts(2) assms(3) by auto
  let ?l3 = "l2\<lparr>crc := hasher_new ops, decode_state := FsPreamble\<rparr>"
  have "packet_steps ops l (sts @ [CobsFinished]) = Some (?l3, outs' @ [FoFinished])"
    by (simp add: packet_steps_append o(1) p(2))
  then have "feed_all ops l (map (\<lambda>x. x XOR k) (cobs_stuff [] ?m)) =
      Some (?l3\<lparr>cobs_decoder := cobs_new k\<rparr>, Inr (outs' @ [FoFinished]))"
    by (rule feed_all_packet [rotated]) (use assms(5) sts(1) in simp)
  then show ?thesis
    using o(2) p(3-5) by (auto simp: ready_def arrays_ok_def)
qed

lemma frame_roundtrip:
  assumes "crc_stream ops" and "ready ops COBS_XOR l" and "length p < 2 ^ 24"
  shows "\<exists>wire l' outs. encode_frame ops t p = Some wire
    \<and> feed_all ops l wire = Some (l', Inr (outs @ [FoFinished]))
    \<and> visible outs @ [FoFinished] = frame_outputs t p \<and> ready ops COBS_XOR l'"
proof -
  obtain lf where lf: "encode_length (length p) = Some lf"
    using assms(3) by (simp add: encode_length_eq)
  let ?packet = "map (\<lambda>x. x XOR COBS_XOR) (cobs_stuff [] (message_bytes ops t p))"
  have wire: "encode_frame ops t p = Some (PREAMBLE_BYTES @ lf @ ?packet)"
    by (simp add: encode_frame_def lf cobs_encode_stuff)
  let ?l0 = "l\<lparr>decode_state := FsLength 0\<rparr>"
  let ?l1 = "?l0\<lparr>length_bytes := lf, decode_state := FsPacketHeader 0 (length p)\<rparr>"
  have f0: "feed_all ops l PREAMBLE_BYTES = Some (?l0, Inr [FoSkip, FoSkip, FoSkip, FoSkip])"
    by (rule feed_preamble_bytes [OF assms(2)])
  have f1: "feed_all ops ?l0 lf = Some (?l1, Inr [FoSkip, FoSkip, FoSkip, FoSkip])"
    by (rule feed_length_bytes [OF _ _ lf]) (use assms(2) in \<open>simp_all add: ready_def arrays_ok_def\<close>)
  obtain l' outs where f2: "feed_all ops ?l1 ?packet = Some (l', Inr (outs @ [FoFinished]))"
    "visible outs @ [FoFinished] = frame_outputs t p" "ready ops COBS_XOR l'"
    using feed_packet [OF assms(1), of ?l1 p COBS_XOR t] assms(2) decode_encode_length [OF lf]
    by (auto simp: ready_def arrays_ok_def)
  show ?thesis
    using wire feed_all_append [OF f0 feed_all_append [OF f1 f2(1)]] f2(2,3)
    by (intro exI [of _ "PREAMBLE_BYTES @ lf @ ?packet"] exI [of _ l']
        exI [of _ "replicate 8 FoSkip @ outs"]) (simp add: numeral_eq_Suc)
qed

section \<open>What a finished frame means\<close>

text \<open>
  The outputs since the last preamble determine the layer: \<open>os\<close> are the visible ones.
\<close>

definition history :: "'h crc_ops \<Rightarrow> 'h FrameLayer \<Rightarrow> FrameOutput list \<Rightarrow> bool" where
  "history ops l os \<longleftrightarrow> arrays_ok l \<and> state_ok (decode_state l) \<and>
    (case decode_state l of
       FsPacketHeader i n \<Rightarrow> os = []
         \<and> crc l = fold (\<lambda>b h. hasher_write_u8 ops h b) (take i (header_bytes l)) (hasher_new ops)
     | FsPacketBody i h \<Rightarrow> 4 \<le> i \<and> (\<exists>p. os = FoHeader h # map FoPayload p
         \<and> length p = min (i - 4) (payload_len h)
         \<and> crc l = fold (\<lambda>b h. hasher_write_u8 ops h b)
             (u32_to_le_bytes (message_type_code (message_type h)) @ p) (hasher_new ops))
     | _ \<Rightarrow> os = [] \<and> crc l = hasher_new ops)"

definition in_frame :: "FrameOutput \<Rightarrow> bool" where
  "in_frame out \<longleftrightarrow> (case out of FoSkip \<Rightarrow> True | FoHeader _ \<Rightarrow> True | FoPayload _ \<Rightarrow> True | _ \<Rightarrow> False)"

lemma history_feed_packet:
  assumes "history ops l os" and "packet_step ops l st = Some (l', Inr out)" and "in_frame out"
  shows "history ops l' (os @ visible [out])"
proof (cases "decode_state l")
  case (FsPacketHeader i n)
  with assms show ?thesis
  proof (cases st)
    case (CobsByte b)
    have i: "i \<le> 3" "length (header_bytes l) = 4"
      using assms(1) FsPacketHeader by (auto simp: history_def layer_defs)
    show ?thesis
    proof (cases "i = 3")
      case True
      obtain code where code: "u32_from_le_bytes ((header_bytes l)[3 := b]) = Some code"
        using i u32_from_le_bytes_Some_iff [of "(header_bytes l)[3 := b]"] by auto
      then have "u32_to_le_bytes code = (header_bytes l)[3 := b]"
        by (rule u32_to_from_le_bytes)
      moreover have "(header_bytes l)[3 := b] = take 3 (header_bytes l) @ [b]"
        using i take_Suc_update [of 3 "header_bytes l" b] by simp
      ultimately show ?thesis
        using assms CobsByte FsPacketHeader True i code
        by (auto simp: history_def layer_defs packet_step_def header_arm_def decode_header_bytes_def
            Let_def message_type_try_from_iff split: sum.splits)
    next
      case False
      with assms CobsByte FsPacketHeader i show ?thesis
        by (auto simp: history_def layer_defs packet_step_def header_arm_def Let_def
            take_Suc_update)
    qed
  qed (auto simp: packet_step_def header_arm_def history_def)
next
  case (FsPacketBody i h)
  with assms show ?thesis
  proof (cases st)
    case (CobsByte b)
    obtain p where p: "os = FoHeader h # map FoPayload p" "length p = min (i - 4) (payload_len h)"
      "crc l = fold (\<lambda>b h. hasher_write_u8 ops h b)
             (u32_to_le_bytes (message_type_code (message_type h)) @ p) (hasher_new ops)"
      "4 \<le> i" "arrays_ok l"
      using assms(1) FsPacketBody by (auto simp: history_def)
    show ?thesis
    proof (cases "i < 4 + payload_len h")
      case True
      with p assms CobsByte FsPacketBody show ?thesis
        by (auto simp: history_def layer_defs packet_step_def body_arm_def Let_def
            intro!: exI [of _ "p @ [b]"])
    next
      case False
      with p assms CobsByte FsPacketBody show ?thesis
        by (auto simp: history_def layer_defs packet_step_def body_arm_def Let_def
            split: if_splits)
    qed
  qed (auto simp: packet_step_def body_arm_def history_def Let_def in_frame_def
      split: if_splits bind_splits)
qed (use assms(2) in \<open>simp_all add: packet_step_def\<close>)

lemma history_feed:
  assumes "history ops l os" and "feed ops l b = Some (l', Inr out)" and "in_frame out"
  shows "history ops l' (os @ visible [out])"
proof (cases "\<exists>i n h. decode_state l = FsPacketHeader i n \<or> decode_state l = FsPacketBody i h")
  case True
  then obtain d st where "packet_step ops (l\<lparr>cobs_decoder := d\<rparr>) st = Some (l', Inr out)"
    using assms(2) by (auto simp: feed_def packet_step_def split: prod.splits sum.splits)
  moreover have "history ops (l\<lparr>cobs_decoder := d\<rparr>) os"
    using assms(1) by (cases "decode_state l") (simp_all add: history_def arrays_ok_def)
  ultimately show ?thesis
    using history_feed_packet assms(3) by blast
next
  case False
  then show ?thesis
    using assms
    by (auto simp: feed_def feed_preamble_def feed_length_def history_def layer_defs in_frame_def
        Let_def split: FrameState.splits prod.splits sum.splits PreambleStatus.splits if_splits
        bind_splits)
qed

lemma history_finished:
  assumes "history ops l os" and "feed ops l b = Some (l', Inr FoFinished)"
  shows "\<exists>t p. os @ [FoFinished] = frame_outputs t p
    \<and> u32_from_le_bytes (crc_bytes l') = Some (hasher_finalize ops
        (fold (\<lambda>b h. hasher_write_u8 ops h b) (u32_to_le_bytes (message_type_code t) @ p)
          (hasher_new ops)))"
proof -
  obtain i h where st: "decode_state l = FsPacketBody i h"
    using assms
    by (auto simp: feed_def feed_preamble_def feed_length_def header_arm_def Let_def
        split: FrameState.splits prod.splits sum.splits PreambleStatus.splits CobsState.splits
        if_splits bind_splits)
  then obtain p where p: "os = FoHeader h # map FoPayload p" "length p = min (i - 4) (payload_len h)"
    "crc l = fold (\<lambda>b h. hasher_write_u8 ops h b)
       (u32_to_le_bytes (message_type_code (message_type h)) @ p) (hasher_new ops)"
    using assms(1) by (auto simp: history_def)
  show ?thesis
    using assms(2) st p
    by (intro exI [of _ "message_type h"] exI [of _ p])
       (auto simp: feed_def body_arm_def frame_outputs_def Let_def
        split: prod.splits sum.splits CobsState.splits if_splits bind_splits)
qed

lemma feed_all_snoc:
  assumes "feed_all ops l bs = Some (l', Inr (outs @ [out]))"
  shows "\<exists>as b l1. bs = as @ [b] \<and> feed_all ops l as = Some (l1, Inr outs)
    \<and> feed ops l1 b = Some (l', Inr out)"
  using assms
proof (induction bs arbitrary: l outs)
  case (Cons b bs)
  then obtain l1 o1 os1 where f: "feed ops l b = Some (l1, Inr o1)"
    "feed_all ops l1 bs = Some (l', Inr os1)" "outs @ [out] = o1 # os1"
    by (auto split: bind_splits sum.splits)
  show ?case
  proof (cases bs)
    case Nil
    with f show ?thesis
      by (intro exI [of _ "[]"]) auto
  next
    case (Cons b' bs')
    then have "os1 \<noteq> []"
      using f(2) by (auto split: bind_splits sum.splits)
    then obtain os2 where os2: "os1 = os2 @ [out]" "outs = o1 # os2"
      using f(3) by (cases outs) auto
    obtain as b2 l2 where "bs = as @ [b2]" "feed_all ops l1 as = Some (l2, Inr os2)"
      "feed ops l2 b2 = Some (l', Inr out)"
      using Cons.IH [of l1 os2] f(2) os2(1) by blast
    with f(1) os2(2) show ?thesis
      by (intro exI [of _ "b # as"]) auto
  qed
qed simp

lemma in_frame_outputs:
  assumes "visible outs @ [FoFinished] = frame_outputs t p"
  shows "list_all in_frame outs"
proof -
  have "visible outs = FoHeader \<lparr>message_type = t, payload_len = length p\<rparr> # map FoPayload p"
    using assms by (simp add: frame_outputs_def)
  then have "set (visible outs) \<subseteq> {out. in_frame out}"
    by (auto simp: in_frame_def)
  then show ?thesis
    by (auto simp: visible_def list_all_iff in_frame_def)
qed

lemma history_feed_all:
  assumes "history ops l os" and "feed_all ops l bs = Some (l', Inr outs)" and "list_all in_frame outs"
  shows "history ops l' (os @ visible outs)"
  using assms
proof (induction bs arbitrary: l os outs)
  case (Cons b bs)
  from Cons.prems(2,3) obtain l1 out outs1 where f: "feed ops l b = Some (l1, Inr out)"
    "feed_all ops l1 bs = Some (l', Inr outs1)" "outs = out # outs1"
    by (auto split: bind_splits sum.splits)
  moreover have "history ops l1 (os @ visible [out])"
    using history_feed [OF Cons.prems(1) f(1)] Cons.prems(3) f(3) by simp
  ultimately show ?case
    using Cons.IH [of l1 "os @ visible [out]" outs1] Cons.prems(3) by (cases "out = FoSkip") auto
qed auto

section \<open>Properties\<close>

text \<open>
  The length field: \<open>encode_length\<close> accepts exactly the lengths below 2 to the 24, every byte
  it produces carries the two marker bits the decoder insists on, and the decoder's sextets give
  the length back.
\<close>

lemma length_field_roundtrip:
  "case encode_length n of
     None \<Rightarrow> 2 ^ 24 \<le> n
   | Some bs \<Rightarrow> n < 2 ^ 24 \<and> length bs = 4 \<and> list_all (\<lambda>b. b AND 0xc0 = 0xc0) bs
       \<and> decode_sextets bs = Some n"
proof (cases "encode_length n")
  case None
  then show ?thesis by (simp add: encode_length_eq split: if_splits)
next
  case (Some bs)
  then have "n < 2 ^ 24"
    by (simp add: encode_length_eq split: if_splits)
  with Some show ?thesis
    using decode_encode_length [OF Some] by (simp add: list_all_iff)
qed

text \<open>
  C6. Frame round trip, for a whole stream: a receiver that is between frames and is fed the
  frames of any list of messages (payloads below 16 MiB), back to back, reports for each of them
  its header, exactly its payload bytes in order, and its end, reports nothing else, meets no
  error, and is between frames again. The checksum package is assumed to be streaming.
\<close>

theorem frames_roundtrip:
  assumes "crc_stream ops" and "ready ops COBS_XOR l"
    and "list_all (\<lambda>(t, p). length p < 2 ^ 24) msgs"
  shows "\<exists>wires l' outs. map (\<lambda>(t, p). encode_frame ops t p) msgs = map Some wires
    \<and> feed_all ops l (concat wires) = Some (l', Inr outs)
    \<and> visible outs = concat (map (\<lambda>(t, p). frame_outputs t p) msgs)
    \<and> ready ops COBS_XOR l'"
  using assms(2,3)
proof (induction msgs arbitrary: l)
  case Nil
  then show ?case
    by (intro exI [of _ "[]"]) auto
next
  case (Cons m msgs)
  obtain t p where m: "m = (t, p)" "length p < 2 ^ 24"
    using Cons.prems(2) by (cases m) auto
  obtain wire l1 outs1 where 1: "encode_frame ops t p = Some wire"
    "feed_all ops l wire = Some (l1, Inr (outs1 @ [FoFinished]))"
    "visible outs1 @ [FoFinished] = frame_outputs t p"
    "ready ops COBS_XOR l1"
    using frame_roundtrip [OF assms(1) Cons.prems(1) m(2)] by blast
  obtain wires l2 outs2 where 2: "map (\<lambda>(t, p). encode_frame ops t p) msgs = map Some wires"
    "feed_all ops l1 (concat wires) = Some (l2, Inr outs2)"
    "visible outs2 = concat (map (\<lambda>(t, p). frame_outputs t p) msgs)" "ready ops COBS_XOR l2"
    using Cons.IH [OF 1(4)] Cons.prems(2) by auto
  show ?case
    using m 1 2 feed_all_append [OF 1(2) 2(2)] by (intro exI [of _ "wire # wires"]) auto
qed

theorem frames_roundtrip_witness:
  "crc_stream crc32_ops \<and> ready crc32_ops COBS_XOR (frame_new crc32_ops COBS_XOR)
   \<and> list_all (\<lambda>(t, p). length p < 2 ^ 24) [(Probe, []), (Chunk, [0, 1, 0 :: u8])]
   \<and> (\<exists>wires l' outs. map (\<lambda>(t, p). encode_frame crc32_ops t p) [(Probe, []), (Chunk, [0, 1, 0])] =
        map Some wires
      \<and> feed_all crc32_ops (frame_new crc32_ops COBS_XOR) (concat wires) = Some (l', Inr outs)
      \<and> visible outs =
          concat (map (\<lambda>(t, p). frame_outputs t p) [(Probe, []), (Chunk, [0, 1, 0])])
      \<and> ready crc32_ops COBS_XOR l')"
  using frames_roundtrip [OF crc32.crc_stream_axioms ready_new,
      of "[(Probe, []), (Chunk, [0, 1, 0])]"] crc32.crc_stream_axioms
  by simp

text \<open>
  C9. Integrity: whatever bytes arrive after the receiver is between frames, if it accepts them
  all as one frame (nothing but skips, a header and payload bytes) and then reports the end of the
  frame on the next byte, then it has reported one header followed by exactly as many payload
  bytes as that header announces, and the four checksum bytes it received are the digest of the
  message type and that payload.
\<close>

theorem finished_frame_is_intact:
  assumes "crc_stream ops" and "ready ops k l" and "feed_all ops l bs = Some (l1, Inr outs)"
    and "list_all in_frame outs" and "feed ops l1 b = Some (l', Inr FoFinished)"
  shows "\<exists>t p. visible outs @ [FoFinished] = frame_outputs t p
    \<and> u32_from_le_bytes (crc_bytes l') =
        Some (crc_hash ops (u32_to_le_bytes (message_type_code t) @ p))"
proof -
  have "history ops l []"
    using assms(2) by (simp add: ready_def history_def layer_defs)
  then have "history ops l1 (visible outs)"
    using history_feed_all [OF _ assms(3,4), of "[]"] by simp
  from history_finished [OF this assms(5)] show ?thesis
    by (simp only: crc_stream.fold_write_u8 [OF assms(1)] crc_hash_def)
qed

theorem finished_frame_is_intact_witness:
  "\<exists>bs b l1 outs l'. crc_stream crc32_ops \<and> ready crc32_ops COBS_XOR (frame_new crc32_ops COBS_XOR)
    \<and> feed_all crc32_ops (frame_new crc32_ops COBS_XOR) bs = Some (l1, Inr outs)
    \<and> list_all in_frame outs \<and> feed crc32_ops l1 b = Some (l', Inr FoFinished)
    \<and> (\<exists>t p. visible outs @ [FoFinished] = frame_outputs t p
        \<and> u32_from_le_bytes (crc_bytes l') =
            Some (crc_hash crc32_ops (u32_to_le_bytes (message_type_code t) @ p)))"
proof -
  note crc = crc32.crc_stream_axioms and new = ready_new [of crc32_ops COBS_XOR]
  obtain wire l' outs where w:
    "feed_all crc32_ops (frame_new crc32_ops COBS_XOR) wire = Some (l', Inr (outs @ [FoFinished]))"
    "visible outs @ [FoFinished] = frame_outputs Chunk [0, 7]"
    using frame_roundtrip [OF crc new, of "[0, 7]" Chunk] by auto
  then obtain bs b l1 where s:
    "feed_all crc32_ops (frame_new crc32_ops COBS_XOR) bs = Some (l1, Inr outs)"
    "feed crc32_ops l1 b = Some (l', Inr FoFinished)"
    using feed_all_snoc [OF w(1)] by blast
  have i: "list_all in_frame outs"
    by (rule in_frame_outputs [OF w(2)])
  show ?thesis
    using crc new s i finished_frame_is_intact [OF crc new s(1) i s(2)] by blast
qed

text \<open>
  C24. The receiver cannot be made to panic: from a well-formed layer every byte is answered by an
  output that leaves a well-formed layer, or by an error after which \<open>reset\<close> gives a well-formed
  layer waiting for a preamble.
\<close>

theorem feed_never_panics:
  assumes "layer_ok l"
  shows "case feed ops l b of
      None \<Rightarrow> False
    | Some (l', Inr out) \<Rightarrow> layer_ok l'
    | Some (l', Inl e) \<Rightarrow> layer_ok (frame_reset ops l') \<and> decode_state (frame_reset ops l') = FsPreamble"
  using feed_keeps_ok [OF assms, of ops b]
  by (auto simp: feed_ok_def frame_reset_def layer_defs split: option.splits sum.splits)

theorem feed_never_panics_witness:
  "layer_ok (frame_new crc32_ops COBS_XOR) \<and>
   (case feed crc32_ops (frame_new crc32_ops COBS_XOR) 7 of
      None \<Rightarrow> False
    | Some (l', Inr out) \<Rightarrow> layer_ok l'
    | Some (l', Inl e) \<Rightarrow>
        layer_ok (frame_reset crc32_ops l') \<and> decode_state (frame_reset crc32_ops l') = FsPreamble)"
  using feed_never_panics [of "frame_new crc32_ops COBS_XOR" crc32_ops 7]
  by (simp add: layer_defs frame_new_def)

end
