(* ===== verification/Txbuf.thy ===== *)
theory Txbuf
  imports Frame
begin

text \<open>
  The device's byte buffers (\<open>device/okboot/src/buf.rs\<close>): the linear receive buffer, the circular
  transmit buffer with its checkpoints, and the proof that the circular buffer is a bounded
  first-in first-out queue whose edits can be rolled back.
\<close>

section \<open>Receive buffer\<close>

datatype ReceiveError = BufferOverflow | FifoOverrun | ProtocolError | Decode FrameError

record ReceiveBuffer =
  rb_storage :: "u8 list"
  rb_cursor :: nat

definition rb_new :: "u8 list \<Rightarrow> ReceiveBuffer" where
  "rb_new storage = \<lparr>rb_storage = storage, rb_cursor = 0\<rparr>"

definition rb_clear :: "ReceiveBuffer \<Rightarrow> ReceiveBuffer" where
  "rb_clear self = self\<lparr>rb_cursor := 0, rb_storage := replicate (length (rb_storage self)) 0\<rparr>"

definition rb_push_u8 :: "ReceiveBuffer \<Rightarrow> u8 \<Rightarrow> (ReceiveBuffer \<times> (ReceiveError + unit)) option" where
  "rb_push_u8 self b =
    (if rb_cursor self \<ge> length (rb_storage self) then Some (self, Inl BufferOverflow)
     else do {
       s \<leftarrow> upd (rb_storage self) (rb_cursor self) b;
       Some (self\<lparr>rb_storage := s, rb_cursor := rb_cursor self + 1\<rparr>, Inr ())
     })"

definition rb_finalize :: "ReceiveBuffer \<Rightarrow> (ReceiveBuffer \<times> u8 list) option" where
  "rb_finalize self = do {
     bs \<leftarrow> subslice (rb_storage self) 0 (rb_cursor self);
     Some (self\<lparr>rb_cursor := 0\<rparr>, bs)
   }"

section \<open>Transmit buffer\<close>

record TransmitBuffer =
  tb_storage :: "u8 list"
  circle_begin :: nat
  circle_end :: nat
  circle_len :: nat

definition tb_new :: "u8 list \<Rightarrow> TransmitBuffer" where
  "tb_new storage = \<lparr>tb_storage = storage, circle_begin = 0, circle_end = 0, circle_len = 0\<rparr>"

definition tb_clear :: "TransmitBuffer \<Rightarrow> TransmitBuffer" where
  "tb_clear self = self\<lparr>tb_storage := map (\<lambda>_. 0) (tb_storage self),
     circle_begin := 0, circle_end := 0, circle_len := 0\<rparr>"

definition tb_is_empty :: "TransmitBuffer \<Rightarrow> bool" where
  "tb_is_empty self \<longleftrightarrow> circle_len self = 0"

definition remaining_space :: "TransmitBuffer \<Rightarrow> nat" where
  "remaining_space self = length (tb_storage self) - circle_len self"

text \<open>The remainder by the capacity panics for an empty storage.\<close>

definition wrapped_add :: "TransmitBuffer \<Rightarrow> nat \<Rightarrow> nat \<Rightarrow> (nat \<times> bool) option" where
  "wrapped_add self a b =
    (if length (tb_storage self) = 0 then None
     else let i = (a + b) mod length (tb_storage self) in Some (i, i < a + b))"

definition push_byte_at_unchecked ::
  "TransmitBuffer \<Rightarrow> nat \<Rightarrow> u8 \<Rightarrow> (TransmitBuffer \<times> nat) option" where
  "push_byte_at_unchecked self offset byte = do {
     s \<leftarrow> upd (tb_storage self) offset byte;
     let self = self\<lparr>tb_storage := s\<rparr>;
     (i, _) \<leftarrow> wrapped_add self offset 1;
     Some (self, i)
   }"

fun write_bytes_at_unchecked ::
  "TransmitBuffer \<Rightarrow> nat \<Rightarrow> u8 list \<Rightarrow> (TransmitBuffer \<times> nat) option" where
  "write_bytes_at_unchecked self offset [] = Some (self, offset)"
| "write_bytes_at_unchecked self offset (byte # bytes) = do {
     (self, offset) \<leftarrow> push_byte_at_unchecked self offset byte;
     write_bytes_at_unchecked self offset bytes
   }"

definition push_byte :: "TransmitBuffer \<Rightarrow> u8 \<Rightarrow> (TransmitBuffer \<times> bool) option" where
  "push_byte self byte =
    (if circle_len self = length (tb_storage self) then Some (self, False)
     else do {
       (self, e) \<leftarrow> push_byte_at_unchecked self (circle_end self) byte;
       Some (self\<lparr>circle_end := e, circle_len := circle_len self + 1\<rparr>, True)
     })"

fun push_bytes :: "TransmitBuffer \<Rightarrow> u8 list \<Rightarrow> TransmitBuffer option" where
  "push_bytes self [] = Some self"
| "push_bytes self (b # src) = do {
     (self, _) \<leftarrow> push_byte self b;
     push_bytes self src
   }"

definition extend_from_slice :: "TransmitBuffer \<Rightarrow> u8 list \<Rightarrow> (TransmitBuffer \<times> bool) option" where
  "extend_from_slice self src =
    (if length src \<le> remaining_space self
     then do { self \<leftarrow> push_bytes self src; Some (self, True) }
     else Some (self, False))"

definition reserve :: "TransmitBuffer \<Rightarrow> nat \<Rightarrow> (TransmitBuffer \<times> nat option) option" where
  "reserve self n_bytes =
    (if n_bytes \<le> remaining_space self
     then do {
       let v = circle_end self;
       (e, _) \<leftarrow> wrapped_add self (circle_end self) n_bytes;
       Some (self\<lparr>circle_end := e, circle_len := circle_len self + n_bytes\<rparr>, Some v)
     }
     else Some (self, None))"

definition shift_byte :: "TransmitBuffer \<Rightarrow> (TransmitBuffer \<times> u8 option) option" where
  "shift_byte self =
    (if circle_len self > 0
     then do {
       b \<leftarrow> idx (tb_storage self) (circle_begin self);
       s \<leftarrow> upd (tb_storage self) (circle_begin self) 0;
       let self = self\<lparr>tb_storage := s\<rparr>;
       (i, _) \<leftarrow> wrapped_add self (circle_begin self) 1;
       Some (self\<lparr>circle_begin := i, circle_len := circle_len self - 1\<rparr>, Some b)
     }
     else Some (self, None))"

record TransmitBufferCheckpoint =
  cp_begin :: nat
  cp_end :: nat
  cp_len :: nat

definition checkpoint :: "TransmitBuffer \<Rightarrow> TransmitBufferCheckpoint" where
  "checkpoint self =
    \<lparr>cp_begin = circle_begin self, cp_end = circle_end self, cp_len = circle_len self\<rparr>"

definition bytes_since_checkpoint :: "TransmitBuffer \<Rightarrow> TransmitBufferCheckpoint \<Rightarrow> nat" where
  "bytes_since_checkpoint self cp =
    (if circle_end self < cp_end cp
     then (length (tb_storage self) - cp_end cp) + circle_end self
     else circle_end self - cp_end cp)"

definition restore :: "TransmitBuffer \<Rightarrow> TransmitBufferCheckpoint \<Rightarrow> TransmitBuffer option" where
  "restore self from_cp = do {
     (self, _) \<leftarrow> write_bytes_at_unchecked self (cp_end from_cp)
       (replicate (bytes_since_checkpoint self from_cp) 0);
     Some (self\<lparr>circle_begin := cp_begin from_cp, circle_end := cp_end from_cp,
       circle_len := cp_len from_cp\<rparr>)
   }"

section \<open>Invariant and abstraction\<close>

text \<open>
  \<open>ring\<close> is the storage seen from \<open>circle_begin\<close>, all of it; the queue is its first
  \<open>circle_len\<close> bytes.
\<close>

definition capacity :: "TransmitBuffer \<Rightarrow> nat" where
  "capacity tb = length (tb_storage tb)"

definition tb_inv :: "TransmitBuffer \<Rightarrow> bool" where
  "tb_inv tb \<longleftrightarrow> circle_begin tb < capacity tb \<and> circle_len tb \<le> capacity tb
    \<and> circle_end tb = (circle_begin tb + circle_len tb) mod capacity tb"

definition ring :: "TransmitBuffer \<Rightarrow> u8 list" where
  "ring tb = map (\<lambda>i. tb_storage tb ! ((circle_begin tb + i) mod capacity tb)) [0..<capacity tb]"

definition contents :: "TransmitBuffer \<Rightarrow> u8 list" where
  "contents tb = take (circle_len tb) (ring tb)"

text \<open>A buffer grown from another one: same place, and what was queued is still in front.\<close>

definition grown :: "TransmitBuffer \<Rightarrow> TransmitBuffer \<Rightarrow> bool" where
  "grown tb tb' \<longleftrightarrow> tb_inv tb' \<and> capacity tb' = capacity tb \<and> circle_begin tb' = circle_begin tb
    \<and> circle_len tb \<le> circle_len tb' \<and> take (circle_len tb) (ring tb') = contents tb"

section \<open>The ring\<close>

lemma mod_add_lt: "(a :: nat) < n \<Longrightarrow> b \<le> n \<Longrightarrow> (a + b) mod n = (if a + b < n then a + b else a + b - n)"
  by (auto simp: mod_if)

lemma ring_position_inj:
  "(a :: nat) < n \<Longrightarrow> i < n \<Longrightarrow> j < n \<Longrightarrow> (a + i) mod n = (a + j) mod n \<longleftrightarrow> i = j"
  by (auto simp: mod_add_lt split: if_splits)

lemma ring_position_less: "(a :: nat) < n \<Longrightarrow> (a + i) mod n < n"
  by (cases n) simp_all

lemma length_ring [simp]: "length (ring tb) = capacity tb"
  by (simp add: ring_def)

lemma length_contents [simp]: "tb_inv tb \<Longrightarrow> length (contents tb) = circle_len tb"
  by (simp add: contents_def tb_inv_def)

lemma ring_update:
  assumes "circle_begin tb < capacity tb" and "j < capacity tb"
  shows "ring (tb\<lparr>tb_storage := (tb_storage tb)[(circle_begin tb + j) mod capacity tb := v]\<rparr>) =
    (ring tb)[j := v]"
proof (rule nth_equalityI)
  fix i assume "i < length (ring (tb\<lparr>tb_storage := (tb_storage tb)[(circle_begin tb + j) mod capacity tb := v]\<rparr>))"
  then have i: "i < capacity tb"
    by (simp add: capacity_def)
  have "(circle_begin tb + i) mod capacity tb < length (tb_storage tb)"
    using ring_position_less [OF assms(1)] by (simp add: capacity_def)
  then show "ring (tb\<lparr>tb_storage := (tb_storage tb)[(circle_begin tb + j) mod capacity tb := v]\<rparr>) ! i =
      (ring tb)[j := v] ! i"
    using ring_position_inj [OF assms(1) i assms(2)] i assms(2)
    by (auto simp: ring_def capacity_def nth_list_update)
qed (simp add: capacity_def)

text \<open>Writing at a place of the ring.\<close>

lemma push_byte_at_ring:
  assumes "circle_begin tb < capacity tb" and "j < capacity tb"
  shows "\<exists>tb'. push_byte_at_unchecked tb ((circle_begin tb + j) mod capacity tb) b =
      Some (tb', (circle_begin tb + Suc j) mod capacity tb)
    \<and> ring tb' = (ring tb)[j := b] \<and> capacity tb' = capacity tb
    \<and> circle_begin tb' = circle_begin tb \<and> circle_end tb' = circle_end tb
    \<and> circle_len tb' = circle_len tb"
proof -
  have "(circle_begin tb + j) mod capacity tb < length (tb_storage tb)" "length (tb_storage tb) \<noteq> 0"
    using ring_position_less [OF assms(1)] assms(1) by (auto simp: capacity_def)
  then show ?thesis
    using ring_update [OF assms]
    by (auto simp: push_byte_at_unchecked_def wrapped_add_def Let_def capacity_def mod_Suc_eq)
qed

lemma write_bytes_at_ring:
  assumes "circle_begin tb < capacity tb" and "j + length bs \<le> capacity tb"
  shows "\<exists>tb'. write_bytes_at_unchecked tb ((circle_begin tb + j) mod capacity tb) bs =
      Some (tb', (circle_begin tb + (j + length bs)) mod capacity tb)
    \<and> ring tb' = blit (ring tb) j bs \<and> capacity tb' = capacity tb
    \<and> circle_begin tb' = circle_begin tb \<and> circle_end tb' = circle_end tb
    \<and> circle_len tb' = circle_len tb"
  using assms
proof (induction bs arbitrary: tb j)
  case Nil
  then show ?case
    by (auto simp: blit_def)
next
  case (Cons b bs)
  then obtain tb1 where 1: "push_byte_at_unchecked tb ((circle_begin tb + j) mod capacity tb) b =
      Some (tb1, (circle_begin tb + Suc j) mod capacity tb)"
    "ring tb1 = (ring tb)[j := b]" "capacity tb1 = capacity tb" "circle_begin tb1 = circle_begin tb"
    "circle_end tb1 = circle_end tb" "circle_len tb1 = circle_len tb"
    using push_byte_at_ring [of tb j b] by auto
  have "blit ((ring tb)[j := b]) (Suc j) bs = blit (ring tb) j (b # bs)"
    using Cons.prems by (simp add: blit_def take_Suc_update drop_update_cancel)
  then show ?case
    using Cons.IH [of tb1 "Suc j"] Cons.prems 1 by auto
qed

section \<open>Operations on the queue\<close>

lemma take_ring: "tb_inv tb \<Longrightarrow> n \<le> circle_len tb \<Longrightarrow> take n (ring tb) = take n (contents tb)"
  by (simp add: contents_def min_absorb1)

lemma grownI:
  assumes "tb_inv tb" and "tb_inv tb'" and "capacity tb' = capacity tb"
    and "circle_begin tb' = circle_begin tb" and "contents tb' = contents tb @ bs"
  shows "grown tb tb'"
proof -
  have "circle_len tb' = circle_len tb + length bs"
    using assms length_contents [of tb] length_contents [of tb'] by simp
  then show ?thesis
    using assms take_ring [of tb' "circle_len tb"] by (simp add: grown_def)
qed

lemma grown_refl: "tb_inv tb \<Longrightarrow> grown tb tb"
  by (simp add: grown_def contents_def)

lemma grown_trans:
  assumes "grown tb0 tb1" and "grown tb1 tb2"
  shows "grown tb0 tb2"
proof -
  have le: "circle_len tb0 \<le> circle_len tb1"
    and eq: "take (circle_len tb1) (ring tb2) = take (circle_len tb1) (ring tb1)"
    using assms by (simp_all add: grown_def contents_def)
  have "take (circle_len tb0) (ring tb2) = take (circle_len tb0) (ring tb1)"
    using arg_cong [OF eq, of "take (circle_len tb0)"] le by (simp add: min_absorb1)
  then show ?thesis
    using assms by (simp add: grown_def)
qed

lemma push_byte_queue:
  assumes "tb_inv tb" and "circle_len tb < capacity tb"
  shows "\<exists>tb'. push_byte tb b = Some (tb', True) \<and> tb_inv tb' \<and> contents tb' = contents tb @ [b]
    \<and> capacity tb' = capacity tb \<and> circle_begin tb' = circle_begin tb"
proof -
  obtain tb1 where 1: "push_byte_at_unchecked tb (circle_end tb) b =
      Some (tb1, (circle_begin tb + Suc (circle_len tb)) mod capacity tb)"
    "ring tb1 = (ring tb)[circle_len tb := b]" "capacity tb1 = capacity tb"
    "circle_begin tb1 = circle_begin tb" "circle_len tb1 = circle_len tb"
    using push_byte_at_ring [of tb "circle_len tb" b] assms by (auto simp: tb_inv_def)
  let ?tb = "tb1\<lparr>circle_end := (circle_begin tb + Suc (circle_len tb)) mod capacity tb,
    circle_len := circle_len tb + 1\<rparr>"
  have r: "ring ?tb = ring tb1" "capacity ?tb = capacity tb"
    using 1(3) by (simp_all add: ring_def capacity_def)
  have "push_byte tb b = Some (?tb, True)"
    using 1(1,5) assms(2) by (simp add: push_byte_def capacity_def)
  moreover have "tb_inv ?tb"
    using assms 1(4) r by (simp add: tb_inv_def)
  moreover have "contents ?tb = contents tb @ [b]"
    using 1(2) r(1) assms(2) by (simp add: contents_def take_Suc_update)
  ultimately show ?thesis
    using r(2) 1(4) by auto
qed

lemma push_bytes_queue:
  assumes "tb_inv tb" and "circle_len tb + length src \<le> capacity tb"
  shows "\<exists>tb'. push_bytes tb src = Some tb' \<and> tb_inv tb' \<and> contents tb' = contents tb @ src
    \<and> capacity tb' = capacity tb \<and> circle_begin tb' = circle_begin tb"
  using assms
proof (induction src arbitrary: tb)
  case (Cons b src)
  then obtain tb1 where 1: "push_byte tb b = Some (tb1, True)" "tb_inv tb1"
    "contents tb1 = contents tb @ [b]" "capacity tb1 = capacity tb" "circle_begin tb1 = circle_begin tb"
    using push_byte_queue [of tb b] by auto
  moreover have "circle_len tb1 = Suc (circle_len tb)"
    using 1(2,3) Cons.prems(1) length_contents [of tb1] length_contents [of tb] by simp
  ultimately show ?case
    using Cons.IH [of tb1] Cons.prems by auto
qed simp

lemma extend_from_slice_queue:
  assumes "tb_inv tb"
  shows "if circle_len tb + length src \<le> capacity tb
    then \<exists>tb'. extend_from_slice tb src = Some (tb', True) \<and> tb_inv tb'
      \<and> contents tb' = contents tb @ src \<and> capacity tb' = capacity tb
      \<and> circle_begin tb' = circle_begin tb
    else extend_from_slice tb src = Some (tb, False)"
proof -
  have "length src \<le> remaining_space tb \<longleftrightarrow> circle_len tb + length src \<le> capacity tb"
    using assms by (auto simp: remaining_space_def capacity_def tb_inv_def)
  then show ?thesis
    using push_bytes_queue [OF assms, of src] by (auto simp: extend_from_slice_def)
qed

lemma reserve_queue:
  assumes "tb_inv tb"
  shows "if circle_len tb + n \<le> capacity tb
    then \<exists>tb' hole. reserve tb n = Some (tb', Some (circle_end tb)) \<and> tb_inv tb'
      \<and> contents tb' = contents tb @ hole \<and> length hole = n \<and> capacity tb' = capacity tb
      \<and> circle_begin tb' = circle_begin tb
    else reserve tb n = Some (tb, None)"
proof (cases "circle_len tb + n \<le> capacity tb")
  case True
  let ?tb = "tb\<lparr>circle_end := (circle_end tb + n) mod capacity tb, circle_len := circle_len tb + n\<rparr>"
  have r: "ring ?tb = ring tb" "capacity ?tb = capacity tb"
    by (simp_all add: ring_def capacity_def)
  have "reserve tb n = Some (?tb, Some (circle_end tb))"
    using True assms by (auto simp: reserve_def remaining_space_def wrapped_add_def capacity_def
        tb_inv_def Let_def)
  moreover have "tb_inv ?tb"
    using True assms r(2) by (auto simp: tb_inv_def mod_add_left_eq add.assoc)
  moreover have "contents ?tb = contents tb @ take n (drop (circle_len tb) (ring tb))"
    using r(1) by (simp add: contents_def take_add)
  ultimately show ?thesis
    using True r(2) by (auto intro!: exI [of _ ?tb] exI [of _ "take n (drop (circle_len tb) (ring tb))"])
next
  case False
  then show ?thesis
    using assms by (auto simp: reserve_def remaining_space_def capacity_def tb_inv_def)
qed

lemma shift_byte_queue:
  assumes "tb_inv tb" and "contents tb = b # bs"
  shows "\<exists>tb'. shift_byte tb = Some (tb', Some b) \<and> tb_inv tb' \<and> contents tb' = bs
    \<and> capacity tb' = capacity tb"
proof -
  let ?c = "capacity tb" and ?a = "circle_begin tb"
  have len: "circle_len tb = Suc (length bs)" "?a < ?c" "circle_len tb \<le> ?c"
    using assms length_contents [of tb] by (simp_all add: tb_inv_def)
  let ?tb = "tb\<lparr>tb_storage := (tb_storage tb)[?a := 0], circle_begin := Suc ?a mod ?c,
    circle_len := circle_len tb - 1\<rparr>"
  have cap: "capacity ?tb = ?c"
    by (simp add: capacity_def)
  have nth: "contents tb ! i = tb_storage tb ! ((?a + i) mod ?c)" if "i < circle_len tb" for i
    using that len(3) by (simp add: contents_def ring_def)
  have b: "tb_storage tb ! ?a = b"
    using nth [of 0] len assms(2) by simp
  have "shift_byte tb = Some (?tb, Some b)"
    using len b by (auto simp: shift_byte_def wrapped_add_def capacity_def Let_def)
  moreover have "tb_inv ?tb"
    using assms(1) len cap by (auto simp: tb_inv_def mod_add_left_eq mod_Suc_eq)
  moreover have "contents ?tb = bs"
  proof (rule nth_equalityI)
    show "length (contents ?tb) = length bs"
      using \<open>tb_inv ?tb\<close> len by simp
    fix i assume "i < length (contents ?tb)"
    then have i: "i < length bs"
      using \<open>tb_inv ?tb\<close> len by simp
    have "(Suc ?a mod ?c + i) mod ?c = (?a + Suc i) mod ?c"
      by (simp add: mod_add_left_eq)
    moreover have "(?a + Suc i) mod ?c \<noteq> ?a"
      using ring_position_inj [of ?a ?c "Suc i" 0] i len by simp
    ultimately have "contents ?tb ! i = tb_storage tb ! ((?a + Suc i) mod ?c)"
      using i len cap by (simp add: contents_def ring_def)
    then show "contents ?tb ! i = bs ! i"
      using nth [of "Suc i"] i len assms(2) by simp
  qed
  ultimately show ?thesis
    using cap by auto
qed

lemma shift_byte_empty: "tb_inv tb \<Longrightarrow> contents tb = [] \<Longrightarrow> shift_byte tb = Some (tb, None)"
  using length_contents [of tb] by (simp add: shift_byte_def)

text \<open>Overwriting bytes that are already queued, as the length fields are.\<close>

lemma overwrite_queue:
  assumes "tb_inv tb" and "j + length bs \<le> circle_len tb"
  shows "\<exists>tb' e. write_bytes_at_unchecked tb ((circle_begin tb + j) mod capacity tb) bs = Some (tb', e)
    \<and> tb_inv tb' \<and> contents tb' = blit (contents tb) j bs \<and> capacity tb' = capacity tb
    \<and> circle_begin tb' = circle_begin tb"
proof -
  have "take (circle_len tb) (blit (ring tb) j bs) = blit (contents tb) j bs"
    using assms by (simp add: blit_def contents_def tb_inv_def take_drop min_absorb1 min_absorb2)
  then show ?thesis
    using write_bytes_at_ring [of tb j bs] assms by (auto simp: tb_inv_def contents_def)
qed

section \<open>Checkpoints\<close>

lemma bytes_since_checkpoint_grown:
  assumes "tb_inv tb0" and "grown tb0 tb"
  shows "bytes_since_checkpoint tb (checkpoint tb0) = (circle_len tb - circle_len tb0) mod capacity tb"
proof -
  let ?a = "circle_begin tb0" and ?c = "capacity tb0" and ?m = "circle_len tb0" and ?l = "circle_len tb"
  have b: "?a < ?c" "?m \<le> ?l" "?l \<le> ?c" "circle_end tb = (?a + ?l) mod ?c"
    "circle_end tb0 = (?a + ?m) mod ?c" "capacity tb = ?c"
    using assms by (auto simp: tb_inv_def grown_def)
  have "(?l - ?m) mod ?c = (if ?m = 0 \<and> ?l = ?c then 0 else ?l - ?m)"
    using b(1-3) by (cases "?l - ?m = ?c") auto
  with b show ?thesis
    by (auto simp: bytes_since_checkpoint_def checkpoint_def mod_add_lt capacity_def)
qed

lemma restore_grown:
  assumes "tb_inv tb0" and "grown tb0 tb"
  shows "\<exists>tb'. restore tb (checkpoint tb0) = Some tb' \<and> tb_inv tb' \<and> contents tb' = contents tb0
    \<and> capacity tb' = capacity tb0 \<and> circle_begin tb' = circle_begin tb0"
proof -
  let ?n = "bytes_since_checkpoint tb (checkpoint tb0)"
  have g: "circle_begin tb = circle_begin tb0" "capacity tb = capacity tb0" "tb_inv tb"
    "circle_len tb0 \<le> circle_len tb" "take (circle_len tb0) (ring tb) = contents tb0"
    using assms(2) by (auto simp: grown_def)
  have "?n \<le> circle_len tb - circle_len tb0"
    unfolding bytes_since_checkpoint_grown [OF assms] by (rule mod_less_eq_dividend)
  then have n: "circle_len tb0 + ?n \<le> capacity tb"
    using g(3,4) by (auto simp: tb_inv_def)
  obtain tb1 where 1: "write_bytes_at_unchecked tb (circle_end tb0) (replicate ?n 0) =
      Some (tb1, (circle_begin tb + (circle_len tb0 + ?n)) mod capacity tb)"
    "ring tb1 = blit (ring tb) (circle_len tb0) (replicate ?n 0)" "capacity tb1 = capacity tb"
    using write_bytes_at_ring [of tb "circle_len tb0" "replicate ?n 0"] n g assms(1)
    by (auto simp: tb_inv_def)
  let ?tb = "tb1\<lparr>circle_begin := circle_begin tb0, circle_end := circle_end tb0,
    circle_len := circle_len tb0\<rparr>"
  have "circle_begin tb1 = circle_begin tb"
    using write_bytes_at_ring [of tb "circle_len tb0" "replicate ?n 0"] n g assms(1) 1(1)
    by (auto simp: tb_inv_def)
  then have "ring ?tb = ring tb1" "capacity ?tb = capacity tb0"
    using g 1(3) by (simp_all add: ring_def capacity_def)
  moreover have "take (circle_len tb0) (ring tb1) = contents tb0"
    using 1(2) g(5) n assms(1) by (simp add: blit_def)
  ultimately show ?thesis
    using 1(1) assms(1)
    by (auto simp: restore_def checkpoint_def tb_inv_def contents_def)
qed

section \<open>Records with a hole for their length\<close>

text \<open>
  Both text formats and the frames put a four-byte marker into the buffer, reserve four bytes for a
  length, append, and fill the hole in at the end. \<open>off\<close> is the hole's offset; when something did
  not fit, \<open>ok\<close> is false.
\<close>

definition hole_inv ::
  "TransmitBuffer \<Rightarrow> u8 list \<Rightarrow> TransmitBuffer \<Rightarrow> nat \<Rightarrow> bool \<Rightarrow> u8 list \<Rightarrow> bool" where
  "hole_inv tb0 head tb off ok wrote \<longleftrightarrow> tb_inv tb0 \<and> length head = 4 \<and> grown tb0 tb \<and>
    (if ok then
       off = (circle_begin tb0 + (circle_len tb0 + 4)) mod capacity tb0
       \<and> (\<exists>hole. length hole = 4 \<and> contents tb = contents tb0 @ head @ hole @ wrote)
     else capacity tb0 < circle_len tb0 + 8 + length wrote)"

lemma hole_new:
  assumes "tb_inv tb" and "length head = 4"
  shows "\<exists>tb1 ok1. extend_from_slice tb head = Some (tb1, ok1) \<and>
    (if ok1 then \<exists>tb2 lo. reserve tb1 4 = Some (tb2, lo)
       \<and> hole_inv tb head tb2 (case lo of Some v \<Rightarrow> v | None \<Rightarrow> 0) (lo \<noteq> None) []
     else hole_inv tb head tb1 0 False [])"
proof (cases "circle_len tb + 4 \<le> capacity tb")
  case False
  then show ?thesis
    using extend_from_slice_queue [OF assms(1), of head] assms grown_refl [OF assms(1)]
    by (intro exI [of _ tb] exI [of _ False]) (simp add: hole_inv_def)
next
  case True
  then obtain tb1 where 1: "extend_from_slice tb head = Some (tb1, True)" "tb_inv tb1"
    "contents tb1 = contents tb @ head" "capacity tb1 = capacity tb"
    "circle_begin tb1 = circle_begin tb"
    using extend_from_slice_queue [OF assms(1), of head] assms(2) by auto
  then have len: "circle_len tb1 = circle_len tb + 4"
    using assms length_contents [of tb1] length_contents [of tb] by simp
  have g1: "grown tb tb1"
    by (rule grownI) (use 1 assms in auto)
  show ?thesis
  proof (cases "circle_len tb + 8 \<le> capacity tb")
    case False
    then show ?thesis
      using reserve_queue [OF 1(2), of 4] 1 len assms g1
      by (intro exI [of _ tb1] exI [of _ True]) (simp add: hole_inv_def)
  next
    case True
    then obtain tb2 hole where 2: "reserve tb1 4 = Some (tb2, Some (circle_end tb1))" "tb_inv tb2"
      "contents tb2 = contents tb1 @ hole" "length hole = 4" "capacity tb2 = capacity tb1"
      "circle_begin tb2 = circle_begin tb1"
      using reserve_queue [OF 1(2), of 4] 1(4) len by auto
    have "grown tb tb2"
      by (rule grown_trans [OF g1], rule grownI) (use 1 2 in auto)
    moreover have "circle_end tb1 = (circle_begin tb + (circle_len tb + 4)) mod capacity tb"
      using 1(2,4,5) len by (simp add: tb_inv_def)
    ultimately show ?thesis
      using 1 2 assms by (auto simp: hole_inv_def)
  qed
qed

lemma hole_inv_len:
  assumes "hole_inv tb0 head tb off True w"
  shows "circle_len tb = circle_len tb0 + 8 + length w"
proof -
  have "tb_inv tb" "tb_inv tb0"
    using assms by (auto simp: hole_inv_def grown_def)
  moreover obtain hole where "length hole = 4" "length head = 4"
    "contents tb = contents tb0 @ head @ hole @ w"
    using assms by (auto simp: hole_inv_def)
  ultimately show ?thesis
    using length_contents [of tb] length_contents [of tb0] by simp
qed

lemma hole_ok_iff:
  assumes "hole_inv tb0 head tb off ok w"
  shows "ok \<longleftrightarrow> circle_len tb0 + 8 + length w \<le> capacity tb0"
proof (cases ok)
  case True
  moreover have "tb_inv tb" "capacity tb = capacity tb0"
    using assms by (auto simp: hole_inv_def grown_def)
  ultimately show ?thesis
    using hole_inv_len [of tb0 head tb off w] assms by (simp add: tb_inv_def)
next
  case False
  then show ?thesis
    using assms by (simp add: hole_inv_def)
qed

lemma hole_extend:
  assumes "hole_inv tb0 head tb off True w"
  shows "\<exists>tb' ok. extend_from_slice tb b = Some (tb', ok) \<and> hole_inv tb0 head tb' off ok (w @ b)"
proof -
  have inv: "tb_inv tb" "capacity tb = capacity tb0" "grown tb0 tb"
    using assms by (auto simp: hole_inv_def grown_def)
  note len = hole_inv_len [OF assms]
  show ?thesis
  proof (cases "circle_len tb + length b \<le> capacity tb")
    case True
    then obtain tb' where tb': "extend_from_slice tb b = Some (tb', True)" "tb_inv tb'"
      "contents tb' = contents tb @ b" "capacity tb' = capacity tb" "circle_begin tb' = circle_begin tb"
      using extend_from_slice_queue [OF inv(1), of b] by auto
    moreover have "grown tb0 tb'"
      by (rule grown_trans [OF inv(3)], rule grownI [OF inv(1)]) (use tb' in auto)
    ultimately show ?thesis
      using assms by (auto simp: hole_inv_def)
  next
    case False
    then show ?thesis
      using extend_from_slice_queue [OF inv(1), of b] assms len inv by (auto simp: hole_inv_def)
  qed
qed

lemma hole_failed: "hole_inv tb0 head tb off False w \<Longrightarrow> hole_inv tb0 head tb off False (w @ b)"
  by (auto simp: hole_inv_def)

lemma hole_patch:
  assumes "hole_inv tb0 head tb off True w" and "length lf = 4"
  shows "\<exists>tb' e. write_bytes_at_unchecked tb off lf = Some (tb', e) \<and> tb_inv tb'
    \<and> contents tb' = contents tb0 @ head @ lf @ w \<and> capacity tb' = capacity tb0"
proof -
  have inv: "tb_inv tb" "capacity tb = capacity tb0" "tb_inv tb0" "circle_begin tb = circle_begin tb0"
    "off = (circle_begin tb0 + (circle_len tb0 + 4)) mod capacity tb0" "length head = 4"
    using assms(1) by (auto simp: hole_inv_def grown_def)
  obtain hole where hole: "length hole = 4" "contents tb = contents tb0 @ head @ hole @ w"
    using assms(1) by (auto simp: hole_inv_def)
  have "blit (contents tb) (circle_len tb0 + 4) lf = contents tb0 @ head @ lf @ w"
    using hole assms(2) inv(3,6) by (simp add: blit_def)
  then show ?thesis
    using overwrite_queue [OF inv(1), of "circle_len tb0 + 4" lf] hole_inv_len [OF assms(1)]
      inv assms(2) by auto
qed

lemma hole_restore:
  assumes "hole_inv tb0 head tb off ok w"
  shows "\<exists>tb'. restore tb (checkpoint tb0) = Some tb' \<and> tb_inv tb'
    \<and> contents tb' = contents tb0 \<and> capacity tb' = capacity tb0"
  using restore_grown [of tb0 tb] assms by (auto simp: hole_inv_def)

section \<open>The queue as an interface\<close>

text \<open>Taking up to \<open>n\<close> items out, as the transmit loop does while the UART has space.\<close>

fun drain :: "('q \<Rightarrow> ('q \<times> 'a option) option) \<Rightarrow> nat \<Rightarrow> 'q \<Rightarrow> ('q \<times> 'a list) option" where
  "drain shift 0 q = Some (q, [])"
| "drain shift (Suc n) q = do {
     (q, r) \<leftarrow> shift q;
     (case r of
        None \<Rightarrow> Some (q, [])
      | Some b \<Rightarrow> do { (q, bs) \<leftarrow> drain shift n q; Some (q, b # bs) })
   }"

locale bounded_fifo =
  fixes inv :: "'q \<Rightarrow> bool"
    and items :: "'q \<Rightarrow> 'a list"
    and bound :: "'q \<Rightarrow> nat"
    and push :: "'q \<Rightarrow> 'a list \<Rightarrow> ('q \<times> bool) option"
    and shift :: "'q \<Rightarrow> ('q \<times> 'a option) option"
  assumes within_bound: "inv q \<Longrightarrow> length (items q) \<le> bound q"
    and push_fits: "inv q \<Longrightarrow> length (items q) + length xs \<le> bound q \<Longrightarrow>
      \<exists>q'. push q xs = Some (q', True) \<and> inv q' \<and> items q' = items q @ xs \<and> bound q' = bound q"
    and push_full: "inv q \<Longrightarrow> bound q < length (items q) + length xs \<Longrightarrow> push q xs = Some (q, False)"
    and shift_empty: "inv q \<Longrightarrow> items q = [] \<Longrightarrow> shift q = Some (q, None)"
    and shift_item: "inv q \<Longrightarrow> items q = x # xs \<Longrightarrow>
      \<exists>q'. shift q = Some (q', Some x) \<and> inv q' \<and> items q' = xs \<and> bound q' = bound q"
begin

lemma drain_items:
  assumes "inv q"
  shows "\<exists>q'. drain shift n q = Some (q', take n (items q)) \<and> inv q'
    \<and> items q' = drop n (items q) \<and> bound q' = bound q"
  using assms
proof (induction n arbitrary: q)
  case (Suc n)
  show ?case
  proof (cases "items q")
    case Nil
    with Suc.prems show ?thesis
      by (simp add: shift_empty)
  next
    case (Cons x xs)
    then obtain q1 where "shift q = Some (q1, Some x)" "inv q1" "items q1 = xs" "bound q1 = bound q"
      using shift_item [OF Suc.prems] by blast
    with Suc.IH [of q1] Cons show ?thesis
      by auto
  qed
qed simp

lemma push_then_drain:
  assumes "inv q" and "length (items q) + length xs \<le> bound q"
  shows "\<exists>q1 q2. push q xs = Some (q1, True)
    \<and> drain shift (length (items q) + length xs) q1 = Some (q2, items q @ xs) \<and> inv q2
    \<and> items q2 = []"
proof -
  obtain q1 where "push q xs = Some (q1, True)" "inv q1" "items q1 = items q @ xs"
    using push_fits [OF assms] by blast
  with drain_items [of q1 "length (items q) + length xs"] show ?thesis
    by auto
qed

end

interpretation txq: bounded_fifo tb_inv contents capacity extend_from_slice shift_byte
proof (unfold_locales, goal_cases)
  case (1 q)
  then show ?case by (simp add: tb_inv_def)
next
  case (2 q xs)
  then show ?case
    using extend_from_slice_queue [of q xs] by auto
next
  case (3 q xs)
  then show ?case
    using extend_from_slice_queue [of q xs] by auto
next
  case (4 q)
  then show ?case by (rule shift_byte_empty)
next
  case (5 q x xs)
  then show ?case by (rule shift_byte_queue)
qed

section \<open>Properties\<close>



text \<open>
  Roll back: however the buffer was extended or reserved since a checkpoint, restoring the
  checkpoint gives back exactly the queue of that moment.
\<close>

lemma restore_rolls_back:
  assumes "tb_inv tb" and "grown tb tb'"
  shows "\<exists>tb''. restore tb' (checkpoint tb) = Some tb'' \<and> tb_inv tb''
    \<and> contents tb'' = contents tb \<and> capacity tb'' = capacity tb"
  using restore_grown [OF assms] by blast

theorem restore_rolls_back_witness:
  "(let tb = \<lparr>tb_storage = [9, 0, 8], circle_begin = 2, circle_end = 0, circle_len = 1\<rparr>;
        tb' = \<lparr>tb_storage = [9, 4, 8], circle_begin = 2, circle_end = 2, circle_len = 3\<rparr> in
    tb_inv tb \<and> grown tb tb' \<and>
    (\<exists>tb''. restore tb' (checkpoint tb) = Some tb'' \<and> tb_inv tb''
      \<and> contents tb'' = contents tb \<and> capacity tb'' = capacity tb))"
proof -
  let ?tb = "\<lparr>tb_storage = [9, 0, 8], circle_begin = 2, circle_end = 0, circle_len = 1\<rparr>"
  let ?tb' = "\<lparr>tb_storage = [9, 4, 8], circle_begin = 2, circle_end = 2, circle_len = 3\<rparr>"
  have 1: "tb_inv ?tb"
    by (simp add: tb_inv_def capacity_def)
  have 2: "grown ?tb ?tb'"
    by code_simp
  show ?thesis
    unfolding Let_def using 1 2 restore_rolls_back [OF 1 2] by blast
qed

end
