(* ===== verification/Frame_Sink.thy ===== *)
theory Frame_Sink
  imports Frame_Correct Txbuf
begin

text \<open>
  How the device sends (\<open>device/okboot/src/buf.rs\<close>): \<open>FrameWriter\<close> streams a frame into the
  transmit buffer through the byte-stuffing encoder, leaving a hole for the length field, and rolls
  the buffer back when the frame does not fit; \<open>FrameSink::send\<close> sends a message with it,
  \<open>rpc_println!\<close> a text, and \<open>legacy_print_string!\<close> a text in the format of the old protocol.

  The serializer (\<open>postcard\<close>) is a parameter: \<open>to_slice\<close> gives the scratch buffer after the
  call, and the number of bytes used or an error. Formatting is the list of string fragments that
  \<open>writeln!\<close> hands to \<open>write_str\<close>.
\<close>

record FrameSink =
  transmit_buffer :: TransmitBuffer
  slice_buffered_encoder :: BufferedEncoder
  postcard_buffer :: "u8 list option"

definition sink_new :: "TransmitBuffer \<Rightarrow> BufferedEncoder \<Rightarrow> u8 list \<Rightarrow> FrameSink" where
  "sink_new tb enc px =
    \<lparr>transmit_buffer = tb, slice_buffered_encoder = enc, postcard_buffer = Some px\<rparr>"

text \<open>The writer borrows the transmit buffer and the encoder's buffer; it carries both.\<close>

record 'h FrameWriter =
  fw_tb :: TransmitBuffer
  frame_encoder :: FrameEncoder
  fw_checkpoint :: TransmitBufferCheckpoint
  len_offset :: nat
  fw_ok :: bool
  fw_hasher :: 'h
  fmt_bytes :: nat

definition fw_new :: "'h crc_ops \<Rightarrow> TransmitBuffer \<Rightarrow> FrameEncoder \<Rightarrow> 'h FrameWriter option" where
  "fw_new ops tb enc = do {
     let cp = checkpoint tb;
     (tb, ok) \<leftarrow> extend_from_slice tb PREAMBLE_BYTES;
     (tb, offset, ok) \<leftarrow>
       (if ok then do {
          (tb, lo) \<leftarrow> reserve tb 4;
          Some (tb, (case lo of Some v \<Rightarrow> v | None \<Rightarrow> 0), lo \<noteq> None)
        } else Some (tb, 0, False));
     Some \<lparr>fw_tb = tb, frame_encoder = enc, fw_checkpoint = cp, len_offset = offset, fw_ok = ok,
       fw_hasher = hasher_new ops, fmt_bytes = 0\<rparr>
   }"

fun add_bytes_unhashed :: "'h FrameWriter \<Rightarrow> u8 list \<Rightarrow> 'h FrameWriter option" where
  "add_bytes_unhashed self [] = Some self"
| "add_bytes_unhashed self (byte # bytes) =
    (if \<not> fw_ok self then Some self
     else do {
       (e, st) \<leftarrow> enc_write_u8 (frame_encoder self) byte;
       let self = self\<lparr>frame_encoder := e\<rparr>;
       self \<leftarrow> (case st of
          Buf b \<Rightarrow> do {
            (tb, ok) \<leftarrow> extend_from_slice (fw_tb self) b;
            Some (self\<lparr>fw_tb := tb, fw_ok := ok\<rparr>)
          }
        | Pass \<Rightarrow> Some self);
       add_bytes_unhashed self bytes
     })"

definition add_bytes :: "'h crc_ops \<Rightarrow> 'h FrameWriter \<Rightarrow> u8 list \<Rightarrow> 'h FrameWriter option" where
  "add_bytes ops self bytes =
    add_bytes_unhashed (self\<lparr>fw_hasher := hasher_update ops (fw_hasher self) bytes\<rparr>) bytes"

definition write32 :: "'h crc_ops \<Rightarrow> 'h FrameWriter \<Rightarrow> u32 \<Rightarrow> 'h FrameWriter option" where
  "write32 ops self x = add_bytes ops self (u32_to_le_bytes x)"

text \<open>
  The result is the two buffers given back, and whether the frame was queued. An encoder that was
  not finished leaves its buffer as it stands.
\<close>

definition fw_finalize ::
  "'h crc_ops \<Rightarrow> 'h FrameWriter \<Rightarrow> nat \<Rightarrow> (TransmitBuffer \<times> u8 list \<times> bool) option" where
  "fw_finalize ops self payload_bytes = do {
     self \<leftarrow> (if fw_ok self then
         let h = fw_hasher self in
         add_bytes_unhashed (self\<lparr>fw_hasher := hasher_new ops\<rparr>) (u32_to_le_bytes (hasher_finalize ops h))
       else Some self);
     (self, eb) \<leftarrow> (if fw_ok self then do {
         (b, eb) \<leftarrow> enc_finish (frame_encoder self);
         (tb, ok) \<leftarrow> extend_from_slice (fw_tb self) b;
         Some (self\<lparr>fw_tb := tb, fw_ok := ok\<rparr>, eb)
       } else Some (self, buf (inner (frame_encoder self))));
     if \<not> fw_ok self then do {
       tb \<leftarrow> restore (fw_tb self) (fw_checkpoint self);
       Some (tb, eb, False)
     } else
       (case encode_length payload_bytes of
          Some len_bytes \<Rightarrow> do {
            (tb, _) \<leftarrow> write_bytes_at_unchecked (fw_tb self) (len_offset self) len_bytes;
            Some (tb, eb, True)
          }
        | None \<Rightarrow> Some (fw_tb self, eb, False))
   }"

definition fw_abort :: "'h FrameWriter \<Rightarrow> (TransmitBuffer \<times> u8 list) option" where
  "fw_abort self = do {
     tb \<leftarrow> restore (fw_tb self) (fw_checkpoint self);
     Some (tb, buf (inner (frame_encoder self)))
   }"

definition fw_write_str :: "'h crc_ops \<Rightarrow> 'h FrameWriter \<Rightarrow> u8 list \<Rightarrow> 'h FrameWriter option" where
  "fw_write_str ops self s = do {
     self \<leftarrow> add_bytes ops self s;
     Some (self\<lparr>fmt_bytes := fmt_bytes self + length s\<rparr>)
   }"

fun fw_write_fmt :: "'h crc_ops \<Rightarrow> 'h FrameWriter \<Rightarrow> u8 list list \<Rightarrow> 'h FrameWriter option" where
  "fw_write_fmt ops self [] = Some self"
| "fw_write_fmt ops self (s # frags) = do {
     self \<leftarrow> fw_write_str ops self s;
     fw_write_fmt ops self frags
   }"

text \<open>\<open>write_frame\<close> unwraps the encoder that \<open>frame()\<close> returns.\<close>

definition write_frame :: "'h crc_ops \<Rightarrow> FrameSink \<Rightarrow> 'h FrameWriter option" where
  "write_frame ops self = do {
     e \<leftarrow> be_frame (slice_buffered_encoder self);
     fw_new ops (transmit_buffer self) e
   }"

definition give_back :: "FrameSink \<Rightarrow> TransmitBuffer \<Rightarrow> u8 list \<Rightarrow> FrameSink" where
  "give_back self tb eb = self\<lparr>transmit_buffer := tb,
     slice_buffered_encoder := (slice_buffered_encoder self)\<lparr>be_buffer := eb\<rparr>\<rparr>"

datatype 'e SendError = Postcard 'e | ConstructEncoder | Truncated

definition sink_send ::
  "'h crc_ops \<Rightarrow> ('m \<Rightarrow> u8 list \<Rightarrow> u8 list \<times> ('e + nat)) \<Rightarrow> MessageType \<Rightarrow> FrameSink \<Rightarrow> 'm
    \<Rightarrow> (FrameSink \<times> ('e SendError + unit)) option" where
  "sink_send ops to_slice t self msg = do {
     px_buf \<leftarrow> postcard_buffer self;
     let self = self\<lparr>postcard_buffer := None\<rparr>;
     (case be_frame (slice_buffered_encoder self) of
        None \<Rightarrow> Some (self, Inl ConstructEncoder)
      | Some e \<Rightarrow> do {
          fw \<leftarrow> fw_new ops (transmit_buffer self) e;
          fw \<leftarrow> write32 ops fw (message_type_code t);
          (let (px, r) = to_slice msg px_buf in
           case r of
             Inr n \<Rightarrow> do {
               bytes \<leftarrow> subslice px 0 n;
               fw \<leftarrow> add_bytes ops fw bytes;
               (tb, eb, ok) \<leftarrow> fw_finalize ops fw (length bytes);
               Some ((give_back self tb eb)\<lparr>postcard_buffer := Some px\<rparr>,
                 if ok then Inr () else Inl Truncated)
             }
           | Inl err \<Rightarrow> do {
               (tb, eb) \<leftarrow> fw_abort fw;
               Some ((give_back self tb eb)\<lparr>postcard_buffer := Some px\<rparr>, Inl (Postcard err))
             })
        })
   }"

text \<open>\<open>rpc_println!\<close>: the fragments include the newline \<open>writeln!\<close> adds.\<close>

definition rpc_println :: "'h crc_ops \<Rightarrow> FrameSink \<Rightarrow> u8 list list \<Rightarrow> FrameSink option" where
  "rpc_println ops fs frags = do {
     w \<leftarrow> write_frame ops fs;
     w \<leftarrow> write32 ops w (message_type_code PrintString);
     w \<leftarrow> fw_write_fmt ops w frags;
     (tb, eb, _) \<leftarrow> fw_finalize ops w (fmt_bytes w);
     Some (give_back fs tb eb)
   }"

section \<open>Legacy text output\<close>

record Writer =
  w_tb :: TransmitBuffer
  w_checkpoint :: TransmitBufferCheckpoint
  w_len_offset :: nat
  w_ok :: bool

definition legacy_print_string :: "FrameSink \<Rightarrow> Writer option" where
  "legacy_print_string self = do {
     let cp = checkpoint (transmit_buffer self);
     (tb, ok) \<leftarrow> extend_from_slice (transmit_buffer self) (u32_to_le_bytes (command_code CmdPrintString));
     (tb, offset, ok) \<leftarrow>
       (if ok then do {
          (tb, lo) \<leftarrow> reserve tb 4;
          Some (case lo of Some v \<Rightarrow> (tb, v, True) | None \<Rightarrow> (tb, 0, False))
        } else Some (tb, 0, ok));
     Some \<lparr>w_tb = tb, w_checkpoint = cp, w_len_offset = offset, w_ok = ok\<rparr>
   }"

definition legacy_write_str :: "Writer \<Rightarrow> u8 list \<Rightarrow> Writer option" where
  "legacy_write_str self s =
    (if w_ok self then do {
       (tb, ok) \<leftarrow> extend_from_slice (w_tb self) s;
       Some (self\<lparr>w_tb := tb, w_ok := ok\<rparr>)
     } else Some self)"

fun legacy_write_fmt :: "Writer \<Rightarrow> u8 list list \<Rightarrow> Writer option" where
  "legacy_write_fmt self [] = Some self"
| "legacy_write_fmt self (s # frags) = do {
     self \<leftarrow> legacy_write_str self s;
     legacy_write_fmt self frags
   }"

text \<open>The length is computed in 32 bits and wraps around.\<close>

definition legacy_finalize :: "Writer \<Rightarrow> (TransmitBuffer \<times> bool) option" where
  "legacy_finalize self =
    (if \<not> w_ok self then do {
       tb \<leftarrow> restore (w_tb self) (w_checkpoint self);
       Some (tb, w_ok self)
     } else do {
       (tb, _) \<leftarrow> write_bytes_at_unchecked (w_tb self) (w_len_offset self)
         (u32_to_le_bytes (of_nat (bytes_since_checkpoint (w_tb self) (w_checkpoint self)) - 8));
       Some (tb, w_ok self)
     })"

definition legacy_println :: "FrameSink \<Rightarrow> u8 list list \<Rightarrow> FrameSink option" where
  "legacy_println fs frags = do {
     w \<leftarrow> legacy_print_string fs;
     w \<leftarrow> legacy_write_fmt w frags;
     (tb, _) \<leftarrow> legacy_finalize w;
     Some (fs\<lparr>transmit_buffer := tb\<rparr>)
   }"

section \<open>Invariant of a frame being written\<close>

text \<open>
  \<open>tb0\<close> is the transmit buffer the writer started from and \<open>wrote\<close> what the encoder has lent
  out so far: either all of it is queued behind the preamble and the hole for the length field, or
  it did not fit.
\<close>

definition fw_inv :: "TransmitBuffer \<Rightarrow> 'h FrameWriter \<Rightarrow> u8 list \<Rightarrow> bool" where
  "fw_inv tb0 fw wrote \<longleftrightarrow> fw_checkpoint fw = checkpoint tb0 \<and> enc_inv (frame_encoder fw)
    \<and> hole_inv tb0 PREAMBLE_BYTES (fw_tb fw) (len_offset fw) (fw_ok fw) wrote"

definition streaming ::
  "'h crc_ops \<Rightarrow> TransmitBuffer \<Rightarrow> FrameEncoder \<Rightarrow> u8 list \<Rightarrow> 'h FrameWriter \<Rightarrow> bool" where
  "streaming ops tb0 e0 data fw \<longleftrightarrow> fw_hasher fw = hasher_update ops (hasher_new ops) data
    \<and> (\<exists>e out. enc_write_all e0 data = Some (e, out) \<and> fw_inv tb0 fw out
        \<and> (fw_ok fw \<longrightarrow> frame_encoder fw = e))"

lemma length_PREAMBLE_BYTES [simp]: "length PREAMBLE_BYTES = 4"
  by (simp add: PREAMBLE_BYTES_def)

lemma fw_inv_hasher [simp]: "fw_inv tb0 (fw\<lparr>fw_hasher := h\<rparr>) w = fw_inv tb0 fw w"
  by (simp add: fw_inv_def)

lemma fw_inv_fmt [simp]: "fw_inv tb0 (fw\<lparr>fmt_bytes := n\<rparr>) w = fw_inv tb0 fw w"
  by (simp add: fw_inv_def)

lemma fw_new_streaming:
  assumes "tb_inv tb" and "enc_inv e" and "crc_stream ops"
  shows "\<exists>fw. fw_new ops tb e = Some fw \<and> streaming ops tb e [] fw \<and> fmt_bytes fw = 0"
proof -
  have nil: "hasher_update ops h [] = h" for h
    using assms(3) by (simp add: crc_stream_def)
  show ?thesis
    using hole_new [OF assms(1) length_PREAMBLE_BYTES] assms(2)
    by (fastforce simp: fw_new_def streaming_def fw_inv_def nil Let_def split: if_splits)
qed

lemma add_bytes_not_ok: "\<not> fw_ok fw \<Longrightarrow> add_bytes_unhashed fw bs = Some fw"
  by (cases bs) auto

text \<open>Lending a slice to the transmit buffer.\<close>

lemma fw_inv_extend:
  assumes "fw_inv tb0 fw w" and "fw_ok fw" and "enc_inv e"
  shows "\<exists>tb ok. extend_from_slice (fw_tb fw) b = Some (tb, ok)
    \<and> fw_inv tb0 (fw\<lparr>frame_encoder := e, fw_tb := tb, fw_ok := ok\<rparr>) (w @ b)"
  using hole_extend [of tb0 PREAMBLE_BYTES "fw_tb fw" "len_offset fw" w b] assms
  by (auto simp: fw_inv_def)

lemma fw_inv_failed: "fw_inv tb0 fw w \<Longrightarrow> \<not> fw_ok fw \<Longrightarrow> fw_inv tb0 fw (w @ b)"
  by (auto simp: fw_inv_def intro: hole_failed)

lemma add_bytes_unhashed_inv:
  assumes "fw_inv tb0 fw w" and "fw_ok fw" and "enc_write_all (frame_encoder fw) bs = Some (e, out)"
  shows "\<exists>fw'. add_bytes_unhashed fw bs = Some fw' \<and> fw_inv tb0 fw' (w @ out)
    \<and> (fw_ok fw' \<longrightarrow> frame_encoder fw' = e) \<and> fw_hasher fw' = fw_hasher fw
    \<and> fmt_bytes fw' = fmt_bytes fw"
  using assms
proof (induction bs arbitrary: fw w out)
  case (Cons b bs)
  then have enc: "enc_inv (frame_encoder fw)"
    by (simp add: fw_inv_def)
  obtain e1 st where 1: "enc_write_u8 (frame_encoder fw) b = Some (e1, st)" "enc_inv e1"
    using enc_write_u8_total [OF enc] by blast
  let ?lent = "case st of Buf b \<Rightarrow> b | Pass \<Rightarrow> []"
  obtain out1 where o: "enc_write_all e1 bs = Some (e, out1)" "out = ?lent @ out1"
    using Cons.prems(3) 1(1) by (auto split: bind_splits)
  show ?case
  proof (cases st)
    case Pass
    have "fw_inv tb0 (fw\<lparr>frame_encoder := e1\<rparr>) w"
      using Cons.prems(1) 1(2) by (simp add: fw_inv_def)
    then show ?thesis
      using Cons.IH [of "fw\<lparr>frame_encoder := e1\<rparr>" w out1] Cons.prems(2) 1(1) o Pass by auto
  next
    case (Buf c)
    then obtain tb ok where x: "extend_from_slice (fw_tb fw) c = Some (tb, ok)"
      "fw_inv tb0 (fw\<lparr>frame_encoder := e1, fw_tb := tb, fw_ok := ok\<rparr>) (w @ c)" (is "fw_inv tb0 ?fw _")
      using fw_inv_extend [OF Cons.prems(1,2) 1(2)] by blast
    have step: "add_bytes_unhashed fw (b # bs) = add_bytes_unhashed ?fw bs"
      using Cons.prems(2) 1(1) Buf x(1) by simp
    show ?thesis
    proof (cases ok)
      case True
      then show ?thesis
        using Cons.IH [OF x(2), of out1] o Buf step by auto
    next
      case False
      then have "add_bytes_unhashed ?fw bs = Some ?fw"
        by (simp add: add_bytes_not_ok)
      moreover have "fw_inv tb0 ?fw (w @ out)"
        using fw_inv_failed [OF x(2), of out1] False o(2) Buf by simp
      ultimately show ?thesis
        using False step by auto
    qed
  qed
qed auto

lemma add_bytes_streaming:
  assumes "streaming ops tb0 e0 data fw" and "crc_stream ops" and "enc_inv e0"
  shows "\<exists>fw'. add_bytes ops fw bs = Some fw' \<and> streaming ops tb0 e0 (data @ bs) fw'
    \<and> fmt_bytes fw' = fmt_bytes fw"
proof -
  obtain e out where s: "enc_write_all e0 data = Some (e, out)" "fw_inv tb0 fw out"
    "fw_ok fw \<longrightarrow> frame_encoder fw = e" "fw_hasher fw = hasher_update ops (hasher_new ops) data"
    using assms(1) by (auto simp: streaming_def)
  have "enc_inv e"
    using enc_write_all_total [OF assms(3), of data] s(1) by auto
  then obtain e' out' where e': "enc_write_all e bs = Some (e', out')"
    using enc_write_all_total by blast
  then have all: "enc_write_all e0 (data @ bs) = Some (e', out @ out')"
    by (simp add: enc_write_all_append s(1))
  let ?fw = "fw\<lparr>fw_hasher := hasher_update ops (hasher_new ops) (data @ bs)\<rparr>"
  have fw: "add_bytes ops fw bs = add_bytes_unhashed ?fw bs"
    using s(4) crc_stream.update_append [OF assms(2)] by (simp add: add_bytes_def)
  show ?thesis
  proof (cases "fw_ok fw")
    case True
    then have "frame_encoder ?fw = e" "fw_ok ?fw" "fw_inv tb0 ?fw out"
      using s(2,3) by simp_all
    then show ?thesis
      using add_bytes_unhashed_inv [of tb0 ?fw out bs e' out'] e' fw all
      by (auto simp: streaming_def)
  next
    case False
    then have "add_bytes_unhashed ?fw bs = Some ?fw" "fw_inv tb0 ?fw (out @ out')"
      using fw_inv_failed [OF s(2) False] by (auto simp: add_bytes_not_ok)
    then show ?thesis
      using False fw all by (auto simp: streaming_def)
  qed
qed

lemma fw_write_fmt_streaming:
  assumes "streaming ops tb0 e0 data fw" and "crc_stream ops" and "enc_inv e0"
  shows "\<exists>fw'. fw_write_fmt ops fw frags = Some fw' \<and> streaming ops tb0 e0 (data @ concat frags) fw'
    \<and> fmt_bytes fw' = fmt_bytes fw + length (concat frags)"
  using assms(1)
proof (induction frags arbitrary: data fw)
  case (Cons s frags)
  obtain fw1 where 1: "add_bytes ops fw s = Some fw1" "streaming ops tb0 e0 (data @ s) fw1"
    "fmt_bytes fw1 = fmt_bytes fw"
    using add_bytes_streaming [OF Cons.prems assms(2,3)] by blast
  let ?fw = "fw1\<lparr>fmt_bytes := fmt_bytes fw + length s\<rparr>"
  have "streaming ops tb0 e0 (data @ s) ?fw"
    using 1(2) by (auto simp: streaming_def)
  from Cons.IH [OF this] show ?case
    using 1(1,3) by (simp add: fw_write_str_def add.assoc)
qed simp

section \<open>A finished frame\<close>

definition packet_of :: "u8 \<Rightarrow> u8 list \<Rightarrow> u8 list" where
  "packet_of k data = map (\<lambda>x. x XOR k) (cobs_stuff [] data)"

text \<open>The end of a writer: the length field is filled in, or the buffer rolled back.\<close>

lemma fw_inv_patch:
  assumes "fw_inv tb0 fw w" and "fw_ok fw" and "length lf = 4"
  shows "\<exists>tb e. write_bytes_at_unchecked (fw_tb fw) (len_offset fw) lf = Some (tb, e) \<and> tb_inv tb
    \<and> contents tb = contents tb0 @ PREAMBLE_BYTES @ lf @ w \<and> capacity tb = capacity tb0"
  using hole_patch [of tb0 PREAMBLE_BYTES "fw_tb fw" "len_offset fw" w lf] assms
  by (auto simp: fw_inv_def)

lemma fw_inv_restore:
  assumes "fw_inv tb0 fw w"
  shows "\<exists>tb. restore (fw_tb fw) (fw_checkpoint fw) = Some tb \<and> tb_inv tb
    \<and> contents tb = contents tb0 \<and> capacity tb = capacity tb0"
  using hole_restore assms by (fastforce simp: fw_inv_def)

definition frame_fits :: "TransmitBuffer \<Rightarrow> u8 list \<Rightarrow> bool" where
  "frame_fits tb packet \<longleftrightarrow> circle_len tb + 8 + length packet \<le> capacity tb"

definition frame_result ::
  "TransmitBuffer \<Rightarrow> u8 list \<Rightarrow> u8 list \<Rightarrow> TransmitBuffer \<times> u8 list \<times> bool \<Rightarrow> bool" where
  "frame_result tb0 lf packet res \<longleftrightarrow> (case res of (tb, eb, ok) \<Rightarrow>
     tb_inv tb \<and> capacity tb = capacity tb0 \<and> length eb = 255 \<and> ok = frame_fits tb0 packet
     \<and> contents tb = contents tb0 @ (if ok then PREAMBLE_BYTES @ lf @ packet else []))"

lemma fw_finish_failed:
  assumes "fw_inv tb0 fw w" and "\<not> fw_ok fw" and "length w \<le> length packet"
  shows "\<exists>tb. restore (fw_tb fw) (fw_checkpoint fw) = Some tb
    \<and> frame_result tb0 lf packet (tb, buf (inner (frame_encoder fw)), False)"
proof -
  have "\<not> frame_fits tb0 packet"
    using assms by (auto simp: fw_inv_def hole_inv_def frame_fits_def)
  then show ?thesis
    using fw_inv_restore [OF assms(1)] assms(1)
    by (auto simp: frame_result_def fw_inv_def enc_inv_def)
qed

lemma fw_finish_lent:
  assumes "fw_inv tb0 fw packet" and "frame_fits tb0 packet \<Longrightarrow> encode_length n = Some lf"
    and "length eb = 255"
  shows "\<exists>res. (if \<not> fw_ok fw then do {
       tb \<leftarrow> restore (fw_tb fw) (fw_checkpoint fw);
       Some (tb, eb, False)
     } else
       (case encode_length n of
          Some len_bytes \<Rightarrow> do {
            (tb, _) \<leftarrow> write_bytes_at_unchecked (fw_tb fw) (len_offset fw) len_bytes;
            Some (tb, eb, True)
          }
        | None \<Rightarrow> Some (fw_tb fw, eb, False))) = Some res \<and> frame_result tb0 lf packet res"
proof (cases "fw_ok fw")
  case True
  then have fits: "frame_fits tb0 packet"
    using hole_ok_iff [of tb0 PREAMBLE_BYTES "fw_tb fw"] assms(1)
    by (auto simp: fw_inv_def frame_fits_def)
  have lf: "encode_length n = Some lf"
    by (rule assms(2) [OF fits])
  obtain tb e where "write_bytes_at_unchecked (fw_tb fw) (len_offset fw) lf = Some (tb, e)"
    "tb_inv tb" "contents tb = contents tb0 @ PREAMBLE_BYTES @ lf @ packet" "capacity tb = capacity tb0"
    using fw_inv_patch [OF assms(1) True, of lf] decode_encode_length [OF lf] by blast
  then show ?thesis
    using True fits assms(3) lf by (intro exI [of _ "(tb, eb, True)"]) (simp add: frame_result_def)
next
  case False
  then show ?thesis
    using fw_finish_failed [OF assms(1) False, of packet lf] assms(3)
    by (auto simp: frame_result_def)
qed

lemma fw_finalize_frame:
  fixes ops :: "'h crc_ops"
  defines "digest \<equiv> \<lambda>data. u32_to_le_bytes (crc_hash ops data)"
  assumes "streaming ops tb0 e0 data fw" and "enc_inv e0" and "pending e0 = []"
    and "packet = packet_of (enc_xor e0) (data @ digest data)"
    and "frame_fits tb0 packet \<Longrightarrow> encode_length n = Some lf"
  shows "\<exists>res. fw_finalize ops fw n = Some res \<and> frame_result tb0 lf packet res"
proof -
  obtain e out where s: "enc_write_all e0 data = Some (e, out)" "fw_inv tb0 fw out"
    "fw_ok fw \<longrightarrow> frame_encoder fw = e" "fw_hasher fw = hasher_update ops (hasher_new ops) data"
    using assms(2) by (auto simp: streaming_def)
  have "enc_inv e"
    using enc_write_all_total [OF assms(3), of data] s(1) by auto
  then obtain e3 o3 where e3: "enc_write_all e (digest data) = Some (e3, o3)"
    using enc_write_all_total by blast
  then obtain last_block eb where fin: "enc_finish e3 = Some (last_block, eb)" "length eb = 255"
    "packet = out @ o3 @ last_block"
    using enc_write_all_spec [OF assms(3), of "data @ digest data"] s(1) assms(4,5)
    by (auto simp: enc_write_all_append packet_of_def)
  show ?thesis
  proof (cases "fw_ok fw")
    case False
    then show ?thesis
      using fw_finish_failed [OF s(2) False, of packet lf] fin(3) by (auto simp: fw_finalize_def)
  next
    case True
    let ?fw = "fw\<lparr>fw_hasher := hasher_new ops\<rparr>"
    obtain fw1 where 1: "add_bytes_unhashed ?fw (digest data) = Some fw1"
      "fw_inv tb0 fw1 (out @ o3)" "fw_ok fw1 \<longrightarrow> frame_encoder fw1 = e3"
      using add_bytes_unhashed_inv [of tb0 ?fw out "digest data" e3 o3] s(2,3) e3 True by auto
    have add: "add_bytes_unhashed ?fw (u32_to_le_bytes (hasher_finalize ops (fw_hasher fw))) = Some fw1"
      using 1(1) s(4) by (simp add: digest_def crc_hash_def)
    show ?thesis
    proof (cases "fw_ok fw1")
      case False
      then show ?thesis
        using fw_finish_failed [OF 1(2) False, of packet lf] fin(3) True add
        by (auto simp: fw_finalize_def)
    next
      case ok1: True
      then have "enc_inv e3" "frame_encoder fw1 = e3"
        using 1(2,3) by (auto simp: fw_inv_def)
      then obtain tb ok where x: "extend_from_slice (fw_tb fw1) last_block = Some (tb, ok)"
        "fw_inv tb0 (fw1\<lparr>fw_tb := tb, fw_ok := ok\<rparr>) packet" (is "fw_inv tb0 ?fw2 _")
        using fw_inv_extend [OF 1(2) ok1, of e3 last_block] fin(3) by auto
      show ?thesis
        using fw_finish_lent [OF x(2) assms(6) fin(2)] True ok1 add fin(1) x(1) \<open>frame_encoder fw1 = e3\<close>
        by (simp add: fw_finalize_def)
    qed
  qed
qed

section \<open>The sink\<close>

definition sink_ok :: "FrameSink \<Rightarrow> bool" where
  "sink_ok fs \<longleftrightarrow> tb_inv (transmit_buffer fs) \<and> capacity (transmit_buffer fs) \<le> 2 ^ 24
    \<and> length (be_buffer (slice_buffered_encoder fs)) = 255
    \<and> be_xor (slice_buffered_encoder fs) = COBS_XOR \<and> postcard_buffer fs \<noteq> None"

definition queued :: "FrameSink \<Rightarrow> u8 list" where
  "queued fs = contents (transmit_buffer fs)"

definition space :: "FrameSink \<Rightarrow> nat" where
  "space fs = capacity (transmit_buffer fs) - length (queued fs)"

text \<open>The bytes a frame adds to the queue: all of it, or nothing when it does not fit.\<close>

definition frame_or_nothing ::
  "'h crc_ops \<Rightarrow> FrameSink \<Rightarrow> MessageType \<Rightarrow> u8 list \<Rightarrow> u8 list" where
  "frame_or_nothing ops fs t p =
    (case encode_frame ops t p of
       None \<Rightarrow> []
     | Some wire \<Rightarrow> if length wire \<le> space fs then wire else [])"

lemma encode_frame_packet:
  "encode_frame ops t p =
    (case encode_length (length p) of None \<Rightarrow> None
     | Some lf \<Rightarrow> Some (PREAMBLE_BYTES @ lf @ packet_of COBS_XOR (message_bytes ops t p)))"
  by (simp add: encode_frame_def packet_of_def cobs_encode_stuff split: option.split)

lemma frame_result_queued:
  assumes "frame_result (transmit_buffer fs) lf (packet_of COBS_XOR (message_bytes ops t p)) (tb, eb, ok)"
    and "frame_fits (transmit_buffer fs) (packet_of COBS_XOR (message_bytes ops t p)) \<Longrightarrow>
      encode_length (length p) = Some lf"
    and "sink_ok fs"
  shows "contents tb = queued fs @ frame_or_nothing ops fs t p
    \<and> ok = (frame_or_nothing ops fs t p \<noteq> [])"
proof -
  let ?packet = "packet_of COBS_XOR (message_bytes ops t p)"
  have inv: "tb_inv (transmit_buffer fs)"
    using assms(3) by (simp add: sink_ok_def)
  show ?thesis
  proof (cases "encode_length (length p)")
    case None
    then show ?thesis
      using assms(1,2) by (auto simp: frame_result_def frame_or_nothing_def encode_frame_packet queued_def)
  next
    case (Some l)
    have "8 + length ?packet \<le> space fs \<longleftrightarrow> frame_fits (transmit_buffer fs) ?packet"
      using inv by (auto simp: frame_fits_def space_def queued_def tb_inv_def)
    moreover have "PREAMBLE_BYTES \<noteq> []"
      by (simp add: PREAMBLE_BYTES_def)
    ultimately show ?thesis
      using assms(1,2) Some decode_encode_length [OF Some]
      by (auto simp: frame_result_def frame_or_nothing_def encode_frame_packet queued_def)
  qed
qed

text \<open>A payload whose frame fits a buffer of at most 16 MiB has a length that can be encoded.\<close>

lemma frame_fits_encode_length:
  assumes "frame_fits tb (packet_of k (message_bytes ops t p))" and "capacity tb \<le> 2 ^ 24"
  shows "\<exists>lf. encode_length (length p) = Some lf"
proof -
  have "length p \<le> length (message_bytes ops t p)"
    by (simp add: message_bytes_def Let_def)
  also have "\<dots> \<le> length (packet_of k (message_bytes ops t p))"
    using length_cobs_stuff [of "[]" "message_bytes ops t p"] by (simp add: packet_of_def)
  finally have "length p < 2 ^ 24"
    using assms by (simp add: frame_fits_def)
  then show ?thesis
    by (simp add: encode_length_eq)
qed

text \<open>The whole life of a writer: created, fed a message type and a payload, finalized.\<close>

lemma sink_frame:
  assumes "sink_ok fs" and "streaming ops (transmit_buffer fs) e0 (u32_to_le_bytes (message_type_code t) @ p) fw"
    and "be_frame (slice_buffered_encoder fs) = Some e0"
  shows "\<exists>tb eb. fw_finalize ops fw (length p) = Some (tb, eb, frame_or_nothing ops fs t p \<noteq> [])
    \<and> contents tb = queued fs @ frame_or_nothing ops fs t p
    \<and> tb_inv tb \<and> capacity tb = capacity (transmit_buffer fs) \<and> length eb = 255"
proof -
  let ?data = "u32_to_le_bytes (message_type_code t) @ p"
  let ?packet = "packet_of COBS_XOR (message_bytes ops t p)"
  define lf where "lf = (case encode_length (length p) of Some l \<Rightarrow> l | None \<Rightarrow> [])"
  have e0: "enc_inv e0" "pending e0 = []" "enc_xor e0 = COBS_XOR"
    using enc_new [of "be_buffer (slice_buffered_encoder fs)" COBS_XOR] assms(1,3)
    by (auto simp: sink_ok_def be_frame_def)
  have lf: "frame_fits (transmit_buffer fs) ?packet \<Longrightarrow> encode_length (length p) = Some lf"
    using frame_fits_encode_length [of "transmit_buffer fs" COBS_XOR ops t p] assms(1)
    by (auto simp: lf_def sink_ok_def)
  have "?packet = packet_of (enc_xor e0) (?data @ u32_to_le_bytes (crc_hash ops ?data))"
    by (simp add: message_bytes_def Let_def e0(3))
  from fw_finalize_frame [OF assms(2) e0(1,2) this lf]
  obtain tb eb ok where r: "fw_finalize ops fw (length p) = Some (tb, eb, ok)"
    "frame_result (transmit_buffer fs) lf ?packet (tb, eb, ok)"
    by auto
  then show ?thesis
    using frame_result_queued [OF r(2) lf assms(1)] by (auto simp: frame_result_def)
qed

lemma sink_writer:
  assumes "sink_ok fs" and "crc_stream ops"
  shows "\<exists>e0 fw. be_frame (slice_buffered_encoder fs) = Some e0
    \<and> fw_new ops (transmit_buffer fs) e0 = Some fw \<and> fmt_bytes fw = 0 \<and> enc_inv e0
    \<and> streaming ops (transmit_buffer fs) e0 [] fw"
proof -
  obtain e0 where e0: "be_frame (slice_buffered_encoder fs) = Some e0" "enc_inv e0"
    using enc_new [of "be_buffer (slice_buffered_encoder fs)" COBS_XOR] assms(1)
    by (auto simp: sink_ok_def be_frame_def)
  then show ?thesis
    using fw_new_streaming [OF _ e0(2) assms(2), of "transmit_buffer fs"] assms(1)
    by (auto simp: sink_ok_def)
qed

definition sink_after :: "FrameSink \<Rightarrow> u8 list \<Rightarrow> FrameSink \<Rightarrow> bool" where
  "sink_after fs extra fs' \<longleftrightarrow> sink_ok fs' \<and> queued fs' = queued fs @ extra
    \<and> capacity (transmit_buffer fs') = capacity (transmit_buffer fs)"

lemma send_ok:
  assumes "sink_ok fs" and "crc_stream ops" and "postcard_buffer fs = Some px"
    and "to_slice msg px = (px', Inr n)" and "n \<le> length px'"
  shows "\<exists>fs'. sink_send ops to_slice t fs msg =
      Some (fs', if frame_or_nothing ops fs t (take n px') \<noteq> [] then Inr () else Inl Truncated)
    \<and> sink_after fs (frame_or_nothing ops fs t (take n px')) fs'"
proof -
  obtain e0 fw where w: "be_frame (slice_buffered_encoder fs) = Some e0"
    "fw_new ops (transmit_buffer fs) e0 = Some fw" "enc_inv e0"
    "streaming ops (transmit_buffer fs) e0 [] fw"
    using sink_writer [OF assms(1,2)] by blast
  obtain fw1 where 1: "write32 ops fw (message_type_code t) = Some fw1"
    "streaming ops (transmit_buffer fs) e0 (u32_to_le_bytes (message_type_code t)) fw1"
    using add_bytes_streaming [OF w(4) assms(2) w(3)] by (auto simp: write32_def)
  obtain fw2 where 2: "add_bytes ops fw1 (take n px') = Some fw2"
    "streaming ops (transmit_buffer fs) e0 (u32_to_le_bytes (message_type_code t) @ take n px') fw2"
    using add_bytes_streaming [OF 1(2) assms(2) w(3)] by blast
  obtain tb eb where f: "fw_finalize ops fw2 (length (take n px')) =
      Some (tb, eb, frame_or_nothing ops fs t (take n px') \<noteq> [])"
    "contents tb = queued fs @ frame_or_nothing ops fs t (take n px')" "tb_inv tb"
    "capacity tb = capacity (transmit_buffer fs)" "length eb = 255"
    using sink_frame [OF assms(1) 2(2) w(1)] by blast
  let ?fs = "(give_back (fs\<lparr>postcard_buffer := None\<rparr>) tb eb)\<lparr>postcard_buffer := Some px'\<rparr>"
  have "sink_send ops to_slice t fs msg =
      Some (?fs, if frame_or_nothing ops fs t (take n px') \<noteq> [] then Inr () else Inl Truncated)"
    using assms w 1 2 f(1) by (simp add: sink_send_def)
  moreover have "sink_after fs (frame_or_nothing ops fs t (take n px')) ?fs"
    using assms(1) f(2-5) by (simp add: sink_after_def sink_ok_def give_back_def queued_def)
  ultimately show ?thesis
    by blast
qed

lemma send_serialize_error:
  assumes "sink_ok fs" and "crc_stream ops" and "postcard_buffer fs = Some px"
    and "to_slice msg px = (px', Inl err)"
  shows "\<exists>fs'. sink_send ops to_slice t fs msg = Some (fs', Inl (Postcard err))
    \<and> sink_after fs [] fs'"
proof -
  obtain e0 fw where w: "be_frame (slice_buffered_encoder fs) = Some e0"
    "fw_new ops (transmit_buffer fs) e0 = Some fw" "enc_inv e0"
    "streaming ops (transmit_buffer fs) e0 [] fw"
    using sink_writer [OF assms(1,2)] by blast
  obtain fw1 out where 1: "write32 ops fw (message_type_code t) = Some fw1"
    "fw_inv (transmit_buffer fs) fw1 out"
    using add_bytes_streaming [OF w(4) assms(2) w(3)] by (fastforce simp: write32_def streaming_def)
  obtain tb where tb: "restore (fw_tb fw1) (fw_checkpoint fw1) = Some tb" "tb_inv tb"
    "contents tb = contents (transmit_buffer fs)" "capacity tb = capacity (transmit_buffer fs)"
    using fw_inv_restore [OF 1(2)] by blast
  let ?fs = "(give_back (fs\<lparr>postcard_buffer := None\<rparr>) tb (buf (inner (frame_encoder fw1))))
    \<lparr>postcard_buffer := Some px'\<rparr>"
  have "sink_send ops to_slice t fs msg = Some (?fs, Inl (Postcard err))"
    using assms w 1 tb(1) by (simp add: sink_send_def fw_abort_def)
  moreover have "sink_after fs [] ?fs"
    using assms(1) tb 1(2)
    by (simp add: sink_after_def sink_ok_def give_back_def queued_def fw_inv_def enc_inv_def)
  ultimately show ?thesis
    by blast
qed

lemma println_frame:
  assumes "sink_ok fs" and "crc_stream ops"
  shows "\<exists>fs'. rpc_println ops fs frags = Some fs'
    \<and> sink_after fs (frame_or_nothing ops fs PrintString (concat frags)) fs'"
proof -
  obtain e0 fw where w: "be_frame (slice_buffered_encoder fs) = Some e0"
    "fw_new ops (transmit_buffer fs) e0 = Some fw" "enc_inv e0" "fmt_bytes fw = 0"
    "streaming ops (transmit_buffer fs) e0 [] fw"
    using sink_writer [OF assms] by blast
  obtain fw1 where 1: "write32 ops fw (message_type_code PrintString) = Some fw1" "fmt_bytes fw1 = 0"
    "streaming ops (transmit_buffer fs) e0 (u32_to_le_bytes (message_type_code PrintString)) fw1"
    using add_bytes_streaming [OF w(5) assms(2) w(3)] w(4) by (fastforce simp: write32_def)
  obtain fw2 where 2: "fw_write_fmt ops fw1 frags = Some fw2" "fmt_bytes fw2 = length (concat frags)"
    "streaming ops (transmit_buffer fs) e0
      (u32_to_le_bytes (message_type_code PrintString) @ concat frags) fw2"
    using fw_write_fmt_streaming [OF 1(3) assms(2) w(3)] 1(2) by (metis add_0)
  obtain tb eb where f: "fw_finalize ops fw2 (length (concat frags)) =
      Some (tb, eb, frame_or_nothing ops fs PrintString (concat frags) \<noteq> [])"
    "contents tb = queued fs @ frame_or_nothing ops fs PrintString (concat frags)" "tb_inv tb"
    "capacity tb = capacity (transmit_buffer fs)" "length eb = 255"
    using sink_frame [OF assms(1) 2(3) w(1)] by blast
  have "rpc_println ops fs frags = Some (give_back fs tb eb)"
    using w 1 2 f(1) by (simp add: rpc_println_def write_frame_def)
  moreover have "sink_after fs (frame_or_nothing ops fs PrintString (concat frags)) (give_back fs tb eb)"
    using assms(1) f(2-5) by (simp add: sink_after_def sink_ok_def give_back_def queued_def)
  ultimately show ?thesis
    by blast
qed

text \<open>Legacy text: the command word, a length, the text.\<close>

definition legacy_text :: "u32 \<Rightarrow> u8 list \<Rightarrow> u8 list" where
  "legacy_text len text =
    u32_to_le_bytes (command_code CmdPrintString) @ u32_to_le_bytes len @ text"

definition w_inv :: "TransmitBuffer \<Rightarrow> Writer \<Rightarrow> u8 list \<Rightarrow> bool" where
  "w_inv tb0 w wrote \<longleftrightarrow> w_checkpoint w = checkpoint tb0
    \<and> hole_inv tb0 (u32_to_le_bytes (command_code CmdPrintString)) (w_tb w) (w_len_offset w) (w_ok w)
        wrote"

lemma legacy_print_string_inv:
  assumes "tb_inv (transmit_buffer fs)"
  shows "\<exists>w. legacy_print_string fs = Some w \<and> w_inv (transmit_buffer fs) w []"
  using hole_new [OF assms, of "u32_to_le_bytes (command_code CmdPrintString)"]
  by (fastforce simp: legacy_print_string_def w_inv_def Let_def split: if_splits option.splits)

lemma legacy_write_fmt_inv:
  assumes "w_inv tb0 w wrote"
  shows "\<exists>w'. legacy_write_fmt w frags = Some w' \<and> w_inv tb0 w' (wrote @ concat frags)"
  using assms
proof (induction frags arbitrary: w wrote)
  case (Cons s frags)
  have "\<exists>w1. legacy_write_str w s = Some w1 \<and> w_inv tb0 w1 (wrote @ s)"
  proof (cases "w_ok w")
    case True
    then show ?thesis
      using hole_extend [of tb0 _ "w_tb w" "w_len_offset w" wrote s] Cons.prems
      by (fastforce simp: legacy_write_str_def w_inv_def)
  next
    case False
    then show ?thesis
      using Cons.prems by (auto simp: legacy_write_str_def w_inv_def intro: hole_failed)
  qed
  then show ?case
    using Cons.IH by fastforce
qed simp

lemma legacy_println_queued:
  assumes "sink_ok fs"
  shows "\<exists>fs'. legacy_println fs frags = Some fs' \<and> sink_after fs
    (if 8 + length (concat frags) \<le> space fs
     then legacy_text
       (of_nat ((8 + length (concat frags)) mod capacity (transmit_buffer fs)) - 8) (concat frags)
     else []) fs'"
proof -
  let ?tb = "transmit_buffer fs"
  have inv: "tb_inv ?tb"
    using assms by (simp add: sink_ok_def)
  obtain w0 where 0: "legacy_print_string fs = Some w0" "w_inv ?tb w0 []"
    using legacy_print_string_inv [OF inv] by blast
  obtain w where w: "legacy_write_fmt w0 frags = Some w" "w_inv ?tb w (concat frags)"
    using legacy_write_fmt_inv [OF 0(2)] by fastforce
  have fits: "w_ok w \<longleftrightarrow> 8 + length (concat frags) \<le> space fs"
  proof -
    have "w_ok w \<longleftrightarrow> circle_len ?tb + 8 + length (concat frags) \<le> capacity ?tb"
      using w(2) unfolding w_inv_def by (intro hole_ok_iff) blast
    moreover have "circle_len ?tb \<le> capacity ?tb" "space fs = capacity ?tb - circle_len ?tb"
      using inv by (simp_all add: space_def queued_def tb_inv_def)
    ultimately show ?thesis
      by auto
  qed
  show ?thesis
  proof (cases "w_ok w")
    case True
    then have hole: "hole_inv ?tb (u32_to_le_bytes (command_code CmdPrintString)) (w_tb w)
        (w_len_offset w) True (concat frags)"
      using w(2) by (simp add: w_inv_def)
    then have since: "bytes_since_checkpoint (w_tb w) (w_checkpoint w) =
        (8 + length (concat frags)) mod capacity ?tb"
      using bytes_since_checkpoint_grown [OF inv, of "w_tb w"] hole_inv_len [OF hole] w(2)
      by (simp add: w_inv_def hole_inv_def grown_def)
    let ?len = "of_nat ((8 + length (concat frags)) mod capacity ?tb) - 8 :: u32"
    obtain tb e where tb: "write_bytes_at_unchecked (w_tb w) (w_len_offset w) (u32_to_le_bytes ?len) = Some (tb, e)"
      "tb_inv tb" "capacity tb = capacity ?tb" "contents tb = queued fs @ legacy_text ?len (concat frags)"
      using hole_patch [OF hole, of "u32_to_le_bytes ?len"] by (auto simp: legacy_text_def queued_def)
    have "legacy_println fs frags = Some (fs\<lparr>transmit_buffer := tb\<rparr>)"
      using 0(1) w(1) True since tb(1) by (simp add: legacy_println_def legacy_finalize_def)
    then show ?thesis
      using True fits tb(2-4) assms by (auto simp: sink_after_def sink_ok_def queued_def)
  next
    case False
    then obtain tb where tb: "restore (w_tb w) (w_checkpoint w) = Some tb" "tb_inv tb"
      "contents tb = queued fs" "capacity tb = capacity ?tb"
      using hole_restore [of ?tb] w(2) by (fastforce simp: w_inv_def queued_def)
    have "legacy_println fs frags = Some (fs\<lparr>transmit_buffer := tb\<rparr>)"
      using 0(1) w(1) False tb(1) by (simp add: legacy_println_def legacy_finalize_def)
    then show ?thesis
      using False fits tb(2-4) assms by (auto simp: sink_after_def sink_ok_def queued_def)
  qed
qed

section \<open>Properties\<close>

text \<open>
  C11. Sending a message: \<open>FrameSink::send\<close> never panics and never leaves a partial frame. When the
  serializer succeeds, either the frame of the serialized message, byte for byte the one the host's
  \<open>encode\<close> would build, is appended to the queue and the result is \<open>Ok\<close>, or the frame does not
  fit, the queue is as before and the result is \<open>Truncated\<close>; when the serializer fails, the queue
  is as before and the error is passed on. The sink is well formed again in all three cases.
\<close>

theorem send_all_or_nothing:
  assumes "sink_ok fs" and "crc_stream ops" and "postcard_buffer fs = Some px"
    and "\<And>px' n. to_slice msg px = (px', Inr n) \<Longrightarrow> n \<le> length px'"
  shows "\<exists>fs' r. sink_send ops to_slice t fs msg = Some (fs', r) \<and> sink_ok fs' \<and>
    (case to_slice msg px of
       (px', Inl err) \<Rightarrow> r = Inl (Postcard err) \<and> queued fs' = queued fs
     | (px', Inr n) \<Rightarrow>
         (case encode_frame ops t (take n px') of
            Some wire \<Rightarrow>
              if length (queued fs) + length wire \<le> capacity (transmit_buffer fs)
              then r = Inr () \<and> queued fs' = queued fs @ wire
              else r = Inl Truncated \<and> queued fs' = queued fs
          | None \<Rightarrow> r = Inl Truncated \<and> queued fs' = queued fs))"
proof (cases "to_slice msg px")
  case (Pair px' r)
  have len: "length (queued fs) \<le> capacity (transmit_buffer fs)"
    using assms(1) by (simp add: sink_ok_def queued_def tb_inv_def)
  show ?thesis
  proof (cases r)
    case (Inl err)
    then show ?thesis
      using send_serialize_error [OF assms(1-3), of to_slice msg px' err t] Pair
      by (auto simp: sink_after_def)
  next
    case (Inr n)
    have "encode_frame ops t (take n px') = Some wire \<Longrightarrow> wire \<noteq> []" for wire
      by (auto simp: encode_frame_packet PREAMBLE_BYTES_def split: option.splits)
    then show ?thesis
      using send_ok [OF assms(1-3), of to_slice msg px' n t] assms(4) Pair Inr len
      by (fastforce simp: sink_after_def frame_or_nothing_def space_def split: option.splits)
  qed
qed

text \<open>A sink with a 64-byte transmit buffer and a serializer that copies bytes, for witnesses.\<close>

definition small_sink :: FrameSink where
  "small_sink = sink_new (tb_new (replicate 64 0)) \<lparr>be_buffer = replicate 255 0, be_xor = COBS_XOR\<rparr>
     (replicate 16 0)"

definition copy_to_slice :: "u8 list \<Rightarrow> u8 list \<Rightarrow> u8 list \<times> (unit + nat)" where
  "copy_to_slice m px =
    (if length m \<le> length px then (m @ drop (length m) px, Inr (length m)) else (px, Inl ()))"

lemma small_sink_ok [simp]: "sink_ok small_sink" "postcard_buffer small_sink = Some (replicate 16 0)"
  "capacity (transmit_buffer small_sink) = 64" "queued small_sink = []"
  by (simp_all add: sink_ok_def small_sink_def sink_new_def tb_new_def tb_inv_def capacity_def
      queued_def contents_def)

theorem send_all_or_nothing_witness:
  "sink_ok small_sink \<and> crc_stream crc32_ops \<and> postcard_buffer small_sink = Some (replicate 16 0)
   \<and> (\<exists>fs' r. sink_send crc32_ops copy_to_slice ChunkReq small_sink [3, 0] = Some (fs', r) \<and> sink_ok fs' \<and>
      (case encode_frame crc32_ops ChunkReq [3, 0] of
         Some wire \<Rightarrow>
           if length (queued small_sink) + length wire \<le> capacity (transmit_buffer small_sink)
           then r = Inr () \<and> queued fs' = queued small_sink @ wire
           else r = Inl Truncated \<and> queued fs' = queued small_sink
       | None \<Rightarrow> r = Inl Truncated \<and> queued fs' = queued small_sink))"
  using send_all_or_nothing [OF small_sink_ok(1) crc32.crc_stream_axioms small_sink_ok(2),
      of copy_to_slice "[3, 0]" ChunkReq] crc32.crc_stream_axioms
  by (simp add: copy_to_slice_def)

text \<open>
  Printing: \<open>rpc_println!\<close> always returns with a well-formed sink, and has queued either one
  complete frame of type \<open>PrintString\<close> whose payload is the formatted text, however the formatter
  split it into fragments, or, when that frame does not fit, nothing.
\<close>

lemma rpc_println_queues_text:
  assumes "sink_ok fs" and "crc_stream ops"
  shows "\<exists>fs'. rpc_println ops fs frags = Some fs' \<and> sink_ok fs' \<and>
    queued fs' = queued fs @ (case encode_frame ops PrintString (concat frags) of
        None \<Rightarrow> []
      | Some wire \<Rightarrow>
          if length wire \<le> capacity (transmit_buffer fs) - length (queued fs) then wire else [])"
  using println_frame [OF assms, of frags]
  unfolding sink_after_def frame_or_nothing_def space_def by blast

theorem rpc_println_queues_text_witness:
  "sink_ok small_sink \<and> crc_stream crc32_ops \<and>
   (\<exists>fs'. rpc_println crc32_ops small_sink [[104, 105], [10]] = Some fs' \<and> sink_ok fs' \<and>
    queued fs' = queued small_sink @
      (case encode_frame crc32_ops PrintString (concat [[104, 105], [10]]) of
        None \<Rightarrow> []
      | Some wire \<Rightarrow>
          if length wire \<le> capacity (transmit_buffer small_sink) - length (queued small_sink)
          then wire else []))"
  using rpc_println_queues_text [OF small_sink_ok(1) crc32.crc_stream_axioms, of "[[104, 105], [10]]"]
    crc32.crc_stream_axioms by simp

text \<open>
  Printing in the legacy format: what is queued is the print-string command, the length of the
  text as a 32-bit little-endian number and the text, or nothing when it does not fit. The length
  is only right when the record does not fill an empty buffer to the last byte: then the code
  measures zero bytes since its checkpoint and the length field wraps around to \<open>0xfffffff8\<close>.
\<close>

lemma legacy_println_queues_text:
  assumes "sink_ok fs"
  shows "\<exists>fs'. legacy_println fs frags = Some fs' \<and> sink_ok fs' \<and>
    queued fs' = queued fs @
      (let text = concat frags; cap = capacity (transmit_buffer fs) in
       if 8 + length text + length (queued fs) \<le> cap
       then u32_to_le_bytes (command_code CmdPrintString)
         @ u32_to_le_bytes (if queued fs = [] \<and> 8 + length text = cap then 0xfffffff8
             else of_nat (length text)) @ text
       else [])"
proof -
  let ?text = "concat frags" and ?cap = "capacity (transmit_buffer fs)"
  have inv: "length (queued fs) \<le> ?cap" "0 < ?cap"
    using assms by (auto simp: sink_ok_def queued_def tb_inv_def)
  have len: "of_nat ((8 + length ?text) mod ?cap) - 8 =
      (if queued fs = [] \<and> 8 + length ?text = ?cap then 0xfffffff8 else of_nat (length ?text) :: u32)"
    if "8 + length ?text + length (queued fs) \<le> ?cap"
  proof (cases "8 + length ?text = ?cap")
    case True
    with that show ?thesis by simp
  next
    case False
    with that have "(8 + length ?text) mod ?cap = 8 + length ?text"
      by simp
    with False show ?thesis by simp
  qed
  have fits: "8 + length ?text \<le> space fs \<longleftrightarrow> 8 + length ?text + length (queued fs) \<le> ?cap"
    using inv by (auto simp: space_def)
  show ?thesis
  proof (cases "8 + length ?text + length (queued fs) \<le> ?cap")
    case True
    then show ?thesis
      using legacy_println_queued [OF assms, of frags] fits
      unfolding sink_after_def legacy_text_def Let_def len [OF True] by auto
  next
    case False
    then show ?thesis
      using legacy_println_queued [OF assms, of frags] fits by (auto simp: sink_after_def)
  qed
qed

theorem legacy_println_queues_text_witness:
  "sink_ok small_sink \<and>
   (\<exists>fs'. legacy_println small_sink [[104, 105], [10]] = Some fs' \<and> sink_ok fs' \<and>
    queued fs' = u32_to_le_bytes (command_code CmdPrintString) @ u32_to_le_bytes 3 @ [104, 105, 10])"
  using legacy_println_queues_text [OF small_sink_ok(1), of "[[104, 105], [10]]"]
  by (simp add: Let_def)

end
