(* ===== verification/Machine.thy ===== *)
theory Machine
  imports Message
begin

text \<open>
  What the boot loader sees of the machine: physical memory as a map from 32-bit addresses to
  bytes, and the mini UART as the bytes still to be received, the bytes handed to the
  transmitter and the clock divider. The blocking UART primitives of \<open>device/okboot/src/legacy/uart1.rs\<close> and the
  blocking text output of \<open>legacy/fmt.rs\<close> are defined on it. Status polling is not modelled: a
  blocking write returns once the byte is handed over, a blocking read returns the next byte and
  never returns (\<open>None\<close>) when no byte ever comes.
\<close>

type_synonym memory = "u32 \<Rightarrow> u8"

definition mem_write :: "memory \<Rightarrow> u32 \<Rightarrow> u8 list \<Rightarrow> memory" where
  "mem_write m a bs = (\<lambda>x. if unat (x - a) < length bs then bs ! unat (x - a) else m x)"

definition mem_read :: "memory \<Rightarrow> u32 \<Rightarrow> nat \<Rightarrow> u8 list" where
  "mem_read m a n = map (\<lambda>i. m (a + of_nat i)) [0..<n]"

record machine =
  ram :: memory
  uart_rx :: "u8 list"
  uart_tx :: "u8 list"
  uart_baud :: u16

section \<open>UART primitives\<close>

definition uart1_write8 :: "machine \<Rightarrow> u8 \<Rightarrow> machine" where
  "uart1_write8 m x = m\<lparr>uart_tx := uart_tx m @ [x]\<rparr>"

definition uart1_write_bytes :: "machine \<Rightarrow> u8 list \<Rightarrow> machine" where
  "uart1_write_bytes m xs = foldl uart1_write8 m xs"

definition uart1_write32 :: "machine \<Rightarrow> u32 \<Rightarrow> machine" where
  "uart1_write32 m x = uart1_write_bytes m (u32_to_le_bytes x)"

definition uart1_read8_blocking :: "machine \<Rightarrow> (machine \<times> u8) option" where
  "uart1_read8_blocking m =
    (case uart_rx m of [] \<Rightarrow> None | b # rest \<Rightarrow> Some (m\<lparr>uart_rx := rest\<rparr>, b))"

fun uart1_read_n_blocking :: "nat \<Rightarrow> machine \<Rightarrow> (machine \<times> u8 list) option" where
  "uart1_read_n_blocking 0 m = Some (m, [])"
| "uart1_read_n_blocking (Suc n) m = do {
     (m, b) \<leftarrow> uart1_read8_blocking m;
     (m, bs) \<leftarrow> uart1_read_n_blocking n m;
     Some (m, b # bs)
   }"

definition uart1_read32_blocking :: "machine \<Rightarrow> (machine \<times> u32) option" where
  "uart1_read32_blocking m = do {
     (m, buf) \<leftarrow> uart1_read_n_blocking 4 m;
     w \<leftarrow> u32_from_le_bytes buf;
     Some (m, w)
   }"

section \<open>Blocking text output\<close>

text \<open>
  \<open>FixedArrayBuffer<N>\<close> with a string given as the list of its characters, each one its UTF-8
  bytes; the notice is the ASCII text \<open><truncated>\<close>.
\<close>

record FixedArrayBuffer =
  fab_inner :: "u8 list"
  curs :: nat
  truncated :: bool

definition fab_new :: "nat \<Rightarrow> FixedArrayBuffer" where
  "fab_new n = \<lparr>fab_inner = replicate n 0, curs = 0, truncated = False\<rparr>"

definition fab_clear :: "FixedArrayBuffer \<Rightarrow> FixedArrayBuffer" where
  "fab_clear self = self\<lparr>fab_inner := map (\<lambda>_. 0) (fab_inner self), curs := 0, truncated := False\<rparr>"

definition TRUNCATION_NOTICE :: "u8 list" where
  "TRUNCATION_NOTICE = [0x3c, 0x74, 0x72, 0x75, 0x6e, 0x63, 0x61, 0x74, 0x65, 0x64, 0x3e]"

fun fab_write_chars :: "FixedArrayBuffer \<Rightarrow> u8 list list \<Rightarrow> FixedArrayBuffer option" where
  "fab_write_chars self [] = Some self"
| "fab_write_chars self (enc # cs) =
    (if curs self + length enc \<ge> length (fab_inner self) - length TRUNCATION_NOTICE then do {
       b \<leftarrow> copy_into (fab_inner self) (curs self) TRUNCATION_NOTICE;
       Some (self\<lparr>truncated := True, fab_inner := b, curs := curs self + length TRUNCATION_NOTICE\<rparr>)
     } else do {
       b \<leftarrow> copy_into (fab_inner self) (curs self) enc;
       fab_write_chars (self\<lparr>fab_inner := b, curs := curs self + length enc\<rparr>) cs
     })"

definition fab_write_str :: "FixedArrayBuffer \<Rightarrow> u8 list list \<Rightarrow> FixedArrayBuffer option" where
  "fab_write_str self s = (if truncated self then Some self else fab_write_chars self s)"

definition fab_as_bytes :: "FixedArrayBuffer \<Rightarrow> u8 list option" where
  "fab_as_bytes self = subslice (fab_inner self) 0 (curs self)"

definition uart_write_str :: "machine \<Rightarrow> u8 list \<Rightarrow> machine" where
  "uart_write_str m s =
    (let m = uart1_write32 m (command_code CmdPrintString);
         m = uart1_write32 m (of_nat (length s))
     in uart1_write_bytes m s)"

fun fab_write_fmt :: "FixedArrayBuffer \<Rightarrow> u8 list list list \<Rightarrow> FixedArrayBuffer option" where
  "fab_write_fmt self [] = Some self"
| "fab_write_fmt self (s # frags) = do { self \<leftarrow> fab_write_str self s; fab_write_fmt self frags }"

definition legacy_print_string_blocking :: "machine \<Rightarrow> u8 list list list \<Rightarrow> machine option" where
  "legacy_print_string_blocking m frags = do {
     bub \<leftarrow> fab_write_fmt (fab_clear (fab_new 0x100)) frags;
     s \<leftarrow> fab_as_bytes bub;
     Some (uart_write_str m s)
   }"

section \<open>Memory\<close>

lemma unat_of_nat_u32: "n < 2 ^ 32 \<Longrightarrow> unat (of_nat n :: u32) = n"
  by (simp add: unat_of_nat take_bit_nat_eq_self_iff)

lemma unat_plus_of_nat: "unat a + i < 2 ^ 32 \<Longrightarrow> unat (a + of_nat i :: u32) = unat a + i"
  by (simp add: unat_plus_if' unat_of_nat_u32)

lemma mem_write_apply:
  assumes "unat a + length bs \<le> 2 ^ 32"
  shows "mem_write m a bs x =
    (if unat a \<le> unat x \<and> unat x < unat a + length bs then bs ! (unat x - unat a) else m x)"
proof (cases "unat a \<le> unat x")
  case False
  then have "\<not> unat (x - a) < length bs"
    using assms by (auto simp: unat_sub_if')
  with False show ?thesis
    by (simp add: mem_write_def)
qed (auto simp: mem_write_def unat_sub_if')

lemma length_mem_read [simp]: "length (mem_read m a n) = n"
  by (simp add: mem_read_def)

lemma mem_read_cong:
  "(\<And>i. i < n \<Longrightarrow> m (a + of_nat i) = m' (a + of_nat i)) \<Longrightarrow> mem_read m a n = mem_read m' a n"
  by (simp add: mem_read_def)

lemma mem_read_write_same:
  assumes "unat a + length bs \<le> 2 ^ 32"
  shows "mem_read (mem_write m a bs) a (length bs) = bs"
  using assms by (auto simp: mem_read_def mem_write_apply unat_plus_of_nat intro!: nth_equalityI)

lemma mem_read_write_disjoint:
  assumes "unat a + length bs \<le> 2 ^ 32" and "unat b + n \<le> 2 ^ 32"
    and "unat a + length bs \<le> unat b \<or> unat b + n \<le> unat a"
  shows "mem_read (mem_write m a bs) b n = mem_read m b n"
  by (rule mem_read_cong) (use assms in \<open>auto simp: mem_write_apply unat_plus_of_nat\<close>)

lemma mem_read_append:
  "mem_read m a (i + j) = mem_read m a i @ mem_read m (a + of_nat i) j"
proof (rule nth_equalityI)
  fix k assume "k < length (mem_read m a (i + j))"
  then show "mem_read m a (i + j) ! k = (mem_read m a i @ mem_read m (a + of_nat i) j) ! k"
    by (auto simp: mem_read_def nth_append add.assoc simp flip: of_nat_add)
qed simp

section \<open>Alignment\<close>

lemma unat_and_not_mask: "unat ((w :: u32) AND NOT (mask n)) = unat w div 2 ^ n * 2 ^ n"
proof -
  have "unat (w AND NOT (mask n)) = push_bit n (drop_bit n (unat w))"
    by (rule bit_eqI) (auto simp: bit_simps dest: bit_imp_le_length)
  then show ?thesis
    by (simp add: push_bit_eq_mult drop_bit_eq_div)
qed

lemma align_up:
  assumes "unat x + 2 ^ n \<le> 2 ^ 32"
  shows "unat x \<le> unat ((x + mask n :: u32) AND NOT (mask n))"
    and "unat ((x + mask n :: u32) AND NOT (mask n)) < unat x + 2 ^ n"
    and "2 ^ n dvd unat ((x + mask n :: u32) AND NOT (mask n))"
proof -
  have n: "n \<le> 32"
    using assms by (metis le_add2 le_trans power_le_imp_le_exp one_less_numeral_iff semiring_norm(76))
  then have "unat (mask n :: u32) = mask n"
    by (intro bit_eqI) (auto simp: bit_simps)
  then have "unat (mask n :: u32) = 2 ^ n - 1"
    by (simp add: mask_eq_exp_minus_1)
  then have s: "unat (x + mask n :: u32) = unat x + (2 ^ n - 1)"
    using assms by (simp add: unat_plus_if' less_eq_Suc_le)
  have "(unat x + (2 ^ n - 1)) mod 2 ^ n < 2 ^ n"
    by simp
  moreover have "(unat x + (2 ^ n - 1)) div 2 ^ n * 2 ^ n + (unat x + (2 ^ n - 1)) mod 2 ^ n =
      unat x + (2 ^ n - 1)"
    by (rule div_mult_mod_eq)
  ultimately show "unat x \<le> unat ((x + mask n :: u32) AND NOT (mask n))"
    "unat ((x + mask n :: u32) AND NOT (mask n)) < unat x + 2 ^ n"
    unfolding unat_and_not_mask s by linarith+
  show "2 ^ n dvd unat ((x + mask n :: u32) AND NOT (mask n))"
    unfolding unat_and_not_mask by simp
qed

section \<open>What is printed\<close>

lemma foldl_write8: "foldl uart1_write8 m xs = m\<lparr>uart_tx := uart_tx m @ xs\<rparr>"
  by (induction xs arbitrary: m) (simp_all add: uart1_write8_def)

lemma uart1_write_bytes_tx: "uart1_write_bytes m xs = m\<lparr>uart_tx := uart_tx m @ xs\<rparr>"
  by (simp add: uart1_write_bytes_def foldl_write8)

text \<open>
  What the buffer holds: all the text so far, or, once a character did not fit below the last
  eleven bytes, a prefix of it and the notice.
\<close>

definition fab_inv :: "FixedArrayBuffer \<Rightarrow> u8 list \<Rightarrow> bool" where
  "fab_inv f str \<longleftrightarrow> curs f \<le> length (fab_inner f) \<and> length (fab_inner f) = 0x100
    \<and> (if truncated f
       then \<exists>n. take (curs f) (fab_inner f) = take n str @ TRUNCATION_NOTICE \<and> n \<le> length str
       else curs f < 0x100 - length TRUNCATION_NOTICE \<and> take (curs f) (fab_inner f) = str)"

lemma length_TRUNCATION_NOTICE [simp]: "length TRUNCATION_NOTICE = 11"
  by (simp add: TRUNCATION_NOTICE_def)

lemma take_blit_at: "a \<le> length xs \<Longrightarrow> n = a + length src \<Longrightarrow> take n (blit xs a src) = take a xs @ src"
  by (simp add: take_blit)

lemma fab_write_chars_inv:
  assumes "fab_inv f str" and "\<not> truncated f"
  shows "\<exists>f'. fab_write_chars f cs = Some f' \<and> fab_inv f' (str @ concat cs)"
  using assms
proof (induction cs arbitrary: f str)
  case (Cons enc cs)
  note inv = Cons.prems(1) [unfolded fab_inv_def]
  have len: "length str = curs f" "take (curs f) (fab_inner f) = str"
    using inv Cons.prems(2) by auto
  show ?case
  proof (cases "curs f + length enc \<ge> length (fab_inner f) - length TRUNCATION_NOTICE")
    case True
    have "take (curs f + 11) (blit (fab_inner f) (curs f) TRUNCATION_NOTICE) = str @ TRUNCATION_NOTICE"
      using inv Cons.prems(2) len by (subst take_blit_at) auto
    moreover have "str = take (length str) (str @ concat (enc # cs))"
      by simp
    ultimately show ?thesis
      using True inv Cons.prems(2)
      by (auto simp: fab_inv_def length_blit intro!: exI [of _ "length str"])
  next
    case False
    let ?f = "f\<lparr>fab_inner := blit (fab_inner f) (curs f) enc, curs := curs f + length enc\<rparr>"
    have "fab_inv ?f (str @ enc)"
      using False inv Cons.prems(2) len by (auto simp: fab_inv_def length_blit take_blit)
    from Cons.IH [OF this] show ?thesis
      using False inv Cons.prems(2) by auto
  qed
qed auto

lemma fab_write_fmt_inv:
  assumes "fab_inv f str"
  shows "\<exists>f'. fab_write_fmt f frags = Some f' \<and> fab_inv f' (str @ concat (concat frags))"
  using assms
proof (induction frags arbitrary: f str)
  case (Cons s frags)
  obtain f1 where "fab_write_str f s = Some f1" "fab_inv f1 (str @ concat s)"
  proof (cases "truncated f")
    case True
    then obtain n where "take (curs f) (fab_inner f) = take n str @ TRUNCATION_NOTICE" "n \<le> length str"
      using Cons.prems by (auto simp: fab_inv_def)
    then have "fab_inv f (str @ concat s)"
      using Cons.prems True by (auto simp: fab_inv_def intro!: exI [of _ n])
    then show ?thesis
      using True that by (simp add: fab_write_str_def)
  next
    case False
    then show ?thesis
      using fab_write_chars_inv [OF Cons.prems False, of s] that by (auto simp: fab_write_str_def)
  qed
  with Cons.IH [of f1 "str @ concat s"] show ?case
    by simp
qed auto

lemma print_string_blocking:
  "\<exists>s. legacy_print_string_blocking m frags = Some (m\<lparr>uart_tx := uart_tx m @
      u32_to_le_bytes (command_code CmdPrintString) @ u32_to_le_bytes (of_nat (length s)) @ s\<rparr>)
    \<and> length s \<le> 0x100
    \<and> (s = concat (concat frags) \<or>
       (\<exists>n. n \<le> length (concat (concat frags)) \<and> s = take n (concat (concat frags)) @ TRUNCATION_NOTICE))"
proof -
  have "fab_inv (fab_clear (fab_new 0x100)) []"
    by (simp add: fab_inv_def fab_clear_def fab_new_def)
  from fab_write_fmt_inv [OF this, of frags] obtain f where f:
    "fab_write_fmt (fab_clear (fab_new 0x100)) frags = Some f" "fab_inv f (concat (concat frags))"
    by auto
  define s where "s = take (curs f) (fab_inner f)"
  have "fab_as_bytes f = Some s" "length s \<le> 0x100"
    using f(2) by (simp_all add: fab_as_bytes_def fab_inv_def s_def)
  moreover from this have "legacy_print_string_blocking m frags = Some (uart_write_str m s)"
    using f(1) by (simp add: legacy_print_string_blocking_def)
  moreover have "s = concat (concat frags) \<or> (\<exists>n. n \<le> length (concat (concat frags))
      \<and> s = take n (concat (concat frags)) @ TRUNCATION_NOTICE)"
    using f(2) unfolding s_def fab_inv_def by (auto split: if_splits)
  ultimately show ?thesis
    by (intro exI [of _ s]) (simp add: uart_write_str_def uart1_write32_def uart1_write_bytes_tx Let_def)
qed

text \<open>What is printed in this way: records of the print-string command.\<close>

definition text_record :: "u8 list \<Rightarrow> u8 list" where
  "text_record s = u32_to_le_bytes (command_code CmdPrintString) @ u32_to_le_bytes (of_nat (length s)) @ s"

definition texts :: "u8 list \<Rightarrow> bool" where
  "texts out \<longleftrightarrow> (\<exists>ts. out = concat (map text_record ts) \<and> (\<forall>s \<in> set ts. length s < 2 ^ 32))"

lemma texts_Nil [simp]: "texts []"
  unfolding texts_def by (rule exI [of _ "[]"]) simp

lemma texts_append: "texts a \<Longrightarrow> texts b \<Longrightarrow> texts (a @ b)"
  unfolding texts_def by (metis Un_iff concat_append map_append set_append)

lemma print_blocking_texts:
  "\<exists>s. legacy_print_string_blocking m frags = Some (m\<lparr>uart_tx := uart_tx m @ s\<rparr>) \<and> texts s"
proof -
  obtain s where s: "legacy_print_string_blocking m frags = Some (m\<lparr>uart_tx := uart_tx m @ text_record s\<rparr>)"
    "length s \<le> 0x100"
    using print_string_blocking [of m frags] unfolding text_record_def by blast
  then have "texts (text_record s)"
    unfolding texts_def by (intro exI [of _ "[s]"]) simp
  with s(1) show ?thesis
    by blast
qed

end
