(* ===== verification/Relocation.thy ===== *)
theory Relocation
  imports Machine Crc
begin

text \<open>
  Where a downloaded flat binary goes (\<open>device/okboot/src/stub.rs\<close>, module \<open>flat_binary\<close>, its
  older copy in \<open>legacy/staging.rs\<close>, and the assembly stub \<open>extern/stub.S\<close>): the part of the
  image that would overwrite the boot loader is collected in a side buffer above everything in use,
  the checksum is verified over both parts, and a relocated stub finally copies the side buffer
  down and jumps to the image. \<open>usize\<close> is 32 bits wide here, and additions wrap.
\<close>

definition PAGE_SIZE :: u32 where "PAGE_SIZE = 0x4000"

record Relocation =
  base_address_ptr :: u32
  side_buffer_ptr :: u32
  relocate_first_n_bytes :: u32
  stub_entry :: u32
  relocate :: bool

definition calculate :: "u32 \<Rightarrow> u32 \<Rightarrow> u32 \<Rightarrow> Relocation" where
  "calculate base_address k_length self_end_addr =
    (let k_base_address = base_address;
         k_end_address = k_base_address + k_length;
         needs_to_relocate = (k_base_address < self_end_addr);
         highest_used_address = max self_end_addr k_end_address;
         side_buffer_begin = (highest_used_address + PAGE_SIZE - 1) AND NOT (PAGE_SIZE - 1)
     in if needs_to_relocate then
          let relocation_length = min k_end_address self_end_addr - k_base_address;
              stub_location = (side_buffer_begin + relocation_length + 3) AND NOT 3
          in \<lparr>base_address_ptr = k_base_address, side_buffer_ptr = side_buffer_begin,
              relocate_first_n_bytes = relocation_length, stub_entry = stub_location,
              relocate = True\<rparr>
        else
          \<lparr>base_address_ptr = 0, side_buffer_ptr = 0, relocate_first_n_bytes = 0,
           stub_entry = highest_used_address, relocate = False\<rparr>)"

definition write_ptr :: "Relocation \<Rightarrow> u32 \<Rightarrow> u32" where
  "write_ptr self address =
    (if relocate self \<and> address \<ge> base_address_ptr self
       \<and> address < base_address_ptr self + relocate_first_n_bytes self
     then side_buffer_ptr self + (address - base_address_ptr self)
     else address)"

definition write_bytes :: "Relocation \<Rightarrow> memory \<Rightarrow> u32 \<Rightarrow> u8 list \<Rightarrow> memory" where
  "write_bytes self m address bytes = mem_write m (write_ptr self address) bytes"

datatype Integrity = IntegrityOk | CrcMismatch u32 u32

definition verify_integrity :: "'h crc_ops \<Rightarrow> Relocation \<Rightarrow> memory \<Rightarrow> u32 \<Rightarrow> u32 \<Rightarrow> Integrity" where
  "verify_integrity ops self m expected_crc len =
    (let h = hasher_new ops;
         h = (if relocate self then
                hasher_update ops h (mem_read m (side_buffer_ptr self) (unat (relocate_first_n_bytes self)))
              else h);
         h = (if len > relocate_first_n_bytes self then
                hasher_update ops h (mem_read m (base_address_ptr self + relocate_first_n_bytes self)
                  (unat (len - relocate_first_n_bytes self)))
              else h);
         final_crc = hasher_finalize ops h
     in if expected_crc = final_crc then IntegrityOk else CrcMismatch expected_crc final_crc)"

text \<open>
  \<open>final_relocation\<close>: the stub's code is copied to its place and entered with the destination,
  source and length of the copy and the entry point in registers.
\<close>

record stub_call =
  r0_dst :: u32
  r1_src :: u32
  r2_len :: u32
  r3_entry :: u32
  stub_dst :: u32

definition final_relocation :: "u8 list \<Rightarrow> memory \<Rightarrow> Relocation \<Rightarrow> memory \<times> stub_call" where
  "final_relocation stub_code m relocation =
    (mem_write m (stub_entry relocation) stub_code,
     \<lparr>r0_dst = base_address_ptr relocation, r1_src = side_buffer_ptr relocation,
      r2_len = relocate_first_n_bytes relocation, r3_entry = base_address_ptr relocation,
      stub_dst = stub_entry relocation\<rparr>)"

text \<open>
  The copy loops of \<open>stub.S\<close>: sixteen bytes at a time for the length rounded down to a multiple of
  sixteen, then a word at a time. Both count down and stop at exactly zero; \<open>fuel\<close> bounds the
  iterations and \<open>None\<close> is a loop that has not stopped.
\<close>

fun stub_loop :: "nat \<Rightarrow> u32 \<Rightarrow> nat \<Rightarrow> memory \<Rightarrow> u32 \<Rightarrow> u32 \<Rightarrow> (memory \<times> u32 \<times> u32) option" where
  "stub_loop unit_len r8 0 m dst src = None"
| "stub_loop unit_len r8 (Suc fuel) m dst src =
    (let m = mem_write m dst (mem_read m src unit_len);
         dst = dst + of_nat unit_len; src = src + of_nat unit_len; r8 = r8 - of_nat unit_len
     in if r8 = 0 then Some (m, dst, src) else stub_loop unit_len r8 fuel m dst src)"

definition stub_copy :: "nat \<Rightarrow> memory \<Rightarrow> u32 \<Rightarrow> u32 \<Rightarrow> u32 \<Rightarrow> memory option" where
  "stub_copy fuel m dst src len = do {
     (m, dst, src) \<leftarrow>
       (let r8 = len AND NOT 0x0f in
        if r8 = 0 then Some (m, dst, src) else stub_loop 16 r8 fuel m dst src);
     let r8 = len AND 0x0f;
     if r8 = 0 then Some m
     else do { (m, _, _) \<leftarrow> stub_loop 4 r8 fuel m dst src; Some m }
   }"

section \<open>The older copy\<close>

record RelocationConfig =
  desired_location :: u32
  side_buffer_location :: u32
  rc_relocate_first_n_bytes :: u32
  stub_location :: u32

definition staging_new :: RelocationConfig where
  "staging_new = \<lparr>desired_location = 0, side_buffer_location = 0, rc_relocate_first_n_bytes = 0,
     stub_location = 0\<rparr>"

definition staging_calculate :: "u32 \<Rightarrow> u32 \<Rightarrow> u32 \<Rightarrow> RelocationConfig" where
  "staging_calculate self_end_addr load_at_addr len =
    (let loaded_program_begin = load_at_addr;
         loaded_program_end = load_at_addr + len;
         needs_to_relocate = (load_at_addr < self_end_addr);
         highest_address = max self_end_addr loaded_program_end;
         side_buffer_begin = (highest_address + PAGE_SIZE - 1) AND NOT (PAGE_SIZE - 1)
     in if needs_to_relocate then
          let relocation_length = min loaded_program_end self_end_addr - loaded_program_begin
          in \<lparr>desired_location = load_at_addr, side_buffer_location = side_buffer_begin,
              rc_relocate_first_n_bytes = relocation_length,
              stub_location = (side_buffer_begin + relocation_length + 3) AND NOT 3\<rparr>
        else
          \<lparr>desired_location = 0, side_buffer_location = 0, rc_relocate_first_n_bytes = 0,
           stub_location = highest_address\<rparr>)"

definition write_bytes_with_relocation :: "RelocationConfig \<Rightarrow> memory \<Rightarrow> u32 \<Rightarrow> u8 list \<Rightarrow> memory" where
  "write_bytes_with_relocation cfg m address bytes =
    (let ptr =
       (if rc_relocate_first_n_bytes cfg > 0 \<and> address \<ge> desired_location cfg
          \<and> address < desired_location cfg + rc_relocate_first_n_bytes cfg
        then (address - desired_location cfg) + side_buffer_location cfg
        else address)
     in mem_write m ptr bytes)"

definition staging_verify_integrity ::
  "'h crc_ops \<Rightarrow> RelocationConfig \<Rightarrow> memory \<Rightarrow> u32 \<Rightarrow> u32 \<Rightarrow> Integrity" where
  "staging_verify_integrity ops cfg m expected_crc len =
    (let h = hasher_new ops;
         h = (if rc_relocate_first_n_bytes cfg > 0 then
                hasher_update ops h
                  (mem_read m (side_buffer_location cfg) (unat (rc_relocate_first_n_bytes cfg)))
              else h);
         h = hasher_update ops h
               (mem_read m (desired_location cfg + rc_relocate_first_n_bytes cfg)
                 (unat (len - rc_relocate_first_n_bytes cfg)));
         final_crc = hasher_finalize ops h
     in if expected_crc = final_crc then IntegrityOk else CrcMismatch expected_crc final_crc)"

section \<open>Layout\<close>

text \<open>
  Everything fits below 4 GiB: the image, the page-aligned side buffer, and the stub's code.
\<close>

definition layout_fits :: "u32 \<Rightarrow> nat \<Rightarrow> u32 \<Rightarrow> nat \<Rightarrow> bool" where
  "layout_fits base len self_end stub_len \<longleftrightarrow> base < self_end \<and>
    max (unat self_end) (unat base + len) + 0x4000 + len + 4 + stub_len < 2 ^ 32"

text \<open>The place of the \<open>i\<close>-th byte of the image while it is being downloaded.\<close>

definition place :: "Relocation \<Rightarrow> nat \<Rightarrow> u32" where
  "place r i = (if i < unat (relocate_first_n_bytes r) then side_buffer_ptr r + of_nat i
     else base_address_ptr r + of_nat i)"

definition layout_ok :: "Relocation \<Rightarrow> u32 \<Rightarrow> nat \<Rightarrow> nat \<Rightarrow> bool" where
  "layout_ok r base len stub_len \<longleftrightarrow> relocate r \<and> base_address_ptr r = base
    \<and> unat (relocate_first_n_bytes r) \<le> len
    \<and> unat base + len \<le> unat (side_buffer_ptr r)
    \<and> unat (side_buffer_ptr r) + unat (relocate_first_n_bytes r) \<le> unat (stub_entry r)
    \<and> unat (stub_entry r) + stub_len < 2 ^ 32"

lemma calculate_layout:
  assumes "layout_fits base len self_end stub_len"
  shows "layout_ok (calculate base (of_nat len) self_end) base len stub_len"
    and "unat (relocate_first_n_bytes (calculate base (of_nat len) self_end)) =
      min (unat base + len) (unat self_end) - unat base"
    and "unat self_end \<le> unat (side_buffer_ptr (calculate base (of_nat len) self_end))"
    and "4 dvd unat (stub_entry (calculate base (of_nat len) self_end))"
    and "unat (side_buffer_ptr (calculate base (of_nat len) self_end)) + len < 2 ^ 32"
proof -
  let ?fin = "base + of_nat len" and ?r = "calculate base (of_nat len) self_end"
  have bounds: "base < self_end" "unat base + len < 2 ^ 32" "unat base < unat self_end"
    "max (unat self_end) (unat base + len) + 0x4000 + len + 4 + stub_len < 2 ^ 32"
    using assms by (auto simp: layout_fits_def word_less_nat_alt)
  have e: "unat ?fin = unat base + len"
    using bounds(2) by (rule unat_plus_of_nat)
  let ?hi = "max self_end ?fin"
  have hi: "unat ?hi = max (unat self_end) (unat base + len)"
    using e by (simp add: max_def word_le_nat_alt)
  have page: "PAGE_SIZE - 1 = mask 14"
    by (simp add: PAGE_SIZE_def mask_eq_exp_minus_1)
  let ?side = "(?hi + mask 14) AND NOT (mask 14) :: u32"
  have "unat ?hi + 2 ^ 14 \<le> 2 ^ 32"
    unfolding hi using bounds(4) by (auto simp: max_def split: if_splits)
  note side = align_up [OF this]
  let ?n = "min ?fin self_end - base"
  have n: "unat ?n = min (unat base + len) (unat self_end) - unat base"
    using e bounds by (auto simp: min_def unat_sub word_le_nat_alt)
  have nlen: "unat ?n \<le> len" "len \<noteq> 0 \<or> unat ?n = 0"
    using n by auto
  have room: "unat ?side + len + 4 + stub_len < 2 ^ 32"
    using side(2) hi bounds(4) by simp
  have sum: "unat (?side + ?n) = unat ?side + unat ?n"
    using room nlen by (subst unat_add_lem [symmetric]) simp
  let ?stub = "(?side + ?n + mask 2) AND NOT (mask 2) :: u32"
  have "unat (?side + ?n) + 2 ^ 2 \<le> 2 ^ 32"
    using sum nlen room by simp
  note stub = align_up [OF this]
  have r: "?r = \<lparr>base_address_ptr = base, side_buffer_ptr = ?side, relocate_first_n_bytes = ?n,
      stub_entry = ?stub, relocate = True\<rparr>"
    using bounds(1) page by (simp add: calculate_def Let_def add_diff_eq [symmetric] mask_eq_exp_minus_1)
  show "layout_ok ?r base len stub_len"
    unfolding r layout_ok_def using side(1) stub sum hi nlen room by auto
  show "unat (relocate_first_n_bytes ?r) = min (unat base + len) (unat self_end) - unat base"
    unfolding r using n by simp
  show "unat self_end \<le> unat (side_buffer_ptr ?r)"
    unfolding r using side(1) hi by simp
  show "4 dvd unat (stub_entry ?r)"
    unfolding r using stub(3) by simp
  show "unat (side_buffer_ptr ?r) + len < 2 ^ 32"
    unfolding r using room by simp
qed

section \<open>Writing the image\<close>

definition stored :: "Relocation \<Rightarrow> memory \<Rightarrow> u8 list \<Rightarrow> nat \<Rightarrow> bool" where
  "stored r m data n \<longleftrightarrow> (\<forall>i < n. m (place r i) = data ! i)"

text \<open>A piece that lies on one side of the boundary between the relocated and the direct part.\<close>

definition within_one_part :: "Relocation \<Rightarrow> nat \<Rightarrow> nat \<Rightarrow> bool" where
  "within_one_part r off n \<longleftrightarrow> off + n \<le> unat (relocate_first_n_bytes r)
     \<or> unat (relocate_first_n_bytes r) \<le> off"

lemma unat_place:
  assumes "layout_ok r base len s" and "i < len"
  shows "unat (place r i) = (if i < unat (relocate_first_n_bytes r) then unat (side_buffer_ptr r) + i
    else unat base + i)"
  using assms by (auto simp: place_def layout_ok_def unat_plus_of_nat)

lemma write_ptr_place:
  assumes "layout_ok r base len s" and "off < len"
  shows "write_ptr r (base + of_nat off) = place r off"
proof -
  let ?n = "relocate_first_n_bytes r"
  have b: "base_address_ptr r = base" "relocate r" "unat base + len < 2 ^ 32" "unat ?n \<le> len"
    using assms(1) by (auto simp: layout_ok_def)
  have "unat (base + of_nat off) = unat base + off"
    by (rule unat_plus_of_nat) (use b assms(2) in simp)
  moreover have "unat (base + ?n) = unat base + unat ?n"
    using b by (subst unat_add_lem [symmetric]) simp
  ultimately have "base \<le> base + of_nat off" "base + of_nat off < base + ?n \<longleftrightarrow> off < unat ?n"
    by (simp_all add: word_le_nat_alt word_less_nat_alt)
  with b show ?thesis
    by (simp add: write_ptr_def place_def)
qed

lemma write_piece:
  assumes "layout_ok r base len s" and "length data = len" and "stored r m data off"
    and "off + length p \<le> len" and "p = take (length p) (drop off data)"
    and "within_one_part r off (length p)"
  shows "stored r (write_bytes r m (base + of_nat off) p) data (off + length p)"
proof (cases "p = []")
  case True
  with assms(3) show ?thesis
    by (simp add: write_bytes_def mem_write_def stored_def)
next
  case False
  then have off: "off < len"
    using assms(4) by (cases p) auto
  note lay = assms(1) [unfolded layout_ok_def]
  have pl: "unat (place r off) + length p \<le> 2 ^ 32"
    using unat_place [OF assms(1) off] lay assms(4,6) by (auto simp: within_one_part_def)
  have "write_bytes r m (base + of_nat off) p (place r i) = data ! i" if "i < off + length p" for i
  proof (cases "i < off")
    case True
    then have "\<not> (unat (place r off) \<le> unat (place r i) \<and> unat (place r i) < unat (place r off) + length p)"
      using unat_place [OF assms(1) off] unat_place [OF assms(1), of i] lay off assms(4,6)
      by (auto simp: within_one_part_def)
    then show ?thesis
      using True assms(3)
      by (simp only: write_bytes_def write_ptr_place [OF assms(1) off] mem_write_apply [OF pl])
         (simp add: stored_def)
  next
    case False
    then have i: "unat (place r i) = unat (place r off) + (i - off)"
      using unat_place [OF assms(1) off] unat_place [OF assms(1), of i] that assms(4,6)
      by (auto simp: within_one_part_def)
    have "data ! i = p ! (i - off)"
      using False that assms(2,4) by (subst assms(5)) simp
    then show ?thesis
      using False that i
      by (auto simp: write_bytes_def write_ptr_place [OF assms(1) off] mem_write_apply [OF pl])
  qed
  then show ?thesis
    by (simp add: stored_def)
qed

lemma stored_parts:
  assumes "layout_ok r base len s" and "length data = len" and "stored r m data len"
  defines "n \<equiv> unat (relocate_first_n_bytes r)"
  shows "mem_read m (side_buffer_ptr r) n = take n data"
    and "mem_read m (base + relocate_first_n_bytes r) (len - n) = drop n data"
proof -
  have n: "n \<le> len" "of_nat n = relocate_first_n_bytes r"
    using assms(1) by (auto simp: layout_ok_def n_def)
  show "mem_read m (side_buffer_ptr r) n = take n data"
  proof (rule nth_equalityI)
    fix i assume "i < length (mem_read m (side_buffer_ptr r) n)"
    then have i: "i < n" "i < len"
      using n(1) by simp_all
    then have "m (place r i) = data ! i"
      using assms(3) by (simp add: stored_def)
    then show "mem_read m (side_buffer_ptr r) n ! i = take n data ! i"
      using i by (simp add: mem_read_def place_def n_def)
  qed (use n assms(2) in simp)
  show "mem_read m (base + relocate_first_n_bytes r) (len - n) = drop n data"
  proof (rule nth_equalityI)
    fix i assume "i < length (mem_read m (base + relocate_first_n_bytes r) (len - n))"
    then have i: "i < len - n" "n + i < len" by simp_all
    then have "m (place r (n + i)) = data ! (n + i)"
      using assms(3) by (simp add: stored_def)
    moreover have "place r (n + i) = base + relocate_first_n_bytes r + of_nat i"
      using assms(1) n(2) by (simp add: place_def n_def layout_ok_def add.assoc)
    ultimately show "mem_read m (base + relocate_first_n_bytes r) (len - n) ! i = drop n data ! i"
      using i assms(2) by (simp add: mem_read_def)
  qed (use n assms(2) in simp)
qed

lemma verify_stored:
  assumes "crc_stream ops" and "layout_ok r base len s" and "length data = len" and "stored r m data len"
    and "len < 2 ^ 32"
  shows "verify_integrity ops r m expected (of_nat len) =
    (if expected = crc_hash ops data then IntegrityOk else CrcMismatch expected (crc_hash ops data))"
proof -
  let ?R = "relocate_first_n_bytes r"
  let ?n = "unat ?R"
  have b: "?n \<le> len" "base_address_ptr r = base" "relocate r"
    using assms(2) by (auto simp: layout_ok_def)
  have l: "unat (of_nat len :: u32) = len"
    using assms(5) by (rule unat_of_nat_u32)
  have lt: "?R < of_nat len \<longleftrightarrow> ?n < len"
    using l by (simp add: word_less_nat_alt)
  have sub: "unat (of_nat len - ?R) = len - ?n"
    using b(1) l by (simp add: unat_sub word_le_nat_alt)
  note parts = stored_parts [OF assms(2-4)]
  have "crc_hash ops data = hasher_finalize ops (hasher_update ops
      (hasher_update ops (hasher_new ops) (take ?n data)) (drop ?n data))"
    by (simp add: crc_hash_def flip: crc_stream.update_append [OF assms(1)])
  moreover have "drop ?n data = []" if "\<not> ?n < len"
    using that assms(3) by simp
  ultimately show ?thesis
    using b lt sub parts crc_stream.update_nil [OF assms(1)]
    by (auto simp: verify_integrity_def Let_def)
qed

section \<open>The stub\<close>

lemma mem_write_append:
  assumes "unat a + length (xs @ ys) \<le> 2 ^ 32" and "unat a + length xs < 2 ^ 32"
  shows "mem_write (mem_write m a xs) (a + of_nat (length xs)) ys = mem_write m a (xs @ ys)"
proof
  fix x
  have "unat (a + of_nat (length xs)) = unat a + length xs"
    using assms(2) by (rule unat_plus_of_nat)
  then show "mem_write (mem_write m a xs) (a + of_nat (length xs)) ys x = mem_write m a (xs @ ys) x"
    using assms by (auto simp: mem_write_apply nth_append)
qed

lemma and_low_mask: "unat ((w :: u32) AND mask n) = unat w mod 2 ^ n"
proof -
  have "unat (w AND mask n) = take_bit n (unat w)"
    by (rule bit_eqI) (auto simp: bit_simps dest: bit_imp_le_length)
  then show ?thesis
    by (simp add: take_bit_eq_mod)
qed

lemma eq_of_nat_unat: "unat w = n \<Longrightarrow> w = of_nat n"
  by auto

lemma of_nat_u32_eq_0:
  assumes "n < 2 ^ 32"
  shows "of_nat n = (0 :: u32) \<longleftrightarrow> n = 0"
proof
  assume "of_nat n = (0 :: u32)"
  then have "unat (of_nat n :: u32) = 0"
    by simp
  then show "n = 0"
    unfolding unat_of_nat_u32 [OF assms] .
qed simp

lemma mem_write_nil [simp]: "mem_write m a [] = m"
  by (simp add: mem_write_def)

lemma mem_read_0 [simp]: "mem_read m a 0 = []"
  by (simp add: mem_read_def)

lemma stub_loop_copies:
  assumes "0 < u" and "0 < k" and "k \<le> fuel" and "unat dst + u * k \<le> unat src"
    and "unat src + u * k < 2 ^ 32" and "r8 = of_nat (u * k)"
  shows "stub_loop u r8 fuel m dst src =
    Some (mem_write m dst (mem_read m src (u * k)), dst + of_nat (u * k), src + of_nat (u * k))"
  using assms
proof (induction k arbitrary: fuel m dst src r8)
  case (Suc k)
  then obtain f where f: "fuel = Suc f"
    by (cases fuel) auto
  let ?m = "mem_write m dst (mem_read m src u)"
  have r: "r8 - of_nat u = of_nat (u * k)"
    using Suc.prems(6) by simp
  have lt: "u * k < 2 ^ 32"
    using Suc.prems(5) by simp
  then have z: "of_nat (u * k) = (0 :: u32) \<longleftrightarrow> k = 0"
    using of_nat_u32_eq_0 [of "u * k"] Suc.prems(1) by simp
  show ?case
  proof (cases "k = 0")
    case True
    then show ?thesis
      using f r by (simp add: Let_def)
  next
    case False
    let ?d = "dst + of_nat u" and ?s = "src + of_nat u"
    have u: "unat ?d = unat dst + u" "unat ?s = unat src + u"
      using Suc.prems(4,5) by (simp_all add: unat_plus_of_nat)
    have rd: "mem_read ?m ?s (u * k) = mem_read m ?s (u * k)"
      by (rule mem_read_write_disjoint) (use Suc.prems u in auto)
    have "stub_loop u r8 fuel m dst src = stub_loop u (of_nat (u * k)) f ?m ?d ?s"
      using f r z False by (simp add: Let_def)
    also have "\<dots> = Some (mem_write ?m ?d (mem_read ?m ?s (u * k)), ?d + of_nat (u * k), ?s + of_nat (u * k))"
      by (rule Suc.IH) (use Suc.prems False f u in auto)
    also have "mem_write ?m ?d (mem_read ?m ?s (u * k)) = mem_write m dst (mem_read m src (u * Suc k))"
      unfolding rd using mem_write_append [of dst "mem_read m src u" "mem_read m ?s (u * k)" m] Suc.prems(4,5)
      by (simp add: mem_read_append)
    finally show ?thesis
      by (simp add: add.assoc)
  qed
qed simp

lemma stub_copy_copies:
  assumes "4 dvd unat len" and "unat len \<le> fuel" and "unat dst + unat len \<le> unat src"
    and "unat src + unat len < 2 ^ 32"
  shows "stub_copy fuel m dst src len = Some (mem_write m dst (mem_read m src (unat len)))"
proof -
  let ?K = "unat len div 16" and ?j = "unat len mod 16 div 4"
  have masks: "(0x0f :: u32) = mask 4"
    by (simp add: mask_eq_exp_minus_1)
  have hi: "len AND NOT 0x0f = of_nat (16 * ?K)"
    unfolding masks by (rule eq_of_nat_unat) (simp add: unat_and_not_mask)
  have "4 dvd unat len mod 16"
    using assms(1) by (simp add: dvd_mod)
  then have j: "unat len mod 16 = 4 * ?j"
    by simp
  have lo: "len AND 0x0f = of_nat (4 * ?j)"
    unfolding masks by (rule eq_of_nat_unat) (simp add: and_low_mask j [symmetric])
  have n: "unat len = 16 * ?K + 4 * ?j"
    using j mult_div_mod_eq [of 16 "unat len"] by simp
  let ?m1 = "mem_write m dst (mem_read m src (16 * ?K))"
  let ?d = "dst + of_nat (16 * ?K)" and ?s = "src + of_nat (16 * ?K)"
  have nz: "of_nat (16 * ?K) = (0 :: u32) \<longleftrightarrow> ?K = 0" "of_nat (4 * ?j) = (0 :: u32) \<longleftrightarrow> ?j = 0"
    using n assms(4) of_nat_u32_eq_0 [of "16 * ?K"] of_nat_u32_eq_0 [of "4 * ?j"]
    by (simp_all del: of_nat_mult)
  have first: "(if len AND NOT 0x0f = 0 then Some (m, dst, src)
      else stub_loop 16 (len AND NOT 0x0f) fuel m dst src) = Some (?m1, ?d, ?s)"
  proof (cases "?K = 0")
    case False
    have "stub_loop 16 (of_nat (16 * ?K)) fuel m dst src = Some (?m1, ?d, ?s)"
      by (rule stub_loop_copies) (use False assms n in auto)
    with False show ?thesis
      unfolding hi nz by simp
  next
    case True
    then show ?thesis
      unfolding hi by simp
  qed
  have u: "unat ?d = unat dst + 16 * ?K" "unat ?s = unat src + 16 * ?K"
    using n assms(3,4) by (simp_all add: unat_plus_of_nat del: of_nat_mult)
  show ?thesis
  proof (cases "?j = 0")
    case True
    then show ?thesis
      unfolding stub_copy_def Let_def first lo using n by simp
  next
    case False
    have second: "stub_loop 4 (of_nat (4 * ?j)) fuel ?m1 ?d ?s =
        Some (mem_write ?m1 ?d (mem_read ?m1 ?s (4 * ?j)), ?d + of_nat (4 * ?j), ?s + of_nat (4 * ?j))"
      by (rule stub_loop_copies) (use False n u assms in auto)
    have "mem_read ?m1 ?s (4 * ?j) = mem_read m ?s (4 * ?j)"
      by (rule mem_read_write_disjoint) (use n u assms in auto)
    moreover have "mem_write ?m1 ?d (mem_read m ?s (4 * ?j)) = mem_write m dst (mem_read m src (unat len))"
      using mem_write_append [of dst "mem_read m src (16 * ?K)" "mem_read m ?s (4 * ?j)" m] n assms(3,4)
        mem_read_append [of m src "16 * ?K" "4 * ?j", folded n]
      by simp
    ultimately show ?thesis
      unfolding stub_copy_def Let_def first lo using second nz(2) False by simp
  qed
qed

lemma stub_loop_misaligned:
  "unat r8 mod 4 \<noteq> 0 \<Longrightarrow> stub_loop 4 r8 fuel m dst src = None"
proof (induction fuel arbitrary: r8 m dst src)
  case (Suc fuel)
  have "unat (r8 - 4) mod 4 = unat r8 mod 4"
  proof (cases "4 \<le> unat r8")
    case True
    then show ?thesis
      by (simp add: unat_sub_if' le_mod_geq)
  next
    case False
    then have "unat (r8 - 4) = unat r8 + 4 * 1073741823"
      by (simp add: unat_sub_if')
    then show ?thesis
      by (simp only: mod_mult_self2)
  qed
  moreover have "r8 - 4 \<noteq> 0"
    using Suc.prems calculation by (metis mod_0 unat_0)
  ultimately show ?case
    using Suc by (simp add: Let_def)
qed simp

section \<open>Properties\<close>

text \<open>
  Memory layout of a relocated download: when the image starts below the end of the boot
  loader and everything fits below 4 GiB, the relocated prefix is exactly the part of the image
  that overlaps the boot loader's memory, the side buffer lies above both the boot loader and the
  whole image, the stub lies word aligned above the side buffer's contents, and nothing wraps.
\<close>

lemma relocation_layout:
  assumes "base < self_end"
    and "max (unat self_end) (unat base + len) + 0x4000 + len + 4 + stub_len < 2 ^ 32"
  shows "let r = calculate base (of_nat len) self_end in
    relocate r \<and> base_address_ptr r = base
    \<and> unat (relocate_first_n_bytes r) = min (unat base + len) (unat self_end) - unat base
    \<and> max (unat self_end) (unat base + len) \<le> unat (side_buffer_ptr r)
    \<and> unat (side_buffer_ptr r) + unat (relocate_first_n_bytes r) \<le> unat (stub_entry r)
    \<and> 4 dvd unat (stub_entry r) \<and> unat (stub_entry r) + stub_len < 2 ^ 32"
  using calculate_layout [of base len self_end stub_len] assms
  by (auto simp: layout_fits_def layout_ok_def Let_def)

theorem relocation_layout_witness:
  "(0x8000 :: u32) < 0x90000
   \<and> max (unat (0x90000 :: u32)) (unat (0x8000 :: u32) + 0xa0000) + 0x4000 + 0xa0000 + 4 + 0x200 < 2 ^ 32
   \<and> (let r = calculate 0x8000 (of_nat 0xa0000) 0x90000 in
      relocate r \<and> base_address_ptr r = 0x8000
      \<and> unat (relocate_first_n_bytes r) =
          min (unat (0x8000 :: u32) + 0xa0000) (unat (0x90000 :: u32)) - unat (0x8000 :: u32)
      \<and> max (unat (0x90000 :: u32)) (unat (0x8000 :: u32) + 0xa0000) \<le> unat (side_buffer_ptr r)
      \<and> unat (side_buffer_ptr r) + unat (relocate_first_n_bytes r) \<le> unat (stub_entry r)
      \<and> 4 dvd unat (stub_entry r) \<and> unat (stub_entry r) + 0x200 < 2 ^ 32)"
  using relocation_layout [of "0x8000" "0x90000" "0xa0000" "0x200"] by simp

lemma stored_image_boots:
  assumes "crc_stream ops"
    and "layout_fits base (length data) self_end (length stub_code)"
    and "r = calculate base (of_nat (length data)) self_end"
    and "stored r m data (length data)"
    and "4 dvd unat (relocate_first_n_bytes r)"
    and "final_relocation stub_code m r = (m1, call)"
  shows "verify_integrity ops r m expected (of_nat (length data)) =
      (if expected = crc_hash ops data then IntegrityOk else CrcMismatch expected (crc_hash ops data))
    \<and> (\<exists>m2. stub_copy (unat (r2_len call)) m1 (r0_dst call) (r1_src call) (r2_len call) = Some m2
      \<and> mem_read m2 base (length data) = data \<and> r3_entry call = base)"
proof -
  let ?len = "length data" and ?R = "relocate_first_n_bytes r" and ?side = "side_buffer_ptr r"
  have lay: "layout_ok r base ?len (length stub_code)"
    unfolding assms(3) by (rule calculate_layout(1) [OF assms(2)])
  note b = lay [unfolded layout_ok_def]
  have len: "?len < 2 ^ 32"
    using b by auto
  have v: "verify_integrity ops r m expected (of_nat ?len) =
      (if expected = crc_hash ops data then IntegrityOk else CrcMismatch expected (crc_hash ops data))"
    by (rule verify_stored [OF assms(1) lay refl assms(4) len])
  have m1: "m1 = mem_write m (stub_entry r) stub_code" and
    call: "r0_dst call = base" "r1_src call = ?side" "r2_len call = ?R" "r3_entry call = base"
    using assms(6) b by (auto simp: final_relocation_def)
  note parts = stored_parts [OF lay refl assms(4)]
  have side: "mem_read m1 ?side (unat ?R) = take (unat ?R) data"
    unfolding m1 parts(1) [symmetric] by (rule mem_read_write_disjoint) (use b in auto)
  let ?rest = "base + ?R"
  have rest_addr: "unat ?rest = unat base + unat ?R"
    using b by (subst unat_add_lem [symmetric]) auto
  have direct: "mem_read m1 ?rest (?len - unat ?R) = drop (unat ?R) data"
    unfolding m1 parts(2) [symmetric] by (rule mem_read_write_disjoint) (use b rest_addr in auto)
  let ?m2 = "mem_write m1 base (mem_read m1 ?side (unat ?R))"
  have copy: "stub_copy (unat ?R) m1 base ?side ?R = Some ?m2"
    by (rule stub_copy_copies [OF assms(5)]) (use b in auto)
  have "mem_read ?m2 base (unat ?R) = take (unat ?R) data"
    using mem_read_write_same [of base "mem_read m1 ?side (unat ?R)" m1] b side by auto
  moreover have "mem_read ?m2 ?rest (?len - unat ?R) = drop (unat ?R) data"
    unfolding direct [symmetric] by (rule mem_read_write_disjoint) (use b rest_addr in auto)
  ultimately have "mem_read ?m2 base (unat ?R + (?len - unat ?R)) = data"
    unfolding mem_read_append by simp
  then have "mem_read ?m2 base ?len = data"
    using b by simp
  with v copy call show ?thesis
    by simp
qed



text \<open>
  An image whose load address is at or above the end of the boot loader does not go to its
  load address: the relocation that is calculated has the base address zero, and every write and
  the entry point are relative to that.
\<close>

lemma high_image_loses_its_address:
  assumes "self_end \<le> base"
  shows "base_address_ptr (calculate base len self_end) = 0
    \<and> write_ptr (calculate base len self_end) (0 + off) = off
    \<and> r3_entry (snd (final_relocation stub_code m (calculate base len self_end))) = 0"
  using assms by (auto simp: calculate_def Let_def write_ptr_def final_relocation_def)

theorem high_image_loses_its_address_witness:
  "(0x90000 :: u32) \<le> 0x200000 \<and>
   (base_address_ptr (calculate 0x200000 0x1000 0x90000) = 0
    \<and> write_ptr (calculate 0x200000 0x1000 0x90000) (0 + 4) = 4
    \<and> r3_entry (snd (final_relocation [] (\<lambda>_. 0) (calculate 0x200000 0x1000 0x90000))) = 0)"
  using high_image_loses_its_address [of "0x90000" "0x200000" "0x1000" 4 "[]" "\<lambda>_. 0"] by simp

text \<open>
  C28. The stub does not end when the relocated prefix is not a whole number of words: its word
  loop counts down past zero, so no number of iterations is enough.
\<close>

theorem stub_never_ends_on_odd_length:
  assumes "unat n mod 4 \<noteq> 0"
  shows "stub_copy fuel m dst src n = None"
proof -
  have "unat (n AND mask 4) mod 4 \<noteq> 0"
    using assms by (simp add: and_low_mask mod_mod_cancel)
  moreover from this have "n AND mask 4 \<noteq> 0"
    by (metis mod_0 unat_0)
  moreover have "(0x0f :: u32) = mask 4"
    by (simp add: mask_eq_exp_minus_1)
  ultimately show ?thesis
    unfolding stub_copy_def by (auto simp: stub_loop_misaligned Let_def split: bind_split)
qed

theorem stub_never_ends_on_odd_length_witness:
  "unat (6 :: u32) mod 4 \<noteq> 0 \<and> stub_copy 1000 (\<lambda>_. 0) 0x8000 0xc000 6 = None"
  using stub_never_ends_on_odd_length [of 6 1000] by simp

text \<open>
  The older relocation code in \<open>legacy/staging.rs\<close> agrees with the one in \<open>stub.rs\<close>: it
  calculates the same addresses, writes to the same places, and, for a length not below the
  relocated prefix, verifies the same bytes.
\<close>

lemma staging_agrees:
  assumes "crc_stream ops" and "relocate_first_n_bytes (calculate base len self_end) \<le> n"
  shows "let r = calculate base len self_end; c = staging_calculate self_end base len in
    desired_location c = base_address_ptr r \<and> side_buffer_location c = side_buffer_ptr r
    \<and> rc_relocate_first_n_bytes c = relocate_first_n_bytes r \<and> stub_location c = stub_entry r
    \<and> write_bytes_with_relocation c m a bs = write_bytes r m a bs
    \<and> staging_verify_integrity ops c m expected n = verify_integrity ops r m expected n"
proof -
  let ?r = "calculate base len self_end" and ?c = "staging_calculate self_end base len"
  have eq: "desired_location ?c = base_address_ptr ?r" "side_buffer_location ?c = side_buffer_ptr ?r"
    "rc_relocate_first_n_bytes ?c = relocate_first_n_bytes ?r" "stub_location ?c = stub_entry ?r"
    by (simp_all add: staging_calculate_def calculate_def Let_def)
  have off: "\<not> relocate ?r \<Longrightarrow> relocate_first_n_bytes ?r = 0"
    by (auto simp: calculate_def Let_def split: if_splits)
  have "write_bytes_with_relocation ?c m a bs = write_bytes ?r m a bs"
    using off by (auto simp: write_bytes_with_relocation_def write_bytes_def write_ptr_def eq Let_def
        add.commute word_gt_0)
  moreover have "staging_verify_integrity ops ?c m expected n = verify_integrity ops ?r m expected n"
    using off assms(2) crc_stream.update_nil [OF assms(1)]
    by (auto simp: staging_verify_integrity_def verify_integrity_def eq Let_def word_gt_0 not_less)
  ultimately show ?thesis
    using eq by (simp add: Let_def)
qed

theorem staging_agrees_witness:
  "crc_stream crc32_ops \<and> relocate_first_n_bytes (calculate 0x8000 8 0x7000) \<le> 8 \<and>
   (let r = calculate 0x8000 8 0x7000; c = staging_calculate 0x7000 0x8000 8 in
    desired_location c = base_address_ptr r \<and> side_buffer_location c = side_buffer_ptr r
    \<and> rc_relocate_first_n_bytes c = relocate_first_n_bytes r \<and> stub_location c = stub_entry r
    \<and> write_bytes_with_relocation c (\<lambda>_. 0) 4 [1] = write_bytes r (\<lambda>_. 0) 4 [1]
    \<and> staging_verify_integrity crc32_ops c (\<lambda>_. 0) 7 8 = verify_integrity crc32_ops r (\<lambda>_. 0) 7 8)"
proof -
  have le: "relocate_first_n_bytes (calculate 0x8000 8 0x7000) \<le> 8"
    by (simp add: calculate_def Let_def)
  show ?thesis
    using staging_agrees [OF crc32.crc_stream_axioms le, of "\<lambda>_. 0" 4 "[1]" 7] le
      crc32.crc_stream_axioms by blast
qed

text \<open>
  A piece that crosses the boundary between the relocated and the direct part is not split:
  the whole piece goes to the side buffer, and the memory behind the boundary, where the image's
  bytes belong and where verification reads them, keeps what it had.
\<close>

lemma straddling_piece_is_misplaced:
  assumes "layout_fits base len self_end stub_len" and "r = calculate base (of_nat len) self_end"
    and "off < unat (relocate_first_n_bytes r)" and "unat (relocate_first_n_bytes r) < off + length p"
    and "off + length p \<le> len"
  shows "mem_read (write_bytes r m (base + of_nat off) p) (base + relocate_first_n_bytes r)
      (off + length p - unat (relocate_first_n_bytes r)) =
    mem_read m (base + relocate_first_n_bytes r) (off + length p - unat (relocate_first_n_bytes r))
    \<and> mem_read (write_bytes r m (base + of_nat off) p) (side_buffer_ptr r + of_nat off) (length p) = p"
proof -
  have lay: "layout_ok r base len stub_len" and side: "unat (side_buffer_ptr r) + len < 2 ^ 32"
    unfolding assms(2) using calculate_layout [OF assms(1)] by simp_all
  note b = lay [unfolded layout_ok_def]
  let ?n = "relocate_first_n_bytes r" and ?w = "side_buffer_ptr r + of_nat off"
  have w: "write_bytes r m (base + of_nat off) p = mem_write m ?w p"
    using write_ptr_place [OF lay, of off] assms(3-5) by (simp add: write_bytes_def place_def)
  have a: "unat ?w = unat (side_buffer_ptr r) + off"
    using side assms(5) by (intro unat_plus_of_nat) simp
  have "unat (base + ?n) = unat base + unat ?n"
    using b by (subst unat_add_lem [symmetric]) auto
  then have "mem_read (mem_write m ?w p) (base + ?n) (off + length p - unat ?n) =
      mem_read m (base + ?n) (off + length p - unat ?n)"
    using a b side assms(3-5) by (intro mem_read_write_disjoint) auto
  moreover have "mem_read (mem_write m ?w p) ?w (length p) = p"
    using a side assms(5) by (intro mem_read_write_same) simp
  ultimately show ?thesis
    unfolding w by blast
qed

theorem straddling_piece_is_misplaced_witness:
  "layout_fits 0x8000 8 0x8004 2 \<and> (let r = calculate 0x8000 (of_nat 8) 0x8004 in
    unat (relocate_first_n_bytes r) = 4
    \<and> mem_read (write_bytes r (\<lambda>_. 0) (0x8000 + of_nat 0) [1, 2, 3, 4, 5, 6, 7, 8]) (0x8000 + relocate_first_n_bytes r)
        (0 + length [1, 2, 3, 4, 5, 6, 7, 8 :: u8] - unat (relocate_first_n_bytes r)) = replicate 4 0)"
proof -
  have fits: "layout_fits 0x8000 8 0x8004 2"
    by (simp add: layout_fits_def)
  let ?r = "calculate 0x8000 (of_nat 8) 0x8004" and ?p = "[1, 2, 3, 4, 5, 6, 7, 8 :: u8]"
  have n: "unat (relocate_first_n_bytes ?r) = 4"
    using calculate_layout(2) [OF fits] by simp
  have "mem_read (write_bytes ?r (\<lambda>_. 0) (0x8000 + of_nat 0) ?p) (0x8000 + relocate_first_n_bytes ?r)
        (0 + length ?p - unat (relocate_first_n_bytes ?r)) =
      mem_read (\<lambda>_. 0) (0x8000 + relocate_first_n_bytes ?r) (0 + length ?p - unat (relocate_first_n_bytes ?r))"
    using straddling_piece_is_misplaced [OF fits refl, of 0 ?p "\<lambda>_. 0"] n by simp
  also have "\<dots> = replicate 4 0"
    unfolding n by (simp add: mem_read_def map_replicate_const numeral_eq_Suc)
  finally show ?thesis
    using fits n by (simp only: Let_def simp_thms)
qed

end
