(* ===== verification/Timing.thy ===== *)
theory Timing
  imports Message
begin

text \<open>
  Time on the device: \<open>Duration\<close> and \<open>Instant\<close> as 64-bit counts of microseconds of the free
  running timer, timeouts given as numbers of bytes on the line (\<open>device/okboot/src/timeouts.rs\<close>),
  and the two tables of timeouts of \<open>protocol.rs\<close> and \<open>protocol/v2.rs\<close>.
\<close>

type_synonym duration = u64
type_synonym instant = u64

text \<open>\<open>elapsed\<close> subtracts with wrap-around; the second argument is the timer reading.\<close>

definition elapsed :: "instant \<Rightarrow> u64 \<Rightarrow> duration" where
  "elapsed self current_time = current_time - self"

definition floating_time :: "u32 \<Rightarrow> u32 \<Rightarrow> u64" where
  "floating_time chi clo = push_bit 32 (ucast chi) OR ucast clo"

record RateRelativeTimeout =
  bytes :: nat

definition from_bytes :: "nat \<Rightarrow> RateRelativeTimeout" where
  "from_bytes n = \<lparr>bytes = n\<rparr>"

text \<open>The division panics when the byte rate is zero.\<close>

definition at_baud_8n1 :: "RateRelativeTimeout \<Rightarrow> u32 \<Rightarrow> duration option" where
  "at_baud_8n1 self baud =
    (let byte_rate = ucast baud div 10 :: u64;
         bytes_mega = of_nat (bytes self) * 1000000 :: u64
     in if byte_rate = 0 then None else Some ((bytes_mega + byte_rate - 1) div byte_rate))"

definition ERROR_RECOVERY :: RateRelativeTimeout where "ERROR_RECOVERY = from_bytes 12"
definition BYTE_READ :: RateRelativeTimeout where "BYTE_READ = from_bytes 2"
definition SESSION_EXPIRES :: RateRelativeTimeout where "SESSION_EXPIRES = from_bytes 12288"
definition GET_PROG_INFO_INTERVAL :: duration where "GET_PROG_INFO_INTERVAL = 300000"

record Timeouts =
  error_recovery :: duration
  byte_read :: duration
  session_expires :: duration
  override_session_timeout :: "duration option"

definition timeouts_new_8n1 :: "u32 \<Rightarrow> Timeouts option" where
  "timeouts_new_8n1 baud = do {
     er \<leftarrow> at_baud_8n1 ERROR_RECOVERY baud;
     br \<leftarrow> at_baud_8n1 BYTE_READ baud;
     se \<leftarrow> at_baud_8n1 SESSION_EXPIRES baud;
     Some \<lparr>error_recovery = er, byte_read = br, session_expires = se,
       override_session_timeout = None\<rparr>
   }"

definition CHUNK_SIZE :: nat where "CHUNK_SIZE = 0x1000"
definition TRY_RESEND :: RateRelativeTimeout where "TRY_RESEND = from_bytes 0x300"
definition TRY_RESEND_CHUNK :: RateRelativeTimeout where "TRY_RESEND_CHUNK = from_bytes (CHUNK_SIZE * 16)"
definition BUFFER_RETRY :: RateRelativeTimeout where "BUFFER_RETRY = from_bytes 0x80"

record V1Timeouts =
  try_resend :: duration
  buffer_retry :: duration
  try_resend_chunk :: duration

definition v1_timeouts_new_8n1 :: "u32 \<Rightarrow> V1Timeouts option" where
  "v1_timeouts_new_8n1 baud = do {
     tr \<leftarrow> at_baud_8n1 TRY_RESEND baud;
     br \<leftarrow> at_baud_8n1 BUFFER_RETRY baud;
     trc \<leftarrow> at_baud_8n1 TRY_RESEND_CHUNK baud;
     Some \<lparr>try_resend = tr, buffer_retry = br, try_resend_chunk = trc\<rparr>
   }"

section \<open>Rounding\<close>

lemma unat_of_nat_u64: "n < 2 ^ 64 \<Longrightarrow> unat (of_nat n :: u64) = n"
  by (simp add: unat_of_nat take_bit_nat_eq_self_iff)

lemma byte_rate_eq: "unat (ucast (baud :: u32) div 10 :: u64) = unat baud div 10"
proof -
  have "unat (ucast baud :: u64) = unat baud"
    by (simp add: unsigned_ucast_eq take_bit_nat_eq_self_iff order.strict_trans [OF unsigned_less])
  then show ?thesis
    by (simp add: unat_div)
qed

text \<open>
  A timeout of \<open>n\<close> bytes at a baud rate is the time these bytes take on the line at ten bits
  per byte, in microseconds and rounded up: the 64-bit arithmetic does not overflow for any number
  of bytes that a 32-bit \<open>usize\<close> can hold, and the computation panics only below ten baud.
\<close>

lemma timeout_rounds_up:
  assumes "bytes rt < 2 ^ 32" and "10 \<le> unat baud"
  shows "\<exists>t. at_baud_8n1 rt baud = Some t
    \<and> bytes rt * 1000000 \<le> unat t * (unat baud div 10)
    \<and> unat t * (unat baud div 10) < bytes rt * 1000000 + unat baud div 10"
proof -
  let ?rate = "ucast baud div 10 :: u64" and ?r = "unat baud div 10" and ?n = "bytes rt * 1000000"
  have r: "unat ?rate = ?r" "0 < ?r" "?r < 2 ^ 32"
    using byte_rate_eq [of baud] assms(2) order.strict_trans1 [OF div_le_dividend unsigned_less, of baud 10]
    by (auto simp: div_greater_zero_iff)
  have n: "unat (of_nat (bytes rt) * 1000000 :: u64) = ?n"
    using unat_of_nat_u64 [of ?n] assms(1) by simp
  have "unat (of_nat (bytes rt) * 1000000 + ?rate :: u64) = ?n + ?r"
    using n r assms(1) by (subst unat_plus_if') simp
  then have sum: "unat (of_nat (bytes rt) * 1000000 + ?rate - 1 :: u64) = ?n + ?r - 1"
    using r(2) by (subst unat_minus_one) auto
  have q: "unat ((of_nat (bytes rt) * 1000000 + ?rate - 1) div ?rate) = (?n + ?r - 1) div ?r"
    using sum r(1) by (simp add: unat_div)
  have "(?n + ?r - 1) div ?r * ?r + (?n + ?r - 1) mod ?r = ?n + ?r - 1" "(?n + ?r - 1) mod ?r < ?r"
    by (rule div_mult_mod_eq, rule mod_less_divisor [OF r(2)])
  then have "?n \<le> (?n + ?r - 1) div ?r * ?r" "(?n + ?r - 1) div ?r * ?r < ?n + ?r"
    using r(2) by linarith+
  moreover have "?rate \<noteq> 0"
    using r by auto
  ultimately show ?thesis
    using q by (simp add: at_baud_8n1_def Let_def)
qed

theorem timeout_rounds_up_witness:
  "bytes SESSION_EXPIRES < 2 ^ 32 \<and> 10 \<le> unat INITIAL_BAUD_RATE \<and>
   (\<exists>t. at_baud_8n1 SESSION_EXPIRES INITIAL_BAUD_RATE = Some t
    \<and> bytes SESSION_EXPIRES * 1000000 \<le> unat t * (unat INITIAL_BAUD_RATE div 10)
    \<and> unat t * (unat INITIAL_BAUD_RATE div 10)
        < bytes SESSION_EXPIRES * 1000000 + unat INITIAL_BAUD_RATE div 10)"
  using timeout_rounds_up [of SESSION_EXPIRES INITIAL_BAUD_RATE]
  by (simp add: SESSION_EXPIRES_def from_bytes_def INITIAL_BAUD_RATE_def)

end
