(* ===== verification/Loader.thy ===== *)
theory Loader
  imports Frame_Sink Relocation Timing
begin

text \<open>
  What the device keeps while it runs a protocol, and the loaders of \<open>protocol/v2.rs\<close>: the
  \<open>BinLoader\<close> writes a flat binary to its place through the relocation, the \<open>ElfLoader\<close> collects
  an ELF file; both end in a \<open>Booter\<close>.

  Packages the code calls are parameters, fields of the record \<open>env\<close>: the checksum, the
  serializer for each message, the streaming decompressor, the ELF parser, the formatter of the
  texts (a function of what is printed), the end of the boot loader's own memory and the code of
  its stub.
\<close>

section \<open>Decompressor interface\<close>

datatype MZStatus = MZOk | MZStreamEnd | MZNeedDict
datatype MZError = MZErrBuf | MZErrData | MZErrOther

text \<open>\<open>bytes_written\<close> is the number of bytes of \<open>inflate_out\<close>.\<close>

record InflateResult =
  bytes_consumed :: nat
  inflate_out :: "u8 list"
  inflate_status :: "MZError + MZStatus"

section \<open>Booters and loaders\<close>

record Elf32_Phdr =
  p_type :: u32
  p_offset :: u32
  p_vaddr :: u32
  p_paddr :: u32
  p_filesz :: u32
  p_memsz :: u32
  p_flags :: u32
  p_align :: u32

text \<open>The parser's view of a segment has 64-bit fields.\<close>

record ProgramHeader =
  ph_type :: u32
  ph_offset :: u64
  ph_vaddr :: u64
  ph_paddr :: u64
  ph_filesz :: u64
  ph_memsz :: u64
  ph_flags :: u32
  ph_align :: u64

record ElfBytes =
  class_elf32 :: bool
  little_endian :: bool
  osabi :: u8
  e_type :: u16
  e_machine :: u16
  elf_version :: u32
  e_entry :: u64
  segments :: "ProgramHeader list option"

datatype Booter = BootRelocation Relocation | BootElf "Elf32_Phdr list" "u8 list" u32

datatype ElfError = ElfParse string | ElfClass | ElfMachine | ElfType | ElfVersion | ElfEntry
  | ElfEndianness | ElfOsAbi | ElfNoSegmentTable | ElfTls | ElfSegmentType | ElfSegmentSize

datatype LoadError = LoadCrc | LoadElf ElfError

record BinLoader =
  bin_metadata :: Metadata_msg
  bin_relocation :: Relocation
  bytes_written :: u32

record ElfLoader =
  elf_metadata :: Metadata_msg
  elf_bytes :: "u8 list"
  program_headers :: "Elf32_Phdr list"

datatype LoaderEnum = BinLoaderE BinLoader | ElfLoaderE ElfLoader

datatype S =
    RequestMetadata
  | AckMetadata Metadata_msg
  | RequestChunk nat nat LoaderEnum
  | Boot Booter

text \<open>The texts of the protocol, with what they print.\<close>

datatype V2Log =
    LogV2Timeouts V1Timeouts
  | LogParseMetadata string
  | LogParseMetadataAckAck string
  | LogParseChunk string
  | LogUnrecognized MessageType
  | LogUnexpectedMetadata S
  | LogAddressTooHigh
  | LogAddressUnaligned
  | LogLoadingElf
  | LogUnexpectedAckAck S
  | LogMetadataAgain
  | LogUnexpectedChunk u32 S
  | LogMZData
  | LogMZOther MZError
  | LogLoadError LoadError
  | LogLastChunk
  | LogWrongChunk nat u32
  | LogCantFinalize LoadError
  | LogUnexpectedBootingAck S
  | LogBooting
  | LogFailedMetadataReq "string SendError"
  | LogFailedMetadataAck "string SendError"
  | LogFailedChunkReq "string SendError"
  | LogFailedBooting "string SendError"
  | LogBooter BinLoader
  | LogCrcsOkay
  | LogCrcMismatch u32 u32
  | LogIgnoringGnuStack
  | LogIgnoringNote

datatype BootLog =
    LogStubParameters | LogStubDestination u32 | LogStubCode | LogStubLength nat | LogCopyTo u32
  | LogCopyFrom u32 | LogCopyBytes u32 | LogEntry u32 | LogLoadedStub
  | LogElfStubCode | LogElfStubLength nat | LogElfBase | LogElfEntry u32 | LogElfHeaders
  | LogElfHeaderCount nat | LogElfStubDst

type_synonym 'm serializer = "'m \<Rightarrow> u8 list \<Rightarrow> u8 list \<times> (string + nat)"

record ('h, 'i) env =
  crc_pkg :: "'h crc_ops"
  ser_metadata_req :: "unit serializer"
  ser_metadata_ack :: "MetadataAck_msg serializer"
  ser_chunk_req :: "ChunkReq_msg serializer"
  ser_booting :: "unit serializer"
  ser_allowed_versions :: "AllowedVersions_msg serializer"
  de_use_version :: "u8 list \<Rightarrow> string + UseVersion_msg"
  de_metadata :: "u8 list \<Rightarrow> string + Metadata_msg"
  de_metadata_ack_ack :: "u8 list \<Rightarrow> string + MetadataAckAck_msg"
  de_chunk :: "u8 list \<Rightarrow> string + Chunk_msg"
  inflate_new :: 'i
  inflate :: "'i \<Rightarrow> u8 list \<Rightarrow> nat \<Rightarrow> 'i \<times> InflateResult"
  minimal_parse :: "u8 list \<Rightarrow> string + ElfBytes"
  fmt :: "V2Log \<Rightarrow> u8 list list"
  fmt_blocking :: "BootLog \<Rightarrow> u8 list list list"
  self_end_addr :: u32
  stub_code :: "u8 list"

text \<open>What handlers borrow: sink, timeouts, the machine and the inflate buffer.\<close>

record device =
  sink :: FrameSink
  timeouts :: Timeouts
  mach :: machine
  inflate_buffer :: "u8 list"

definition println :: "('h, 'i) env \<Rightarrow> V2Log \<Rightarrow> device \<Rightarrow> device option" where
  "println env log dev = do {
     fs \<leftarrow> rpc_println (crc_pkg env) (sink dev) (fmt env log);
     Some (dev\<lparr>sink := fs\<rparr>)
   }"

definition print_blocking :: "('h, 'i) env \<Rightarrow> BootLog \<Rightarrow> machine \<Rightarrow> machine option" where
  "print_blocking env log m = legacy_print_string_blocking m (fmt_blocking env log)"

text \<open>
  \<open>flush_to_fifo\<close> empties the transmit buffer into the UART; the call after the last byte returns
  nothing and ends the loop.
\<close>

definition flush_to_fifo :: "device \<Rightarrow> device option" where
  "flush_to_fifo dev = do {
     (tb, bs) \<leftarrow> drain shift_byte (circle_len (transmit_buffer (sink dev)) + 1)
       (transmit_buffer (sink dev));
     Some (dev\<lparr>sink := (sink dev)\<lparr>transmit_buffer := tb\<rparr>,
       mach := uart1_write_bytes (mach dev) bs\<rparr>)
   }"

section \<open>Flat binaries\<close>

definition bin_new :: "('h, 'i) env \<Rightarrow> u32 \<Rightarrow> Metadata_msg \<Rightarrow> BinLoader" where
  "bin_new env load_address md =
    \<lparr>bin_metadata = md,
     bin_relocation = calculate load_address (inflated_len md) (self_end_addr env),
     bytes_written = 0\<rparr>"

definition bin_receive_bytes :: "BinLoader \<Rightarrow> memory \<Rightarrow> u8 list \<Rightarrow> BinLoader \<times> memory" where
  "bin_receive_bytes self m bs =
    (let ptr = base_address_ptr (bin_relocation self) + bytes_written self
     in (self\<lparr>bytes_written := bytes_written self + of_nat (length bs)\<rparr>,
         write_bytes (bin_relocation self) m ptr bs))"

definition bin_finalize ::
  "('h, 'i) env \<Rightarrow> BinLoader \<Rightarrow> device \<Rightarrow> (device \<times> (LoadError + Booter)) option" where
  "bin_finalize env self dev = do {
     dev \<leftarrow> println env (LogBooter self) dev;
     (case verify_integrity (crc_pkg env) (bin_relocation self) (ram (mach dev))
         (inflated_crc (bin_metadata self)) (inflated_len (bin_metadata self)) of
        IntegrityOk \<Rightarrow> do {
          dev \<leftarrow> println env LogCrcsOkay dev;
          dev \<leftarrow> flush_to_fifo dev;
          Some (dev, Inr (BootRelocation (bin_relocation self)))
        }
      | CrcMismatch expected calculated \<Rightarrow> do {
          dev \<leftarrow> println env (LogCrcMismatch expected calculated) dev;
          dev \<leftarrow> flush_to_fifo dev;
          Some (dev, Inl LoadCrc)
        })
   }"

section \<open>ELF files\<close>

definition ET_EXEC :: u16 where "ET_EXEC = 2"
definition EM_ARM :: u16 where "EM_ARM = 40"
definition PT_LOAD :: u32 where "PT_LOAD = 1"
definition PT_NOTE :: u32 where "PT_NOTE = 4"
definition PT_TLS :: u32 where "PT_TLS = 7"
definition PT_GNU_STACK :: u32 where "PT_GNU_STACK = 0x6474e551"

definition elf_new :: "Metadata_msg \<Rightarrow> ElfLoader" where
  "elf_new md = \<lparr>elf_metadata = md, elf_bytes = [], program_headers = []\<rparr>"

definition elf_receive_bytes :: "ElfLoader \<Rightarrow> u8 list \<Rightarrow> ElfLoader" where
  "elf_receive_bytes self bs = self\<lparr>elf_bytes := elf_bytes self @ bs\<rparr>"

definition narrow_header :: "ProgramHeader \<Rightarrow> Elf32_Phdr" where
  "narrow_header seg =
    \<lparr>p_type = ph_type seg, p_offset = ucast (ph_offset seg), p_vaddr = ucast (ph_vaddr seg),
     p_paddr = ucast (ph_paddr seg), p_filesz = ucast (ph_filesz seg),
     p_memsz = ucast (ph_memsz seg), p_flags = ph_flags seg, p_align = ucast (ph_align seg)\<rparr>"

fun elf_segments :: "('h, 'i) env \<Rightarrow> ProgramHeader list \<Rightarrow> Elf32_Phdr list \<Rightarrow> device
    \<Rightarrow> (device \<times> (ElfError + Elf32_Phdr list)) option" where
  "elf_segments env [] acc dev = Some (dev, Inr acc)"
| "elf_segments env (seg # segs) acc dev =
    (if ph_type seg = PT_TLS then Some (dev, Inl ElfTls)
     else if ph_type seg = PT_LOAD then
       if ph_filesz seg \<noteq> ph_memsz seg \<and> ph_filesz seg \<noteq> 0 then Some (dev, Inl ElfSegmentSize)
       else elf_segments env segs (acc @ [narrow_header seg]) dev
     else if ph_type seg = PT_GNU_STACK then do {
       dev \<leftarrow> println env LogIgnoringGnuStack dev;
       elf_segments env segs acc dev
     }
     else if ph_type seg = PT_NOTE then do {
       dev \<leftarrow> println env LogIgnoringNote dev;
       elf_segments env segs acc dev
     }
     else Some (dev, Inl ElfSegmentType))"

definition elf_header_error :: "ElfBytes \<Rightarrow> ElfError option" where
  "elf_header_error ehdr =
    (if \<not> class_elf32 ehdr then Some ElfClass
     else if \<not> little_endian ehdr then Some ElfEndianness
     else if osabi ehdr \<noteq> 0 then Some ElfOsAbi
     else if e_type ehdr \<noteq> ET_EXEC then Some ElfType
     else if e_machine ehdr \<noteq> EM_ARM then Some ElfMachine
     else if elf_version ehdr \<noteq> 1 then Some ElfVersion
     else if e_entry ehdr \<ge> 0x10000000 then Some ElfEntry
     else None)"

definition elf_finalize ::
  "('h, 'i) env \<Rightarrow> ElfLoader \<Rightarrow> device \<Rightarrow> (device \<times> (LoadError + Booter)) option" where
  "elf_finalize env self dev =
    (let calculated_crc = crc_hash (crc_pkg env) (elf_bytes self) in
     if calculated_crc \<noteq> deflated_crc (elf_metadata self) then do {
       dev \<leftarrow> println env (LogCrcMismatch (deflated_crc (elf_metadata self)) calculated_crc) dev;
       Some (dev, Inl LoadCrc)
     } else
       (case minimal_parse env (elf_bytes self) of
          Inl e \<Rightarrow> Some (dev, Inl (LoadElf (ElfParse e)))
        | Inr eb \<Rightarrow>
            (case elf_header_error eb of
               Some e \<Rightarrow> Some (dev, Inl (LoadElf e))
             | None \<Rightarrow>
                 (case segments eb of
                    None \<Rightarrow> Some (dev, Inl (LoadElf ElfNoSegmentTable))
                  | Some segs \<Rightarrow> do {
                      (dev, r) \<leftarrow> elf_segments env segs (program_headers self) dev;
                      Some (dev, case r of
                          Inl e \<Rightarrow> Inl (LoadElf e)
                        | Inr phdrs \<Rightarrow> Inr (BootElf phdrs (elf_bytes self) (ucast (e_entry eb))))
                    }))))"

section \<open>The loader interface\<close>

definition receive_bytes :: "LoaderEnum \<Rightarrow> memory \<Rightarrow> u8 list \<Rightarrow> LoaderEnum \<times> memory \<times> (LoadError + unit)" where
  "receive_bytes l m bs =
    (case l of
       BinLoaderE bin \<Rightarrow> (case bin_receive_bytes bin m bs of (bin, m) \<Rightarrow> (BinLoaderE bin, m, Inr ()))
     | ElfLoaderE elf \<Rightarrow> (ElfLoaderE (elf_receive_bytes elf bs), m, Inr ()))"

definition loader_finalize ::
  "('h, 'i) env \<Rightarrow> LoaderEnum \<Rightarrow> device \<Rightarrow> (device \<times> (LoadError + Booter)) option" where
  "loader_finalize env l dev =
    (case l of BinLoaderE bin \<Rightarrow> bin_finalize env bin dev | ElfLoaderE elf \<Rightarrow> elf_finalize env elf dev)"

section \<open>Entering the loaded program\<close>

text \<open>
  A function that never returns ends in a jump: to the relocated stub for a flat binary, to the
  ELF stub for an ELF file, which is given the program headers, the file and the entry point.
\<close>

datatype jump = JumpStub stub_call | JumpElf "Elf32_Phdr list" "u8 list" u32

fun print_all_blocking :: "('h, 'i) env \<Rightarrow> BootLog list \<Rightarrow> machine \<Rightarrow> machine option" where
  "print_all_blocking env [] m = Some m"
| "print_all_blocking env (l # ls) m = do { m \<leftarrow> print_blocking env l m; print_all_blocking env ls m }"

definition flat_final_relocation ::
  "('h, 'i) env \<Rightarrow> Relocation \<Rightarrow> device \<Rightarrow> (device \<times> jump) option" where
  "flat_final_relocation env r dev = do {
     m \<leftarrow> print_all_blocking env [LogStubParameters, LogStubDestination (stub_entry r), LogStubCode,
       LogStubLength (length (stub_code env)), LogCopyTo (base_address_ptr r),
       LogCopyFrom (side_buffer_ptr r), LogCopyBytes (relocate_first_n_bytes r),
       LogEntry (base_address_ptr r)] (mach dev);
     let (mem, call) = final_relocation (stub_code env) (ram m) r;
     m \<leftarrow> print_blocking env LogLoadedStub (m\<lparr>ram := mem\<rparr>);
     dev \<leftarrow> flush_to_fifo (dev\<lparr>mach := m\<rparr>);
     Some (dev, JumpStub call)
   }"

definition elf_final_relocation ::
  "('h, 'i) env \<Rightarrow> Elf32_Phdr list \<Rightarrow> u8 list \<Rightarrow> u32 \<Rightarrow> device \<Rightarrow> (device \<times> jump) option" where
  "elf_final_relocation env phdrs elf entry dev = do {
     m \<leftarrow> print_all_blocking env [LogElfStubCode, LogElfStubLength (length (stub_code env)), LogElfBase,
       LogElfEntry entry, LogElfHeaders, LogElfHeaderCount (length phdrs), LogElfStubDst] (mach dev);
     dev \<leftarrow> flush_to_fifo (dev\<lparr>mach := m\<rparr>);
     Some (dev, JumpElf phdrs elf entry)
   }"

definition enter :: "('h, 'i) env \<Rightarrow> Booter \<Rightarrow> device \<Rightarrow> (device \<times> jump) option" where
  "enter env b dev =
    (case b of
       BootRelocation r \<Rightarrow> flat_final_relocation env r dev
     | BootElf phdrs elf entry \<Rightarrow> elf_final_relocation env phdrs elf entry dev)"

end
