(* ===== verification/V2_Device.thy ===== *)
theory V2_Device
  imports Loader
begin

text \<open>
  The download protocol on the device (\<open>device/okboot/src/protocol/v2.rs\<close>, \<open>V2\<close>): its state, the
  handler of each message, the decompression loop, and the heartbeat that sends and resends the
  request of the current state. Timer readings are arguments.
\<close>

section \<open>State\<close>

record 'i V2 =
  state :: S
  once :: bool
  retry_buffer :: bool
  heartbeat :: instant
  baud :: u32
  v1_timeouts :: V1Timeouts
  inflate_state :: 'i
  remainder :: nat

datatype 'p ProtocolStatus = Continue | Abcon | Abend | Switch 'p

text \<open>
  \<open>Switch\<close> carries the protocol to switch to. A handler returns to the loop or enters the loaded
  program.
\<close>

datatype 'p outcome = Status "'p ProtocolStatus" | Entered jump

definition v2_new :: "('h, 'i) env \<Rightarrow> u64 \<Rightarrow> u32 \<Rightarrow> 'i V2 option" where
  "v2_new env now bd = do {
     ts \<leftarrow> v1_timeouts_new_8n1 bd;
     Some \<lparr>state = RequestMetadata, once = True, retry_buffer = False, heartbeat = now, baud = bd,
       v1_timeouts = ts, inflate_state = inflate_new env, remainder = 0\<rparr>
   }"

section \<open>Messages\<close>

definition recv_metadata ::
  "('h, 'i) env \<Rightarrow> 'i V2 \<Rightarrow> Metadata_msg \<Rightarrow> device \<Rightarrow> ('i V2 \<times> device) option" where
  "recv_metadata env self msg dev =
    (case state self of
       RequestMetadata \<Rightarrow> do {
         (ok, dev) \<leftarrow>
           (case format_details msg of
              Bin load_address \<Rightarrow>
                if load_address \<ge> 0x10000000 then do {
                  dev \<leftarrow> println env LogAddressTooHigh dev; Some (False, dev) }
                else if load_address AND 3 \<noteq> 0 then do {
                  dev \<leftarrow> println env LogAddressUnaligned dev; Some (False, dev) }
                else Some (True, dev)
            | Elf \<Rightarrow> do { dev \<leftarrow> println env LogLoadingElf dev; Some (True, dev) });
         if ok then do {
           t \<leftarrow> at_baud_8n1 TRY_RESEND_CHUNK (baud self);
           Some (self\<lparr>state := AckMetadata msg, once := True\<rparr>,
             dev\<lparr>timeouts := (timeouts dev)\<lparr>override_session_timeout := Some (t * 2)\<rparr>\<rparr>)
         } else Some (self, dev)
       }
     | _ \<Rightarrow> do { dev \<leftarrow> println env (LogUnexpectedMetadata (state self)) dev; Some (self, dev) })"

text \<open>The number of chunks is computed in 32 bits; the address conversion panics when it fails.\<close>

definition chunk_count :: "Metadata_msg \<Rightarrow> nat" where
  "chunk_count md =
    unat ((deflated_len md + of_nat CHUNK_SIZE - 1) div of_nat CHUNK_SIZE)"

definition recv_metadata_ack_ack ::
  "('h, 'i) env \<Rightarrow> 'i V2 \<Rightarrow> MetadataAckAck_msg \<Rightarrow> device \<Rightarrow> ('i V2 \<times> device) option" where
  "recv_metadata_ack_ack env self msg dev =
    (case state self of
       AckMetadata md \<Rightarrow>
         if \<not> is_ok msg then do {
           dev \<leftarrow> println env LogMetadataAgain dev;
           Some (self\<lparr>state := RequestMetadata\<rparr>, dev)
         } else do {
           loader \<leftarrow>
             (case format_details md of
                Bin load_address \<Rightarrow> do {
                  _ \<leftarrow> assertion (load_address < 2 ^ 32);
                  Some (BinLoaderE (bin_new env (ucast load_address) md))
                }
              | Elf \<Rightarrow> Some (ElfLoaderE (elf_new md)));
           Some (self\<lparr>state := RequestChunk 0 (chunk_count md) loader, once := True\<rparr>, dev)
         }
     | _ \<Rightarrow> do { dev \<leftarrow> println env (LogUnexpectedAckAck (state self)) dev; Some (self, dev) })"

text \<open>
  The decompression loop. Its result is the state it leaves and whether it was left by a
  \<open>break\<close> (\<open>True\<close>) or by a return of \<open>false\<close>. \<open>a\<close> holds the compressed bytes not consumed yet,
  \<open>b\<close> the output of the decompressor. The subtraction from \<open>remainder\<close> wraps.
\<close>

record 'i inflate_ctx =
  ctx_inflate :: 'i
  ctx_remainder :: nat
  ctx_a :: "u8 list"
  ctx_b :: "u8 list"
  ctx_loader :: LoaderEnum
  ctx_dev :: device

definition usize_sub :: "nat \<Rightarrow> nat \<Rightarrow> nat" where
  "usize_sub x y = (if y \<le> x then x - y else x + 2 ^ 32 - y)"

definition give_loader :: "('h, 'i) env \<Rightarrow> 'i inflate_ctx \<Rightarrow> u8 list \<Rightarrow> ('i inflate_ctx \<times> bool) option" where
  "give_loader env c out =
    (case receive_bytes (ctx_loader c) (ram (mach (ctx_dev c))) out of
       (l, mem, r) \<Rightarrow>
         let dev = ctx_dev c;
             c = c\<lparr>ctx_loader := l, ctx_dev := dev\<lparr>mach := (mach dev)\<lparr>ram := mem\<rparr>\<rparr>\<rparr>
         in (case r of
               Inl e \<Rightarrow> do {
                 dev \<leftarrow> println env (LogLoadError e) (ctx_dev c);
                 Some (c\<lparr>ctx_dev := dev\<rparr>, False)
               }
             | Inr _ \<Rightarrow> Some (c, True)))"

partial_function (option) inflate_loop ::
  "('h, 'i) env \<Rightarrow> 'i inflate_ctx \<Rightarrow> ('i inflate_ctx \<times> bool) option" where
  "inflate_loop env c = do {
     input \<leftarrow> subslice (ctx_a c) 0 (ctx_remainder c);
     let (st, res) = inflate env (ctx_inflate c) input (length (ctx_b c));
     b \<leftarrow> copy_into (ctx_b c) 0 (inflate_out res);
     let c = c\<lparr>ctx_inflate := st, ctx_b := b\<rparr>;
     (case inflate_status res of
        Inr MZOk \<Rightarrow> do {
          rest \<leftarrow> subslice (ctx_a c) (bytes_consumed res) (ctx_remainder c);
          let c = c\<lparr>ctx_a := blit (ctx_a c) 0 rest,
            ctx_remainder := usize_sub (ctx_remainder c) (bytes_consumed res)\<rparr>;
          if inflate_out res = [] then Some (c, True)
          else do {
            (c, ok) \<leftarrow> give_loader env c (inflate_out res);
            if ok then inflate_loop env c else Some (c, False)
          }
        }
      | Inr MZStreamEnd \<Rightarrow>
          give_loader env
            (c\<lparr>ctx_remainder := usize_sub (ctx_remainder c) (bytes_consumed res)\<rparr>)
            (inflate_out res)
      | Inr MZNeedDict \<Rightarrow> None
      | Inl MZErrBuf \<Rightarrow> do {
          _ \<leftarrow> assertion (bytes_consumed res = 0);
          _ \<leftarrow> assertion (inflate_out res = []);
          Some (c, True)
        }
      | Inl MZErrData \<Rightarrow> do {
          dev \<leftarrow> println env LogMZData (ctx_dev c);
          Some (c\<lparr>ctx_dev := dev\<rparr>, False)
        }
      | Inl MZErrOther \<Rightarrow> do {
          dev \<leftarrow> println env (LogMZOther MZErrOther) (ctx_dev c);
          Some (c\<lparr>ctx_dev := dev\<rparr>, False)
        })
   }"

text \<open>Starting the loop on a chunk, and taking its result back into the protocol's state.\<close>

definition start_ctx :: "'i V2 \<Rightarrow> LoaderEnum \<Rightarrow> u8 list \<Rightarrow> device \<Rightarrow> 'i inflate_ctx option" where
  "start_ctx self loader chunk dev = do {
     _ \<leftarrow> assertion (0x2000 \<le> length (inflate_buffer dev));
     let a = take 0x2000 (inflate_buffer dev);
     let b = drop 0x2000 (inflate_buffer dev);
     let new_end = length chunk + remainder self;
     _ \<leftarrow> assertion (length a \<ge> new_end);
     a \<leftarrow> copy_into a (remainder self) chunk;
     Some \<lparr>ctx_inflate = inflate_state self, ctx_remainder = new_end, ctx_a = a, ctx_b = b,
       ctx_loader = loader, ctx_dev = dev\<rparr>
   }"

definition end_ctx :: "'i V2 \<Rightarrow> 'i inflate_ctx \<Rightarrow> 'i V2 \<times> device" where
  "end_ctx self c =
    (self\<lparr>inflate_state := ctx_inflate c, remainder := ctx_remainder c\<rparr>,
     (ctx_dev c)\<lparr>inflate_buffer := ctx_a c @ ctx_b c\<rparr>)"

definition recv_chunk ::
  "('h, 'i) env \<Rightarrow> 'i V2 \<Rightarrow> Chunk_msg \<Rightarrow> device \<Rightarrow> ('i V2 \<times> device \<times> bool) option" where
  "recv_chunk env self msg dev =
    (case state self of
       RequestChunk wh count loader \<Rightarrow> do {
         (self, dev, wh, loader, finished) \<leftarrow>
           (if wh = unat (which msg) then do {
              c \<leftarrow> start_ctx self loader (chunk_bytes msg) dev;
              (c, ok) \<leftarrow> inflate_loop env c;
              let (self, dev) = end_ctx self c;
              let loader = ctx_loader c;
              if \<not> ok then Some (self, dev, wh, loader, None)
              else do {
                let wh = wh + 1;
                if wh = count then do {
                  dev \<leftarrow> println env LogLastChunk dev;
                  Some (self, dev, wh, loader, Some True)
                } else Some (self, dev, wh, loader, Some False)
              }
            } else do {
              dev \<leftarrow> println env (LogWrongChunk wh (which msg)) dev;
              Some (self, dev, wh, loader, Some False)
            });
         let self = self\<lparr>state := RequestChunk wh count loader\<rparr>;
         (case finished of
            None \<Rightarrow> Some (self, dev, False)
          | Some False \<Rightarrow> Some (self\<lparr>once := True\<rparr>, dev, True)
          | Some True \<Rightarrow> do {
              let self = self\<lparr>once := True, state := RequestMetadata\<rparr>;
              (dev, r) \<leftarrow> loader_finalize env loader dev;
              (case r of
                 Inl e \<Rightarrow> do {
                   dev \<leftarrow> println env (LogCantFinalize e) dev;
                   Some (self, dev, False)
                 }
               | Inr booter \<Rightarrow> Some (self\<lparr>state := Boot booter\<rparr>, dev, True))
            })
       }
     | _ \<Rightarrow> do {
         dev \<leftarrow> println env (LogUnexpectedChunk (which msg) (state self)) dev;
         Some (self, dev, True)
       })"

definition recv_booting_ack ::
  "('h, 'i) env \<Rightarrow> 'i V2 \<Rightarrow> device \<Rightarrow> ('i V2 \<times> device \<times> 'p outcome) option" where
  "recv_booting_ack env self dev =
    (case state self of
       Boot booter \<Rightarrow> do {
         dev \<leftarrow> println env LogBooting dev;
         (dev, j) \<leftarrow> enter env booter dev;
         Some (self\<lparr>state := RequestMetadata\<rparr>, dev, Entered j)
       }
     | _ \<Rightarrow> do {
         dev \<leftarrow> println env (LogUnexpectedBootingAck (state self)) dev;
         Some (self, dev, Status Continue)
       })"

definition v2_handle_packet ::
  "('h, 'i) env \<Rightarrow> 'i V2 \<Rightarrow> FrameHeader \<Rightarrow> u8 list \<Rightarrow> device \<Rightarrow> ('i V2 \<times> device \<times> 'p outcome) option" where
  "v2_handle_packet env self frame_header payload dev =
    (case message_type frame_header of
       Metadata \<Rightarrow> do {
         dev \<leftarrow> println env (LogV2Timeouts (v1_timeouts self)) dev;
         (case de_metadata env payload of
            Inl e \<Rightarrow> do {
              dev \<leftarrow> println env (LogParseMetadata e) dev;
              Some (self, dev, Status Continue)
            }
          | Inr msg \<Rightarrow> do {
              (self, dev) \<leftarrow> recv_metadata env self msg dev;
              Some (self, dev, Status Continue)
            })
       }
     | MetadataAckAck \<Rightarrow>
         (case de_metadata_ack_ack env payload of
            Inl e \<Rightarrow> do {
              dev \<leftarrow> println env (LogParseMetadataAckAck e) dev;
              Some (self, dev, Status Continue)
            }
          | Inr msg \<Rightarrow> do {
              (self, dev) \<leftarrow> recv_metadata_ack_ack env self msg dev;
              Some (self, dev, Status Continue)
            })
     | Chunk \<Rightarrow>
         (case de_chunk env payload of
            Inl e \<Rightarrow> do {
              dev \<leftarrow> println env (LogParseChunk e) dev;
              Some (self, dev, Status Continue)
            }
          | Inr msg \<Rightarrow> do {
              (self, dev, ok) \<leftarrow> recv_chunk env self msg dev;
              Some (self, dev, Status (if ok then Continue else Abend))
            })
     | BootingAck \<Rightarrow> recv_booting_ack env self dev
     | otherwise \<Rightarrow> do {
         dev \<leftarrow> println env (LogUnrecognized otherwise) dev;
         Some (self, dev, Status Continue)
       })"

section \<open>Requests\<close>

definition send_request ::
  "('h, 'i) env \<Rightarrow> 'm serializer \<Rightarrow> MessageType \<Rightarrow> (string SendError \<Rightarrow> V2Log) \<Rightarrow> 'm
    \<Rightarrow> device \<Rightarrow> (device \<times> (unit + bool)) option" where
  "send_request env ser t failed msg dev = do {
     (fs, r) \<leftarrow> sink_send (crc_pkg env) ser t (sink dev) msg;
     let dev = dev\<lparr>sink := fs\<rparr>;
     (case r of
        Inr _ \<Rightarrow> Some (dev, Inr True)
      | Inl Truncated \<Rightarrow> Some (dev, Inr False)
      | Inl e \<Rightarrow> do {
          dev \<leftarrow> println env (failed e) dev;
          Some (dev, Inl ())
        })
   }"

definition send_metadata_request :: "('h, 'i) env \<Rightarrow> device \<Rightarrow> (device \<times> (unit + bool)) option" where
  "send_metadata_request env dev =
    send_request env (ser_metadata_req env) MetadataReq LogFailedMetadataReq () dev"

definition send_metadata_ack ::
  "('h, 'i) env \<Rightarrow> Metadata_msg \<Rightarrow> device \<Rightarrow> (device \<times> (unit + bool)) option" where
  "send_metadata_ack env md dev =
    send_request env (ser_metadata_ack env) MetadataAck LogFailedMetadataAck
      \<lparr>chunk_size = of_nat CHUNK_SIZE, metadata = md\<rparr> dev"

definition send_chunk_request ::
  "('h, 'i) env \<Rightarrow> nat \<Rightarrow> device \<Rightarrow> (device \<times> (unit + bool)) option" where
  "send_chunk_request env wh dev =
    send_request env (ser_chunk_req env) ChunkReq LogFailedChunkReq \<lparr>req_which = of_nat wh\<rparr> dev"

definition send_boot_msg :: "('h, 'i) env \<Rightarrow> device \<Rightarrow> (device \<times> (unit + bool)) option" where
  "send_boot_msg env dev = send_request env (ser_booting env) Booting LogFailedBooting () dev"

definition send_for_state :: "('h, 'i) env \<Rightarrow> S \<Rightarrow> device \<Rightarrow> (device \<times> (unit + bool)) option" where
  "send_for_state env st dev =
    (case st of
       RequestMetadata \<Rightarrow> send_metadata_request env dev
     | AckMetadata md \<Rightarrow> send_metadata_ack env md dev
     | RequestChunk wh count loader \<Rightarrow> send_chunk_request env wh dev
     | Boot booter \<Rightarrow> send_boot_msg env dev)"

definition resend_after :: "'i V2 \<Rightarrow> duration" where
  "resend_after self =
    (case state self of
       RequestChunk _ _ _ \<Rightarrow> try_resend_chunk (v1_timeouts self)
     | _ \<Rightarrow> try_resend (v1_timeouts self))"

definition should_send :: "'i V2 \<Rightarrow> u64 \<Rightarrow> bool" where
  "should_send self now =
    (once self \<or> elapsed (heartbeat self) now > resend_after self
     \<or> retry_buffer self \<and> elapsed (heartbeat self) now > buffer_retry (v1_timeouts self))"

text \<open>The timer is read at the start (\<open>now\<close>) and again after a message was sent (\<open>now'\<close>).\<close>

definition v2_heartbeat ::
  "('h, 'i) env \<Rightarrow> 'i V2 \<Rightarrow> u64 \<Rightarrow> u64 \<Rightarrow> device \<Rightarrow> ('i V2 \<times> device \<times> 'p ProtocolStatus) option" where
  "v2_heartbeat env self now now' dev =
    (if should_send self now then do {
       (dev, r) \<leftarrow> send_for_state env (state self) dev;
       (case r of
          Inr sent \<Rightarrow>
            Some (self\<lparr>once := False, retry_buffer := \<not> sent, heartbeat := now'\<rparr>, dev, Continue)
        | Inl _ \<Rightarrow> Some (self\<lparr>once := False\<rparr>, dev, Abend))
     } else Some (self\<lparr>once := False\<rparr>, dev, Continue))"

end
