(* ===== verification/V2_Correct.thy ===== *)
theory V2_Correct
  imports V2_Device
begin

text \<open>
  Correctness of the download on the device: the loaders put every piece they are given in its
  place (the locale \<open>byte_loader\<close>, with the flat-binary, the ELF and the enumerated loader as its
  instances), the decompression loop ends and hands the loader exactly the decompressed data, the
  chunks may be repeated or come out of order, and the request that is sent is always that of the
  state.
\<close>

section \<open>The device between handlers\<close>

definition dev_ok :: "('h, 'i) env \<Rightarrow> device \<Rightarrow> bool" where
  "dev_ok env dev \<longleftrightarrow> sink_ok (sink dev) \<and> crc_stream (crc_pkg env)
    \<and> 0x2000 < length (inflate_buffer dev)"

text \<open>Another device that differs in its sink and in what the UART was given.\<close>

definition talked :: "('h, 'i) env \<Rightarrow> device \<Rightarrow> device \<Rightarrow> bool" where
  "talked env dev dev' \<longleftrightarrow> dev_ok env dev' \<and> ram (mach dev') = ram (mach dev)
    \<and> uart_rx (mach dev') = uart_rx (mach dev) \<and> uart_baud (mach dev') = uart_baud (mach dev)
    \<and> timeouts dev' = timeouts dev \<and> inflate_buffer dev' = inflate_buffer dev"

lemma talked_trans: "talked env a b \<Longrightarrow> talked env b c \<Longrightarrow> talked env a c"
  by (simp add: talked_def)

lemma println_talks:
  assumes "dev_ok env dev"
  shows "\<exists>dev'. println env l dev = Some dev' \<and> talked env dev dev'"
proof -
  obtain fs where "rpc_println (crc_pkg env) (sink dev) (fmt env l) = Some fs" "sink_ok fs"
    using println_frame [of "sink dev" "crc_pkg env" "fmt env l"] assms
    by (auto simp: dev_ok_def sink_after_def)
  with assms show ?thesis
    by (simp add: println_def talked_def dev_ok_def)
qed

lemma flush_talks:
  assumes "dev_ok env dev"
  shows "\<exists>dev'. flush_to_fifo dev = Some dev' \<and> talked env dev dev' \<and> queued (sink dev') = []
    \<and> uart_tx (mach dev') = uart_tx (mach dev) @ queued (sink dev)"
proof -
  let ?tb = "transmit_buffer (sink dev)"
  have len: "length (contents ?tb) \<le> circle_len ?tb + 1"
    by (simp add: contents_def)
  obtain tb where "drain shift_byte (circle_len ?tb + 1) ?tb = Some (tb, contents ?tb)"
    "tb_inv tb" "contents tb = []" "capacity tb = capacity ?tb"
    using txq.drain_items [of ?tb "circle_len ?tb + 1"] assms len
    by (auto simp: dev_ok_def sink_ok_def)
  with assms show ?thesis
    by (auto simp: flush_to_fifo_def talked_def dev_ok_def sink_ok_def queued_def uart1_write_bytes_tx)
qed

section \<open>Loaders\<close>

text \<open>
  What the decompression loop relies on: a loader that holds the first \<open>j\<close> bytes of the data
  takes the next piece without an error and then holds that much more.
\<close>

locale byte_loader =
  fixes recv :: "'l \<Rightarrow> memory \<Rightarrow> u8 list \<Rightarrow> 'l \<times> memory \<times> (LoadError + unit)"
    and holds :: "u8 list \<Rightarrow> 'l \<Rightarrow> memory \<Rightarrow> nat \<Rightarrow> bool"
  assumes recv_piece: "holds d l m j \<Longrightarrow> j + length p \<le> length d \<Longrightarrow> p = take (length p) (drop j d) \<Longrightarrow>
      \<exists>l' m'. recv l m p = (l', m', Inr ()) \<and> holds d l' m' (j + length p)"
begin

fun recv_all :: "'l \<Rightarrow> memory \<Rightarrow> u8 list list \<Rightarrow> 'l \<times> memory \<times> (LoadError + unit)" where
  "recv_all l m [] = (l, m, Inr ())"
| "recv_all l m (p # ps) =
    (case recv l m p of (l, m, Inl e) \<Rightarrow> (l, m, Inl e) | (l, m, Inr _) \<Rightarrow> recv_all l m ps)"

lemma recv_all_holds:
  assumes "holds d l m j" and "drop j d = concat ps" and "j \<le> length d"
  shows "\<exists>l' m'. recv_all l m ps = (l', m', Inr ()) \<and> holds d l' m' (length d)"
  using assms
proof (induction ps arbitrary: l m j)
  case (Cons p ps)
  have len: "j + length p \<le> length d"
    using arg_cong [OF Cons.prems(2), of length] Cons.prems(3) by simp
  then obtain l1 m1 where "recv l m p = (l1, m1, Inr ())" "holds d l1 m1 (j + length p)"
    using recv_piece [OF Cons.prems(1), of p] Cons.prems(2) by auto
  moreover have "drop (j + length p) d = concat ps"
    using arg_cong [OF Cons.prems(2), of "drop (length p)"] by (simp add: add.commute)
  ultimately show ?case
    using Cons.IH [of l1 m1 "j + length p"] len by auto
qed auto

end

text \<open>A flat binary, all of which is relocated, and an ELF file, for the loader's first state \<open>l0\<close>.\<close>

definition bin_holds :: "BinLoader \<Rightarrow> u8 list \<Rightarrow> BinLoader \<Rightarrow> memory \<Rightarrow> nat \<Rightarrow> bool" where
  "bin_holds l0 d l m j \<longleftrightarrow> l = l0\<lparr>bytes_written := of_nat j\<rparr> \<and> stored (bin_relocation l) m d j
    \<and> (\<exists>base s. layout_ok (bin_relocation l) base (length d) s)
    \<and> unat (relocate_first_n_bytes (bin_relocation l)) = length d"

interpretation bin: byte_loader
  "\<lambda>l m p. case bin_receive_bytes l m p of (l, m) \<Rightarrow> (l, m, Inr ())" "bin_holds l0" for l0
proof (unfold_locales, goal_cases)
  case (1 d l m j p)
  let ?r = "bin_relocation l"
  obtain base s where lay: "layout_ok ?r base (length d) s"
    using 1(1) by (auto simp: bin_holds_def)
  have "stored ?r (write_bytes ?r m (base + of_nat j) p) d (j + length p)"
    by (rule write_piece [OF lay refl])
       (use 1 in \<open>auto simp: bin_holds_def within_one_part_def\<close>)
  moreover have "base_address_ptr ?r = base"
    using lay by (simp add: layout_ok_def)
  ultimately show ?case
    using 1(1) lay by (auto simp: bin_receive_bytes_def bin_holds_def Let_def)
qed

definition elf_holds :: "ElfLoader \<Rightarrow> u8 list \<Rightarrow> ElfLoader \<Rightarrow> memory \<Rightarrow> nat \<Rightarrow> bool" where
  "elf_holds l0 d l m j \<longleftrightarrow> l = l0\<lparr>elf_bytes := take j d\<rparr>"

interpretation elf: byte_loader "\<lambda>l m p. (elf_receive_bytes l p, m, Inr ())" "elf_holds l0" for l0
  by unfold_locales (auto simp: elf_holds_def elf_receive_bytes_def take_add)

definition loader_holds :: "LoaderEnum \<Rightarrow> u8 list \<Rightarrow> LoaderEnum \<Rightarrow> memory \<Rightarrow> nat \<Rightarrow> bool" where
  "loader_holds l0 d l m j =
    (case (l0, l) of
       (BinLoaderE b0, BinLoaderE b) \<Rightarrow> bin_holds b0 d b m j
     | (ElfLoaderE e0, ElfLoaderE e) \<Rightarrow> elf_holds e0 d e m j
     | _ \<Rightarrow> False)"

interpretation loader: byte_loader receive_bytes "loader_holds l0" for l0
proof (unfold_locales, goal_cases)
  case (1 d l m j p)
  consider (bin) b0 b where "l0 = BinLoaderE b0" "l = BinLoaderE b"
    | (elf) e0 e where "l0 = ElfLoaderE e0" "l = ElfLoaderE e"
    using 1(1) by (auto simp: loader_holds_def split: LoaderEnum.splits)
  then show ?case
  proof cases
    case bin
    with 1 show ?thesis
      using bin.recv_piece [of b0 d b m j p]
      by (cases "bin_receive_bytes b m p") (simp add: loader_holds_def receive_bytes_def)
  next
    case elf
    with 1 show ?thesis
      using elf.recv_piece [of e0 d e m j p] by (simp add: loader_holds_def receive_bytes_def)
  qed
qed

section \<open>The decompression loop\<close>

text \<open>
  What the decompressor is documented to do for a compressed stream \<open>z\<close> of the data \<open>d\<close>: a state
  that has consumed \<open>i\<close> and written \<open>j\<close> bytes, given the next bytes of the stream and some room,
  consumes some of them and writes the next bytes of the data. \<open>Ok\<close> with nothing written means
  that the input is used up, the end of the stream is reported when both are exhausted, \<open>Buf\<close>
  says that there was no input to work on; and when it writes nothing although it was given all
  that remains of the stream, nothing remained to be written.
\<close>

definition inflate_law ::
  "u8 list \<Rightarrow> u8 list \<Rightarrow> nat \<Rightarrow> nat \<Rightarrow> u8 list \<Rightarrow> nat \<Rightarrow> InflateResult \<Rightarrow> bool" where
  "inflate_law z d i j input room res \<longleftrightarrow>
    bytes_consumed res \<le> length input \<and> length (inflate_out res) \<le> room
    \<and> j + length (inflate_out res) \<le> length d
    \<and> inflate_out res = take (length (inflate_out res)) (drop j d)
    \<and> (case inflate_status res of
         Inr MZOk \<Rightarrow> inflate_out res = [] \<longrightarrow> bytes_consumed res = length input
       | Inr MZStreamEnd \<Rightarrow> i + bytes_consumed res = length z \<and> j + length (inflate_out res) = length d
       | Inl MZErrBuf \<Rightarrow> input = [] \<and> inflate_out res = []
       | _ \<Rightarrow> False)
    \<and> (inflate_out res = [] \<and> i + length input = length z \<longrightarrow> j = length d)"

definition inflates ::
  "('h, 'i) env \<Rightarrow> ('i \<Rightarrow> nat \<Rightarrow> nat \<Rightarrow> bool) \<Rightarrow> u8 list \<Rightarrow> u8 list \<Rightarrow> bool" where
  "inflates env at z d \<longleftrightarrow> at (inflate_new env) 0 0 \<and>
    (\<forall>st i j input room. at st i j \<and> input = take (length input) (drop i z)
        \<and> i + length input \<le> length z \<and> j \<le> length d \<and> 0 < room \<longrightarrow>
      (case inflate env st input room of (st', res) \<Rightarrow>
         inflate_law z d i j input room res
         \<and> at st' (i + bytes_consumed res) (j + length (inflate_out res))))"

lemma inflatesD:
  assumes "inflates env at z d" and "at st i j" and "input = take (length input) (drop i z)"
    and "i + length input \<le> length z" and "j \<le> length d" and "0 < room"
    and "inflate env st input room = (st', res)"
  shows "inflate_law z d i j input room res"
    and "at st' (i + bytes_consumed res) (j + length (inflate_out res))"
  using assms unfolding inflates_def by fastforce+

text \<open>The loop's state: \<open>k\<close> bytes are buffered, of which the decompressor saw none.\<close>

definition loop_inv ::
  "LoaderEnum \<Rightarrow> ('i \<Rightarrow> nat \<Rightarrow> nat \<Rightarrow> bool) \<Rightarrow> u8 list \<Rightarrow> u8 list \<Rightarrow> nat \<Rightarrow> nat \<Rightarrow> 'i inflate_ctx \<Rightarrow> bool" where
  "loop_inv l0 at z d i j c \<longleftrightarrow> at (ctx_inflate c) i j
    \<and> ctx_remainder c \<le> length (ctx_a c) \<and> i + ctx_remainder c \<le> length z
    \<and> take (ctx_remainder c) (ctx_a c) = take (ctx_remainder c) (drop i z)
    \<and> ctx_b c \<noteq> [] \<and> j \<le> length d
    \<and> loader_holds l0 d (ctx_loader c) (ram (mach (ctx_dev c))) j"

text \<open>What the loop leaves alone.\<close>

definition ctx_frame :: "'i inflate_ctx \<Rightarrow> 'i inflate_ctx \<Rightarrow> bool" where
  "ctx_frame c c' \<longleftrightarrow> length (ctx_a c') = length (ctx_a c) \<and> length (ctx_b c') = length (ctx_b c)
    \<and> sink (ctx_dev c') = sink (ctx_dev c) \<and> timeouts (ctx_dev c') = timeouts (ctx_dev c)
    \<and> inflate_buffer (ctx_dev c') = inflate_buffer (ctx_dev c)"

lemma ctx_frame_trans: "ctx_frame a b \<Longrightarrow> ctx_frame b c \<Longrightarrow> ctx_frame a c"
  by (auto simp: ctx_frame_def)

lemma give_loader_holds:
  assumes "loader_holds l0 d (ctx_loader c) (ram (mach (ctx_dev c))) j"
    and "j + length p \<le> length d" and "p = take (length p) (drop j d)"
  shows "\<exists>c'. give_loader env c p = Some (c', True) \<and> ctx_frame c c'
    \<and> ctx_inflate c' = ctx_inflate c \<and> ctx_remainder c' = ctx_remainder c \<and> ctx_a c' = ctx_a c
    \<and> ctx_b c' = ctx_b c
    \<and> loader_holds l0 d (ctx_loader c') (ram (mach (ctx_dev c'))) (j + length p)"
  using loader.recv_piece [OF assms] by (auto simp: give_loader_def ctx_frame_def Let_def)

lemma inflate_loop_delivers:
  assumes "inflates env at z d" and "loop_inv l0 at z d i j c"
  shows "\<exists>c' j'. inflate_loop env c = Some (c', True) \<and> ctx_frame c c' \<and> ctx_remainder c' = 0
    \<and> at (ctx_inflate c') (i + ctx_remainder c) j' \<and> j' \<le> length d
    \<and> loader_holds l0 d (ctx_loader c') (ram (mach (ctx_dev c'))) j'
    \<and> (i + ctx_remainder c = length z \<longrightarrow> j' = length d)"
  using assms(2)
proof (induction "length d - j" arbitrary: i j c rule: less_induct)
  case less
  let ?k = "ctx_remainder c" and ?dev = "ctx_dev c"
  note inv = less.prems [unfolded loop_inv_def]
  let ?input = "take ?k (drop i z)"
  have input: "subslice (ctx_a c) 0 ?k = Some ?input" "length ?input = ?k"
    using inv by auto
  obtain st res where r: "inflate env (ctx_inflate c) ?input (length (ctx_b c)) = (st, res)"
    by fastforce
  have law: "inflate_law z d i j ?input (length (ctx_b c)) res"
    and at: "at st (i + bytes_consumed res) (j + length (inflate_out res))"
    using inflatesD [OF assms(1) _ _ _ _ _ r, of i j] inv input(2) by auto
  note L = law [unfolded inflate_law_def input(2)]
  let ?b = "blit (ctx_b c) 0 (inflate_out res)"
  have b: "copy_into (ctx_b c) 0 (inflate_out res) = Some ?b" "length ?b = length (ctx_b c)"
    using L by (simp_all add: length_blit)
  note loop = inflate_loop.simps [of env c]
  let ?c1 = "c\<lparr>ctx_inflate := st, ctx_b := ?b\<rparr>"
  have holds: "loader_holds l0 d (ctx_loader c) (ram (mach ?dev)) j"
    using inv by simp
  have sub: "usize_sub ?k (bytes_consumed res) = ?k - bytes_consumed res"
    using L by (simp add: usize_sub_def)
  consider (drained) "inflate_status res = Inr MZOk" "inflate_out res = []"
    | (more) "inflate_status res = Inr MZOk" "inflate_out res \<noteq> []"
    | (stream_end) "inflate_status res = Inr MZStreamEnd"
    | (no_input) "inflate_status res = Inl MZErrBuf"
    using L by (auto split: sum.splits MZStatus.splits MZError.splits)
  then show ?case
  proof cases
    case drained
    then have eq: "inflate_loop env c = Some (?c1\<lparr>ctx_a := blit (ctx_a c) 0 [], ctx_remainder := 0\<rparr>, True)"
      using L inv sub by (subst loop) (simp add: input(1) r b(1))
    from drained L at inv b(2) show ?thesis
      unfolding eq by (auto simp: ctx_frame_def blit_def)
  next
    case more
    let ?rest = "take (?k - bytes_consumed res) (drop (bytes_consumed res) (ctx_a c))"
    let ?c2 = "?c1\<lparr>ctx_a := blit (ctx_a c) 0 ?rest, ctx_remainder := ?k - bytes_consumed res\<rparr>"
    obtain c3 where c3: "give_loader env ?c2 (inflate_out res) = Some (c3, True)" "ctx_frame ?c2 c3"
      "ctx_inflate c3 = st" "ctx_remainder c3 = ?k - bytes_consumed res"
      "ctx_a c3 = blit (ctx_a c) 0 ?rest" "ctx_b c3 = ?b"
      "loader_holds l0 d (ctx_loader c3) (ram (mach (ctx_dev c3))) (j + length (inflate_out res))"
      using give_loader_holds [of l0 d ?c2 j "inflate_out res" env] holds L by auto
    have step: "inflate_loop env c = inflate_loop env c3"
      using more L inv sub c3(1) by (subst loop) (simp add: input(1) r b(1))
    have rest: "?rest = take (?k - bytes_consumed res) (drop (i + bytes_consumed res) z)"
      using inv L by (metis drop_drop drop_take add.commute)
    have len: "length (blit (ctx_a c) 0 ?rest) = length (ctx_a c)"
      using inv L by (simp add: length_blit)
    have "length ?rest = ?k - bytes_consumed res"
      using inv L by auto
    then have "take (?k - bytes_consumed res) (blit (ctx_a c) 0 ?rest) = ?rest"
      using take_blit [of 0 "ctx_a c" ?rest] by simp
    then have inv3: "loop_inv l0 at z d (i + bytes_consumed res) (j + length (inflate_out res)) c3"
      unfolding loop_inv_def c3(3-6) using inv L at c3(7) len rest b(2) by auto
    have frame: "ctx_frame c c3"
      using ctx_frame_trans [OF _ c3(2), of c] len b(2) by (simp add: ctx_frame_def)
    have "length d - (j + length (inflate_out res)) < length d - j"
      using more L by (cases "inflate_out res") auto
    from less.hyps [OF this inv3] show ?thesis
      unfolding step c3(4) using L ctx_frame_trans [OF frame] by auto
  next
    case stream_end
    let ?c2 = "?c1\<lparr>ctx_remainder := ?k - bytes_consumed res\<rparr>"
    have k: "bytes_consumed res = ?k"
      using stream_end L inv by simp
    obtain c3 where c3: "give_loader env ?c2 (inflate_out res) = Some (c3, True)" "ctx_frame ?c2 c3"
      "ctx_inflate c3 = st" "ctx_remainder c3 = ?k - bytes_consumed res"
      "loader_holds l0 d (ctx_loader c3) (ram (mach (ctx_dev c3))) (j + length (inflate_out res))"
      using give_loader_holds [of l0 d ?c2 j "inflate_out res" env] holds L by auto
    have eq: "inflate_loop env c = Some (c3, True)"
      using stream_end c3(1) sub by (subst loop) (simp add: input(1) r b(1))
    from stream_end L at b(2) c3(2-) k show ?thesis
      unfolding eq by (auto simp: ctx_frame_def)
  next
    case no_input
    then have k: "?k = 0"
      using L input(2) by auto
    have "bytes_consumed res = 0" "inflate_out res = []"
      using no_input L k by auto
    then have eq: "inflate_loop env c = Some (?c1, True)"
      using no_input b(1) by (subst loop) (simp add: input(1) r)
    from no_input L at inv b(2) k show ?thesis
      unfolding eq by (auto simp: ctx_frame_def)
  qed
qed

section \<open>Chunks\<close>

text \<open>The \<open>k\<close>-th chunk of the compressed stream, and a message that carries a chunk.\<close>

definition chunk_of :: "u8 list \<Rightarrow> nat \<Rightarrow> u8 list" where
  "chunk_of z k = take CHUNK_SIZE (drop (k * CHUNK_SIZE) z)"

definition chunks_of :: "u8 list \<Rightarrow> nat" where
  "chunks_of z = (length z + CHUNK_SIZE - 1) div CHUNK_SIZE"

definition carries_chunk :: "u8 list \<Rightarrow> Chunk_msg \<Rightarrow> bool" where
  "carries_chunk z msg \<longleftrightarrow> chunk_bytes msg = chunk_of z (unat (which msg))"

lemma chunk_bound: "k < chunks_of z \<longleftrightarrow> k * CHUNK_SIZE < length z"
proof -
  have "k < (length z + 4096 - 1) div 4096 \<longleftrightarrow> k * 4096 < length z"
    by linarith
  then show ?thesis
    by (simp add: chunks_of_def CHUNK_SIZE_def)
qed

lemma length_chunk_of:
  assumes "k < chunks_of z"
  shows "k * CHUNK_SIZE + length (chunk_of z k) = min (Suc k * CHUNK_SIZE) (length z)"
  using assms by (auto simp: chunk_bound chunk_of_def)

text \<open>The device waits for chunk \<open>wh\<close>; the decompressor has seen the chunks before it.\<close>

definition awaiting ::
  "('h, 'i) env \<Rightarrow> LoaderEnum \<Rightarrow> ('i \<Rightarrow> nat \<Rightarrow> nat \<Rightarrow> bool) \<Rightarrow> u8 list \<Rightarrow> u8 list \<Rightarrow> nat
    \<Rightarrow> 'i V2 \<Rightarrow> device \<Rightarrow> bool" where
  "awaiting env l0 at z d wh self dev \<longleftrightarrow> dev_ok env dev \<and> wh < chunks_of z \<and> remainder self = 0
    \<and> (\<exists>loader j. state self = RequestChunk wh (chunks_of z) loader
        \<and> at (inflate_state self) (wh * CHUNK_SIZE) j \<and> j \<le> length d
        \<and> loader_holds l0 d loader (ram (mach dev)) j)"

lemma start_ctx_inv:
  assumes "dev_ok env dev" and "wh < chunks_of z" and "remainder self = 0"
    and "at (inflate_state self) (wh * CHUNK_SIZE) j" and "j \<le> length d"
    and "loader_holds l0 d loader (ram (mach dev)) j"
  shows "\<exists>c. start_ctx self loader (chunk_of z wh) dev = Some c
    \<and> loop_inv l0 at z d (wh * CHUNK_SIZE) j c \<and> ctx_remainder c = length (chunk_of z wh)
    \<and> ctx_dev c = dev \<and> length (ctx_a c) + length (ctx_b c) = length (inflate_buffer dev)"
proof -
  let ?ch = "chunk_of z wh" and ?a = "take 0x2000 (inflate_buffer dev)"
  have len: "length ?ch \<le> 0x1000" "length ?a = 0x2000" "wh * CHUNK_SIZE + length ?ch \<le> length z"
    using assms(1,2) length_chunk_of [OF assms(2)] by (auto simp: chunk_of_def CHUNK_SIZE_def dev_ok_def)
  have "take (length ?ch) (blit ?a 0 ?ch) = take (length ?ch) (drop (wh * CHUNK_SIZE) z)"
    using take_blit [of 0 ?a ?ch] by (simp add: chunk_of_def min_def)
  then show ?thesis
    using assms len length_blit [of 0 ?ch ?a]
    by (auto simp: start_ctx_def loop_inv_def dev_ok_def Let_def)
qed

lemma chunk_inflated:
  assumes "inflates env at z d" and "dev_ok env dev" and "wh < chunks_of z" and "remainder self = 0"
    and "at (inflate_state self) (wh * CHUNK_SIZE) j" and "j \<le> length d"
    and "loader_holds l0 d loader (ram (mach dev)) j"
  shows "\<exists>c c' self' dev' j'. start_ctx self loader (chunk_of z wh) dev = Some c
    \<and> inflate_loop env c = Some (c', True) \<and> end_ctx self c' = (self', dev') \<and> dev_ok env dev'
    \<and> remainder self' = 0 \<and> j' \<le> length d
    \<and> at (inflate_state self') (min (Suc wh * CHUNK_SIZE) (length z)) j'
    \<and> loader_holds l0 d (ctx_loader c') (ram (mach dev')) j'
    \<and> (length z \<le> Suc wh * CHUNK_SIZE \<longrightarrow> j' = length d)"
proof -
  obtain c where c: "start_ctx self loader (chunk_of z wh) dev = Some c"
    "loop_inv l0 at z d (wh * CHUNK_SIZE) j c" "ctx_remainder c = length (chunk_of z wh)"
    "ctx_dev c = dev" "length (ctx_a c) + length (ctx_b c) = length (inflate_buffer dev)"
    using start_ctx_inv [where at = at, OF assms(2-7)] by blast
  note i = length_chunk_of [OF assms(3)]
  show ?thesis
    using inflate_loop_delivers [OF assms(1) c(2)] c assms(2)
    unfolding c(3) i by (fastforce simp: end_ctx_def ctx_frame_def dev_ok_def)
qed

text \<open>A chunk that is not the last one, the last one, and one that is not due.\<close>

lemma recv_chunk_next:
  assumes "inflates env at z d" and "awaiting env l0 at z d wh self dev" and "carries_chunk z msg"
    and "unat (which msg) = wh" and "Suc wh < chunks_of z"
  shows "\<exists>self' dev'. recv_chunk env self msg dev = Some (self', dev', True)
    \<and> awaiting env l0 at z d (Suc wh) self' dev' \<and> once self'"
proof -
  obtain loader j where s: "state self = RequestChunk wh (chunks_of z) loader"
    "at (inflate_state self) (wh * CHUNK_SIZE) j" "j \<le> length d"
    "loader_holds l0 d loader (ram (mach dev)) j" "dev_ok env dev" "wh < chunks_of z" "remainder self = 0"
    using assms(2) by (auto simp: awaiting_def)
  obtain c c' self' dev' j' where c: "start_ctx self loader (chunk_of z wh) dev = Some c"
    "inflate_loop env c = Some (c', True)" "end_ctx self c' = (self', dev')" "dev_ok env dev'"
    "remainder self' = 0" "j' \<le> length d"
    "at (inflate_state self') (min (Suc wh * CHUNK_SIZE) (length z)) j'"
    "loader_holds l0 d (ctx_loader c') (ram (mach dev')) j'"
    using chunk_inflated [OF assms(1) s(5-7) s(2-4)] by blast
  have "min (Suc wh * CHUNK_SIZE) (length z) = Suc wh * CHUNK_SIZE"
    using assms(5) by (simp add: chunk_bound)
  with c s assms(3-5) show ?thesis
    by (auto simp: recv_chunk_def awaiting_def carries_chunk_def)
qed

lemma recv_chunk_last:
  assumes "inflates env at z d" and "awaiting env l0 at z d wh self dev" and "carries_chunk z msg"
    and "unat (which msg) = wh" and "Suc wh = chunks_of z"
  shows "\<exists>self' dev' loader. dev_ok env dev' \<and> loader_holds l0 d loader (ram (mach dev')) (length d)
    \<and> recv_chunk env self msg dev = do {
        (dev, r) \<leftarrow> loader_finalize env loader dev';
        (case r of
           Inl e \<Rightarrow> do {
             dev \<leftarrow> println env (LogCantFinalize e) dev;
             Some (self'\<lparr>state := RequestMetadata\<rparr>, dev, False)
           }
         | Inr booter \<Rightarrow> Some (self'\<lparr>state := Boot booter\<rparr>, dev, True))
      } \<and> once self'"
proof -
  obtain loader j where s: "state self = RequestChunk wh (chunks_of z) loader"
    "at (inflate_state self) (wh * CHUNK_SIZE) j" "j \<le> length d"
    "loader_holds l0 d loader (ram (mach dev)) j" "dev_ok env dev" "wh < chunks_of z" "remainder self = 0"
    using assms(2) by (auto simp: awaiting_def)
  obtain c c' self' dev' j' where c: "start_ctx self loader (chunk_of z wh) dev = Some c"
    "inflate_loop env c = Some (c', True)" "end_ctx self c' = (self', dev')" "dev_ok env dev'"
    "loader_holds l0 d (ctx_loader c') (ram (mach dev')) j'"
    "length z \<le> Suc wh * CHUNK_SIZE \<longrightarrow> j' = length d"
    using chunk_inflated [OF assms(1) s(5-7) s(2-4)] by blast
  obtain dev1 where p: "println env LogLastChunk dev' = Some dev1" "talked env dev' dev1"
    using println_talks [OF c(4)] by blast
  have "j' = length d"
    using c(6) chunk_bound [of "Suc wh" z] assms(5) by simp
  then have "dev_ok env dev1 \<and> loader_holds l0 d (ctx_loader c') (ram (mach dev1)) (length d)"
    using p(2) c(5) by (simp add: talked_def)
  moreover have "recv_chunk env self msg dev = do {
        (dev, r) \<leftarrow> loader_finalize env (ctx_loader c') dev1;
        (case r of
           Inl e \<Rightarrow> do {
             dev \<leftarrow> println env (LogCantFinalize e) dev;
             Some (self'\<lparr>once := True, state := RequestMetadata\<rparr>, dev, False)
           }
         | Inr booter \<Rightarrow> Some (self'\<lparr>once := True, state := Boot booter\<rparr>, dev, True))
      }"
    using c(1-3) s(1) p(1) assms(3-5) by (simp add: recv_chunk_def carries_chunk_def Let_def)
  ultimately show ?thesis
    by (intro exI [of _ "self'\<lparr>once := True\<rparr>"] exI [of _ dev1] exI [of _ "ctx_loader c'"]) simp
qed

lemma recv_chunk_other:
  assumes "awaiting env l0 at z d wh self dev" and "unat (which msg) \<noteq> wh"
  shows "\<exists>dev'. recv_chunk env self msg dev = Some (self\<lparr>once := True\<rparr>, dev', True)
    \<and> awaiting env l0 at z d wh (self\<lparr>once := True\<rparr>) dev'"
proof -
  obtain loader where s: "state self = RequestChunk wh (chunks_of z) loader" and ok: "dev_ok env dev"
    using assms(1) by (auto simp: awaiting_def)
  obtain dev' where p: "println env (LogWrongChunk wh (which msg)) dev = Some dev'" "talked env dev dev'"
    using println_talks [OF ok] by blast
  have same: "self\<lparr>state := state self\<rparr> = self"
    by simp
  have "recv_chunk env self msg dev = Some (self\<lparr>once := True\<rparr>, dev', True)"
    using s p(1) assms(2) same [unfolded s] by (simp add: recv_chunk_def Let_def)
  moreover have "awaiting env l0 at z d wh (self\<lparr>once := True\<rparr>) dev'"
    using assms(1) p(2) by (auto simp: awaiting_def talked_def)
  ultimately show ?thesis
    by blast
qed

section \<open>A whole download\<close>

lemma bin_finalize_verifies:
  assumes "dev_ok env dev" and "bin_holds b0 d b (ram (mach dev)) (length d)"
    and "inflated_len (bin_metadata b0) = of_nat (length d)" and "length d < 2 ^ 32"
  shows "\<exists>dev'. talked env dev dev' \<and> bin_finalize env b dev =
    Some (dev', if inflated_crc (bin_metadata b0) = crc_hash (crc_pkg env) d
      then Inr (BootRelocation (bin_relocation b0)) else Inl LoadCrc)"
proof -
  let ?ops = "crc_pkg env" and ?md = "bin_metadata b0"
  obtain base s where lay: "layout_ok (bin_relocation b) base (length d) s"
    using assms(2) by (auto simp: bin_holds_def)
  have b: "bin_relocation b = bin_relocation b0" "bin_metadata b = ?md"
    "stored (bin_relocation b) (ram (mach dev)) d (length d)"
    using assms(2) by (auto simp: bin_holds_def)
  have crc: "crc_stream ?ops"
    using assms(1) by (simp add: dev_ok_def)
  obtain dev1 where 1: "println env (LogBooter b) dev = Some dev1" "talked env dev dev1"
    using println_talks [OF assms(1)] by blast
  have v: "verify_integrity ?ops (bin_relocation b) (ram (mach dev1)) (inflated_crc ?md) (inflated_len ?md) =
      (if inflated_crc ?md = crc_hash ?ops d then IntegrityOk
       else CrcMismatch (inflated_crc ?md) (crc_hash ?ops d))"
    using verify_stored [OF crc lay refl b(3) assms(4)] 1(2) by (simp add: talked_def assms(3))
  define l where "l = (if inflated_crc ?md = crc_hash ?ops d then LogCrcsOkay
      else LogCrcMismatch (inflated_crc ?md) (crc_hash ?ops d))"
  obtain dev2 where 2: "println env l dev1 = Some dev2" "talked env dev1 dev2"
    using println_talks [of env dev1] 1(2) by (auto simp: talked_def)
  obtain dev3 where 3: "flush_to_fifo dev2 = Some dev3" "talked env dev2 dev3"
    using flush_talks [of env dev2] 2(2) by (auto simp: talked_def)
  have "talked env dev dev3"
    using 1(2) 2(2) 3(2) talked_trans by blast
  moreover have "bin_finalize env b dev =
    Some (dev3, if inflated_crc ?md = crc_hash ?ops d
      then Inr (BootRelocation (bin_relocation b0)) else Inl LoadCrc)"
    using 1(1) 2(1) 3(1) v b(1,2) by (auto simp: bin_finalize_def l_def)
  ultimately show ?thesis
    by blast
qed

text \<open>Messages handled one after the other, as long as the protocol continues.\<close>

fun recv_chunks ::
  "('h, 'i) env \<Rightarrow> 'i V2 \<Rightarrow> device \<Rightarrow> Chunk_msg list \<Rightarrow> ('i V2 \<times> device \<times> bool) option" where
  "recv_chunks env self dev [] = Some (self, dev, True)"
| "recv_chunks env self dev (msg # ms) = do {
     (self, dev, ok) \<leftarrow> recv_chunk env self msg dev;
     if ok then recv_chunks env self dev ms else Some (self, dev, False)
   }"

text \<open>The chunk that is due after the messages of a list, each of which may be due or not.\<close>

fun due_after :: "nat \<Rightarrow> nat \<Rightarrow> Chunk_msg list \<Rightarrow> nat" where
  "due_after count wh [] = wh"
| "due_after count wh (msg # ms) =
    due_after count (if wh < count \<and> unat (which msg) = wh then Suc wh else wh) ms"

text \<open>The download is over and the image is in its place.\<close>

definition booting :: "('h, 'i) env \<Rightarrow> Relocation \<Rightarrow> u8 list \<Rightarrow> 'i V2 \<Rightarrow> device \<Rightarrow> bool" where
  "booting env r d self dev \<longleftrightarrow> dev_ok env dev \<and> state self = Boot (BootRelocation r)
    \<and> stored r (ram (mach dev)) d (length d)"

lemma recv_chunk_booting:
  assumes "booting env r d self dev"
  shows "\<exists>dev'. recv_chunk env self msg dev = Some (self, dev', True) \<and> booting env r d self dev'"
proof -
  obtain dev' where p: "println env (LogUnexpectedChunk (which msg) (state self)) dev = Some dev'"
    "talked env dev dev'"
    using println_talks [of env dev] assms by (auto simp: booting_def)
  then show ?thesis
    using assms by (auto simp: recv_chunk_def booting_def talked_def)
qed

text \<open>The state after the messages, given the chunk that is due.\<close>

definition downloading ::
  "('h, 'i) env \<Rightarrow> BinLoader \<Rightarrow> ('i \<Rightarrow> nat \<Rightarrow> nat \<Rightarrow> bool) \<Rightarrow> u8 list \<Rightarrow> u8 list \<Rightarrow> nat
    \<Rightarrow> 'i V2 \<Rightarrow> device \<Rightarrow> bool" where
  "downloading env b0 at z d wh self dev =
    (if wh < chunks_of z then awaiting env (BinLoaderE b0) at z d wh self dev
     else booting env (bin_relocation b0) d self dev)"

definition expects_data :: "('h, 'i) env \<Rightarrow> u8 list \<Rightarrow> u8 list \<Rightarrow> Metadata_msg \<Rightarrow> bool" where
  "expects_data env z d md \<longleftrightarrow> deflated_len md = of_nat (length z) \<and> length z < 2 ^ 32 - CHUNK_SIZE
    \<and> z \<noteq> [] \<and> inflated_len md = of_nat (length d) \<and> length d < 2 ^ 32
    \<and> inflated_crc md = crc_hash (crc_pkg env) d"

lemma recv_chunk_downloading:
  assumes "inflates env at z d" and "downloading env b0 at z d wh self dev" and "carries_chunk z msg"
    and "expects_data env z d (bin_metadata b0)" and "wh \<le> chunks_of z"
  shows "\<exists>self' dev'. recv_chunk env self msg dev = Some (self', dev', True)
    \<and> downloading env b0 at z d (due_after (chunks_of z) wh [msg]) self' dev'"
proof -
  note ed = assms(4) [unfolded expects_data_def]
  consider (over) "wh = chunks_of z" | (other) "wh < chunks_of z" "unat (which msg) \<noteq> wh"
    | (more) "unat (which msg) = wh" "Suc wh < chunks_of z"
    | (finish) "unat (which msg) = wh" "Suc wh = chunks_of z"
    using assms(5) by linarith
  then show ?thesis
  proof cases
    case over
    then show ?thesis
      using recv_chunk_booting [of env "bin_relocation b0" d self dev msg] assms(2)
      by (auto simp: downloading_def)
  next
    case other
    then show ?thesis
      using recv_chunk_other [of env "BinLoaderE b0" at z d wh self dev msg] assms(2)
      by (auto simp: downloading_def)
  next
    case more
    then show ?thesis
      using recv_chunk_next [OF assms(1), of "BinLoaderE b0" wh self dev msg] assms(2,3)
      by (fastforce simp: downloading_def)
  next
    case finish
    then obtain self1 dev1 loader where f: "dev_ok env dev1"
      "loader_holds (BinLoaderE b0) d loader (ram (mach dev1)) (length d)"
      and r: "recv_chunk env self msg dev = do {
        (dev, r) \<leftarrow> loader_finalize env loader dev1;
        (case r of
           Inl e \<Rightarrow> do {
             dev \<leftarrow> println env (LogCantFinalize e) dev;
             Some (self1\<lparr>state := RequestMetadata\<rparr>, dev, False)
           }
         | Inr booter \<Rightarrow> Some (self1\<lparr>state := Boot booter\<rparr>, dev, True))
      }"
      using recv_chunk_last [OF assms(1), of "BinLoaderE b0" wh self dev msg] assms(2,3)
      by (fastforce simp: downloading_def)
    obtain b where b: "loader = BinLoaderE b" "bin_holds b0 d b (ram (mach dev1)) (length d)"
      using f(2) by (auto simp: loader_holds_def split: LoaderEnum.splits)
    obtain dev2 where v: "talked env dev1 dev2"
      "bin_finalize env b dev1 = Some (dev2, Inr (BootRelocation (bin_relocation b0)))"
      using bin_finalize_verifies [OF f(1) b(2)] ed by auto
    have "booting env (bin_relocation b0) d (self1\<lparr>state := Boot (BootRelocation (bin_relocation b0))\<rparr>) dev2"
      using v(1) b(2) by (auto simp: booting_def talked_def bin_holds_def)
    then show ?thesis
      using finish v(2) b(1) unfolding r by (auto simp: loader_finalize_def downloading_def)
  qed
qed

lemma recv_chunks_downloading:
  assumes "inflates env at z d" and "downloading env b0 at z d wh self dev"
    and "\<forall>msg \<in> set ms. carries_chunk z msg"
    and "expects_data env z d (bin_metadata b0)" and "wh \<le> chunks_of z"
  shows "\<exists>self' dev'. recv_chunks env self dev ms = Some (self', dev', True)
    \<and> downloading env b0 at z d (due_after (chunks_of z) wh ms) self' dev'"
  using assms(2,3,5)
proof (induction ms arbitrary: wh self dev)
  case (Cons msg ms)
  obtain self1 dev1 where 1: "recv_chunk env self msg dev = Some (self1, dev1, True)"
    "downloading env b0 at z d (due_after (chunks_of z) wh [msg]) self1 dev1"
    using recv_chunk_downloading [OF assms(1) Cons.prems(1) _ assms(4) Cons.prems(3), of msg] Cons.prems(2)
    by auto
  have "due_after (chunks_of z) wh [msg] \<le> chunks_of z"
    using Cons.prems(3) by simp
  from Cons.IH [OF 1(2) _ this] Cons.prems(2) show ?case
    by (simp add: 1(1))
qed simp

section \<open>From metadata to boot\<close>

lemma recv_metadata_acks:
  assumes "dev_ok env dev" and "v2_new env now bd = Some self"
    and "format_details md = Bin addr" and "addr < 0x10000000" and "addr AND 3 = 0"
  shows "\<exists>self' dev'. recv_metadata env self md dev = Some (self', dev') \<and> dev_ok env dev'
    \<and> state self' = AckMetadata md \<and> once self' \<and> remainder self' = 0
    \<and> inflate_state self' = inflate_new env \<and> mach dev' = mach dev"
  using assms
  by (auto simp: v2_new_def v1_timeouts_new_8n1_def recv_metadata_def dev_ok_def not_le
      split: bind_splits)

lemma chunk_count_eq:
  assumes "deflated_len md = of_nat (length z)" and "length z < 2 ^ 32 - CHUNK_SIZE"
  shows "chunk_count md = chunks_of z"
proof -
  have "deflated_len md + of_nat CHUNK_SIZE - 1 = (of_nat (length z + 0xfff) :: u32)"
    using assms(1) by (simp add: CHUNK_SIZE_def)
  moreover have "unat (of_nat (length z + 0xfff) :: u32) = length z + 0xfff"
    using assms(2) by (intro unat_of_nat_u32) (simp add: CHUNK_SIZE_def)
  moreover have "unat (0x1000 :: u32) = 0x1000"
    by simp
  ultimately show ?thesis
    unfolding chunk_count_def chunks_of_def CHUNK_SIZE_def unat_div by (simp add: add.commute)
qed

lemma recv_metadata_ack_ack_downloads:
  assumes "inflates env at z d" and "dev_ok env dev" and "state self = AckMetadata md"
    and "remainder self = 0" and "inflate_state self = inflate_new env" and "expects_data env z d md"
    and "format_details md = Bin addr" and "addr < 0x10000000"
    and "layout_fits (ucast addr) (length d) (self_end_addr env) s"
    and "unat addr + length d \<le> unat (self_end_addr env)"
  shows "\<exists>self'. recv_metadata_ack_ack env self \<lparr>is_ok = True\<rparr> dev = Some (self', dev)
    \<and> downloading env (bin_new env (ucast addr) md) at z d 0 self' dev \<and> once self'"
proof -
  let ?b = "bin_new env (ucast addr) md" and ?u = "ucast addr :: u32"
  note ed = assms(6) [unfolded expects_data_def]
  have addr: "addr < 2 ^ 32"
    using assms(8) by (rule order.strict_trans) simp
  then have u: "unat ?u = unat addr"
    by (simp add: unsigned_ucast_eq take_bit_nat_eq_self word_less_nat_alt)
  have pos: "0 < chunks_of z"
    using ed chunk_bound [of 0 z] by simp
  have count: "chunk_count md = chunks_of z"
    using ed by (intro chunk_count_eq) simp_all
  note lay = calculate_layout [OF assms(9)]
  have "bin_holds ?b d ?b (ram (mach dev)) 0"
    using lay(1,2) assms(10) ed u by (auto simp: bin_holds_def bin_new_def stored_def)
  then have "loader_holds (BinLoaderE ?b) d (BinLoaderE ?b) (ram (mach dev)) 0"
    by (simp add: loader_holds_def)
  moreover have "at (inflate_new env) 0 0"
    using assms(1) by (simp add: inflates_def)
  ultimately have "awaiting env (BinLoaderE ?b) at z d 0
      (self\<lparr>state := RequestChunk 0 (chunks_of z) (BinLoaderE ?b), once := True\<rparr>) dev"
    using assms(2,4,5) pos by (auto simp: awaiting_def)
  then show ?thesis
    using assms(3,7) addr pos by (simp add: recv_metadata_ack_ack_def count downloading_def)
qed

lemma print_blocking_ram:
  "\<exists>m'. print_blocking env l m = Some m' \<and> ram m' = ram m \<and> uart_rx m' = uart_rx m"
  using print_string_blocking [of m "fmt_blocking env l"] by (auto simp: print_blocking_def)

lemma print_all_blocking_ram:
  "\<exists>m'. print_all_blocking env ls m = Some m' \<and> ram m' = ram m \<and> uart_rx m' = uart_rx m"
proof (induction ls arbitrary: m)
  case (Cons l ls)
  obtain m1 where "print_blocking env l m = Some m1" "ram m1 = ram m" "uart_rx m1 = uart_rx m"
    using print_blocking_ram by blast
  with Cons.IH [of m1] show ?case
    by auto
qed simp

lemma flat_final_relocation_jumps:
  assumes "dev_ok env dev" and "final_relocation (stub_code env) (ram (mach dev)) r = (mem, call)"
  shows "\<exists>dev'. flat_final_relocation env r dev = Some (dev', JumpStub call) \<and> ram (mach dev') = mem"
proof -
  obtain m1 where 1: "print_all_blocking env [LogStubParameters, LogStubDestination (stub_entry r), LogStubCode,
       LogStubLength (length (stub_code env)), LogCopyTo (base_address_ptr r),
       LogCopyFrom (side_buffer_ptr r), LogCopyBytes (relocate_first_n_bytes r),
       LogEntry (base_address_ptr r)] (mach dev) = Some m1" "ram m1 = ram (mach dev)"
    using print_all_blocking_ram by blast
  obtain m2 where 2: "print_blocking env LogLoadedStub (m1\<lparr>ram := mem\<rparr>) = Some m2" "ram m2 = mem"
    using print_blocking_ram [of env LogLoadedStub "m1\<lparr>ram := mem\<rparr>"] by auto
  have "dev_ok env (dev\<lparr>mach := m2\<rparr>)"
    using assms(1) by (simp add: dev_ok_def)
  from flush_talks [OF this] obtain dev' where "flush_to_fifo (dev\<lparr>mach := m2\<rparr>) = Some dev'"
    "ram (mach dev') = mem"
    using 2(2) by (auto simp: talked_def)
  then show ?thesis
    using 1 2(1) assms(2) unfolding flat_final_relocation_def by simp
qed

lemma stub_boots:
  assumes "booting env r d self dev"
    and "r = calculate base (of_nat (length d)) (self_end_addr env)"
    and "layout_fits base (length d) (self_end_addr env) (length (stub_code env))"
    and "4 dvd unat (relocate_first_n_bytes r)"
  shows "\<exists>self' dev' call m. recv_booting_ack env self dev = Some (self', dev', Entered (JumpStub call))
    \<and> stub_copy (unat (r2_len call)) (ram (mach dev')) (r0_dst call) (r1_src call) (r2_len call) = Some m
    \<and> mem_read m base (length d) = d \<and> r3_entry call = base"
proof -
  note b = assms(1) [unfolded booting_def]
  obtain dev1 where 1: "println env LogBooting dev = Some dev1" "talked env dev dev1"
    using println_talks [of env dev] b by blast
  obtain mem call where f: "final_relocation (stub_code env) (ram (mach dev1)) r = (mem, call)"
    by (cases "final_relocation (stub_code env) (ram (mach dev1)) r")
  obtain dev2 where 2: "flat_final_relocation env r dev1 = Some (dev2, JumpStub call)"
    "ram (mach dev2) = mem"
    using flat_final_relocation_jumps [OF _ f] 1(2) by (auto simp: talked_def)
  have "stored r (ram (mach dev1)) d (length d)" "crc_stream (crc_pkg env)"
    using b 1(2) by (simp_all add: talked_def dev_ok_def)
  from stored_image_boots [OF this(2) assms(3,2) this(1) assms(4) f] obtain m where
    "stub_copy (unat (r2_len call)) mem (r0_dst call) (r1_src call) (r2_len call) = Some m"
    "mem_read m base (length d) = d" "r3_entry call = base"
    by blast
  with 1(1) 2 b show ?thesis
    by (auto simp: recv_booting_ack_def enter_def)
qed

section \<open>Requests\<close>

text \<open>The message of a state: its type and its serialization.\<close>

definition request_of :: "('h, 'i) env \<Rightarrow> S \<Rightarrow> u8 list \<Rightarrow> MessageType \<times> u8 list \<times> (string + nat)" where
  "request_of env st px =
    (case st of
       RequestMetadata \<Rightarrow> (MetadataReq, ser_metadata_req env () px)
     | AckMetadata md \<Rightarrow>
         (MetadataAck, ser_metadata_ack env \<lparr>chunk_size = of_nat CHUNK_SIZE, metadata = md\<rparr> px)
     | RequestChunk wh _ _ \<Rightarrow> (ChunkReq, ser_chunk_req env \<lparr>req_which = of_nat wh\<rparr> px)
     | Boot _ \<Rightarrow> (Booting, ser_booting env () px))"

lemma send_request_queues:
  fixes t :: MessageType
  assumes "dev_ok env dev" and "postcard_buffer (sink dev) = Some px"
    and "ser msg px = (px', Inr n)" and "n \<le> length px'"
  defines "f \<equiv> frame_or_nothing (crc_pkg env) (sink dev) t (take n px')"
  shows "\<exists>dev'. send_request env ser t failed msg dev = Some (dev', Inr (f \<noteq> [])) \<and> talked env dev dev'
    \<and> queued (sink dev') = queued (sink dev) @ f"
proof -
  obtain fs where "sink_send (crc_pkg env) ser t (sink dev) msg =
      Some (fs, if f \<noteq> [] then Inr () else Inl Truncated)" "sink_after (sink dev) f fs"
    using send_ok [where to_slice = ser, OF _ _ assms(2-4), of "crc_pkg env" t] assms(1) unfolding f_def
    by (auto simp: dev_ok_def)
  with assms(1) show ?thesis
    by (auto simp: send_request_def talked_def dev_ok_def sink_after_def)
qed

lemma send_for_state_queues:
  assumes "dev_ok env dev" and "postcard_buffer (sink dev) = Some px"
    and "request_of env st px = (t, px', Inr n)" and "n \<le> length px'"
  defines "f \<equiv> frame_or_nothing (crc_pkg env) (sink dev) t (take n px')"
  shows "\<exists>dev'. send_for_state env st dev = Some (dev', Inr (f \<noteq> [])) \<and> talked env dev dev'
    \<and> queued (sink dev') = queued (sink dev) @ f"
  using assms(3) unfolding f_def
  by (cases st) (auto simp: request_of_def send_for_state_def send_metadata_request_def
      send_metadata_ack_def send_chunk_request_def send_boot_msg_def
      intro!: send_request_queues [OF assms(1,2) _ assms(4)])

section \<open>ELF files\<close>

definition loadable :: "ProgramHeader \<Rightarrow> bool" where
  "loadable seg \<longleftrightarrow>
    (if ph_type seg = PT_LOAD then ph_filesz seg = ph_memsz seg \<or> ph_filesz seg = 0
     else ph_type seg = PT_GNU_STACK \<or> ph_type seg = PT_NOTE)"

lemma elf_segments_filter:
  assumes "dev_ok env dev"
  shows "\<exists>dev' r. elf_segments env segs acc dev = Some (dev', r) \<and> talked env dev dev'
    \<and> (if \<forall>seg \<in> set segs. loadable seg
       then r = Inr (acc @ map narrow_header (filter (\<lambda>seg. ph_type seg = PT_LOAD) segs))
       else \<exists>e. r = Inl e)"
  using assms
proof (induction segs arbitrary: acc dev)
  case Nil
  then show ?case
    by (simp add: talked_def)
next
  case (Cons seg segs)
  have types: "PT_TLS \<noteq> PT_LOAD" "PT_TLS \<noteq> PT_GNU_STACK" "PT_TLS \<noteq> PT_NOTE"
    "PT_GNU_STACK \<noteq> PT_LOAD" "PT_NOTE \<noteq> PT_LOAD" "PT_NOTE \<noteq> PT_GNU_STACK"
    by (simp_all add: PT_TLS_def PT_LOAD_def PT_GNU_STACK_def PT_NOTE_def)
  have refl_talked: "talked env dev dev"
    using Cons.prems by (simp add: talked_def)
  let ?l = "if ph_type seg = PT_GNU_STACK then LogIgnoringGnuStack else LogIgnoringNote"
  consider (load) "ph_type seg = PT_LOAD" "loadable seg"
    | (skip) "ph_type seg = PT_GNU_STACK \<or> ph_type seg = PT_NOTE" "loadable seg"
    | (refuse) "\<not> loadable seg"
    unfolding loadable_def by argo
  then show ?case
  proof cases
    case load
    then have eq: "elf_segments env (seg # segs) acc dev = elf_segments env segs (acc @ [narrow_header seg]) dev"
      using types by (auto simp: loadable_def)
    show ?thesis
      unfolding eq using Cons.IH [OF Cons.prems, of "acc @ [narrow_header seg]"] load
      by (simp split del: if_split cong: if_cong)
  next
    case skip
    obtain dev1 where 1: "println env ?l dev = Some dev1" "talked env dev dev1" "dev_ok env dev1"
      using println_talks [OF Cons.prems, of ?l] by (auto simp: talked_def)
    have "elf_segments env (seg # segs) acc dev = elf_segments env segs acc dev1"
      using skip 1(1) types by auto
    then show ?thesis
      using Cons.IH [OF 1(3), of acc] skip types talked_trans [OF 1(2)] by fastforce
  next
    case refuse
    then have "\<exists>e. elf_segments env (seg # segs) acc dev = Some (dev, Inl e)"
      by (auto simp: loadable_def split: if_splits)
    with refuse refl_talked show ?thesis
      by auto
  qed
qed

section \<open>Properties\<close>


text \<open>
  A stored (uncompressed) stream: the decompressor copies what it is given until the end, as a
  concrete instance of the documented behaviour.
\<close>

definition copying :: "nat \<Rightarrow> nat \<Rightarrow> u8 list \<Rightarrow> nat \<Rightarrow> nat \<times> InflateResult" where
  "copying len pos input room =
    (let n = min (length input) room
     in (pos + n, \<lparr>bytes_consumed = n, inflate_out = take n input,
          inflate_status = if input = [] then Inl MZErrBuf
            else if pos + n = len then Inr MZStreamEnd else Inr MZOk\<rparr>))"

definition demo_env :: "nat \<Rightarrow> (u32, nat) env" where
  "demo_env len = \<lparr>crc_pkg = crc32_ops,
     ser_metadata_req = (\<lambda>_ px. (px, Inr 0)), ser_metadata_ack = (\<lambda>_ px. (px, Inr 0)),
     ser_chunk_req = (\<lambda>_ px. (px, Inr 0)), ser_booting = (\<lambda>_ px. (px, Inr 0)),
     ser_allowed_versions = (\<lambda>_ px. (px, Inr 0)),
     de_use_version = (\<lambda>_. Inl []), de_metadata = (\<lambda>_. Inl []),
     de_metadata_ack_ack = (\<lambda>_. Inl []), de_chunk = (\<lambda>_. Inl []),
     inflate_new = 0, inflate = copying len, minimal_parse = (\<lambda>_. Inl []),
     fmt = (\<lambda>_. []), fmt_blocking = (\<lambda>_. []), self_end_addr = 0x9000, stub_code = [0xaa, 0xbb]\<rparr>"

definition demo_device :: device where
  "demo_device = \<lparr>sink = small_sink,
     timeouts = \<lparr>error_recovery = 0, byte_read = 0, session_expires = 0, override_session_timeout = None\<rparr>,
     mach = \<lparr>ram = (\<lambda>_. 0), uart_rx = [], uart_tx = [], uart_baud = 270\<rparr>, inflate_buffer = replicate 0x3000 0\<rparr>"

definition demo_data :: "u8 list" where "demo_data = [1, 2, 3, 4]"

definition demo_metadata :: Metadata_msg where
  "demo_metadata = \<lparr>deflated_crc = 0, deflated_len = 4, inflated_crc = crc_hash crc32_ops demo_data,
     inflated_len = 4, format_details = Bin 0x8000\<rparr>"

lemma take_of_prefix: "xs = take (length xs) ys \<Longrightarrow> n \<le> length xs \<Longrightarrow> take n xs = take n ys"
  by (metis min_def take_take)

lemma copying_inflates: "inflates (demo_env (length d)) (\<lambda>st i j. st = i \<and> i = j) d d"
  unfolding inflates_def demo_env_def
  by (auto simp: copying_def inflate_law_def Let_def min_def intro: take_of_prefix split: if_splits)

lemma demo_dev_ok [simp]: "dev_ok (demo_env n) demo_device"
  using crc32.crc_stream_axioms by (simp add: dev_ok_def demo_device_def demo_env_def)

lemma demo_expects: "expects_data (demo_env 4) demo_data demo_data demo_metadata"
  by (simp add: expects_data_def demo_data_def demo_metadata_def demo_env_def CHUNK_SIZE_def)

lemma demo_facts: "length demo_data = 4" "chunks_of demo_data = 1" "self_end_addr (demo_env n) = 0x9000"
  "stub_code (demo_env n) = [0xaa, 0xbb]"
  "layout_fits (ucast (0x8000 :: u64)) (length demo_data) (self_end_addr (demo_env n)) 2"
  "carries_chunk demo_data \<lparr>which = 0, chunk_bytes = [1, 2, 3, 4]\<rparr>"
  by (simp_all add: demo_data_def chunks_of_def CHUNK_SIZE_def demo_env_def layout_fits_def
      carries_chunk_def chunk_of_def)




text \<open>
  The heartbeat asks for what the state needs and changes nothing else: it sends exactly when
  it is due (the first time in a state, after the resend interval of the state, or after the retry
  interval when the last request did not fit), the frame it queues is that of the state's request,
  whole or not at all, and in the latter case the retry is scheduled. It never panics.
\<close>

lemma heartbeat_requests:
  assumes "dev_ok env dev" and "postcard_buffer (sink dev) = Some px"
    and "request_of env (state self) px = (t, px', Inr n)" and "n \<le> length px'"
  shows "\<exists>self' dev'. v2_heartbeat env self now now' dev = Some (self', dev', Continue)
    \<and> dev_ok env dev' \<and> ram (mach dev') = ram (mach dev) \<and> state self' = state self \<and> \<not> once self'
    \<and> (let f = frame_or_nothing (crc_pkg env) (sink dev) t (take n px')
       in if should_send self now
          then queued (sink dev') = queued (sink dev) @ f \<and> retry_buffer self' = (f = [])
            \<and> heartbeat self' = now'
          else queued (sink dev') = queued (sink dev) \<and> retry_buffer self' = retry_buffer self
            \<and> heartbeat self' = heartbeat self)"
  using send_for_state_queues [OF assms] assms(1)
  by (cases "should_send self now") (auto simp: v2_heartbeat_def talked_def Let_def)

theorem heartbeat_requests_witness:
  "dev_ok (demo_env 4) demo_device \<and> postcard_buffer (sink demo_device) = Some (replicate 16 0)
   \<and> (\<exists>self self' dev'. v2_new (demo_env 4) 0 115200 = Some self
     \<and> request_of (demo_env 4) (state self) (replicate 16 0) = (MetadataReq, replicate 16 0, Inr 0)
     \<and> v2_heartbeat (demo_env 4) self 5 9 demo_device = Some (self', dev', Continue)
     \<and> queued (sink dev') = frame_or_nothing crc32_ops small_sink MetadataReq []
     \<and> \<not> once self' \<and> heartbeat self' = 9)"
proof -
  obtain self where self: "v2_new (demo_env 4) 0 115200 = Some self" "state self = RequestMetadata" "once self"
    by (auto simp: v2_new_def v1_timeouts_new_8n1_def at_baud_8n1_def)
  have req: "request_of (demo_env 4) (state self) (replicate 16 0) = (MetadataReq, replicate 16 0, Inr 0)"
    using self(2) by (simp add: request_of_def demo_env_def)
  have px: "postcard_buffer (sink demo_device) = Some (replicate 16 0)"
    by (simp add: demo_device_def)
  have "crc_pkg (demo_env 4) = crc32_ops" "sink demo_device = small_sink"
    by (simp_all add: demo_env_def demo_device_def)
  then show ?thesis
    using heartbeat_requests [OF demo_dev_ok px req, of 5 9] self req px
    by (auto simp: should_send_def Let_def)
qed

text \<open>
  C26. What the ELF loader accepts: finalizing never panics, and it yields a booter exactly when
  the checksum of the collected file agrees with the metadata's \<open>deflated_crc\<close>, the file parses, its
  header is that of a 32-bit little-endian ARM executable with an entry below 256 MiB, and every
  segment is a loadable one with equal sizes (or no file content), a stack marker or a note; the
  booter has the headers of the loadable segments in order, the file and the entry point.
\<close>

theorem elf_loader_accepts:
  assumes "dev_ok env dev"
  shows "\<exists>dev' r. elf_finalize env e dev = Some (dev', r) \<and> talked env dev dev' \<and>
    (\<forall>b. r = Inr b \<longleftrightarrow>
      crc_hash (crc_pkg env) (elf_bytes e) = deflated_crc (elf_metadata e) \<and>
      (\<exists>eb segs. minimal_parse env (elf_bytes e) = Inr eb
        \<and> class_elf32 eb \<and> little_endian eb \<and> osabi eb = 0 \<and> e_type eb = ET_EXEC \<and> e_machine eb = EM_ARM
        \<and> elf_version eb = 1 \<and> e_entry eb < 0x10000000
        \<and> segments eb = Some segs \<and> (\<forall>seg \<in> set segs. loadable seg)
        \<and> b = BootElf (program_headers e @ map narrow_header (filter (\<lambda>seg. ph_type seg = PT_LOAD) segs))
            (elf_bytes e) (ucast (e_entry eb))))"
proof -
  let ?crc = "crc_hash (crc_pkg env) (elf_bytes e)" and ?md = "elf_metadata e"
  have refl_talked: "talked env dev dev"
    using assms by (simp add: talked_def)
  have hdr: "elf_header_error eb = None \<longleftrightarrow> class_elf32 eb \<and> little_endian eb \<and> osabi eb = 0
      \<and> e_type eb = ET_EXEC \<and> e_machine eb = EM_ARM \<and> elf_version eb = 1 \<and> e_entry eb < 0x10000000" for eb
    by (auto simp: elf_header_error_def not_le)
  consider (crc) "?crc \<noteq> deflated_crc ?md"
    | (parse) err where "?crc = deflated_crc ?md" "minimal_parse env (elf_bytes e) = Inl err"
    | (header) eb err where "?crc = deflated_crc ?md" "minimal_parse env (elf_bytes e) = Inr eb"
        "elf_header_error eb = Some err"
    | (table) eb where "?crc = deflated_crc ?md" "minimal_parse env (elf_bytes e) = Inr eb"
        "elf_header_error eb = None" "segments eb = None"
    | (segs) eb segs where "?crc = deflated_crc ?md" "minimal_parse env (elf_bytes e) = Inr eb"
        "elf_header_error eb = None" "segments eb = Some segs"
    by (metis (no_types) obj_sumE option.exhaust)
  then show ?thesis
  proof cases
    case crc
    obtain dev' where "println env (LogCrcMismatch (deflated_crc ?md) ?crc) dev = Some dev'" "talked env dev dev'"
      using println_talks [OF assms] by blast
    with crc show ?thesis
      by (auto simp: elf_finalize_def Let_def)
  next
    case header
    with hdr [of eb] have "\<not> (class_elf32 eb \<and> little_endian eb \<and> osabi eb = 0
      \<and> e_type eb = ET_EXEC \<and> e_machine eb = EM_ARM \<and> elf_version eb = 1 \<and> e_entry eb < 0x10000000)"
      by simp
    with header refl_talked show ?thesis
      by (auto simp: elf_finalize_def Let_def)
  next
    case segs
    obtain dev' r where "elf_segments env segs (program_headers e) dev = Some (dev', r)" "talked env dev dev'"
      "if \<forall>seg \<in> set segs. loadable seg
       then r = Inr (program_headers e @ map narrow_header (filter (\<lambda>seg. ph_type seg = PT_LOAD) segs))
       else \<exists>e. r = Inl e"
      using elf_segments_filter [OF assms] by blast
    with segs hdr [of eb] show ?thesis
      by (auto simp: elf_finalize_def Let_def split: if_splits)
  qed (use refl_talked in \<open>auto simp: elf_finalize_def Let_def\<close>)
qed

theorem elf_loader_accepts_witness:
  "dev_ok (demo_env 4) demo_device
   \<and> (\<exists>dev' r. elf_finalize (demo_env 4) (elf_new demo_metadata) demo_device = Some (dev', r)
       \<and> talked (demo_env 4) demo_device dev' \<and> (\<forall>b. r \<noteq> Inr b))"
  using elf_loader_accepts [OF demo_dev_ok, of 4 "elf_new demo_metadata"] demo_dev_ok
  by (fastforce simp: demo_env_def)

text \<open>
  The ELF loader compares the wrong checksum: it hashes the decompressed file but expects the
  checksum of the compressed stream, so that with metadata that describes both truthfully every
  ELF file whose two checksums differ is refused.
\<close>

lemma elf_loader_expects_compressed_checksum:
  assumes "dev_ok env dev" and "elf_bytes e = d"
    and "inflated_crc (elf_metadata e) = crc_hash (crc_pkg env) d"
    and "deflated_crc (elf_metadata e) = crc_hash (crc_pkg env) z"
    and "crc_hash (crc_pkg env) z \<noteq> crc_hash (crc_pkg env) d"
  shows "\<exists>dev'. elf_finalize env e dev = Some (dev', Inl LoadCrc)"
  using println_talks [OF assms(1), of "LogCrcMismatch (deflated_crc (elf_metadata e)) (crc_hash (crc_pkg env) d)"]
    assms(2-5) by (auto simp: elf_finalize_def Let_def)

text \<open>The empty file, and the two bytes it deflates to.\<close>

theorem elf_loader_expects_compressed_checksum_witness:
  "\<exists>dev'. elf_finalize (demo_env 4)
     (elf_new \<lparr>deflated_crc = crc_hash crc32_ops [3, 0], deflated_len = 2, inflated_crc = crc_hash crc32_ops [],
       inflated_len = 0, format_details = Elf\<rparr>) demo_device = Some (dev', Inl LoadCrc)"
proof -
  have "crc_pkg (demo_env 4) = crc32_ops"
    by (simp add: demo_env_def)
  moreover have "crc_hash crc32_ops [3, 0] \<noteq> crc_hash crc32_ops []"
    by code_simp
  ultimately show ?thesis
    by (intro elf_loader_expects_compressed_checksum [OF demo_dev_ok refl, where z = "[3, 0]"])
       (simp_all add: elf_new_def)
qed

end
