(* ===== verification/Legacy.thy ===== *)
theory Legacy
  imports Relocation
begin

text \<open>
  The download of a host that speaks only the older \<open>su_boot\<close> protocol
  (\<open>device/okboot/src/legacy.rs\<close>, \<open>perform_download\<close>): after \<open>PUT_PROG_INFO\<close> the device reads
  address, length and checksum, asks for the code, waits for \<open>PUT_CODE\<close>, reads the program, and
  either reports an error and returns or enters the relocation stub.
\<close>

section \<open>The download\<close>

datatype LegacyLog =
    LogNotCompatible | LogProgramInfo u32 u32 u32 | LogRelocationConfiguration | LogRelocate bool
  | LogTarget u32 u32 u32 u32 | LogStub u32 | LogSize u32 u32
  | LogReceivedProgram u32 u32 bool | LogFatalCrc
  | LogInnerParameters | LogInnerDst u32 | LogInnerLoc | LogInnerLen nat | LogInnerProgDst u32
  | LogInnerProgSrc u32 | LogInnerProgLen u32 | LogInnerEntry u32 | LogInnerLoaded

text \<open>What the download needs from elsewhere: checksum, formatter, end of the boot loader, stub code.\<close>

record 'h legacy_env =
  legacy_crc :: "'h crc_ops"
  fmt_legacy :: "LegacyLog \<Rightarrow> u8 list list list"
  legacy_self_end :: u32
  legacy_stub_code :: "u8 list"

datatype legacy_outcome = LegacyReturned | LegacyJump stub_call

fun legacy_prints :: "'h legacy_env \<Rightarrow> LegacyLog list \<Rightarrow> machine \<Rightarrow> machine option" where
  "legacy_prints env [] m = Some m"
| "legacy_prints env (l # ls) m = do {
     m \<leftarrow> legacy_print_string_blocking m (fmt_legacy env l);
     legacy_prints env ls m
   }"

datatype put_code_state = CLR | PC1 | PC2 | PC3 | PutCodeSeen

definition put_code_step :: "put_code_state \<Rightarrow> u8 \<Rightarrow> put_code_state" where
  "put_code_step st byte =
    (if st = CLR \<and> byte = 0x88 then PC1
     else if st = PC1 \<and> byte = 0x88 then PC2
     else if st = PC2 \<and> byte = 0x77 then PC3
     else if st = PC3 \<and> byte = 0x77 then PutCodeSeen
     else CLR)"

text \<open>The loop polls without end when the command never comes; the bytes behind it are left.\<close>

fun wait_put_code :: "put_code_state \<Rightarrow> u8 list \<Rightarrow> u8 list option" where
  "wait_put_code st [] = None"
| "wait_put_code st (byte # rest) =
    (let st = put_code_step st byte in if st = PutCodeSeen then Some rest else wait_put_code st rest)"

text \<open>\<open>write_bytes_from_uart\<close> stores each byte as it comes.\<close>

fun write_bytes_from_uart :: "nat \<Rightarrow> machine \<Rightarrow> u32 \<Rightarrow> machine option" where
  "write_bytes_from_uart 0 m to_addr = Some m"
| "write_bytes_from_uart (Suc n) m to_addr = do {
     (m, b) \<leftarrow> uart1_read8_blocking m;
     write_bytes_from_uart n (m\<lparr>ram := mem_write (ram m) to_addr [b]\<rparr>) (to_addr + 1)
   }"

record legacy_layout =
  ll_relocate :: bool
  relocate_prog_from :: u32
  relocate_prog_len :: u32
  relocate_prog_to :: u32
  relocate_stub_to :: u32

definition legacy_calculate :: "u32 \<Rightarrow> u32 \<Rightarrow> u32 \<Rightarrow> legacy_layout" where
  "legacy_calculate addr len self_end =
    (let prog_begin = addr;
         prog_end = addr + len;
         rel = (addr < self_end);
         (from, n, to) =
           (if rel then (prog_begin, min (self_end - prog_begin) len, max prog_end self_end)
            else (0, 0, 0))
     in \<lparr>ll_relocate = rel, relocate_prog_from = from, relocate_prog_len = n,
         relocate_prog_to = to, relocate_stub_to = to + n\<rparr>)"

text \<open>Reading the program and hashing it where it was written.\<close>

definition receive_program ::
  "'h legacy_env \<Rightarrow> legacy_layout \<Rightarrow> u32 \<Rightarrow> u32 \<Rightarrow> machine \<Rightarrow> (machine \<times> u32) option" where
  "receive_program env l addr len m =
    (let ops = legacy_crc env in
     if ll_relocate l then do {
       let n = unat (relocate_prog_len l);
       let dst = relocate_prog_to l;
       m \<leftarrow> write_bytes_from_uart n m dst;
       let stationary_len = unat (len - relocate_prog_len l);
       let stationary_ptr = dst + relocate_prog_len l;
       m \<leftarrow> write_bytes_from_uart stationary_len m stationary_ptr;
       let h = hasher_update ops (hasher_new ops) (mem_read (ram m) dst n);
       let h = hasher_update ops h (mem_read (ram m) stationary_ptr stationary_len);
       Some (m, hasher_finalize ops h)
     } else do {
       m \<leftarrow> write_bytes_from_uart (unat len) m addr;
       Some (m, crc_hash ops (mem_read (ram m) addr (unat len)))
     })"

definition relocate_stub_inner ::
  "'h legacy_env \<Rightarrow> stub_call \<Rightarrow> machine \<Rightarrow> (machine \<times> legacy_outcome) option" where
  "relocate_stub_inner env params m = do {
     m \<leftarrow> legacy_prints env [LogInnerParameters, LogInnerDst (stub_dst params), LogInnerLoc,
       LogInnerLen (length (legacy_stub_code env)), LogInnerProgDst (r0_dst params),
       LogInnerProgSrc (r1_src params), LogInnerProgLen (r2_len params), LogInnerEntry (r3_entry params)] m;
     m \<leftarrow> legacy_prints env [LogInnerLoaded]
       (m\<lparr>ram := mem_write (ram m) (stub_dst params) (legacy_stub_code env)\<rparr>);
     let m = uart1_write32 m (command_code BootSuccess);
     Some (m, LegacyJump params)
   }"

definition legacy_config_logs :: "legacy_layout \<Rightarrow> u32 \<Rightarrow> LegacyLog list" where
  "legacy_config_logs l len =
    [LogRelocationConfiguration, LogRelocate (ll_relocate l)] @
    (if ll_relocate l then
       [LogTarget (relocate_prog_from l) (relocate_prog_from l + relocate_prog_len l)
          (relocate_prog_to l) (relocate_prog_to l + relocate_prog_len l),
        LogStub (relocate_stub_to l),
        LogSize ((relocate_prog_len l + 1023) div 1024) ((len + 1023) div 1024)]
     else [])"

definition perform_download :: "'h legacy_env \<Rightarrow> machine \<Rightarrow> (machine \<times> legacy_outcome) option" where
  "perform_download env m = do {
     (m, addr) \<leftarrow> uart1_read32_blocking m;
     (m, len) \<leftarrow> uart1_read32_blocking m;
     (m, crc) \<leftarrow> uart1_read32_blocking m;
     m \<leftarrow> legacy_prints env [LogNotCompatible, LogProgramInfo addr len crc] m;
     let l = legacy_calculate addr len (legacy_self_end env);
     m \<leftarrow> legacy_prints env (legacy_config_logs l len) m;
     let m = uart1_write32 m (command_code GetCode);
     let m = uart1_write32 m crc;
     rest \<leftarrow> wait_put_code CLR (uart_rx m);
     (m, verify_crc32) \<leftarrow> receive_program env l addr len (m\<lparr>uart_rx := rest\<rparr>);
     let crc_ok = (verify_crc32 = crc);
     m \<leftarrow> legacy_prints env [LogReceivedProgram verify_crc32 crc crc_ok] m;
     if \<not> crc_ok then do {
       m \<leftarrow> legacy_prints env [LogFatalCrc] m;
       Some (uart1_write32 m (command_code BootError), LegacyReturned)
     } else
       relocate_stub_inner env
         \<lparr>r0_dst = relocate_prog_from l, r1_src = relocate_prog_to l, r2_len = relocate_prog_len l,
          r3_entry = addr, stub_dst = relocate_stub_to l\<rparr> m
   }"

section \<open>Reading the program\<close>

lemma legacy_prints_ok:
  "\<exists>out. texts out \<and> legacy_prints env ls m = Some (m\<lparr>uart_tx := uart_tx m @ out\<rparr>)"
proof (induction ls arbitrary: m)
  case Nil
  then show ?case
    by (auto intro: exI [of _ "[]"])
next
  case (Cons l ls)
  obtain s where "legacy_print_string_blocking m (fmt_legacy env l) = Some (m\<lparr>uart_tx := uart_tx m @ s\<rparr>)" "texts s"
    using print_blocking_texts [of m "fmt_legacy env l"] by blast
  with Cons.IH [of "m\<lparr>uart_tx := uart_tx m @ s\<rparr>"] show ?case
    by (auto intro: texts_append)
qed

lemma read_n_blocking:
  "uart_rx m = bs @ rest \<Longrightarrow> uart1_read_n_blocking (length bs) m = Some (m\<lparr>uart_rx := rest\<rparr>, bs)"
  by (induction bs arbitrary: m) (auto simp: uart1_read8_blocking_def)

lemma read32_blocking:
  assumes "uart_rx m = u32_to_le_bytes w @ rest"
  shows "uart1_read32_blocking m = Some (m\<lparr>uart_rx := rest\<rparr>, w)"
  using read_n_blocking [OF assms] by (simp add: uart1_read32_blocking_def)

lemma write_bytes_from_uart:
  assumes "uart_rx m = bs @ rest" and "unat a + length bs < 2 ^ 32"
  shows "write_bytes_from_uart (length bs) m a = Some (m\<lparr>uart_rx := rest, ram := mem_write (ram m) a bs\<rparr>)"
  using assms
proof (induction bs arbitrary: m a)
  case (Cons b bs)
  have "unat (a + 1) = unat a + 1"
    using Cons.prems(2) unat_plus_of_nat [of a 1] by simp
  moreover have "mem_write (mem_write (ram m) a [b]) (a + of_nat (length [b])) bs = mem_write (ram m) a ([b] @ bs)"
    using Cons.prems(2) by (intro mem_write_append) simp_all
  ultimately show ?case
    using Cons.prems Cons.IH [of "m\<lparr>uart_rx := bs @ rest, ram := mem_write (ram m) a [b]\<rparr>" "a + 1"]
    by (simp add: uart1_read8_blocking_def)
qed simp

lemma wait_put_code_command:
  "wait_put_code CLR (u32_to_le_bytes (command_code PutCode) @ rest) = Some rest"
proof -
  have "u32_to_le_bytes (command_code PutCode) = [0x88, 0x88, 0x77, 0x77]"
    by (simp add: u32_to_le_bytes_def)
  then show ?thesis
    by (simp add: put_code_step_def Let_def)
qed

text \<open>The layout, and what is read into it.\<close>

lemma legacy_calculate_relocated:
  assumes "addr < self_end" and "unat addr + len < 2 ^ 32"
  defines "l \<equiv> legacy_calculate addr (of_nat len) self_end"
  shows "ll_relocate l" and "relocate_prog_from l = addr"
    and "unat (relocate_prog_len l) = min (unat self_end - unat addr) len"
    and "unat (relocate_prog_to l) = max (unat addr + len) (unat self_end)"
    and "relocate_stub_to l = relocate_prog_to l + relocate_prog_len l"
proof -
  have len: "unat (of_nat len :: u32) = len" "unat (addr + of_nat len) = unat addr + len"
    using assms(2) by (simp_all add: unat_of_nat_u32 unat_plus_of_nat)
  have "unat (self_end - addr) = unat self_end - unat addr"
    using assms(1) by (intro unat_sub) simp
  then show "ll_relocate l" "relocate_prog_from l = addr"
    "unat (relocate_prog_len l) = min (unat self_end - unat addr) len"
    "unat (relocate_prog_to l) = max (unat addr + len) (unat self_end)"
    "relocate_stub_to l = relocate_prog_to l + relocate_prog_len l"
    using assms(1) len by (auto simp: l_def legacy_calculate_def Let_def min_def max_def word_le_nat_alt)
qed

lemma receive_program_relocated:
  assumes "crc_stream (legacy_crc env)" and "uart_rx m = data @ rest"
    and "ll_relocate l" and "unat (relocate_prog_len l) \<le> length data"
    and "unat (relocate_prog_to l) + length data < 2 ^ 32"
  shows "receive_program env l addr (of_nat (length data)) m =
    Some (m\<lparr>uart_rx := rest, ram := mem_write (ram m) (relocate_prog_to l) data\<rparr>,
      crc_hash (legacy_crc env) data)"
proof -
  let ?n = "unat (relocate_prog_len l)" and ?to = "relocate_prog_to l" and ?ops = "legacy_crc env"
  let ?d1 = "take ?n data" and ?d2 = "drop ?n data"
  have len: "unat (of_nat (length data) - relocate_prog_len l) = length ?d2"
    using assms(4,5) unat_of_nat_u32 [of "length data"] by (subst unat_sub) (auto simp: word_le_nat_alt)
  have n: "length ?d1 = ?n" "?n + length ?d2 = length data"
    using assms(4) by auto
  have addr: "unat (?to + relocate_prog_len l) = unat ?to + ?n"
    using assms(4,5) by (subst unat_add_lem [symmetric]) simp
  have 1: "write_bytes_from_uart ?n m ?to =
      Some (m\<lparr>uart_rx := ?d2 @ rest, ram := mem_write (ram m) ?to ?d1\<rparr>)"
    using write_bytes_from_uart [of m ?d1 "?d2 @ rest" ?to, unfolded n(1)] assms(2,4,5) by simp
  have to: "?to + relocate_prog_len l = ?to + of_nat (length ?d1)"
    using n(1) by simp
  have w: "mem_write (mem_write (ram m) ?to ?d1) (?to + relocate_prog_len l) ?d2 = mem_write (ram m) ?to data"
    unfolding to using assms(4,5) mem_write_append [of ?to ?d1 ?d2 "ram m"] by simp
  have 2: "write_bytes_from_uart (length ?d2) (m\<lparr>uart_rx := ?d2 @ rest, ram := mem_write (ram m) ?to ?d1\<rparr>)
      (?to + relocate_prog_len l) = Some (m\<lparr>uart_rx := rest, ram := mem_write (ram m) ?to data\<rparr>)"
    using write_bytes_from_uart [of "m\<lparr>uart_rx := ?d2 @ rest, ram := mem_write (ram m) ?to ?d1\<rparr>" ?d2 rest
        "?to + relocate_prog_len l"] addr assms(4,5) w by simp
  have all: "mem_read (mem_write (ram m) ?to data) ?to (?n + length ?d2) = data"
    unfolding n(2) by (rule mem_read_write_same) (use assms(5) in simp)
  have parts: "mem_read (mem_write (ram m) ?to data) ?to ?n = ?d1"
    "mem_read (mem_write (ram m) ?to data) (?to + relocate_prog_len l) (length ?d2) = ?d2"
    using arg_cong [OF all [unfolded mem_read_append], of "take ?n"]
      arg_cong [OF all [unfolded mem_read_append], of "drop ?n"] assms(4) by (simp_all add: min_absorb2)
  have "crc_hash ?ops data = hasher_finalize ?ops (hasher_update ?ops
      (hasher_update ?ops (hasher_new ?ops) ?d1) ?d2)"
    by (simp add: crc_hash_def crc_stream.update_append [OF assms(1), symmetric])
  then show ?thesis
    using assms(3) 1 2 len parts by (simp add: receive_program_def Let_def)
qed

text \<open>The conversation of one download, as the host sends it.\<close>

definition legacy_host_bytes :: "u32 \<Rightarrow> u32 \<Rightarrow> u8 list \<Rightarrow> u8 list" where
  "legacy_host_bytes addr crc data =
    u32_to_le_bytes addr @ u32_to_le_bytes (of_nat (length data)) @ u32_to_le_bytes crc
    @ u32_to_le_bytes (command_code PutCode) @ data"

text \<open>Reading the three words, asking for the code, and reading the program.\<close>

lemma perform_download_received:
  assumes "uart_rx m = legacy_host_bytes addr crc data @ rest"
    and "l = legacy_calculate addr (of_nat (length data)) (legacy_self_end env)"
    and "\<And>m. uart_rx m = data @ rest \<Longrightarrow>
      receive_program env l addr (of_nat (length data)) m = Some (m\<lparr>uart_rx := rest, ram := g (ram m)\<rparr>, h)"
  shows "\<exists>t1 t2. texts t1 \<and> texts t2 \<and> perform_download env m =
    (let m1 = m\<lparr>uart_rx := rest, ram := g (ram m),
       uart_tx := uart_tx m @ t1 @ u32_to_le_bytes (command_code GetCode) @ u32_to_le_bytes crc @ t2\<rparr> in
     if h \<noteq> crc then Some (uart1_write32 m1 (command_code BootError), LegacyReturned)
     else relocate_stub_inner env
         \<lparr>r0_dst = relocate_prog_from l, r1_src = relocate_prog_to l, r2_len = relocate_prog_len l,
          r3_entry = addr, stub_dst = relocate_stub_to l\<rparr> m1)"
proof -
  let ?len = "of_nat (length data) :: u32"
  let ?code = "u32_to_le_bytes (command_code PutCode) @ data @ rest"
  have r: "uart1_read32_blocking m = Some (m\<lparr>uart_rx := u32_to_le_bytes ?len @ u32_to_le_bytes crc @ ?code\<rparr>, addr)"
    using assms(1) by (intro read32_blocking) (simp add: legacy_host_bytes_def)
  have r2: "uart1_read32_blocking (m\<lparr>uart_rx := u32_to_le_bytes ?len @ u32_to_le_bytes crc @ ?code\<rparr>) =
      Some (m\<lparr>uart_rx := u32_to_le_bytes crc @ ?code\<rparr>, ?len)"
    using read32_blocking [of "m\<lparr>uart_rx := u32_to_le_bytes ?len @ u32_to_le_bytes crc @ ?code\<rparr>"] by simp
  have r3: "uart1_read32_blocking (m\<lparr>uart_rx := u32_to_le_bytes crc @ ?code\<rparr>) =
      Some (m\<lparr>uart_rx := ?code\<rparr>, crc)"
    using read32_blocking [of "m\<lparr>uart_rx := u32_to_le_bytes crc @ ?code\<rparr>"] by simp
  let ?m1 = "m\<lparr>uart_rx := ?code\<rparr>"
  obtain o1 where o1: "legacy_prints env [LogNotCompatible, LogProgramInfo addr ?len crc] ?m1 =
      Some (?m1\<lparr>uart_tx := uart_tx ?m1 @ o1\<rparr>)" "texts o1"
    using legacy_prints_ok by blast
  let ?m2 = "m\<lparr>uart_rx := ?code, uart_tx := uart_tx m @ o1\<rparr>"
  obtain o2 where o2: "legacy_prints env (legacy_config_logs l ?len) ?m2 =
      Some (?m2\<lparr>uart_tx := uart_tx ?m2 @ o2\<rparr>)" "texts o2"
    using legacy_prints_ok by blast
  let ?o3 = "o1 @ o2 @ u32_to_le_bytes (command_code GetCode) @ u32_to_le_bytes crc"
  let ?m3 = "m\<lparr>uart_tx := uart_tx m @ ?o3, uart_rx := rest, ram := g (ram m)\<rparr>"
  have p: "receive_program env l addr ?len (m\<lparr>uart_tx := uart_tx m @ ?o3, uart_rx := data @ rest\<rparr>) =
      Some (?m3, h)"
    using assms(3) [of "m\<lparr>uart_tx := uart_tx m @ ?o3, uart_rx := data @ rest\<rparr>"] by simp
  obtain o4 where o4: "legacy_prints env [LogReceivedProgram h crc (h = crc)] ?m3 =
      Some (?m3\<lparr>uart_tx := uart_tx ?m3 @ o4\<rparr>)" "texts o4"
    using legacy_prints_ok by blast
  let ?m4 = "?m3\<lparr>uart_tx := uart_tx ?m3 @ o4\<rparr>"
  obtain o5 where o5: "legacy_prints env [LogFatalCrc] ?m4 = Some (?m4\<lparr>uart_tx := uart_tx ?m4 @ o5\<rparr>)" "texts o5"
    using legacy_prints_ok by blast
  show ?thesis
    by (rule exI [of _ "o1 @ o2"], rule exI [of _ "o4 @ (if h = crc then [] else o5)"])
       (use r r2 r3 o1 o2 p o4 o5 wait_put_code_command in
         \<open>simp add: perform_download_def texts_append uart1_write32_def uart1_write_bytes_tx assms(2) [symmetric] Let_def
           del: command_code.simps legacy_prints.simps\<close>)
qed

lemma relocate_stub_inner_jumps:
  "\<exists>out. texts out \<and> relocate_stub_inner env params m = Some (m\<lparr>ram := mem_write (ram m) (stub_dst params) (legacy_stub_code env),
      uart_tx := uart_tx m @ out @ u32_to_le_bytes (command_code BootSuccess)\<rparr>, LegacyJump params)"
proof -
  obtain o1 where o1: "legacy_prints env [LogInnerParameters, LogInnerDst (stub_dst params), LogInnerLoc,
       LogInnerLen (length (legacy_stub_code env)), LogInnerProgDst (r0_dst params),
       LogInnerProgSrc (r1_src params), LogInnerProgLen (r2_len params), LogInnerEntry (r3_entry params)] m =
      Some (m\<lparr>uart_tx := uart_tx m @ o1\<rparr>)" "texts o1"
    using legacy_prints_ok by blast
  let ?m = "m\<lparr>uart_tx := uart_tx m @ o1, ram := mem_write (ram m) (stub_dst params) (legacy_stub_code env)\<rparr>"
  obtain o2 where o2: "legacy_prints env [LogInnerLoaded] ?m = Some (?m\<lparr>uart_tx := uart_tx ?m @ o2\<rparr>)" "texts o2"
    using legacy_prints_ok by blast
  show ?thesis
    using o1 o2 by (intro exI [of _ "o1 @ o2"])
      (simp add: relocate_stub_inner_def uart1_write32_def uart1_write_bytes_tx texts_append
        del: command_code.simps legacy_prints.simps)
qed

text \<open>A program that starts below the end of the boot loader.\<close>

lemma relocated_download:
  assumes "crc_stream (legacy_crc env)" and "uart_rx m = legacy_host_bytes addr crc data @ rest"
    and "addr < legacy_self_end env"
    and "max (unat addr + length data) (unat (legacy_self_end env)) + length data < 2 ^ 32"
  defines "l \<equiv> legacy_calculate addr (of_nat (length data)) (legacy_self_end env)"
  shows "\<exists>m1 t1 t2. uart_rx m1 = rest \<and> texts t1 \<and> texts t2 \<and>
    (let out = t1 @ u32_to_le_bytes (command_code GetCode) @ u32_to_le_bytes crc @ t2 in
     if crc = crc_hash (legacy_crc env) data
     then perform_download env m = Some (m1, LegacyJump
         \<lparr>r0_dst = addr, r1_src = relocate_prog_to l, r2_len = relocate_prog_len l,
          r3_entry = addr, stub_dst = relocate_stub_to l\<rparr>)
       \<and> ram m1 = mem_write (mem_write (ram m) (relocate_prog_to l) data) (relocate_stub_to l) (legacy_stub_code env)
       \<and> uart_tx m1 = uart_tx m @ out @ u32_to_le_bytes (command_code BootSuccess)
     else perform_download env m = Some (m1, LegacyReturned)
       \<and> uart_tx m1 = uart_tx m @ out @ u32_to_le_bytes (command_code BootError))"
proof -
  have len: "unat addr + length data < 2 ^ 32"
    using assms(4) by auto
  note c = legacy_calculate_relocated [OF assms(3) len, folded l_def]
  have to: "unat (relocate_prog_to l) + length data < 2 ^ 32" "unat (relocate_prog_len l) \<le> length data"
    using assms(4) c(3,4) by simp_all
  let ?out = "\<lambda>t1 t2. t1 @ u32_to_le_bytes (command_code GetCode) @ u32_to_le_bytes crc @ t2"
  obtain t1 t2 where t: "texts t1" "texts t2" and p: "perform_download env m =
    (let m1 = m\<lparr>uart_rx := rest, ram := mem_write (ram m) (relocate_prog_to l) data, uart_tx := uart_tx m @ ?out t1 t2\<rparr> in
     if crc_hash (legacy_crc env) data \<noteq> crc
     then Some (uart1_write32 m1 (command_code BootError), LegacyReturned)
     else relocate_stub_inner env
         \<lparr>r0_dst = relocate_prog_from l, r1_src = relocate_prog_to l, r2_len = relocate_prog_len l,
          r3_entry = addr, stub_dst = relocate_stub_to l\<rparr> m1)"
    using perform_download_received [OF assms(2) meta_eq_to_obj_eq [OF l_def], where g = "\<lambda>r. mem_write r (relocate_prog_to l) data",
        OF receive_program_relocated [OF assms(1) _ c(1) to(2,1)]] by blast
  show ?thesis
  proof (cases "crc = crc_hash (legacy_crc env) data")
    case True
    let ?call = "\<lparr>r0_dst = addr, r1_src = relocate_prog_to l, r2_len = relocate_prog_len l,
          r3_entry = addr, stub_dst = relocate_stub_to l\<rparr>"
    let ?m = "m\<lparr>uart_rx := rest, ram := mem_write (ram m) (relocate_prog_to l) data, uart_tx := uart_tx m @ ?out t1 t2\<rparr>"
    obtain o2 where o2: "texts o2" "relocate_stub_inner env ?call ?m =
        Some (?m\<lparr>ram := mem_write (ram ?m) (stub_dst ?call) (legacy_stub_code env),
          uart_tx := uart_tx ?m @ o2 @ u32_to_le_bytes (command_code BootSuccess)\<rparr>, LegacyJump ?call)"
      using relocate_stub_inner_jumps by blast
    show ?thesis
      by (rule exI [of _ "?m\<lparr>ram := mem_write (ram ?m) (stub_dst ?call) (legacy_stub_code env),
          uart_tx := uart_tx ?m @ o2 @ u32_to_le_bytes (command_code BootSuccess)\<rparr>"], rule exI [of _ t1],
          rule exI [of _ "t2 @ o2"]) (use True p c(2) t o2 in \<open>simp add: Let_def texts_append\<close>)
  next
    case False
    show ?thesis
      by (rule exI [of _ "m\<lparr>uart_rx := rest, ram := mem_write (ram m) (relocate_prog_to l) data,
          uart_tx := uart_tx m @ ?out t1 t2 @ u32_to_le_bytes (command_code BootError)\<rparr>"],
          rule exI [of _ t1], rule exI [of _ t2])
         (use p t False in \<open>simp add: Let_def uart1_write32_def uart1_write_bytes_tx\<close>)
  qed
qed

lemma relocated_boots:
  assumes "crc_stream (legacy_crc env)" and "uart_rx m = legacy_host_bytes addr crc data @ rest"
    and "addr < legacy_self_end env" and "unat addr + length data \<le> unat (legacy_self_end env)"
    and "unat (legacy_self_end env) + length data + length (legacy_stub_code env) < 2 ^ 32"
    and "4 dvd length data"
  shows "\<exists>m1 outcome t1 t2. perform_download env m = Some (m1, outcome) \<and> uart_rx m1 = rest \<and> texts t1 \<and> texts t2 \<and>
    (let out = t1 @ u32_to_le_bytes (command_code GetCode) @ u32_to_le_bytes crc @ t2 in
     if crc = crc_hash (legacy_crc env) data
     then uart_tx m1 = uart_tx m @ out @ u32_to_le_bytes (command_code BootSuccess)
       \<and> (\<exists>call m2. outcome = LegacyJump call
         \<and> stub_copy (unat (r2_len call)) (ram m1) (r0_dst call) (r1_src call) (r2_len call) = Some m2
         \<and> mem_read m2 addr (length data) = data \<and> r3_entry call = addr)
     else uart_tx m1 = uart_tx m @ out @ u32_to_le_bytes (command_code BootError)
       \<and> outcome = LegacyReturned)"
proof -
  define l where "l = legacy_calculate addr (of_nat (length data)) (legacy_self_end env)"
  let ?to = "relocate_prog_to l" and ?n = "relocate_prog_len l" and ?stub = "relocate_stub_to l"
  have fits: "max (unat addr + length data) (unat (legacy_self_end env)) + length data < 2 ^ 32"
    using assms(4,5) by simp
  have small: "unat addr + length data < 2 ^ 32"
    using assms(4,5) by simp
  note c = legacy_calculate_relocated [OF assms(3) small, folded l_def]
  have n: "unat ?n = length data" "unat ?to = unat (legacy_self_end env)"
    using c(3,4) assms(4) by simp_all
  have stub: "unat ?stub = unat ?to + length data"
    using c(5) n assms(5) by (simp add: unat_add_lem [THEN iffD1])
  obtain m1 t1 t2 where d: "uart_rx m1 = rest" "texts t1" "texts t2"
    "let out = t1 @ u32_to_le_bytes (command_code GetCode) @ u32_to_le_bytes crc @ t2 in if crc = crc_hash (legacy_crc env) data
     then perform_download env m = Some (m1, LegacyJump
         \<lparr>r0_dst = addr, r1_src = ?to, r2_len = ?n, r3_entry = addr, stub_dst = ?stub\<rparr>)
       \<and> ram m1 = mem_write (mem_write (ram m) ?to data) ?stub (legacy_stub_code env)
       \<and> uart_tx m1 = uart_tx m @ out @ u32_to_le_bytes (command_code BootSuccess)
     else perform_download env m = Some (m1, LegacyReturned)
       \<and> uart_tx m1 = uart_tx m @ out @ u32_to_le_bytes (command_code BootError)"
    using relocated_download [OF assms(1-3) fits] unfolding l_def by blast
  let ?ram = "mem_write (mem_write (ram m) ?to data) ?stub (legacy_stub_code env)"
  have "mem_read ?ram ?to (length data) = mem_read (mem_write (ram m) ?to data) ?to (length data)"
    using n stub assms(5) by (intro mem_read_write_disjoint) simp_all
  also have "\<dots> = data"
    using n assms(5) by (intro mem_read_write_same) simp
  finally have "stub_copy (unat ?n) ?ram addr ?to ?n = Some (mem_write ?ram addr data)"
    using stub_copy_copies [of ?n "unat ?n" addr ?to ?ram] n assms(4-6) by simp
  moreover have "mem_read (mem_write ?ram addr data) addr (length data) = data"
    using small by (intro mem_read_write_same) simp
  ultimately show ?thesis
    using d by (cases "crc = crc_hash (legacy_crc env) data") (auto simp: Let_def simp del: command_code.simps)
qed

section \<open>Properties\<close>


definition demo_legacy :: "u32 legacy_env" where
  "demo_legacy = \<lparr>legacy_crc = crc32_ops, fmt_legacy = (\<lambda>_. []), legacy_self_end = 0x9000,
     legacy_stub_code = [0xaa, 0xbb]\<rparr>"

definition demo_uart :: "u32 \<Rightarrow> machine" where
  "demo_uart crc = \<lparr>ram = (\<lambda>_. 0), uart_rx = legacy_host_bytes 0x8000 crc [1, 2, 3, 4], uart_tx = [],
     uart_baud = 270\<rparr>"


text \<open>
  A longer legacy program is not put together: when the program starts below the end of the
  boot loader and reaches beyond it, the part that should stay where it is is written behind the
  side buffer instead, verification hashes it there and succeeds, and after the stub has run the
  memory from the end of the boot loader on is what it was before the download.
\<close>

lemma legacy_long_program_is_lost:
  assumes "crc_stream (legacy_crc env)"
    and "uart_rx m = legacy_host_bytes addr (crc_hash (legacy_crc env) data) data @ rest"
    and "addr < legacy_self_end env" and "unat (legacy_self_end env) < unat addr + length data"
    and "unat addr + length data + length data + length (legacy_stub_code env) < 2 ^ 32"
    and "4 dvd unat (legacy_self_end env) - unat addr"
  shows "\<exists>m1 call m2. perform_download env m = Some (m1, LegacyJump call)
    \<and> stub_copy (unat (r2_len call)) (ram m1) (r0_dst call) (r1_src call) (r2_len call) = Some m2
    \<and> (let n = unat addr + length data - unat (legacy_self_end env) in
       mem_read m2 (legacy_self_end env) n = mem_read (ram m) (legacy_self_end env) n)"
proof -
  define l where "l = legacy_calculate addr (of_nat (length data)) (legacy_self_end env)"
  let ?to = "relocate_prog_to l" and ?n = "relocate_prog_len l" and ?stub = "relocate_stub_to l"
  let ?fin = "legacy_self_end env"
  let ?ram = "mem_write (mem_write (ram m) ?to data) ?stub (legacy_stub_code env)"
  let ?lost = "unat addr + length data - unat ?fin"
  have fits: "max (unat addr + length data) (unat ?fin) + length data < 2 ^ 32"
    "unat addr + length data < 2 ^ 32"
    using assms(4,5) by simp_all
  note c = legacy_calculate_relocated [OF assms(3) fits(2), folded l_def]
  have n: "unat ?n = unat ?fin - unat addr" "unat ?to = unat addr + length data"
    using c(3,4) assms(4) by simp_all
  have lt: "unat addr < unat ?fin"
    using assms(3) by (simp add: word_less_nat_alt)
  have stub: "unat ?stub = unat ?to + unat ?n"
    unfolding c(5) using n assms(4,5) by (subst unat_add_lem [symmetric]) simp
  obtain m1 where d: "perform_download env m = Some (m1, LegacyJump
      \<lparr>r0_dst = addr, r1_src = ?to, r2_len = ?n, r3_entry = addr, stub_dst = ?stub\<rparr>)" "ram m1 = ?ram"
    using relocated_download [OF assms(1-3) fits(1)] unfolding l_def by auto
  let ?m2 = "mem_write ?ram addr (mem_read ?ram ?to (unat ?n))"
  have copy: "stub_copy (unat ?n) ?ram addr ?to ?n = Some ?m2"
    by (rule stub_copy_copies) (use n lt assms(4-6) in auto)
  have "mem_read ?m2 ?fin ?lost = mem_read ?ram ?fin ?lost"
    by (rule mem_read_write_disjoint) (use n lt assms(4,5) in auto)
  also have "\<dots> = mem_read (mem_write (ram m) ?to data) ?fin ?lost"
    by (rule mem_read_write_disjoint) (use n lt stub assms(4,5) in auto)
  also have "\<dots> = mem_read (ram m) ?fin ?lost"
    by (rule mem_read_write_disjoint) (use n lt assms(4,5) in auto)
  finally show ?thesis
    using d copy by (auto simp: Let_def)
qed

definition long_legacy :: "u32 legacy_env" where
  "long_legacy = demo_legacy\<lparr>legacy_self_end := 0x8004\<rparr>"

definition long_uart :: machine where
  "long_uart = \<lparr>ram = (\<lambda>_. 0),
     uart_rx = legacy_host_bytes 0x8000 (crc_hash crc32_ops [1, 2, 3, 4, 5, 6, 7, 8]) [1, 2, 3, 4, 5, 6, 7, 8],
     uart_tx = [], uart_baud = 270\<rparr>"

theorem legacy_long_program_is_lost_witness:
  "\<exists>m1 call m2. perform_download long_legacy long_uart = Some (m1, LegacyJump call)
    \<and> stub_copy (unat (r2_len call)) (ram m1) (r0_dst call) (r1_src call) (r2_len call) = Some m2
    \<and> mem_read m2 0x8004 4 = mem_read (\<lambda>_. 0) 0x8004 4"
proof -
  let ?data = "[1, 2, 3, 4, 5, 6, 7, 8 :: u8]"
  have env: "legacy_crc long_legacy = crc32_ops" "legacy_self_end long_legacy = 0x8004"
    "length (legacy_stub_code long_legacy) = 2"
    by (simp_all add: long_legacy_def demo_legacy_def)
  have rx: "uart_rx long_uart = legacy_host_bytes 0x8000 (crc_hash (legacy_crc long_legacy) ?data) ?data @ []"
    by (simp add: long_uart_def env(1))
  have "length ?data = 8" "ram long_uart = (\<lambda>_. 0)"
    by (simp_all add: long_uart_def)
  then show ?thesis
    using legacy_long_program_is_lost [OF _ rx, unfolded env] crc32.crc_stream_axioms
    by (simp add: Let_def)
qed

text \<open>
  The matcher for \<open>PUT_CODE\<close> finds the command directly behind what the host has sent, but it
  loses the beginning of a command that follows a stray byte of the same value.
\<close>

lemma put_code_matcher:
  "wait_put_code CLR (u32_to_le_bytes (command_code PutCode) @ rest) = Some rest
   \<and> wait_put_code CLR (0x88 # u32_to_le_bytes (command_code PutCode)) = None"
proof
  show "wait_put_code CLR (u32_to_le_bytes (command_code PutCode) @ rest) = Some rest"
    by (rule wait_put_code_command)
  have "u32_to_le_bytes (command_code PutCode) = [0x88, 0x88, 0x77, 0x77]"
    by (simp add: u32_to_le_bytes_def)
  then show "wait_put_code CLR (0x88 # u32_to_le_bytes (command_code PutCode)) = None"
    by (simp add: put_code_step_def Let_def)
qed

end
