(* ===== verification/Device_Run.thy ===== *)
theory Device_Run
  imports V2_Correct Legacy
begin

text \<open>
  The main loop of the boot loader (\<open>device/okboot/src/protocol.rs\<close>, \<open>run\<close>) and the handshake
  that precedes a download (\<open>protocol/handshake.rs\<close>). One iteration of the loop is a function of
  the state and of what the hardware shows in that iteration: the status bits and data byte of the
  UART, and the timer, which is read at several places; every place is a value of \<open>tick\<close>.
\<close>

section \<open>Clock of the UART\<close>

definition MINI_UART_CLOCK_RATE :: u32 where "MINI_UART_CLOCK_RATE = 250000000"

definition baud_to_clock_divider :: "u32 \<Rightarrow> u16 option" where
  "baud_to_clock_divider bd =
    (if 8 * bd = 0 then None else Some (ucast (MINI_UART_CLOCK_RATE div (8 * bd) - 1)))"

text \<open>\<open>readback\<close> is what the divider register holds after a value is written to it.\<close>

definition mini_uart1_set_clock :: "(u16 \<Rightarrow> u16) \<Rightarrow> machine \<Rightarrow> u16 \<Rightarrow> machine \<times> bool" where
  "mini_uart1_set_clock readback m new_divider =
    (let old_clock_divider = uart_baud m;
         m = m\<lparr>uart_baud := readback new_divider\<rparr>;
         succeeded = (uart_baud m = new_divider);
         m = (if succeeded then m else m\<lparr>uart_baud := readback old_clock_divider\<rparr>)
     in (m, succeeded))"

section \<open>Protocols\<close>

definition SUPPORTED_PROTOCOL_VERSIONS :: "u32 list" where
  "SUPPORTED_PROTOCOL_VERSIONS = [supported_protocol_code ProtoV2]"

datatype Expecting = ExpectProbe | ExpectVersion

record Handshake =
  expecting :: Expecting

definition handshake_default :: Handshake where
  "handshake_default = \<lparr>expecting = ExpectProbe\<rparr>"

datatype 'i ProtocolEnum = HandshakeP Handshake | V2P "'i V2"

text \<open>The texts printed in the legacy format, with what they print.\<close>

datatype RunLog =
    LogProbeUnexpected | LogProbeReceived | LogAllowedVersionsFailed "string SendError"
  | LogAllowedVersionsSent | LogUseVersionUnexpected | LogUseVersionReceived
  | LogUseVersionMalformed string | LogVersionUnsupported u32 | LogSettingBaud u32 u16
  | LogBaudFailed | LogBaudSet u32 u32 u16 | LogHandshakeUnexpected MessageType
  | LogStarting | LogTimeoutConfiguration Timeouts | LogLegacyPrintString
  | LogReceiveError ReceiveError | LogSessionExpired duration

text \<open>
  What the loop needs from elsewhere: the parameters of the download protocols, the formatter of
  the legacy texts and of the line printed at the new rate, and the divider register.
\<close>

record ('h, 'i) run_env =
  v2env :: "('h, 'i) env"
  legacyenv :: "'h legacy_env"
  fmt_run :: "RunLog \<Rightarrow> u8 list list"
  fmt_transitioned :: "u32 \<Rightarrow> u8 list list"
  fmt_sp :: "u8 list list list"
  baud_readback :: "u16 \<Rightarrow> u16"

definition print_run :: "('h, 'i) run_env \<Rightarrow> RunLog \<Rightarrow> device \<Rightarrow> device option" where
  "print_run env log dev = do {
     fs \<leftarrow> legacy_println (sink dev) (fmt_run env log);
     Some (dev\<lparr>sink := fs\<rparr>)
   }"

section \<open>Handshake\<close>

definition handshake_probe ::
  "('h, 'i) run_env \<Rightarrow> Handshake \<Rightarrow> device \<Rightarrow> (Handshake \<times> device \<times> 'p ProtocolStatus) option" where
  "handshake_probe env self dev =
    (if expecting self \<noteq> ExpectProbe then do {
       dev \<leftarrow> print_run env LogProbeUnexpected dev;
       Some (self, dev, Abcon)
     } else do {
       dev \<leftarrow> print_run env LogProbeReceived dev;
       let self = self\<lparr>expecting := ExpectVersion\<rparr>;
       (fs, r) \<leftarrow> sink_send (crc_pkg (v2env env)) (ser_allowed_versions (v2env env)) AllowedVersions
         (sink dev) (allowed_versions_new SUPPORTED_PROTOCOL_VERSIONS);
       let dev = dev\<lparr>sink := fs\<rparr>;
       (case r of
          Inl e \<Rightarrow> do {
            dev \<leftarrow> print_run env (LogAllowedVersionsFailed e) dev;
            Some (self, dev, Abcon)
          }
        | Inr _ \<Rightarrow> do {
            dev \<leftarrow> print_run env LogAllowedVersionsSent dev;
            Some (self, dev, Continue)
          })
     })"

text \<open>\<open>now\<close> is the timer after the delay of 50 ms, when the new protocol is created.\<close>

definition switch_to_v2 ::
  "('h, 'i) run_env \<Rightarrow> u32 \<Rightarrow> SupportedProtocol \<Rightarrow> u64 \<Rightarrow> device
    \<Rightarrow> (device \<times> 'i ProtocolEnum ProtocolStatus) option" where
  "switch_to_v2 env ver protocol_version now dev = do {
     let new_baud_rate = baud_rate protocol_version;
     new_clock_divider \<leftarrow> baud_to_clock_divider new_baud_rate;
     dev \<leftarrow> print_run env (LogSettingBaud new_baud_rate new_clock_divider) dev;
     dev \<leftarrow> flush_to_fifo dev;
     let (m, succeeded) = mini_uart1_set_clock (baud_readback env) (mach dev) new_clock_divider;
     let dev = dev\<lparr>mach := m\<rparr>;
     if \<not> succeeded then do {
       dev \<leftarrow> print_run env LogBaudFailed dev;
       Some (dev, Abend)
     } else do {
       dev \<leftarrow> print_run env (LogBaudSet ver new_baud_rate new_clock_divider) dev;
       fs \<leftarrow> rpc_println (crc_pkg (v2env env)) (sink dev) (fmt_transitioned env ver);
       v2 \<leftarrow> v2_new (v2env env) now new_baud_rate;
       Some (dev\<lparr>sink := fs\<rparr>, Switch (V2P v2))
     }
   }"

definition handshake_use_version ::
  "('h, 'i) run_env \<Rightarrow> Handshake \<Rightarrow> u8 list \<Rightarrow> u64 \<Rightarrow> device
    \<Rightarrow> (device \<times> 'i ProtocolEnum ProtocolStatus) option" where
  "handshake_use_version env self payload now dev =
    (if expecting self \<noteq> ExpectVersion then do {
       dev \<leftarrow> print_run env LogUseVersionUnexpected dev;
       Some (dev, Abend)
     } else do {
       dev \<leftarrow> print_run env LogUseVersionReceived dev;
       (case de_use_version (v2env env) payload of
          Inl e \<Rightarrow> do {
            dev \<leftarrow> print_run env (LogUseVersionMalformed e) dev;
            Some (dev, Abend)
          }
        | Inr use_version \<Rightarrow>
            (case supported_protocol_try_from (version use_version) of
               Inl _ \<Rightarrow> do {
                 dev \<leftarrow> print_run env (LogVersionUnsupported (version use_version)) dev;
                 Some (dev, Abend)
               }
             | Inr protocol_version \<Rightarrow>
                 switch_to_v2 env (version use_version) protocol_version now dev))
     })"

definition handshake_handle_packet ::
  "('h, 'i) run_env \<Rightarrow> Handshake \<Rightarrow> FrameHeader \<Rightarrow> u8 list \<Rightarrow> u64 \<Rightarrow> device
    \<Rightarrow> (Handshake \<times> device \<times> 'i ProtocolEnum ProtocolStatus) option" where
  "handshake_handle_packet env self frame_header payload now dev =
    (case message_type frame_header of
       Probe \<Rightarrow> handshake_probe env self dev
     | UseVersion \<Rightarrow> do {
         (dev, status) \<leftarrow> handshake_use_version env self payload now dev;
         Some (self, dev, status)
       }
     | w \<Rightarrow> do {
         dev \<leftarrow> print_run env (LogHandshakeUnexpected w) dev;
         Some (self, dev, Abend)
       })"

section \<open>Dispatch\<close>

definition protocol_handle_packet ::
  "('h, 'i) run_env \<Rightarrow> 'i ProtocolEnum \<Rightarrow> FrameHeader \<Rightarrow> u8 list \<Rightarrow> u64 \<Rightarrow> device
    \<Rightarrow> ('i ProtocolEnum \<times> device \<times> 'i ProtocolEnum outcome) option" where
  "protocol_handle_packet env p frame_header payload now dev =
    (case p of
       HandshakeP h \<Rightarrow> do {
         (h, dev, status) \<leftarrow> handshake_handle_packet env h frame_header payload now dev;
         Some (HandshakeP h, dev, Status status)
       }
     | V2P v \<Rightarrow> do {
         (v, dev, out) \<leftarrow> v2_handle_packet (v2env env) v frame_header payload dev;
         Some (V2P v, dev, out)
       })"

definition protocol_heartbeat ::
  "('h, 'i) run_env \<Rightarrow> 'i ProtocolEnum \<Rightarrow> u64 \<Rightarrow> u64 \<Rightarrow> device
    \<Rightarrow> ('i ProtocolEnum \<times> device \<times> 'i ProtocolEnum ProtocolStatus) option" where
  "protocol_heartbeat env p now now' dev =
    (case p of
       HandshakeP h \<Rightarrow> Some (HandshakeP h, dev, Continue)
     | V2P v \<Rightarrow> do {
         (v, dev, status) \<leftarrow> v2_heartbeat (v2env env) v now now' dev;
         Some (V2P v, dev, status)
       })"

section \<open>The loop\<close>

datatype ReceiveState = Waiting bool | ErrorState instant "ReceiveError option"

record ('h, 'i) run_state =
  rs_dev :: device
  rx_buffer :: ReceiveBuffer
  decoder :: "'h FrameLayer"
  last_byte_received :: instant
  last_packet_received :: instant
  recv_state :: ReceiveState
  last_sent_at :: instant
  protocol :: "'i ProtocolEnum"
  frame_header :: "FrameHeader option"

text \<open>The places where an iteration reads the timer.\<close>

datatype tick = AtOverrun | AtGpiElapsed | AtGpiSent | AtBeat | AtBeatSent | AtReceiveError
  | AtNewProtocol | AtProtocolError | AtPacket | AtRecovery | AtPacketElapsed | AtByteElapsed
  | AtExpired | AtByteTimeout | AtByteReceived

record iteration =
  rx_byte :: "u8 option"
  can_write :: bool
  is_overrun :: bool
  clock :: "tick \<Rightarrow> u64"

datatype step_result = Looping | ReturnedFromRun | Jumped jump | LegacyJumped stub_call

text \<open>\<open>GetProgInfoSender::tick\<close>.\<close>

definition gpi_tick :: "u64 \<Rightarrow> u64 \<Rightarrow> instant \<Rightarrow> FrameSink \<Rightarrow> (instant \<times> FrameSink \<times> bool) option" where
  "gpi_tick now now' last_sent fs =
    (if elapsed last_sent now \<ge> GET_PROG_INFO_INTERVAL \<and> tb_is_empty (transmit_buffer fs) then do {
       (tb, _) \<leftarrow> extend_from_slice (transmit_buffer fs) [0x22, 0x22, 0x11, 0x11];
       Some (now', fs\<lparr>transmit_buffer := tb\<rparr>, True)
     } else Some (last_sent, fs, False))"

definition shift_out :: "bool \<Rightarrow> device \<Rightarrow> device option" where
  "shift_out tx_empty dev =
    (if tx_empty then do {
       (tb, ob) \<leftarrow> shift_byte (transmit_buffer (sink dev));
       let dev = dev\<lparr>sink := (sink dev)\<lparr>transmit_buffer := tb\<rparr>\<rparr>;
       Some (case ob of
               Some b \<Rightarrow> dev\<lparr>mach := uart1_write8 (mach dev) b\<rparr>
             | None \<Rightarrow> dev)
     } else Some dev)"

text \<open>A complete frame: its payload is handled, and then the receive buffer is cleared.\<close>

definition on_finished ::
  "('h, 'i) run_env \<Rightarrow> iteration \<Rightarrow> ('h, 'i) run_state \<Rightarrow> (('h, 'i) run_state \<times> step_result) option" where
  "on_finished env it st = do {
     hdr \<leftarrow> frame_header st;
     (rb, payload) \<leftarrow> rb_finalize (rx_buffer st);
     let dec = frame_reset (crc_pkg (v2env env)) (decoder st);
     (p, dev, out) \<leftarrow>
       protocol_handle_packet env (protocol st) hdr payload (clock it AtNewProtocol) (rs_dev st);
     let st = st\<lparr>frame_header := None, rx_buffer := rb, decoder := dec, protocol := p, rs_dev := dev\<rparr>;
     (case out of
        Entered j \<Rightarrow> Some (st, Jumped j)
      | Status status \<Rightarrow>
          let error = Some (ErrorState (clock it AtProtocolError) (Some ProtocolError));
              (p, res) =
                (case status of
                   Continue \<Rightarrow> (protocol st, None)
                 | Abcon \<Rightarrow> (protocol st, error)
                 | Abend \<Rightarrow> (HandshakeP handshake_default, error)
                 | Switch pe \<Rightarrow> (pe, None))
          in Some (st\<lparr>protocol := p, rx_buffer := rb_clear (rx_buffer st),
               last_packet_received := clock it AtPacket,
               recv_state := (case res of Some r \<Rightarrow> r | None \<Rightarrow> Waiting False)\<rparr>, Looping))
   }"

definition on_legacy ::
  "('h, 'i) run_env \<Rightarrow> ('h, 'i) run_state \<Rightarrow> (('h, 'i) run_state \<times> step_result) option" where
  "on_legacy env st = do {
     let st = st\<lparr>decoder := frame_reset (crc_pkg (v2env env)) (decoder st)\<rparr>;
     (m, out) \<leftarrow> perform_download (legacyenv env) (mach (rs_dev st));
     let st = st\<lparr>rs_dev := (rs_dev st)\<lparr>mach := m\<rparr>\<rparr>;
     Some (st, case out of LegacyReturned \<Rightarrow> ReturnedFromRun | LegacyJump c \<Rightarrow> LegacyJumped c)
   }"

definition on_byte ::
  "('h, 'i) run_env \<Rightarrow> iteration \<Rightarrow> u8 \<Rightarrow> ('h, 'i) run_state
    \<Rightarrow> (('h, 'i) run_state \<times> step_result) option" where
  "on_byte env it b st = do {
     let ops = crc_pkg (v2env env);
     (dec, r) \<leftarrow> feed ops (decoder st) b;
     let st = st\<lparr>decoder := dec\<rparr>;
     (case r of
        Inr FoSkip \<Rightarrow> Some (st\<lparr>recv_state := Waiting False\<rparr>, Looping)
      | Inr (FoHeader hdr) \<Rightarrow>
          Some (st\<lparr>frame_header := Some hdr, recv_state := Waiting False\<rparr>, Looping)
      | Inr (FoPayload p) \<Rightarrow> do {
          (rb, r) \<leftarrow> rb_push_u8 (rx_buffer st) p;
          Some (st\<lparr>rx_buffer := rb,
            recv_state := (case r of
              Inr _ \<Rightarrow> Waiting False
            | Inl e \<Rightarrow> ErrorState (clock it AtReceiveError) (Some e))\<rparr>, Looping)
        }
      | Inr FoFinished \<Rightarrow> on_finished env it st
      | Inr FoLegacy \<Rightarrow> on_legacy env st
      | Inr (FoLegacyPrintStringByte _ _) \<Rightarrow> do {
          dev \<leftarrow> print_run env LogLegacyPrintString (rs_dev st);
          Some (st\<lparr>decoder := frame_reset ops dec, rs_dev := dev,
            recv_state := ErrorState (clock it AtReceiveError) (Some ProtocolError)\<rparr>, Looping)
        }
      | Inl e \<Rightarrow>
          Some (st\<lparr>decoder := frame_reset ops dec,
            recv_state := ErrorState (clock it AtReceiveError) (Some (Decode e))\<rparr>, Looping))
   }"

definition on_error ::
  "('h, 'i) run_env \<Rightarrow> iteration \<Rightarrow> instant \<Rightarrow> ReceiveError option \<Rightarrow> ('h, 'i) run_state
    \<Rightarrow> ('h, 'i) run_state option" where
  "on_error env it at_instant receive_error st = do {
     d \<leftarrow> (case receive_error of
             Some e \<Rightarrow> print_run env (LogReceiveError e) (rs_dev st)
           | None \<Rightarrow> Some (rs_dev st));
     Some (st\<lparr>rs_dev := d,
       recv_state := (if elapsed at_instant (clock it AtRecovery) < error_recovery (timeouts d)
         then ErrorState at_instant None else Waiting False)\<rparr>)
   }"

definition on_idle ::
  "('h, 'i) run_env \<Rightarrow> iteration \<Rightarrow> bool \<Rightarrow> ('h, 'i) run_state \<Rightarrow> ('h, 'i) run_state option" where
  "on_idle env it initial st =
    (let d = rs_dev st;
         packet_elapsed = elapsed (last_packet_received st) (clock it AtPacketElapsed);
         byte_elapsed = elapsed (last_byte_received st) (clock it AtByteElapsed);
         session_timeout =
           (case override_session_timeout (timeouts d) of
              Some t \<Rightarrow> t
            | None \<Rightarrow> session_expires (timeouts d))
     in if packet_elapsed \<ge> session_timeout \<and> \<not> initial \<and> byte_elapsed \<ge> byte_read (timeouts d) then do {
          d \<leftarrow> print_run env (LogSessionExpired packet_elapsed) d;
          d \<leftarrow> flush_to_fifo d;
          ts \<leftarrow> timeouts_new_8n1 INITIAL_BAUD_RATE;
          Some (st\<lparr>last_packet_received := clock it AtExpired, rs_dev := d\<lparr>timeouts := ts\<rparr>,
            protocol := HandshakeP handshake_default, recv_state := Waiting True\<rparr>)
        }
        else if byte_elapsed \<ge> byte_read (timeouts d) \<and> \<not> initial then
          Some (st\<lparr>last_byte_received := clock it AtByteTimeout, recv_state := Waiting False\<rparr>)
        else Some (st\<lparr>recv_state := Waiting initial\<rparr>))"

text \<open>
  One iteration. The status of the heartbeat is not looked at. A byte that arrives in the error
  state is read and dropped.
\<close>

definition run_step ::
  "('h, 'i) run_env \<Rightarrow> iteration \<Rightarrow> ('h, 'i) run_state \<Rightarrow> (('h, 'i) run_state \<times> step_result) option" where
  "run_step env it st = do {
     d \<leftarrow> shift_out (can_write it) (rs_dev st);
     let st = st\<lparr>rs_dev := d\<rparr>;
     let st = (if is_overrun it
       then st\<lparr>recv_state := ErrorState (clock it AtOverrun) (Some FifoOverrun)\<rparr> else st);
     st \<leftarrow> (if recv_state st = Waiting True then do {
        (sent, fs, _) \<leftarrow> gpi_tick (clock it AtGpiElapsed) (clock it AtGpiSent) (last_sent_at st) (sink (rs_dev st));
        Some (st\<lparr>last_sent_at := sent, rs_dev := (rs_dev st)\<lparr>sink := fs\<rparr>\<rparr>)
      } else Some st);
     (p, d, _) \<leftarrow> protocol_heartbeat env (protocol st) (clock it AtBeat) (clock it AtBeatSent) (rs_dev st);
     let st = st\<lparr>protocol := p, rs_dev := d\<rparr>;
     (st, res) \<leftarrow>
       (case (rx_byte it, recv_state st) of
          (Some b, Waiting _) \<Rightarrow> on_byte env it b st
        | (_, ErrorState at_instant receive_error) \<Rightarrow> do {
            st \<leftarrow> on_error env it at_instant receive_error st;
            Some (st, Looping)
          }
        | (None, Waiting initial) \<Rightarrow> do {
            st \<leftarrow> on_idle env it initial st;
            Some (st, Looping)
          });
     if res \<noteq> Looping then Some (st, res)
     else Some (if rx_byte it \<noteq> None then st\<lparr>last_byte_received := clock it AtByteReceived\<rparr> else st, res)
   }"

text \<open>What runs before the loop; the buffers are the static ones, and the timer is read four times.\<close>

definition COBS_ENCODE_BUFFER_SIZE :: nat where "COBS_ENCODE_BUFFER_SIZE = 255"

record AllocatedBuffers =
  ab_receive :: "u8 list"
  ab_transmit :: "u8 list"
  ab_staging :: "u8 list"
  ab_cobs_encode :: "u8 list"
  ab_inflate :: "u8 list"

definition static_buffers :: "nat \<Rightarrow> nat \<Rightarrow> nat \<Rightarrow> nat \<Rightarrow> AllocatedBuffers" where
  "static_buffers tx rx px ix =
    \<lparr>ab_receive = replicate rx 0, ab_transmit = replicate tx 0, ab_staging = replicate px 0,
     ab_cobs_encode = replicate COBS_ENCODE_BUFFER_SIZE 0, ab_inflate = replicate ix 0\<rparr>"

definition run_init ::
  "('h, 'i) run_env \<Rightarrow> AllocatedBuffers \<Rightarrow> u64 \<Rightarrow> u64 \<Rightarrow> u64 \<Rightarrow> machine \<Rightarrow> ('h, 'i) run_state option" where
  "run_init env bufs now_byte now_packet now_gpi m = do {
     m \<leftarrow> legacy_print_string_blocking m (fmt_sp env);
     let fs = sink_new (tb_new (ab_transmit bufs))
       \<lparr>be_buffer = ab_cobs_encode bufs, be_xor = COBS_XOR\<rparr> (ab_staging bufs);
     ts \<leftarrow> timeouts_new_8n1 INITIAL_BAUD_RATE;
     let d = \<lparr>sink = fs, timeouts = ts, mach = m, inflate_buffer = ab_inflate bufs\<rparr>;
     d \<leftarrow> print_run env LogStarting d;
     d \<leftarrow> flush_to_fifo d;
     d \<leftarrow> print_run env (LogTimeoutConfiguration ts) d;
     Some \<lparr>rs_dev = d, rx_buffer = rb_new (ab_receive bufs),
       decoder = frame_new (crc_pkg (v2env env)) COBS_XOR,
       last_byte_received = now_byte, last_packet_received = now_packet, recv_state = Waiting True,
       last_sent_at = now_gpi, protocol = HandshakeP handshake_default, frame_header = None\<rparr>
   }"

text \<open>Iterations one after the other, as long as the loop goes on.\<close>

fun run_steps ::
  "('h, 'i) run_env \<Rightarrow> iteration list \<Rightarrow> ('h, 'i) run_state \<Rightarrow> (('h, 'i) run_state \<times> step_result) option" where
  "run_steps env [] st = Some (st, Looping)"
| "run_steps env (it # its) st = do {
     (st, res) \<leftarrow> run_step env it st;
     if res = Looping then run_steps env its st else Some (st, res)
   }"

section \<open>Totality\<close>

lemma print_run_talks:
  assumes "dev_ok (v2env env) d"
  shows "\<exists>d'. print_run env log d = Some d' \<and> talked (v2env env) d d'"
proof -
  obtain fs where "legacy_println (sink d) (fmt_run env log) = Some fs" "sink_ok fs"
    using legacy_println_queued [of "sink d" "fmt_run env log"] assms
    by (auto simp: dev_ok_def sink_after_def)
  with assms show ?thesis
    by (simp add: print_run_def talked_def dev_ok_def)
qed

lemma talked_ok: "talked env d d' \<Longrightarrow> dev_ok env d'"
  by (simp add: talked_def)

text \<open>Serializers report no more bytes than the buffer has.\<close>

definition ser_ok :: "'m serializer \<Rightarrow> bool" where
  "ser_ok ser \<longleftrightarrow> (\<forall>msg px px' n. ser msg px = (px', Inr n) \<longrightarrow> n \<le> length px')"

definition env_ok :: "('h, 'i) env \<Rightarrow> bool" where
  "env_ok env \<longleftrightarrow> ser_ok (ser_metadata_req env) \<and> ser_ok (ser_metadata_ack env)
    \<and> ser_ok (ser_chunk_req env) \<and> ser_ok (ser_booting env) \<and> ser_ok (ser_allowed_versions env)"

lemma sink_send_total:
  assumes "sink_ok fs" and "crc_stream ops" and "ser_ok ser"
  shows "\<exists>fs' r. sink_send ops ser t fs msg = Some (fs', r) \<and> sink_ok fs'"
proof -
  obtain px where px: "postcard_buffer fs = Some px"
    using assms(1) by (auto simp: sink_ok_def)
  obtain px' r where r: "ser msg px = (px', r)"
    by fastforce
  show ?thesis
  proof (cases r)
    case (Inl e)
    then show ?thesis
      using send_serialize_error [OF assms(1,2) px, of ser msg px' e t] r by (auto simp: sink_after_def)
  next
    case (Inr n)
    then have "n \<le> length px'"
      using r assms(3) by (auto simp: ser_ok_def)
    then show ?thesis
      using send_ok [OF assms(1,2) px, of ser msg px' n t] r Inr by (auto simp: sink_after_def)
  qed
qed

lemma send_request_total:
  assumes "dev_ok env d" and "ser_ok ser"
  shows "\<exists>d' r. send_request env ser t failed msg d = Some (d', r) \<and> talked env d d'"
proof -
  obtain fs r where s: "sink_send (crc_pkg env) ser t (sink d) msg = Some (fs, r)" "sink_ok fs"
    using sink_send_total [of "sink d" "crc_pkg env" ser t msg] assms by (auto simp: dev_ok_def)
  have t: "talked env d (d\<lparr>sink := fs\<rparr>)" "dev_ok env (d\<lparr>sink := fs\<rparr>)"
    using s(2) assms(1) by (simp_all add: talked_def dev_ok_def)
  show ?thesis
  proof (cases r)
    case (Inl e)
    obtain d2 where "println env (failed e) (d\<lparr>sink := fs\<rparr>) = Some d2" "talked env (d\<lparr>sink := fs\<rparr>) d2"
      using println_talks [OF t(2)] by blast
    then show ?thesis
      using s(1) Inl t talked_trans [OF t(1)] by (cases e) (auto simp: send_request_def)
  qed (use s(1) t(1) in \<open>auto simp: send_request_def\<close>)
qed

lemma send_for_state_total:
  assumes "dev_ok env d" and "env_ok env"
  shows "\<exists>d' r. send_for_state env s d = Some (d', r) \<and> talked env d d'"
  using assms(2)
  by (cases s) (simp_all add: send_for_state_def send_metadata_request_def send_metadata_ack_def
      send_chunk_request_def send_boot_msg_def env_ok_def send_request_total [OF assms(1)] del: ex_simps)

text \<open>The heartbeat leaves everything of the download's state but the times of its requests.\<close>

definition same_v2 :: "'i V2 \<Rightarrow> 'i V2 \<Rightarrow> bool" where
  "same_v2 v v' \<longleftrightarrow> state v' = state v \<and> remainder v' = remainder v
    \<and> inflate_state v' = inflate_state v \<and> baud v' = baud v"

lemma v2_heartbeat_total:
  assumes "dev_ok env d" and "env_ok env"
  shows "\<exists>v' d' r. v2_heartbeat env v now now' d = Some (v', d', r) \<and> talked env d d'
    \<and> same_v2 v v'"
proof (cases "should_send v now")
  case True
  obtain d' r where "send_for_state env (state v) d = Some (d', r)" "talked env d d'"
    using send_for_state_total [OF assms] by blast
  with True show ?thesis
    by (cases r) (auto simp: v2_heartbeat_def same_v2_def)
next
  case False
  with assms(1) show ?thesis
    by (auto simp: v2_heartbeat_def talked_def same_v2_def)
qed

lemma mini_uart1_set_clock_keeps:
  "mini_uart1_set_clock rb m d = (m', ok) \<Longrightarrow> ram m' = ram m \<and> uart_rx m' = uart_rx m"
  by (auto simp: mini_uart1_set_clock_def Let_def split: if_splits)

lemma handshake_probe_total:
  assumes "dev_ok (v2env env) d" and "env_ok (v2env env)"
  shows "\<exists>h' d' s. handshake_probe env h d = Some (h', d', s) \<and> talked (v2env env) d d'
    \<and> (s = Continue \<or> s = Abcon)"
proof (cases "expecting h = ExpectProbe")
  case True
  obtain d1 where 1: "print_run env LogProbeReceived d = Some d1" "talked (v2env env) d d1"
    using print_run_talks [OF assms(1)] by blast
  note ok1 = talked_ok [OF 1(2)]
  obtain fs r where s: "sink_send (crc_pkg (v2env env)) (ser_allowed_versions (v2env env)) AllowedVersions
      (sink d1) (allowed_versions_new SUPPORTED_PROTOCOL_VERSIONS) = Some (fs, r)" "sink_ok fs"
    using sink_send_total [of "sink d1" "crc_pkg (v2env env)" "ser_allowed_versions (v2env env)"
        AllowedVersions "allowed_versions_new SUPPORTED_PROTOCOL_VERSIONS"] ok1 assms(2)
    by (auto simp: dev_ok_def env_ok_def)
  have t: "talked (v2env env) d1 (d1\<lparr>sink := fs\<rparr>)"
    using s(2) ok1 by (simp add: talked_def dev_ok_def)
  define l where "l = (case r of Inl e \<Rightarrow> LogAllowedVersionsFailed e | Inr _ \<Rightarrow> LogAllowedVersionsSent)"
  obtain d2 where 2: "print_run env l (d1\<lparr>sink := fs\<rparr>) = Some d2" "talked (v2env env) (d1\<lparr>sink := fs\<rparr>) d2"
    using print_run_talks [OF talked_ok [OF t]] by blast
  have "talked (v2env env) d d2"
    using 1(2) t 2(2) talked_trans by blast
  then show ?thesis
    using True 1(1) s(1) 2(1) by (cases r) (auto simp: handshake_probe_def l_def)
next
  case False
  with print_run_talks [OF assms(1), of LogProbeUnexpected] show ?thesis
    by (auto simp: handshake_probe_def)
qed

text \<open>The rate of the only supported version gives a divider, and timeouts.\<close>

lemma divider_v2: "baud_to_clock_divider (baud_rate ProtoV2) = Some 19"
  by (simp add: baud_to_clock_divider_def MINI_UART_CLOCK_RATE_def)

lemma v2_new_v2: "\<exists>v. v2_new env now (baud_rate ProtoV2) = Some v \<and> state v = RequestMetadata \<and> once v
    \<and> baud v = baud_rate ProtoV2 \<and> remainder v = 0 \<and> inflate_state v = inflate_new env"
  by (auto simp: v2_new_def v1_timeouts_new_8n1_def at_baud_8n1_def)

text \<open>What the machine may have changed in when the handshake is over.\<close>

definition shook :: "('h, 'i) run_env \<Rightarrow> device \<Rightarrow> device \<Rightarrow> bool" where
  "shook env d d' \<longleftrightarrow> dev_ok (v2env env) d' \<and> ram (mach d') = ram (mach d)
    \<and> timeouts d' = timeouts d \<and> inflate_buffer d' = inflate_buffer d"

lemma talked_shook: "talked (v2env env) d d' \<Longrightarrow> shook env d d'"
  by (simp add: talked_def shook_def)

lemma shook_trans: "shook env a b \<Longrightarrow> shook env b c \<Longrightarrow> shook env a c"
  by (simp add: shook_def)

lemma switch_to_v2_result:
  assumes "dev_ok (v2env env) d"
  shows "\<exists>d' s. switch_to_v2 env ver ProtoV2 now d = Some (d', s) \<and> shook env d d' \<and>
    (if baud_readback env 19 = 19
     then uart_baud (mach d') = 19 \<and> (\<exists>v. s = Switch (V2P v) \<and> state v = RequestMetadata \<and> once v
       \<and> baud v = baud_rate ProtoV2 \<and> remainder v = 0 \<and> inflate_state v = inflate_new (v2env env))
     else s = Abend)"
proof -
  let ?b = "baud_rate ProtoV2"
  obtain d1 where 1: "print_run env (LogSettingBaud ?b 19) d = Some d1" "talked (v2env env) d d1"
    using print_run_talks [OF assms] by blast
  obtain d2 where 2: "flush_to_fifo d1 = Some d2" "talked (v2env env) d1 d2"
    using flush_talks [OF talked_ok [OF 1(2)]] by blast
  obtain m ok where m: "mini_uart1_set_clock (baud_readback env) (mach d2) 19 = (m, ok)"
    by fastforce
  let ?d3 = "d2\<lparr>mach := m\<rparr>"
  have ok: "ok \<longleftrightarrow> baud_readback env 19 = 19" "ok \<Longrightarrow> uart_baud m = 19"
    using m by (auto simp: mini_uart1_set_clock_def Let_def split: if_splits)
  have d3: "shook env d ?d3" "dev_ok (v2env env) ?d3"
    using assms 1(2) 2(2) mini_uart1_set_clock_keeps [OF m] by (simp_all add: shook_def talked_def dev_ok_def)
  show ?thesis
  proof (cases ok)
    case True
    obtain d4 where 4: "print_run env (LogBaudSet ver ?b 19) ?d3 = Some d4" "talked (v2env env) ?d3 d4"
      "mach d4 = mach ?d3"
      using print_run_talks [OF d3(2), of "LogBaudSet ver ?b 19"]
      by (auto simp: print_run_def bind_eq_Some_conv)
    obtain fs where 5: "rpc_println (crc_pkg (v2env env)) (sink d4) (fmt_transitioned env ver) = Some fs"
      "sink_ok fs"
      using println_frame [of "sink d4" "crc_pkg (v2env env)" "fmt_transitioned env ver"] talked_ok [OF 4(2)]
      by (auto simp: dev_ok_def sink_after_def)
    obtain v where v: "v2_new (v2env env) now ?b = Some v" "state v = RequestMetadata" "once v"
      "baud v = ?b" "remainder v = 0" "inflate_state v = inflate_new (v2env env)"
      using v2_new_v2 by blast
    have "shook env d (d4\<lparr>sink := fs\<rparr>)"
      using assms d3(1) 4(2) 5(2) by (simp add: shook_def talked_def dev_ok_def)
    then show ?thesis
      using True 1(1) 2(1) m 4 5(1) v ok divider_v2
      by (auto simp: switch_to_v2_def simp del: baud_rate.simps)
  next
    case False
    obtain d4 where 4: "print_run env LogBaudFailed ?d3 = Some d4" "talked (v2env env) ?d3 d4"
      using print_run_talks [OF d3(2)] by blast
    have "shook env d d4"
      using d3(1) talked_shook [OF 4(2)] shook_trans by blast
    then show ?thesis
      using False 1(1) 2(1) m 4(1) ok divider_v2
      by (auto simp: switch_to_v2_def simp del: baud_rate.simps)
  qed
qed

lemma handshake_handle_packet_total:
  fixes env :: "('h, 'i) run_env"
  assumes "dev_ok (v2env env) d" and "env_ok (v2env env)"
  shows "\<exists>h' d' s. handshake_handle_packet env h hdr payload now d = Some (h', d', s) \<and> shook env d d'
    \<and> (\<forall>v. s = Switch v \<longrightarrow> (\<exists>v2. v = V2P v2 \<and> state v2 = RequestMetadata \<and> baud v2 = baud_rate ProtoV2))"
proof -
  have says: "\<exists>d'. print_run env l d = Some d' \<and> shook env d d'" for l
    using print_run_talks [OF assms(1), of l] talked_shook by blast
  have "\<exists>d' s. handshake_use_version env h payload now d = Some (d', s) \<and> shook env d d'
      \<and> (\<forall>v. s = Switch v \<longrightarrow> (\<exists>v2. v = V2P v2 \<and> state v2 = RequestMetadata \<and> baud v2 = baud_rate ProtoV2))"
  proof (cases "expecting h = ExpectVersion")
    case True
    obtain d1 where 1: "print_run env LogUseVersionReceived d = Some d1" "talked (v2env env) d d1"
      using print_run_talks [OF assms(1)] by blast
    have says1: "\<exists>d'. print_run env l d1 = Some d' \<and> shook env d d'" for l
      using print_run_talks [OF talked_ok [OF 1(2)], of l] 1(2) talked_trans talked_shook by blast
    show ?thesis
    proof (cases "de_use_version (v2env env) payload")
      case (Inl e)
      then show ?thesis
        using True 1(1) says1 [of "LogUseVersionMalformed e"] by (auto simp: handshake_use_version_def)
    next
      case (Inr uv)
      show ?thesis
      proof (cases "version uv = 2")
        case False
        then show ?thesis
          using True 1(1) Inr says1 [of "LogVersionUnsupported (version uv)"]
          by (auto simp: handshake_use_version_def supported_protocol_try_from_def)
      next
        case v2: True
        obtain d2 s where 2: "switch_to_v2 env (version uv) ProtoV2 now d1 = Some (d2, s)" "shook env d1 d2"
          "if baud_readback env 19 = 19
           then uart_baud (mach d2) = 19 \<and> (\<exists>v. s = Switch (V2P v) \<and> state v = RequestMetadata \<and> once v
             \<and> baud v = baud_rate ProtoV2 \<and> remainder v = 0 \<and> inflate_state v = inflate_new (v2env env))
           else s = Abend"
          using switch_to_v2_result [OF talked_ok [OF 1(2)]] by blast
        have "shook env d d2"
          using 1(2) 2(2) talked_shook shook_trans by blast
        then show ?thesis
          using True 1(1) Inr v2 2(1,3)
          by (auto simp: handshake_use_version_def supported_protocol_try_from_def split: if_splits)
      qed
    qed
  next
    case False
    with says [of LogUseVersionUnexpected] show ?thesis
      by (auto simp: handshake_use_version_def)
  qed
  moreover obtain h' d' and s :: "'i ProtocolEnum ProtocolStatus" where "handshake_probe env h d = Some (h', d', s)" "shook env d d'"
    "s = Continue \<or> s = Abcon"
    using handshake_probe_total [OF assms, of h] talked_shook by blast
  ultimately show ?thesis
    using says [of "LogHandshakeUnexpected (message_type hdr)"]
    by (cases "message_type hdr") (auto simp: handshake_handle_packet_def)
qed

text \<open>The download protocol: no handler panics, apart from the decompression of a chunk.\<close>

definition v2_inv :: "'i V2 \<Rightarrow> bool" where
  "v2_inv v \<longleftrightarrow> at_baud_8n1 TRY_RESEND_CHUNK (baud v) \<noteq> None
    \<and> (case state v of
         AckMetadata md \<Rightarrow> (case format_details md of Bin addr \<Rightarrow> addr < 0x10000000 | Elf \<Rightarrow> True)
       | _ \<Rightarrow> True)"

lemma elf_final_relocation_total:
  assumes "dev_ok env d"
  shows "\<exists>d' j. elf_final_relocation env phdrs img entry d = Some (d', j)"
proof -
  obtain m where m: "print_all_blocking env [LogElfStubCode, LogElfStubLength (length (stub_code env)), LogElfBase,
       LogElfEntry entry, LogElfHeaders, LogElfHeaderCount (length phdrs), LogElfStubDst] (mach d) = Some m"
    using print_all_blocking_ram by blast
  have "dev_ok env (d\<lparr>mach := m\<rparr>)"
    using assms by (simp add: dev_ok_def)
  then show ?thesis
    using flush_talks m by (fastforce simp: elf_final_relocation_def)
qed

lemma enter_total:
  assumes "dev_ok env d"
  shows "\<exists>d' j. enter env b d = Some (d', j)"
proof (cases b)
  case (BootRelocation r)
  obtain mem call where "final_relocation (stub_code env) (ram (mach d)) r = (mem, call)"
    by fastforce
  from flat_final_relocation_jumps [OF assms this] BootRelocation show ?thesis
    by (auto simp: enter_def)
next
  case (BootElf phdrs img entry)
  with elf_final_relocation_total [OF assms] show ?thesis
    by (simp add: enter_def)
qed

lemma recv_metadata_total:
  assumes "dev_ok env d" and "v2_inv v"
  shows "\<exists>v' d'. recv_metadata env v msg d = Some (v', d') \<and> dev_ok env d' \<and> v2_inv v'"
proof -
  obtain t where t: "at_baud_8n1 TRY_RESEND_CHUNK (baud v) = Some t"
    using assms(2) by (auto simp: v2_inv_def)
  have says: "\<exists>d'. println env l d = Some d' \<and> dev_ok env d'" for l
    using println_talks [OF assms(1), of l] talked_ok by blast
  show ?thesis
  proof (cases "state v = RequestMetadata")
    case True
    then show ?thesis
      using assms says [of LogAddressTooHigh] says [of LogAddressUnaligned] says [of LogLoadingElf] t
      by (cases "format_details msg")
         (auto simp: recv_metadata_def v2_inv_def dev_ok_def not_le)
  next
    case False
    then have "recv_metadata env v msg d =
        do { d \<leftarrow> println env (LogUnexpectedMetadata (state v)) d; Some (v, d) }"
      by (cases "state v") (simp_all add: recv_metadata_def)
    then show ?thesis
      using says [of "LogUnexpectedMetadata (state v)"] assms(2) by auto
  qed
qed

lemma recv_metadata_ack_ack_total:
  assumes "dev_ok env d" and "v2_inv v"
  shows "\<exists>v' d'. recv_metadata_ack_ack env v msg d = Some (v', d') \<and> dev_ok env d' \<and> v2_inv v'"
proof -
  have says: "\<exists>d'. println env l d = Some d' \<and> dev_ok env d'" for l
    using println_talks [OF assms(1), of l] talked_ok by blast
  show ?thesis
  proof (cases "\<exists>md. state v = AckMetadata md")
    case True
    then obtain md where md: "state v = AckMetadata md"
      by blast
    have "addr < 4294967296" if "addr < 0x10000000" for addr :: u64
      using that by (rule order.strict_trans) simp
    then show ?thesis
      using assms md says [of LogMetadataAgain]
      by (cases "format_details md") (auto simp: recv_metadata_ack_ack_def v2_inv_def)
  next
    case False
    then have "recv_metadata_ack_ack env v msg d =
        do { d \<leftarrow> println env (LogUnexpectedAckAck (state v)) d; Some (v, d) }"
      by (cases "state v") (simp_all add: recv_metadata_ack_ack_def)
    then show ?thesis
      using says [of "LogUnexpectedAckAck (state v)"] assms(2) by auto
  qed
qed

definition awaits_chunk :: "'i V2 \<Rightarrow> bool" where
  "awaits_chunk v \<longleftrightarrow> (case state v of RequestChunk _ _ _ \<Rightarrow> True | _ \<Rightarrow> False)"

lemma v2_handle_packet_total:
  assumes "dev_ok env d" and "v2_inv v" and "\<not> (message_type hdr = Chunk \<and> awaits_chunk v)"
  shows "\<exists>v' d' out. v2_handle_packet env v hdr payload d = Some (v', d', out)
    \<and> (\<forall>s. out = Status s \<longrightarrow> dev_ok env d' \<and> v2_inv v' \<and> s = Continue)"
proof -
  have says: "\<exists>d'. println env l d = Some d' \<and> dev_ok env d'" if "dev_ok env d" for l d
    using println_talks [OF that, of l] talked_ok by blast
  show ?thesis
  proof (cases "message_type hdr")
    case Metadata
    obtain d1 where d1: "println env (LogV2Timeouts (v1_timeouts v)) d = Some d1" "dev_ok env d1"
      using says [OF assms(1)] by blast
    show ?thesis
    proof (cases "de_metadata env payload")
      case (Inl e)
      then show ?thesis
        using d1 says [OF d1(2), of "LogParseMetadata e"] assms(2) Metadata by (auto simp: v2_handle_packet_def)
    next
      case (Inr msg)
      then show ?thesis
        using d1 recv_metadata_total [OF d1(2) assms(2), of msg] Metadata by (auto simp: v2_handle_packet_def)
    qed
  next
    case MetadataAckAck
    show ?thesis
    proof (cases "de_metadata_ack_ack env payload")
      case (Inl e)
      then show ?thesis
        using says [OF assms(1), of "LogParseMetadataAckAck e"] assms(2) MetadataAckAck
        by (auto simp: v2_handle_packet_def)
    next
      case (Inr msg)
      then show ?thesis
        using recv_metadata_ack_ack_total [OF assms(1,2), of msg] MetadataAckAck
        by (auto simp: v2_handle_packet_def)
    qed
  next
    case Chunk
    then have ignored: "recv_chunk env v msg d =
        do { d \<leftarrow> println env (LogUnexpectedChunk (which msg) (state v)) d; Some (v, d, True) }" for msg
      using assms(3) by (cases "state v") (simp_all add: recv_chunk_def awaits_chunk_def)
    show ?thesis
    proof (cases "de_chunk env payload")
      case (Inl e)
      then show ?thesis
        using says [OF assms(1), of "LogParseChunk e"] assms(2) Chunk by (auto simp: v2_handle_packet_def)
    next
      case (Inr msg)
      then show ?thesis
        using says [OF assms(1), of "LogUnexpectedChunk (which msg) (state v)"] assms(2) Chunk
        by (auto simp: v2_handle_packet_def ignored)
    qed
  next
    case BootingAck
    show ?thesis
    proof (cases "state v")
      case (Boot b)
      obtain d1 where d1: "println env LogBooting d = Some d1" "dev_ok env d1"
        using says [OF assms(1)] by blast
      then show ?thesis
        using enter_total [OF d1(2), of b] BootingAck Boot
        by (auto simp: v2_handle_packet_def recv_booting_ack_def)
    qed (use BootingAck says [OF assms(1), of "LogUnexpectedBootingAck (state v)"] assms(2) in
      \<open>auto simp: v2_handle_packet_def recv_booting_ack_def\<close>)
  qed (use says [OF assms(1), of "LogUnrecognized (message_type hdr)"] assms(2) in
    \<open>auto simp: v2_handle_packet_def\<close>)
qed

text \<open>
  The divider of the UART clock: for every rate between the slowest one whose divider has
  sixteen bits and the fastest one the clock allows, the divider register gives a rate that is not
  below the wanted one, and one more would be below it. For the rate of protocol version 2 the
  divider is 19, which makes 1562500 baud out of the wanted 1500000.
\<close>

lemma divider_bounds:
  assumes "477 \<le> unat bd" and "unat bd \<le> 31250000"
  shows "(\<exists>d. baud_to_clock_divider bd = Some d \<and> 8 * unat bd * (unat d + 1) \<le> 250000000
      \<and> 250000000 < 8 * unat bd * (unat d + 2))
    \<and> baud_to_clock_divider (baud_rate ProtoV2) = Some 19"
proof -
  have b: "unat (8 * bd) = 8 * unat bd"
    using assms(2) by (subst unat_mult_lem [THEN iffD1]) simp_all
  define q where "q = 250000000 div (8 * unat bd)"
  have q: "unat (MINI_UART_CLOCK_RATE div (8 * bd)) = q"
    by (simp add: unat_div b MINI_UART_CLOCK_RATE_def q_def)
  have "0 < 8 * unat bd"
    using assms(1) by simp
  note bounds = times_div_less_eq_dividend [of "8 * unat bd" 250000000, folded q_def]
    dividend_less_times_div [OF this, of 250000000, folded q_def]
  have pos: "1 \<le> q"
    using bounds(2) assms(2) by (cases q) simp_all
  have small: "q < 2 ^ 16"
  proof (rule ccontr)
    assume "\<not> q < 2 ^ 16"
    then have "8 * 477 * 2 ^ 16 \<le> 8 * unat bd * q"
      using assms(1) by (intro mult_le_mono) simp_all
    with bounds(1) show False
      by simp
  qed
  have "unat (MINI_UART_CLOCK_RATE div (8 * bd) - 1) = q - 1"
    using q pos by (subst unat_sub) (simp_all add: word_le_nat_alt)
  then have "unat (ucast (MINI_UART_CLOCK_RATE div (8 * bd) - 1) :: u16) = q - 1"
    using small by (simp add: unsigned_ucast_eq take_bit_nat_eq_self)
  moreover have "8 * bd \<noteq> 0"
    using b assms(1) by (auto simp flip: unat_eq_zero)
  moreover obtain k where k: "q = Suc k"
    using pos by (cases q) simp_all
  ultimately show ?thesis
    using divider_v2 bounds unfolding k by (simp add: baud_to_clock_divider_def)
qed

lemma divider_bounds_witness:
  "\<exists>d. baud_to_clock_divider 115200 = Some d \<and> 8 * unat (115200 :: u32) * (unat d + 1) \<le> 250000000
    \<and> 250000000 < 8 * unat (115200 :: u32) * (unat d + 2)"
  using divider_bounds [of 115200] by simp

end
