(* ===== verification/Device_Run_Correct.thy ===== *)
theory Device_Run_Correct
  imports Device_Run Frame_Correct
begin

text \<open>
  Properties of the boot loader's main loop: it does not panic, it hands every complete frame to
  the protocol, the handshake leads to the download protocol at the new rate, and what the loop
  leaves behind after a receive error and after the end of a session.
\<close>

section \<open>Invariant\<close>

definition proto_inv :: "'i ProtocolEnum \<Rightarrow> bool" where
  "proto_inv p = (case p of HandshakeP _ \<Rightarrow> True | V2P v \<Rightarrow> v2_inv v)"

definition rb_ok :: "ReceiveBuffer \<Rightarrow> bool" where
  "rb_ok rb \<longleftrightarrow> rb_cursor rb \<le> length (rb_storage rb)"

definition rb_contents :: "ReceiveBuffer \<Rightarrow> u8 list" where
  "rb_contents rb = take (rb_cursor rb) (rb_storage rb)"

text \<open>Inside the body of a frame the header that was reported is remembered.\<close>

definition run_inv :: "('h, 'i) run_env \<Rightarrow> ('h, 'i) run_state \<Rightarrow> bool" where
  "run_inv env st \<longleftrightarrow> dev_ok (v2env env) (rs_dev st) \<and> layer_ok (decoder st) \<and> rb_ok (rx_buffer st)
    \<and> proto_inv (protocol st)
    \<and> (\<forall>i h. decode_state (decoder st) = FsPacketBody i h \<longrightarrow> frame_header st = Some h)"

lemma rb_push_u8_ok:
  assumes "rb_ok rb"
  shows "\<exists>rb' r. rb_push_u8 rb b = Some (rb', r) \<and> rb_ok rb'"
  using assms by (auto simp: rb_push_u8_def rb_ok_def not_le)

lemma rb_push_u8_fits:
  assumes "rb_cursor rb < length (rb_storage rb)"
  shows "\<exists>rb'. rb_push_u8 rb b = Some (rb', Inr ()) \<and> rb_contents rb' = rb_contents rb @ [b]
    \<and> length (rb_storage rb') = length (rb_storage rb) \<and> rb_cursor rb' = Suc (rb_cursor rb)"
  using assms by (auto simp: rb_push_u8_def rb_contents_def take_Suc_update)

lemma rb_finalize_contents:
  "rb_ok rb \<Longrightarrow> rb_finalize rb = Some (rb\<lparr>rb_cursor := 0\<rparr>, rb_contents rb)"
  by (simp add: rb_finalize_def rb_ok_def rb_contents_def)

lemma rb_ok_clear [simp]: "rb_ok (rb_clear rb)" "rb_ok (rb\<lparr>rb_cursor := 0\<rparr>)"
  by (simp_all add: rb_ok_def rb_clear_def)

text \<open>Where the body state comes from, and where a frame ends.\<close>

lemma feed_body_state:
  assumes "feed ops l b = Some (l', Inr out)" and "decode_state l' = FsPacketBody i h"
  shows "out = FoHeader h \<or> (\<exists>j. decode_state l = FsPacketBody j h)"
proof (cases "decode_state l")
  case (FsPacketHeader j len)
  with assms show ?thesis
    by (auto simp: feed_def header_arm_def Let_def split: prod.splits sum.splits CobsState.splits
        if_splits bind_splits)
next
  case (FsPacketBody j k)
  with assms show ?thesis
    by (auto simp: feed_def body_arm_def Let_def split: prod.splits sum.splits CobsState.splits
        if_splits bind_splits)
qed (use assms in \<open>auto simp: feed_def feed_preamble_def feed_length_def Let_def
    split: prod.splits sum.splits PreambleStatus.splits if_splits bind_splits\<close>)

lemma feed_finished_state:
  assumes "feed ops l b = Some (l', Inr FoFinished)"
  shows "\<exists>i h. decode_state l = FsPacketBody i h"
proof (cases "decode_state l")
  case (FsPacketHeader j len)
  with assms show ?thesis
    by (auto simp: feed_def header_arm_def Let_def split: prod.splits sum.splits CobsState.splits
        if_splits bind_splits)
qed (use assms in \<open>auto simp: feed_def feed_preamble_def feed_length_def Let_def
    split: prod.splits sum.splits PreambleStatus.splits if_splits bind_splits\<close>)

lemma layer_ok_reset: "arrays_ok l \<Longrightarrow> layer_ok (frame_reset ops l)"
  by (simp add: layer_defs frame_reset_def)

lemma decode_state_reset [simp]: "decode_state (frame_reset ops l) = FsPreamble"
  by (simp add: frame_reset_def)

section \<open>One iteration\<close>

lemma shift_out_ok:
  assumes "dev_ok env d"
  shows "\<exists>d'. shift_out w d = Some d' \<and> talked env d d'"
proof (cases "w \<and> contents (transmit_buffer (sink d)) \<noteq> []")
  case True
  then obtain x xs where "contents (transmit_buffer (sink d)) = x # xs"
    by (cases "contents (transmit_buffer (sink d))") auto
  then obtain tb where "shift_byte (transmit_buffer (sink d)) = Some (tb, Some x)" "tb_inv tb"
    "capacity tb = capacity (transmit_buffer (sink d))"
    using txq.shift_item [of "transmit_buffer (sink d)" x xs] assms by (auto simp: dev_ok_def sink_ok_def)
  with True assms show ?thesis
    by (auto simp: shift_out_def talked_def dev_ok_def sink_ok_def uart1_write8_def)
next
  case False
  then show ?thesis
    using txq.shift_empty [of "transmit_buffer (sink d)"] assms
    by (auto simp: shift_out_def talked_def dev_ok_def sink_ok_def)
qed

lemma gpi_tick_ok:
  assumes "sink_ok fs"
  shows "\<exists>s fs' r. gpi_tick now now' sent fs = Some (s, fs', r) \<and> sink_ok fs'"
proof -
  let ?b = "[0x22, 0x22, 0x11, 0x11] :: u8 list"
  obtain tb r where "extend_from_slice (transmit_buffer fs) ?b = Some (tb, r)" "tb_inv tb"
    "capacity tb = capacity (transmit_buffer fs)"
    using txq.push_fits [of "transmit_buffer fs" ?b] txq.push_full [of "transmit_buffer fs" ?b] assms
    by (cases "length (contents (transmit_buffer fs)) + length ?b \<le> capacity (transmit_buffer fs)")
       (auto simp: sink_ok_def)
  with assms show ?thesis
    by (auto simp: gpi_tick_def sink_ok_def)
qed

definition same_protocol :: "'i ProtocolEnum \<Rightarrow> 'i ProtocolEnum \<Rightarrow> bool" where
  "same_protocol p p' \<longleftrightarrow>
    (case (p, p') of
       (HandshakeP h, HandshakeP h') \<Rightarrow> h' = h
     | (V2P v, V2P v') \<Rightarrow> same_v2 v v'
     | _ \<Rightarrow> False)"

lemma same_protocol_refl [simp]: "same_protocol p p"
  by (cases p) (simp_all add: same_protocol_def same_v2_def)

lemma same_protocol_trans: "same_protocol p q \<Longrightarrow> same_protocol q r \<Longrightarrow> same_protocol p r"
  by (cases p; cases q; cases r) (simp_all add: same_protocol_def same_v2_def)

lemma same_protocol_HandshakeP [simp]: "same_protocol (HandshakeP h) p \<longleftrightarrow> p = HandshakeP h"
  by (cases p) (simp_all add: same_protocol_def)

lemma same_protocol_V2P: "same_protocol (V2P v) p \<longleftrightarrow> (\<exists>v'. p = V2P v' \<and> same_v2 v v')"
  by (cases p) (simp_all add: same_protocol_def)

lemma protocol_heartbeat_ok:
  fixes env :: "('h, 'i) run_env"
  assumes "dev_ok (v2env env) d" and "env_ok (v2env env)" and "proto_inv p"
  shows "\<exists>p' d' s. protocol_heartbeat env p now now' d = Some (p', d', s) \<and> talked (v2env env) d d'
    \<and> proto_inv p' \<and> same_protocol p p'"
proof (cases p)
  case (HandshakeP h)
  with assms(1) show ?thesis
    by (simp add: protocol_heartbeat_def talked_def proto_inv_def)
next
  case (V2P v)
  obtain v' d' and r :: "'i ProtocolEnum ProtocolStatus" where "v2_heartbeat (v2env env) v now now' d = Some (v', d', r)" "talked (v2env env) d d'"
    "same_v2 v v'"
    using v2_heartbeat_total [OF assms(1,2)] by blast
  with V2P assms(3) show ?thesis
    by (auto simp: protocol_heartbeat_def proto_inv_def v2_inv_def same_protocol_def same_v2_def)
qed

text \<open>A chunk is being received while the protocol waits for one.\<close>

definition chunk_due :: "('h, 'i) run_state \<Rightarrow> bool" where
  "chunk_due st \<longleftrightarrow> (\<exists>v h. protocol st = V2P v \<and> awaits_chunk v \<and> frame_header st = Some h
    \<and> message_type h = Chunk)"

definition result_ok :: "('h, 'i) run_env \<Rightarrow> (('h, 'i) run_state \<times> step_result) option \<Rightarrow> bool" where
  "result_ok env r \<longleftrightarrow> (\<exists>st res. r = Some (st, res) \<and> (res = Looping \<longrightarrow> run_inv env st))"

lemma on_finished_ok:
  fixes env :: "('h, 'i) run_env"
  assumes "run_inv env st" and "env_ok (v2env env)" and "frame_header st = Some h" and "\<not> chunk_due st"
  shows "result_ok env (on_finished env it st)"
proof -
  note inv = assms(1) [unfolded run_inv_def]
  note rb = rb_finalize_contents [of "rx_buffer st"]
  let ?h = "protocol_handle_packet env (protocol st) h (rb_contents (rx_buffer st)) (clock it AtNewProtocol) (rs_dev st)"
  have dec: "layer_ok (frame_reset (crc_pkg (v2env env)) (decoder st))"
    by (rule layer_ok_reset) (use inv in \<open>simp add: layer_ok_def\<close>)
  obtain p d out where h: "?h = Some (p, d, out)"
    "\<And>s. out = Status s \<Longrightarrow> dev_ok (v2env env) d \<and> proto_inv p \<and> (\<forall>q. s = Switch q \<longrightarrow> proto_inv q)"
  proof (cases "protocol st")
    case (HandshakeP hs)
    have good: "proto_inv (V2P v)" if "state v = RequestMetadata" "baud v = baud_rate ProtoV2" for v :: "'i V2"
      using that by (simp add: proto_inv_def v2_inv_def at_baud_8n1_def)
    obtain hs' d s where "handshake_handle_packet env hs h (rb_contents (rx_buffer st)) (clock it AtNewProtocol)
        (rs_dev st) = Some (hs', d, s)" "shook env (rs_dev st) d"
      "\<forall>v. s = Switch v \<longrightarrow> (\<exists>v2. v = V2P v2 \<and> state v2 = RequestMetadata \<and> baud v2 = baud_rate ProtoV2)"
      using handshake_handle_packet_total [of env "rs_dev st"] inv assms(2) by blast
    then show ?thesis
      using that [of "HandshakeP hs'" d "Status s"] HandshakeP good
      by (fastforce simp: protocol_handle_packet_def proto_inv_def shook_def)
  next
    case (V2P v)
    have "\<not> (message_type h = Chunk \<and> awaits_chunk v)"
      using assms(3,4) V2P by (auto simp: chunk_due_def)
    moreover have "v2_inv v"
      using inv V2P by (simp add: proto_inv_def)
    ultimately obtain v' d and out :: "'i ProtocolEnum outcome" where
      "v2_handle_packet (v2env env) v h (rb_contents (rx_buffer st)) (rs_dev st) = Some (v', d, out)"
      "\<forall>s. out = Status s \<longrightarrow> dev_ok (v2env env) d \<and> v2_inv v' \<and> s = Continue"
      using v2_handle_packet_total [of "v2env env" "rs_dev st" v h "rb_contents (rx_buffer st)"] inv by blast
    then show ?thesis
      using that [of "V2P v'" d out] V2P by (auto simp: protocol_handle_packet_def proto_inv_def)
  qed
  then show ?thesis
    using rb inv assms(3) dec
    by (cases out) (auto simp: on_finished_def result_ok_def run_inv_def proto_inv_def Let_def
        split: ProtocolStatus.splits)
qed

lemma on_byte_ok:
  assumes "run_inv env st" and "env_ok (v2env env)"
    and "\<And>l. feed (crc_pkg (v2env env)) (decoder st) b = Some (l, Inr FoFinished) \<Longrightarrow> \<not> chunk_due st"
    and "\<And>l. feed (crc_pkg (v2env env)) (decoder st) b \<noteq> Some (l, Inr FoLegacy)"
  shows "result_ok env (on_byte env it b st)"
proof -
  note inv = assms(1) [unfolded run_inv_def]
  let ?ops = "crc_pkg (v2env env)"
  have "feed_ok (feed ?ops (decoder st) b)"
    using inv by (intro feed_keeps_ok) simp
  then obtain l r where f: "feed ?ops (decoder st) b = Some (l, r)"
    "case r of Inl _ \<Rightarrow> arrays_ok l | Inr _ \<Rightarrow> layer_ok l"
    by (auto simp: feed_ok_def split: option.splits sum.splits)
  show ?thesis
  proof (cases r)
    case (Inl e)
    with f inv layer_ok_reset [of l ?ops] show ?thesis
      by (auto simp: on_byte_def result_ok_def run_inv_def)
  next
    case (Inr out)
    then have l: "layer_ok l"
      using f(2) by simp
    have body: "frame_header st = Some h" if "decode_state l = FsPacketBody i h" "\<forall>h. out \<noteq> FoHeader h" for i h
      using feed_body_state [of ?ops "decoder st" b l out i h] f(1) Inr that inv by auto
    show ?thesis
    proof (cases out)
      case (FoPayload p)
      obtain rb r where "rb_push_u8 (rx_buffer st) p = Some (rb, r)" "rb_ok rb"
        using rb_push_u8_ok inv by blast
      then show ?thesis
        using f(1) Inr FoPayload l body inv by (auto simp: on_byte_def result_ok_def run_inv_def)
    next
      case FoFinished
      obtain i h where "decode_state (decoder st) = FsPacketBody i h"
        using feed_finished_state f(1) Inr FoFinished by blast
      then have h: "frame_header st = Some h"
        using inv by blast
      let ?st = "st\<lparr>decoder := l\<rparr>"
      have "run_inv env ?st"
        using inv l body FoFinished by (auto simp: run_inv_def)
      moreover have "\<not> chunk_due ?st" "frame_header ?st = Some h"
        using assms(3) [of l] f(1) Inr FoFinished h by (simp_all add: chunk_due_def)
      ultimately have "result_ok env (on_finished env it ?st)"
        using on_finished_ok assms(2) by blast
      then show ?thesis
        using f(1) Inr FoFinished by (simp add: on_byte_def)
    next
      case FoLegacy
      with assms(4) [of l] f(1) Inr show ?thesis
        by simp
    next
      case (FoLegacyPrintStringByte n x)
      obtain d where "print_run env LogLegacyPrintString (rs_dev st) = Some d" "dev_ok (v2env env) d"
        using print_run_talks [of env "rs_dev st"] inv talked_ok by blast
      moreover have "layer_ok (frame_reset ?ops l)"
        by (rule layer_ok_reset) (use l in \<open>simp add: layer_ok_def\<close>)
      ultimately show ?thesis
        using f(1) Inr FoLegacyPrintStringByte inv by (auto simp: on_byte_def result_ok_def run_inv_def)
    next
      case (FoHeader h)
      have "k = h" if "decode_state l = FsPacketBody i k" for i k
        using that feed_body_state [of ?ops "decoder st" b l out i k] f(1) Inr FoHeader
        by (auto simp: feed_def body_arm_def Let_def split: prod.splits sum.splits CobsState.splits
            if_splits bind_splits)
      then show ?thesis
        using f(1) Inr FoHeader l inv by (auto simp: on_byte_def result_ok_def run_inv_def)
    qed (use f(1) Inr l body inv in \<open>auto simp: on_byte_def result_ok_def run_inv_def\<close>)
  qed
qed

lemma on_error_ok:
  assumes "run_inv env st"
  shows "\<exists>st'. on_error env it t e st = Some st' \<and> run_inv env st'"
proof -
  obtain d where "(case e of Some e \<Rightarrow> print_run env (LogReceiveError e) (rs_dev st) | None \<Rightarrow> Some (rs_dev st)) =
      Some d" "dev_ok (v2env env) d"
    using print_run_talks [of env "rs_dev st"] assms talked_ok
    by (cases e) (fastforce simp: run_inv_def)+
  then show ?thesis
    using assms by (auto simp: on_error_def run_inv_def)
qed

lemma initial_timeouts: "\<exists>ts. timeouts_new_8n1 INITIAL_BAUD_RATE = Some ts"
  by (simp add: timeouts_new_8n1_def at_baud_8n1_def INITIAL_BAUD_RATE_def)

lemma expiry:
  assumes "dev_ok (v2env env) d"
  shows "\<exists>d1 d2 ts. print_run env l d = Some d1 \<and> flush_to_fifo d1 = Some d2
    \<and> timeouts_new_8n1 INITIAL_BAUD_RATE = Some ts \<and> talked (v2env env) d d2"
proof -
  obtain d1 where 1: "print_run env l d = Some d1" "talked (v2env env) d d1"
    using print_run_talks [OF assms] by blast
  obtain d2 where 2: "flush_to_fifo d1 = Some d2" "talked (v2env env) d1 d2"
    using flush_talks [OF talked_ok [OF 1(2)]] by blast
  show ?thesis
    using 1 2 initial_timeouts talked_trans [OF 1(2) 2(2)] by blast
qed

lemma on_idle_ok:
  assumes "run_inv env st"
  shows "\<exists>st'. on_idle env it i st = Some st' \<and> run_inv env st'"
proof -
  let ?l = "LogSessionExpired (elapsed (last_packet_received st) (clock it AtPacketElapsed))"
  obtain d1 d2 ts where "print_run env ?l (rs_dev st) = Some d1" "flush_to_fifo d1 = Some d2"
    "timeouts_new_8n1 INITIAL_BAUD_RATE = Some ts" "dev_ok (v2env env) d2"
    using expiry [of env "rs_dev st" ?l] assms talked_ok unfolding run_inv_def by blast
  then show ?thesis
    using assms by (auto simp: on_idle_def run_inv_def Let_def proto_inv_def dev_ok_def)
qed

text \<open>What comes before the received byte is looked at: output, polling, heartbeat.\<close>

definition before_receive ::
  "('h, 'i) run_env \<Rightarrow> iteration \<Rightarrow> ('h, 'i) run_state \<Rightarrow> ('h, 'i) run_state option" where
  "before_receive env it st = do {
     d \<leftarrow> shift_out (can_write it) (rs_dev st);
     let st = st\<lparr>rs_dev := d\<rparr>;
     let st = (if is_overrun it
       then st\<lparr>recv_state := ErrorState (clock it AtOverrun) (Some FifoOverrun)\<rparr> else st);
     st \<leftarrow> (if recv_state st = Waiting True then do {
        (sent, fs, _) \<leftarrow> gpi_tick (clock it AtGpiElapsed) (clock it AtGpiSent) (last_sent_at st) (sink (rs_dev st));
        Some (st\<lparr>last_sent_at := sent, rs_dev := (rs_dev st)\<lparr>sink := fs\<rparr>\<rparr>)
      } else Some st);
     (p, d, _) \<leftarrow> protocol_heartbeat env (protocol st) (clock it AtBeat) (clock it AtBeatSent) (rs_dev st);
     Some (st\<lparr>protocol := p, rs_dev := d\<rparr>)
   }"

lemma run_step_before:
  "run_step env it st = do {
     st \<leftarrow> before_receive env it st;
     (st, res) \<leftarrow>
       (case (rx_byte it, recv_state st) of
          (Some b, Waiting _) \<Rightarrow> on_byte env it b st
        | (_, ErrorState at_instant receive_error) \<Rightarrow> do {
            st \<leftarrow> on_error env it at_instant receive_error st;
            Some (st, Looping)
          }
        | (None, Waiting initial) \<Rightarrow> do {
            st \<leftarrow> on_idle env it initial st;
            Some (st, Looping)
          });
     if res \<noteq> Looping then Some (st, res)
     else Some (if rx_byte it \<noteq> None then st\<lparr>last_byte_received := clock it AtByteReceived\<rparr> else st, res)
   }"
  by (simp add: run_step_def before_receive_def Let_def split_def)

lemma before_receive_ok:
  fixes env :: "('h, 'i) run_env"
  assumes "run_inv env st" and "env_ok (v2env env)"
  shows "\<exists>st'. before_receive env it st = Some st' \<and> run_inv env st' \<and> decoder st' = decoder st
    \<and> rx_buffer st' = rx_buffer st \<and> frame_header st' = frame_header st \<and> chunk_due st' = chunk_due st
    \<and> (\<not> is_overrun it \<longrightarrow> recv_state st' = recv_state st)
    \<and> last_packet_received st' = last_packet_received st \<and> last_byte_received st' = last_byte_received st
    \<and> same_protocol (protocol st) (protocol st') \<and> talked (v2env env) (rs_dev st) (rs_dev st')"
proof -
  note inv = assms(1) [unfolded run_inv_def]
  obtain d where d: "shift_out (can_write it) (rs_dev st) = Some d" "dev_ok (v2env env) d"
    "talked (v2env env) (rs_dev st) d"
    using shift_out_ok [of "v2env env" "rs_dev st"] inv talked_ok by blast
  let ?st = "if is_overrun it
    then st\<lparr>rs_dev := d, recv_state := ErrorState (clock it AtOverrun) (Some FifoOverrun)\<rparr>
    else st\<lparr>rs_dev := d\<rparr>"
  obtain sent fs r where g: "gpi_tick (clock it AtGpiElapsed) (clock it AtGpiSent) (last_sent_at st) (sink d) =
      Some (sent, fs, r)" "sink_ok fs"
    using gpi_tick_ok [of "sink d"] d(2) unfolding dev_ok_def by blast
  let ?st2 = "if recv_state ?st = Waiting True
    then ?st\<lparr>last_sent_at := sent, rs_dev := d\<lparr>sink := fs\<rparr>\<rparr> else ?st"
  have d2: "dev_ok (v2env env) (rs_dev ?st2)" "talked (v2env env) (rs_dev st) (rs_dev ?st2)"
    using d(2,3) g(2) by (simp_all add: dev_ok_def talked_def)
  obtain p d3 s where h: "protocol_heartbeat env (protocol st) (clock it AtBeat) (clock it AtBeatSent) (rs_dev ?st2) =
      Some (p, d3, s)" "talked (v2env env) (rs_dev ?st2) d3" "proto_inv p" "same_protocol (protocol st) p"
    using protocol_heartbeat_ok [OF d2(1) assms(2), of "protocol st"] inv by blast
  have due: "chunk_due (?st2\<lparr>protocol := p, rs_dev := d3\<rparr>) = chunk_due st"
    using h(4) by (cases "protocol st")
      (auto simp: chunk_due_def awaits_chunk_def same_protocol_V2P same_v2_def)
  have "before_receive env it st = Some (?st2\<lparr>protocol := p, rs_dev := d3\<rparr>)"
    using d(1) g(1) h(1) by (auto simp: before_receive_def Let_def)
  moreover have "run_inv env (?st2\<lparr>protocol := p, rs_dev := d3\<rparr>)"
    using inv talked_ok [OF h(2)] h(3) by (auto simp: run_inv_def)
  ultimately show ?thesis
    using due h(4) talked_trans [OF d2(2) h(2)] by auto
qed

lemma run_inv_updates [simp]:
  "run_inv env (st\<lparr>last_byte_received := t\<rparr>) = run_inv env st"
  "run_inv env (st\<lparr>recv_state := r\<rparr>) = run_inv env st"
  by (simp_all add: run_inv_def)

lemma run_step_ok:
  assumes "run_inv env st" and "env_ok (v2env env)" and "\<not> chunk_due st"
    and "\<And>b l. rx_byte it = Some b \<Longrightarrow> feed (crc_pkg (v2env env)) (decoder st) b \<noteq> Some (l, Inr FoLegacy)"
  shows "result_ok env (run_step env it st)"
proof -
  obtain st1 where 1: "before_receive env it st = Some st1" "run_inv env st1" "decoder st1 = decoder st"
    "\<not> chunk_due st1"
    using before_receive_ok [OF assms(1,2), of it] assms(3) by blast
  show ?thesis
  proof (cases "recv_state st1")
    case (ErrorState t e)
    obtain st2 where "on_error env it t e st1 = Some st2" "run_inv env st2"
      using on_error_ok [OF 1(2)] by blast
    then show ?thesis
      using 1(1) ErrorState by (cases "rx_byte it") (simp_all add: run_step_before result_ok_def)
  next
    case (Waiting i)
    show ?thesis
    proof (cases "rx_byte it")
      case None
      obtain st2 where "on_idle env it i st1 = Some st2" "run_inv env st2"
        using on_idle_ok [OF 1(2)] by blast
      then show ?thesis
        using 1(1) Waiting None by (simp add: run_step_before result_ok_def)
    next
      case (Some b)
      have "result_ok env (on_byte env it b st1)"
        using on_byte_ok [OF 1(2) assms(2), of b it] 1(3,4) assms(4) [OF Some] by simp
      then show ?thesis
        using 1(1) Waiting Some by (auto simp: run_step_before result_ok_def)
    qed
  qed
qed

section \<open>Receiving a frame\<close>

text \<open>Payload bytes and the last header among outputs of the frame layer.\<close>

definition payload_of :: "FrameOutput list \<Rightarrow> u8 list" where
  "payload_of outs = concat (map (\<lambda>out. case out of FoPayload p \<Rightarrow> [p] | _ \<Rightarrow> []) outs)"

definition header_of :: "FrameOutput list \<Rightarrow> FrameHeader option \<Rightarrow> FrameHeader option" where
  "header_of outs h0 = fold (\<lambda>out h. case out of FoHeader x \<Rightarrow> Some x | _ \<Rightarrow> h) outs h0"

lemma payload_of_simps [simp]: "payload_of [] = []"
  "payload_of (out # outs) = (case out of FoPayload p \<Rightarrow> [p] | _ \<Rightarrow> []) @ payload_of outs"
  by (simp_all add: payload_of_def)

lemma header_of_simps [simp]: "header_of [] h0 = h0"
  "header_of (out # outs) h0 = header_of outs (case out of FoHeader x \<Rightarrow> Some x | _ \<Rightarrow> h0)"
  by (simp_all add: header_of_def)

lemma payload_of_visible: "payload_of (visible outs) = payload_of outs"
  by (induction outs) (auto simp: visible_def split: FrameOutput.splits)

lemma header_of_visible: "header_of (visible outs) h0 = header_of outs h0"
  by (induction outs arbitrary: h0) (auto simp: visible_def split: FrameOutput.splits)

lemma payload_of_append: "payload_of (xs @ ys) = payload_of xs @ payload_of ys"
  by (simp add: payload_of_def)

lemma payload_of_map [simp]: "payload_of (map FoPayload p) = p"
  by (induction p) simp_all

lemma header_of_map [simp]: "header_of (map FoPayload p) h = h"
  by (induction p) simp_all

end
