(* ===== verification/Session.thy ===== *)
theory Session
  imports Device_Run_Correct
begin

text \<open>
  Whole sessions of the boot loader's main loop: a schedule of iterations that brings the bytes of
  encoded frames, with idle iterations anywhere between them, hands every frame's payload to the
  protocol; and the frames of a handshake and of a download make the loop jump to the image.
\<close>

section \<open>Schedules\<close>

text \<open>The bytes that arrive in the iterations of a schedule.\<close>

definition received :: "iteration list \<Rightarrow> u8 list" where
  "received its = List.map_filter rx_byte its"

lemma received_simps [simp]: "received [] = []"
  "received (it # its) = (case rx_byte it of None \<Rightarrow> [] | Some b \<Rightarrow> [b]) @ received its"
  by (simp_all add: received_def List.map_filter_simps split: option.splits)

lemma received_split:
  assumes "received its = as @ b # bs"
  shows "\<exists>its1 it its2. its = its1 @ it # its2 \<and> received its1 = as \<and> rx_byte it = Some b
    \<and> received its2 = bs"
  using assms
proof (induction its arbitrary: as)
  case (Cons it its)
  show ?case
  proof (cases "rx_byte it = Some b \<and> as = []")
    case True
    with Cons.prems show ?thesis
      by (intro exI [of _ "[]"]) simp
  next
    case False
    then obtain as' where "received its = as' @ b # bs"
      "as = (case rx_byte it of None \<Rightarrow> [] | Some b \<Rightarrow> [b]) @ as'"
      using Cons.prems by (cases as) (auto split: option.splits)
    with Cons.IH [of as'] show ?thesis
      by (metis append_Cons received_simps(2))
  qed
qed simp

text \<open>The condition under which an iteration without a byte ends the session.\<close>

definition expires :: "iteration \<Rightarrow> ('h, 'i) run_state \<Rightarrow> bool" where
  "expires it st \<longleftrightarrow> recv_state st \<noteq> Waiting True
    \<and> elapsed (last_byte_received st) (clock it AtByteElapsed) \<ge> byte_read (timeouts (rs_dev st))
    \<and> elapsed (last_packet_received st) (clock it AtPacketElapsed) \<ge>
        (case override_session_timeout (timeouts (rs_dev st)) of
           Some t \<Rightarrow> t
         | None \<Rightarrow> session_expires (timeouts (rs_dev st)))"

text \<open>A schedule without overruns in which the session does not end by a timeout.\<close>

fun undisturbed :: "('h, 'i) run_env \<Rightarrow> iteration list \<Rightarrow> ('h, 'i) run_state \<Rightarrow> bool" where
  "undisturbed env [] st = True"
| "undisturbed env (it # its) st \<longleftrightarrow> \<not> is_overrun it \<and> (rx_byte it = None \<longrightarrow> \<not> expires it st) \<and>
    (case run_step env it st of
       Some (st', Looping) \<Rightarrow> undisturbed env its st'
     | _ \<Rightarrow> True)"

lemma run_steps_append:
  "run_steps env (its1 @ its2) st =
    (case run_steps env its1 st of
       Some (st', Looping) \<Rightarrow> run_steps env its2 st'
     | r \<Rightarrow> r)"
  by (induction its1 arbitrary: st)
     (auto split: option.splits step_result.splits bind_splits)

lemma undisturbed_append:
  "undisturbed env (its1 @ its2) st \<longleftrightarrow> undisturbed env its1 st \<and>
    (case run_steps env its1 st of
       Some (st', Looping) \<Rightarrow> undisturbed env its2 st'
     | _ \<Rightarrow> True)"
  by (induction its1 arbitrary: st) (auto split: option.splits step_result.splits prod.splits)

lemma undisturbed_busy:
  assumes "list_all (\<lambda>it. rx_byte it \<noteq> None \<and> \<not> is_overrun it) its"
  shows "undisturbed env its st"
  using assms by (induction its arbitrary: st) (auto split: option.splits step_result.splits)

section \<open>Iterations inside a frame\<close>

text \<open>The loop waits for bytes with the protocol and the device as they were, up to heartbeats.\<close>

definition receiving :: "('h, 'i) run_env \<Rightarrow> 'i ProtocolEnum \<Rightarrow> device \<Rightarrow> ('h, 'i) run_state \<Rightarrow> bool" where
  "receiving env p d st \<longleftrightarrow> run_inv env st \<and> same_protocol p (protocol st)
    \<and> talked (v2env env) d (rs_dev st) \<and> (\<exists>i. recv_state st = Waiting i)"

text \<open>What an iteration with the output \<open>out\<close> of the frame layer does to the state.\<close>

definition took :: "('h, 'i) run_state \<Rightarrow> 'h FrameLayer \<Rightarrow> FrameOutput list \<Rightarrow> ('h, 'i) run_state \<Rightarrow> bool" where
  "took st l outs st' \<longleftrightarrow> decoder st' = l
    \<and> rb_contents (rx_buffer st') = rb_contents (rx_buffer st) @ payload_of outs
    \<and> rb_cursor (rx_buffer st') = rb_cursor (rx_buffer st) + length (payload_of outs)
    \<and> length (rb_storage (rx_buffer st')) = length (rb_storage (rx_buffer st))
    \<and> frame_header st' = header_of outs (frame_header st)"

lemma receiving_before:
  assumes "receiving env p d st" and "env_ok (v2env env)" and "\<not> is_overrun it"
  shows "\<exists>st1. before_receive env it st = Some st1 \<and> receiving env p d st1 \<and> decoder st1 = decoder st
    \<and> rx_buffer st1 = rx_buffer st \<and> frame_header st1 = frame_header st \<and> recv_state st1 = recv_state st
    \<and> last_packet_received st1 = last_packet_received st \<and> last_byte_received st1 = last_byte_received st
    \<and> timeouts (rs_dev st1) = timeouts (rs_dev st)"
proof -
  note r = assms(1) [unfolded receiving_def]
  obtain st1 where 1: "before_receive env it st = Some st1" "run_inv env st1" "decoder st1 = decoder st"
    "rx_buffer st1 = rx_buffer st" "frame_header st1 = frame_header st" "recv_state st1 = recv_state st"
    "last_packet_received st1 = last_packet_received st" "last_byte_received st1 = last_byte_received st"
    "same_protocol (protocol st) (protocol st1)" "talked (v2env env) (rs_dev st) (rs_dev st1)"
    using before_receive_ok [of env st it] r assms(2,3) by blast
  moreover have "same_protocol p (protocol st1)" "talked (v2env env) d (rs_dev st1)"
    using r 1(9,10) same_protocol_trans talked_trans by blast+
  moreover have "timeouts (rs_dev st1) = timeouts (rs_dev st)"
    using 1(10) by (simp add: talked_def)
  ultimately show ?thesis
    using r by (auto simp: receiving_def)
qed

lemma run_step_idle:
  assumes "receiving env p d st" and "env_ok (v2env env)" and "\<not> is_overrun it" and "rx_byte it = None"
    and "\<not> expires it st"
  shows "\<exists>st'. run_step env it st = Some (st', Looping) \<and> receiving env p d st' \<and> took st (decoder st) [] st'"
proof -
  obtain st1 where 1: "before_receive env it st = Some st1" "receiving env p d st1" "decoder st1 = decoder st"
    "rx_buffer st1 = rx_buffer st" "frame_header st1 = frame_header st" "recv_state st1 = recv_state st"
    "last_packet_received st1 = last_packet_received st" "last_byte_received st1 = last_byte_received st"
    "timeouts (rs_dev st1) = timeouts (rs_dev st)"
    using receiving_before [OF assms(1-3)] by blast
  obtain i where i: "recv_state st1 = Waiting i"
    using 1(2) by (auto simp: receiving_def)
  have no: "\<not> expires it st1"
    using assms(5) unfolding expires_def 1(6-9) .
  let ?st2 = "if byte_read (timeouts (rs_dev st1)) \<le> elapsed (last_byte_received st1) (clock it AtByteElapsed) \<and> \<not> i
    then st1\<lparr>last_byte_received := clock it AtByteTimeout, recv_state := Waiting False\<rparr>
    else st1\<lparr>recv_state := Waiting i\<rparr>"
  have "on_idle env it i st1 = Some ?st2"
    using no i by (auto simp: on_idle_def expires_def Let_def)
  then have "run_step env it st = Some (?st2, Looping)"
    using 1(1) i assms(4) by (simp add: run_step_before)
  moreover have "receiving env p d ?st2" "took st (decoder st) [] ?st2"
    using 1(2-5) by (auto simp: receiving_def took_def)
  ultimately show ?thesis
    by blast
qed

lemma run_step_byte:
  assumes "receiving env p d st" and "env_ok (v2env env)" and "\<not> is_overrun it" and "rx_byte it = Some b"
  shows "\<exists>st1. receiving env p d st1 \<and> decoder st1 = decoder st \<and> rx_buffer st1 = rx_buffer st
    \<and> frame_header st1 = frame_header st \<and> run_step env it st = do {
      (st, res) \<leftarrow> on_byte env it b st1;
      if res \<noteq> Looping then Some (st, res)
      else Some (st\<lparr>last_byte_received := clock it AtByteReceived\<rparr>, res) }"
proof -
  obtain st1 where 1: "before_receive env it st = Some st1" "receiving env p d st1" "decoder st1 = decoder st"
    "rx_buffer st1 = rx_buffer st" "frame_header st1 = frame_header st"
    using receiving_before [OF assms(1-3)] by blast
  moreover obtain i where "recv_state st1 = Waiting i"
    using 1(2) by (auto simp: receiving_def)
  then have "run_step env it st = do {
      (st, res) \<leftarrow> on_byte env it b st1;
      if res \<noteq> Looping then Some (st, res)
      else Some (st\<lparr>last_byte_received := clock it AtByteReceived\<rparr>, res) }"
    unfolding run_step_before 1(1) assms(4) by (simp add: split_def cong: if_cong)
  ultimately show ?thesis
    by blast
qed

lemma run_step_in_frame:
  assumes "receiving env p d st" and "env_ok (v2env env)" and "\<not> is_overrun it" and "rx_byte it = Some b"
    and "feed (crc_pkg (v2env env)) (decoder st) b = Some (l, Inr out)" and "in_frame out"
    and "rb_cursor (rx_buffer st) + length (payload_of [out]) \<le> length (rb_storage (rx_buffer st))"
  shows "\<exists>st'. run_step env it st = Some (st', Looping) \<and> receiving env p d st' \<and> took st l [out] st'"
proof -
  obtain st1 where 1: "receiving env p d st1" "decoder st1 = decoder st"
    "rx_buffer st1 = rx_buffer st" "frame_header st1 = frame_header st"
    "run_step env it st = do {
      (st, res) \<leftarrow> on_byte env it b st1;
      if res \<noteq> Looping then Some (st, res)
      else Some (st\<lparr>last_byte_received := clock it AtByteReceived\<rparr>, res) }"
    using run_step_byte [OF assms(1-4)] by blast
  have "out \<noteq> FoFinished" "out \<noteq> FoLegacy"
    using assms(6) by (auto simp: in_frame_def)
  then have ok: "result_ok env (on_byte env it b st1)"
    using on_byte_ok [of env st1 b it] 1(1,2) assms(2,5) by (auto simp: receiving_def)
  show ?thesis
  proof (cases out)
    case (FoPayload x)
    obtain rb where rb: "rb_push_u8 (rx_buffer st) x = Some (rb, Inr ())"
      "rb_contents rb = rb_contents (rx_buffer st) @ [x]" "length (rb_storage rb) = length (rb_storage (rx_buffer st))"
      "rb_cursor rb = Suc (rb_cursor (rx_buffer st))"
      using rb_push_u8_fits [of "rx_buffer st" x] assms(7) FoPayload by auto
    have "on_byte env it b st1 =
        Some (st1\<lparr>decoder := l, rx_buffer := rb, recv_state := Waiting False\<rparr>, Looping)"
      using assms(5) 1(2,3) rb(1) FoPayload by (simp add: on_byte_def)
    then show ?thesis
      using ok 1(1,4,5) rb(2-) FoPayload by (auto simp: receiving_def took_def result_ok_def)
  next
    case FoSkip
    then have "on_byte env it b st1 = Some (st1\<lparr>decoder := l, recv_state := Waiting False\<rparr>, Looping)"
      using assms(5) 1(2) by (simp add: on_byte_def)
    then show ?thesis
      using ok 1(1,3-5) FoSkip by (auto simp: receiving_def took_def result_ok_def)
  next
    case (FoHeader h)
    then have "on_byte env it b st1 =
        Some (st1\<lparr>decoder := l, frame_header := Some h, recv_state := Waiting False\<rparr>, Looping)"
      using assms(5) 1(2) by (simp add: on_byte_def)
    then show ?thesis
      using ok 1(1,3-5) FoHeader by (auto simp: receiving_def took_def result_ok_def)
  qed (use assms(6) in \<open>auto simp: in_frame_def\<close>)
qed

lemma header_of_append: "header_of (xs @ ys) h = header_of ys (header_of xs h)"
  by (simp add: header_of_def)

lemma took_trans: "took a l xs b \<Longrightarrow> took b k ys c \<Longrightarrow> took a k (xs @ ys) c"
  by (simp add: took_def payload_of_append header_of_append)

lemma feed_all_ConsD:
  assumes "feed_all ops l0 (b # bs) = Some (l, Inr outs)"
  shows "\<exists>l1 out outs'. feed ops l0 b = Some (l1, Inr out) \<and> feed_all ops l1 bs = Some (l, Inr outs')
    \<and> outs = out # outs'"
  using assms by (auto split: bind_splits sum.splits)

lemma run_steps_in_frame:
  assumes "env_ok (v2env env)" and "undisturbed env its st"
    and "feed_all (crc_pkg (v2env env)) (decoder st) (received its) = Some (l, Inr outs)"
    and "list_all in_frame outs" and "receiving env p d st"
    and "rb_cursor (rx_buffer st) + length (payload_of outs) \<le> length (rb_storage (rx_buffer st))"
  shows "\<exists>st'. run_steps env its st = Some (st', Looping) \<and> receiving env p d st' \<and> took st l outs st'"
  using assms(2-6)
proof (induction its arbitrary: st outs)
  case Nil
  then show ?case
    by (auto simp: took_def)
next
  case (Cons it its)
  have go: ?case if 1: "run_step env it st = Some (st1, Looping)" "receiving env p d st1" "took st l1 outs1 st1"
      "feed_all (crc_pkg (v2env env)) l1 (received its) = Some (l, Inr outs2)" "outs = outs1 @ outs2"
    for st1 l1 outs1 outs2
  proof -
    have "undisturbed env its st1" "list_all in_frame outs2"
      using Cons.prems(1,3) 1(1,5) by simp_all
    moreover have "rb_cursor (rx_buffer st1) + length (payload_of outs2) \<le> length (rb_storage (rx_buffer st1))"
      using Cons.prems(5) 1(3,5) by (simp add: took_def payload_of_append)
    ultimately obtain st2 where "run_steps env its st1 = Some (st2, Looping)" "receiving env p d st2"
      "took st1 l outs2 st2"
      using Cons.IH [of st1 outs2] 1(2-4) by (auto simp: took_def)
    then show ?thesis
      using 1(1,5) took_trans [OF 1(3)] by auto
  qed
  show ?case
  proof (cases "rx_byte it")
    case None
    then obtain st1 where "run_step env it st = Some (st1, Looping)" "receiving env p d st1"
      "took st (decoder st) [] st1"
      using run_step_idle [OF Cons.prems(4) assms(1), of it] Cons.prems(1) by auto
    then show ?thesis
      using go [of st1 "decoder st" "[]" outs] Cons.prems(2) None by simp
  next
    case (Some b)
    obtain l1 out outs' where f: "feed (crc_pkg (v2env env)) (decoder st) b = Some (l1, Inr out)"
      "feed_all (crc_pkg (v2env env)) l1 (received its) = Some (l, Inr outs')" "outs = out # outs'"
      using feed_all_ConsD Cons.prems(2) unfolding received_simps Some option.case append_Cons append_Nil
      by blast
    then obtain st1 where "run_step env it st = Some (st1, Looping)" "receiving env p d st1" "took st l1 [out] st1"
      using run_step_in_frame [OF Cons.prems(4) assms(1) _ Some f(1)] Cons.prems(1,3,5) by auto
    then show ?thesis
      using go [of st1 l1 "[out]" outs'] f(2,3) by simp
  qed
qed

section \<open>Frames\<close>

text \<open>Between two frames, with a receive buffer of \<open>n\<close> bytes in which \<open>c\<close> was left behind.\<close>

definition between :: "('h, 'i) run_env \<Rightarrow> nat \<Rightarrow> u8 list \<Rightarrow> ('h, 'i) run_state \<Rightarrow> bool" where
  "between env n c st \<longleftrightarrow> run_inv env st \<and> ready (crc_pkg (v2env env)) COBS_XOR (decoder st)
    \<and> rb_contents (rx_buffer st) = c \<and> rb_cursor (rx_buffer st) = length c
    \<and> length (rb_storage (rx_buffer st)) = n \<and> (\<exists>i. recv_state st = Waiting i)"

lemma ready_reset: "ready ops k l \<Longrightarrow> ready ops k (frame_reset ops l)"
  by (simp add: ready_def frame_reset_def arrays_ok_def cobs_new_def cobs_reset_def)

lemma on_finished_result:
  assumes "frame_header st = Some h" and "rb_ok (rx_buffer st)"
    and "protocol_handle_packet env (protocol st) h (rb_contents (rx_buffer st)) (clock it AtNewProtocol) (rs_dev st) =
      Some (pr', d', out)"
  shows "\<exists>st'. rs_dev st' = d' \<and> (case out of
      Entered j \<Rightarrow> on_finished env it st = Some (st', Jumped j)
    | Status s \<Rightarrow> on_finished env it st = Some (st', Looping)
        \<and> protocol st' = (case s of Switch q \<Rightarrow> q | Abend \<Rightarrow> HandshakeP handshake_default | _ \<Rightarrow> pr')
        \<and> decoder st' = frame_reset (crc_pkg (v2env env)) (decoder st)
        \<and> recv_state st' = (if s = Abcon \<or> s = Abend
            then ErrorState (clock it AtProtocolError) (Some ProtocolError) else Waiting False)
        \<and> rb_cursor (rx_buffer st') = 0
        \<and> length (rb_storage (rx_buffer st')) = length (rb_storage (rx_buffer st)))"
  using assms rb_finalize_contents [OF assms(2)]
  by (cases out) (auto simp: on_finished_def Let_def rb_clear_def split: ProtocolStatus.splits)

text \<open>
  A frame is handed to the protocol in the iteration that brings its last byte. The handler sees
  the protocol and the device as they were before the frame, up to heartbeats and output.
\<close>

lemma frame_delivered:
  assumes "env_ok (v2env env)" and "between env n c st" and "length c + length p \<le> n" and "length p < 2 ^ 24"
    and "encode_frame (crc_pkg (v2env env)) t p = Some wire"
    and "received its = wire @ rest" and "undisturbed env its st"
  shows "\<exists>pr d now its1 its2. its = its1 @ its2 \<and> same_protocol (protocol st) pr \<and> talked (v2env env) (rs_dev st) d
    \<and> proto_inv pr \<and> received its2 = rest \<and>
    (\<forall>pr' d' out. protocol_handle_packet env pr \<lparr>message_type = t, payload_len = length p\<rparr> (c @ p) now d = Some (pr', d', out)
      \<longrightarrow> (case out of
             Entered j \<Rightarrow> \<exists>st'. run_steps env its st = Some (st', Jumped j) \<and> rs_dev st' = d'
           | Status s \<Rightarrow> \<exists>st'. rs_dev st' = d'
             \<and> protocol st' = (case s of Switch q \<Rightarrow> q | Abend \<Rightarrow> HandshakeP handshake_default | _ \<Rightarrow> pr')
             \<and> run_steps env its1 st = Some (st', Looping)
             \<and> run_steps env its st = run_steps env its2 st' \<and> undisturbed env its2 st'
             \<and> (s \<noteq> Abcon \<and> s \<noteq> Abend \<and> dev_ok (v2env env) d' \<and> proto_inv (protocol st') \<longrightarrow> between env n [] st')
             \<and> (s = Abcon \<or> s = Abend \<longrightarrow> (\<exists>t. recv_state st' = ErrorState t (Some ProtocolError)))))"
proof -
  let ?ops = "crc_pkg (v2env env)" and ?h = "\<lparr>message_type = t, payload_len = length p\<rparr>"
  note btw = assms(2) [unfolded between_def]
  have crc: "crc_stream ?ops"
    using btw by (simp add: run_inv_def dev_ok_def)
  obtain l outs where rt: "feed_all ?ops (decoder st) wire = Some (l, Inr (outs @ [FoFinished]))"
    "visible outs @ [FoFinished] = frame_outputs t p" "ready ?ops COBS_XOR l"
    using frame_roundtrip [OF crc _ assms(4), of "decoder st" t] btw assms(5) by auto
  have outs: "payload_of outs = p" "header_of outs (frame_header st) = Some ?h" "list_all in_frame outs"
    using rt(2) in_frame_outputs [OF rt(2)] payload_of_visible [of outs] header_of_visible [of outs "frame_header st"]
    by (simp_all add: frame_outputs_def)
  obtain as b l1 where snoc: "wire = as @ [b]" "feed_all ?ops (decoder st) as = Some (l1, Inr outs)"
    "feed ?ops l1 b = Some (l, Inr FoFinished)"
    using feed_all_snoc [OF rt(1)] by blast
  obtain its1 it its2 where its: "its = its1 @ it # its2" "received its1 = as" "rx_byte it = Some b"
    "received its2 = rest"
    using received_split [of its as b rest] assms(6) snoc(1) by auto
  have "undisturbed env its1 st"
    using assms(7) its(1) by (simp add: undisturbed_append)
  then obtain st1 where 1: "run_steps env its1 st = Some (st1, Looping)" "receiving env (protocol st) (rs_dev st) st1"
    "took st l1 outs st1"
    using run_steps_in_frame [OF assms(1), of its1 st l1 outs "protocol st" "rs_dev st"] snoc(2) its(2) outs btw assms(3)
    by (auto simp: receiving_def talked_def run_inv_def)
  have u: "\<not> is_overrun it" "undisturbed env (it # its2) st1"
    using assms(7) its(1) 1(1) by (simp_all add: undisturbed_append)
  obtain st2 where 2: "receiving env (protocol st) (rs_dev st) st2" "decoder st2 = decoder st1"
    "rx_buffer st2 = rx_buffer st1" "frame_header st2 = frame_header st1"
    "run_step env it st1 = do {
      (st, res) \<leftarrow> on_byte env it b st2;
      if res \<noteq> Looping then Some (st, res)
      else Some (st\<lparr>last_byte_received := clock it AtByteReceived\<rparr>, res) }"
    using run_step_byte [OF 1(2) assms(1) u(1) its(3)] by blast
  let ?st = "st2\<lparr>decoder := l\<rparr>"
  have st: "frame_header ?st = Some ?h" "rb_ok (rx_buffer ?st)" "rb_contents (rx_buffer ?st) = c @ p"
    "on_byte env it b st2 = on_finished env it ?st" "length (rb_storage (rx_buffer ?st)) = n"
    using 1(3) 2(1-4) outs(1,2) btw snoc(3)
    by (simp_all add: took_def receiving_def run_inv_def on_byte_def)
  have l: "ready ?ops COBS_XOR (frame_reset ?ops l)" "layer_ok (frame_reset ?ops l)"
    using ready_reset [OF rt(3)] by (auto simp: ready_def layer_defs)
  have steps: "run_steps env its st = run_steps env (it # its2) st1"
    using its(1) 1(1) by (simp add: run_steps_append)
  show ?thesis
  proof (rule exI [of _ "protocol st2"], rule exI [of _ "rs_dev st2"], rule exI [of _ "clock it AtNewProtocol"],
      rule exI [of _ "its1 @ [it]"], rule exI [of _ its2], intro conjI allI impI)
    fix pr' d' and out :: "'b ProtocolEnum outcome"
    assume h: "protocol_handle_packet env (protocol st2) ?h (c @ p) (clock it AtNewProtocol) (rs_dev st2) = Some (pr', d', out)"
    note fin = on_finished_result [of ?st ?h env it pr' d' out, OF st(1,2), unfolded st(3)] h
    show "case out of
             Entered j \<Rightarrow> \<exists>st'. run_steps env its st = Some (st', Jumped j) \<and> rs_dev st' = d'
           | Status s \<Rightarrow> \<exists>st'. rs_dev st' = d'
             \<and> protocol st' = (case s of Switch q \<Rightarrow> q | Abend \<Rightarrow> HandshakeP handshake_default | _ \<Rightarrow> pr')
             \<and> run_steps env (its1 @ [it]) st = Some (st', Looping)
             \<and> run_steps env its st = run_steps env its2 st' \<and> undisturbed env its2 st'
             \<and> (s \<noteq> Abcon \<and> s \<noteq> Abend \<and> dev_ok (v2env env) d' \<and> proto_inv (protocol st') \<longrightarrow> between env n [] st')
             \<and> (s = Abcon \<or> s = Abend \<longrightarrow> (\<exists>t. recv_state st' = ErrorState t (Some ProtocolError)))"
    proof (cases out)
      case (Entered j)
      with fin 2(5) st(4) steps show ?thesis
        by auto
    next
      case (Status s)
      then obtain st3 where 3: "on_finished env it ?st = Some (st3, Looping)" "rs_dev st3 = d'"
        "protocol st3 = (case s of Switch q \<Rightarrow> q | Abend \<Rightarrow> HandshakeP handshake_default | _ \<Rightarrow> pr')"
        "decoder st3 = frame_reset ?ops l" "rb_cursor (rx_buffer st3) = 0" "length (rb_storage (rx_buffer st3)) = n"
        "recv_state st3 = (if s = Abcon \<or> s = Abend
            then ErrorState (clock it AtProtocolError) (Some ProtocolError) else Waiting False)"
        using fin st(5) by auto
      let ?st3 = "st3\<lparr>last_byte_received := clock it AtByteReceived\<rparr>"
      have "run_step env it st1 = Some (?st3, Looping)"
        using 2(5) st(4) 3(1) by simp
      moreover have "between env n [] ?st3" if "s \<noteq> Abcon" "s \<noteq> Abend" "dev_ok (v2env env) d'" "proto_inv (protocol st3)"
        using 3(2,4-) l that by (auto simp: between_def run_inv_def rb_ok_def rb_contents_def)
      moreover from calculation(1) have "run_steps env (its1 @ [it]) st = Some (?st3, Looping)"
        using 1(1) by (simp add: run_steps_append)
      ultimately show ?thesis
        unfolding Status outcome.case using steps u(2) 3(2,3,7) by (intro exI [of _ ?st3]) auto
    qed
  qed (use 2(1) its(1,4) in \<open>auto simp: receiving_def run_inv_def\<close>)
qed

lemmas clean_frame_delivered = frame_delivered [where c = "[]", unfolded list.size add_0_left append_Nil]

text \<open>A frame for the download protocol whose handler continues.\<close>

lemma frame_for_v2:
  fixes env :: "('h, 'i) run_env"
  assumes "env_ok (v2env env)" and "between env n [] st" and "length p \<le> n" and "length p < 2 ^ 24"
    and "encode_frame (crc_pkg (v2env env)) t p = Some wire"
    and "received its = wire @ rest" and "undisturbed env its st" and "protocol st = V2P v"
    and "\<And>v' d. same_v2 v v' \<Longrightarrow> talked (v2env env) (rs_dev st) d \<Longrightarrow> v2_inv v' \<Longrightarrow>
      \<exists>v'' d'. v2_handle_packet (v2env env) v' \<lparr>message_type = t, payload_len = length p\<rparr> p d =
          Some (v'', d', Status (Continue :: 'i ProtocolEnum ProtocolStatus))
        \<and> dev_ok (v2env env) d' \<and> v2_inv v'' \<and> Q v'' d'"
  shows "\<exists>st' v' its2. between env n [] st' \<and> protocol st' = V2P v' \<and> Q v' (rs_dev st') \<and> received its2 = rest
    \<and> undisturbed env its2 st' \<and> run_steps env its st = run_steps env its2 st'"
proof -
  let ?h = "\<lparr>message_type = t, payload_len = length p\<rparr>"
  obtain pr d now its2 where d: "same_protocol (protocol st) pr" "talked (v2env env) (rs_dev st) d" "proto_inv pr"
    "received its2 = rest"
    and go: "\<And>pr' d'. protocol_handle_packet env pr ?h p now d = Some (pr', d', Status Continue) \<Longrightarrow>
      dev_ok (v2env env) d' \<Longrightarrow> proto_inv pr' \<Longrightarrow>
      \<exists>st'. between env n [] st' \<and> protocol st' = pr' \<and> rs_dev st' = d'
        \<and> run_steps env its st = run_steps env its2 st' \<and> undisturbed env its2 st'"
    using clean_frame_delivered [OF assms(1-7)] by fastforce
  obtain v' where v': "pr = V2P v'" "same_v2 v v'"
    using d(1) assms(8) by (auto simp: same_protocol_V2P)
  then obtain v'' d' where "v2_handle_packet (v2env env) v' ?h p d =
      Some (v'', d', Status (Continue :: 'i ProtocolEnum ProtocolStatus))"
    "dev_ok (v2env env) d'" "v2_inv v''" "Q v'' d'"
    using assms(9) [OF v'(2) d(2)] d(3) by (auto simp: proto_inv_def)
  then show ?thesis
    using go [of "V2P v''" d'] d(4) v'(1)
    by (fastforce simp: protocol_handle_packet_def proto_inv_def)
qed

section \<open>From the agreed version to the image\<close>

text \<open>Frames one after the other.\<close>

fun wire_of :: "'h crc_ops \<Rightarrow> (MessageType \<times> u8 list) list \<Rightarrow> u8 list option" where
  "wire_of ops [] = Some []"
| "wire_of ops ((t, p) # ms) = do {
     w \<leftarrow> encode_frame ops t p;
     ws \<leftarrow> wire_of ops ms;
     Some (w @ ws)
   }"

lemma wire_of_Cons: "wire_of ops (m # ms) = Some wire \<longleftrightarrow>
    (\<exists>w ws. encode_frame ops (fst m) (snd m) = Some w \<and> wire_of ops ms = Some ws \<and> wire = w @ ws)"
  by (cases m) (auto simp: bind_eq_Some_conv)

lemma wire_of_append: "wire_of ops (ms @ ms') = Some wire \<longleftrightarrow>
    (\<exists>w w'. wire_of ops ms = Some w \<and> wire_of ops ms' = Some w' \<and> wire = w @ w')"
  by (induction ms arbitrary: wire) (auto simp: wire_of_Cons simp del: wire_of.simps(2))

lemma downloading_same:
  "downloading env b0 at z d wh v dev \<Longrightarrow> same_v2 v v' \<Longrightarrow> talked env dev dev' \<Longrightarrow>
    downloading env b0 at z d wh v' dev'"
  by (auto simp: downloading_def awaiting_def booting_def same_v2_def talked_def)

lemma recv_chunk_baud: "recv_chunk env self msg dev = Some (self', dev', ok) \<Longrightarrow> baud self' = baud self"
  apply (auto simp: recv_chunk_def end_ctx_def Let_def bind_eq_Some_conv
      split: S.split_asm if_split_asm option.split_asm bool.split_asm)
  subgoal for _ _ _ _ _ _ _ r
    by (cases r) (auto simp: bind_eq_Some_conv)
  done

lemma v2_inv_downloading:
  "downloading env b0 at z d wh v dev \<Longrightarrow> v2_inv v \<longleftrightarrow> at_baud_8n1 TRY_RESEND_CHUNK (baud v) \<noteq> None"
  by (auto simp: downloading_def awaiting_def booting_def v2_inv_def split: if_splits)

lemma recv_metadata_answers:
  assumes "dev_ok env dev" and "state self = RequestMetadata" and "at_baud_8n1 TRY_RESEND_CHUNK (baud self) \<noteq> None"
    and "format_details md = Bin addr" and "addr < 0x10000000" and "addr AND 3 = 0"
  shows "\<exists>self' dev'. recv_metadata env self md dev = Some (self', dev') \<and> dev_ok env dev'
    \<and> state self' = AckMetadata md \<and> remainder self' = remainder self
    \<and> inflate_state self' = inflate_state self \<and> baud self' = baud self"
  using assms by (auto simp: recv_metadata_def dev_ok_def not_le)

text \<open>The frames of the chunks, from the \<open>wh\<close>-th chunk on, in any order and with repetitions.\<close>

lemma chunk_frames:
  fixes env :: "('h, 'i) run_env"
  assumes "env_ok (v2env env)" and "inflates (v2env env) at z d" and "expects_data (v2env env) z d (bin_metadata b0)"
    and "list_all2 (\<lambda>p msg. de_chunk (v2env env) p = Inr msg) ps ms" and "\<forall>msg \<in> set ms. carries_chunk z msg"
    and "\<forall>p \<in> set ps. length p \<le> n \<and> length p < 2 ^ 24"
    and "wire_of (crc_pkg (v2env env)) (map (Pair Chunk) ps) = Some wire" and "received its = wire @ rest"
    and "between env n [] st" and "undisturbed env its st" and "protocol st = V2P v"
    and "downloading (v2env env) b0 at z d wh v (rs_dev st)" and "wh \<le> chunks_of z"
  shows "\<exists>st' v' its2. between env n [] st' \<and> protocol st' = V2P v'
    \<and> downloading (v2env env) b0 at z d (due_after (chunks_of z) wh ms) v' (rs_dev st')
    \<and> received its2 = rest \<and> undisturbed env its2 st' \<and> run_steps env its st = run_steps env its2 st'"
  using assms(4-13)
proof (induction ps ms arbitrary: wire its st v wh rule: list_all2_induct)
  case Nil
  then show ?case
    by auto
next
  case (Cons p ps msg ms)
  let ?env = "v2env env"
  obtain w ws where w: "encode_frame (crc_pkg ?env) Chunk p = Some w" "wire = w @ ws"
    "wire_of (crc_pkg ?env) (map (Pair Chunk) ps) = Some ws"
    using Cons.prems(3) by (auto simp: wire_of_Cons simp del: wire_of.simps)
  let ?wh = "due_after (chunks_of z) wh [msg]"
  have handler: "\<exists>v'' d'. v2_handle_packet ?env v' \<lparr>message_type = Chunk, payload_len = length p\<rparr> p dev =
      Some (v'', d', Status (Continue :: 'i ProtocolEnum ProtocolStatus))
      \<and> dev_ok ?env d' \<and> v2_inv v'' \<and> downloading ?env b0 at z d ?wh v'' d'"
    if "same_v2 v v'" "talked ?env (rs_dev st) dev" "v2_inv v'" for v' dev
  proof -
    have dl: "downloading ?env b0 at z d wh v' dev"
      using downloading_same Cons.prems(8) that(1,2) by blast
    then obtain v'' d' where c: "recv_chunk ?env v' msg dev = Some (v'', d', True)"
      "downloading ?env b0 at z d ?wh v'' d'"
      using recv_chunk_downloading [OF assms(2) dl _ assms(3) Cons.prems(9), of msg] Cons.prems(1) by auto
    moreover have "dev_ok ?env d'"
      using c(2) by (auto simp: downloading_def awaiting_def booting_def split: if_splits)
    moreover have "v2_inv v''"
      using that(3) v2_inv_downloading [OF dl] v2_inv_downloading [OF c(2)] recv_chunk_baud [OF c(1)] by simp
    ultimately show ?thesis
      using Cons.hyps(1) by (simp add: v2_handle_packet_def)
  qed
  have "length p \<le> n" "length p < 2 ^ 24" "received its = w @ (ws @ rest)"
    using Cons.prems(2,4) w(2) by simp_all
  from frame_for_v2 [OF assms(1) Cons.prems(5) this(1,2) w(1) this(3) Cons.prems(6,7) handler]
  obtain st1 v1 its1 where 1: "between env n [] st1" "protocol st1 = V2P v1"
    "downloading ?env b0 at z d ?wh v1 (rs_dev st1)" "received its1 = ws @ rest" "undisturbed env its1 st1"
    "run_steps env its st = run_steps env its1 st1"
    by blast
  have "?wh \<le> chunks_of z"
    using Cons.prems(9) by simp
  from Cons.IH [OF _ _ w(3) 1(4,1,5,2,3) this] Cons.prems(1,2) 1(6) show ?case
    by auto
qed

text \<open>What has to hold of an image and of its metadata.\<close>

definition bootable :: "('h, 'i) env \<Rightarrow> ('i \<Rightarrow> nat \<Rightarrow> nat \<Rightarrow> bool) \<Rightarrow> u8 list \<Rightarrow> u8 list \<Rightarrow> Metadata_msg \<Rightarrow> u64 \<Rightarrow> bool" where
  "bootable env at z d md addr \<longleftrightarrow> inflates env at z d \<and> expects_data env z d md
    \<and> format_details md = Bin addr \<and> addr < 0x10000000 \<and> addr AND 3 = 0
    \<and> layout_fits (ucast addr) (length d) (self_end_addr env) (length (stub_code env))
    \<and> unat addr + length d \<le> unat (self_end_addr env) \<and> 4 dvd length d"

lemma bootable_relocation:
  assumes "bootable env at z d md addr"
  shows "expects_data env z d (bin_metadata (bin_new env (ucast addr) md))"
    and "bin_relocation (bin_new env (ucast addr) md) = calculate (ucast addr) (of_nat (length d)) (self_end_addr env)"
    and "4 dvd unat (relocate_first_n_bytes (bin_relocation (bin_new env (ucast addr) md)))"
proof -
  note b = assms [unfolded bootable_def]
  show b1: "expects_data env z d (bin_metadata (bin_new env (ucast addr) md))"
    and b2: "bin_relocation (bin_new env (ucast addr) md) = calculate (ucast addr) (of_nat (length d)) (self_end_addr env)"
    using b by (simp_all add: bin_new_def expects_data_def)
  have "addr < 0x10000000"
    using b by blast
  then have "addr < 2 ^ 32"
    by (rule order.strict_trans) simp
  then have "unat (ucast addr :: u32) = unat addr"
    by (simp add: unsigned_ucast_eq take_bit_nat_eq_self word_less_nat_alt)
  moreover have fits: "layout_fits (ucast addr) (length d) (self_end_addr env) (length (stub_code env))"
    using b by blast
  ultimately have "unat (relocate_first_n_bytes (bin_relocation (bin_new env (ucast addr) md))) = length d"
    using calculate_layout(2) [OF fits] b b2 by simp
  then show "4 dvd unat (relocate_first_n_bytes (bin_relocation (bin_new env (ucast addr) md)))"
    using b by simp
qed

text \<open>The image is in memory where the entered stub puts it, and is where the stub goes.\<close>

definition boots :: "device \<Rightarrow> stub_call \<Rightarrow> u32 \<Rightarrow> u8 list \<Rightarrow> bool" where
  "boots dev call addr d \<longleftrightarrow> (\<exists>m. r3_entry call = addr \<and> mem_read m addr (length d) = d
    \<and> stub_copy (unat (r2_len call)) (ram (mach dev)) (r0_dst call) (r1_src call) (r2_len call) = Some m)"

lemma boot_frame:
  fixes env :: "('h, 'i) run_env"
  assumes "env_ok (v2env env)" and "between env n [] st" and "length p \<le> n" and "length p < 2 ^ 24"
    and "encode_frame (crc_pkg (v2env env)) BootingAck p = Some wire"
    and "received its = wire" and "undisturbed env its st" and "protocol st = V2P v"
    and "bootable (v2env env) at z d md addr"
    and "downloading (v2env env) (bin_new (v2env env) (ucast addr) md) at z d (chunks_of z) v (rs_dev st)"
  shows "\<exists>st' call. run_steps env its st = Some (st', Jumped (JumpStub call)) \<and> boots (rs_dev st') call (ucast addr) d"
proof -
  let ?env = "v2env env" and ?h = "\<lparr>message_type = BootingAck, payload_len = length p\<rparr>"
  let ?b = "bin_new ?env (ucast addr) md"
  have rec: "received its = wire @ []"
    using assms(6) by simp
  obtain pr dev now where d: "same_protocol (protocol st) pr" "talked ?env (rs_dev st) dev"
    and go: "\<And>pr' d' j. protocol_handle_packet env pr ?h p now dev = Some (pr', d', Entered j) \<Longrightarrow>
      \<exists>st'. run_steps env its st = Some (st', Jumped j) \<and> rs_dev st' = d'"
    using clean_frame_delivered [OF assms(1-5) rec assms(7)] by fastforce
  obtain v' where v': "pr = V2P v'" "same_v2 v v'"
    using d(1) assms(8) by (auto simp: same_protocol_V2P)
  have "booting ?env (bin_relocation ?b) d v' dev"
    using downloading_same [OF assms(10) v'(2) d(2)] by (simp add: downloading_def)
  moreover have "layout_fits (ucast addr) (length d) (self_end_addr ?env) (length (stub_code ?env))"
    using assms(9) by (simp add: bootable_def)
  ultimately obtain v'' d' call m where
    "recv_booting_ack ?env v' dev = Some (v'', d', (Entered (JumpStub call) :: 'i ProtocolEnum outcome))"
    "stub_copy (unat (r2_len call)) (ram (mach d')) (r0_dst call) (r1_src call) (r2_len call) = Some m"
    "mem_read m (ucast addr) (length d) = d" "r3_entry call = ucast addr"
    using stub_boots bootable_relocation [OF assms(9)] by blast
  moreover from this(1) obtain st' where "run_steps env its st = Some (st', Jumped (JumpStub call))" "rs_dev st' = d'"
    using go [of "V2P v''" d' "JumpStub call"] v'(1) by (auto simp: protocol_handle_packet_def v2_handle_packet_def)
  ultimately show ?thesis
    by (auto simp: boots_def)
qed

lemma use_version_frame:
  fixes env :: "('h, 'i) run_env"
  assumes "env_ok (v2env env)" and "between env n [] st" and "length p \<le> n" and "length p < 2 ^ 24"
    and "encode_frame (crc_pkg (v2env env)) UseVersion p = Some wire"
    and "received its = wire @ rest" and "undisturbed env its st"
    and "protocol st = HandshakeP \<lparr>expecting = ExpectVersion\<rparr>"
    and "de_use_version (v2env env) p = Inr \<lparr>version = 2\<rparr>" and "baud_readback env 19 = 19"
  shows "\<exists>st' v its2. between env n [] st' \<and> protocol st' = V2P v \<and> state v = RequestMetadata \<and> remainder v = 0
    \<and> inflate_state v = inflate_new (v2env env) \<and> baud v = baud_rate ProtoV2 \<and> uart_baud (mach (rs_dev st')) = 19
    \<and> received its2 = rest \<and> undisturbed env its2 st' \<and> run_steps env its st = run_steps env its2 st'"
proof -
  let ?env = "v2env env" and ?h = "\<lparr>message_type = UseVersion, payload_len = length p\<rparr>"
  obtain pr dev now its2 where d: "same_protocol (protocol st) pr" "talked ?env (rs_dev st) dev" "received its2 = rest"
    and go: "\<And>pr' d' q. protocol_handle_packet env pr ?h p now dev = Some (pr', d', Status (Switch q)) \<Longrightarrow>
      dev_ok ?env d' \<Longrightarrow> proto_inv q \<Longrightarrow>
      \<exists>st'. between env n [] st' \<and> protocol st' = q \<and> rs_dev st' = d'
        \<and> run_steps env its st = run_steps env its2 st' \<and> undisturbed env its2 st'"
    using clean_frame_delivered [OF assms(1-7)] by fastforce
  obtain d1 where 1: "print_run env LogUseVersionReceived dev = Some d1" "talked ?env dev d1"
    using print_run_talks [OF talked_ok [OF d(2)]] by blast
  obtain d2 v where 2: "switch_to_v2 env 2 ProtoV2 now d1 = Some (d2, Switch (V2P v))" "shook env d1 d2"
    "uart_baud (mach d2) = 19" "state v = RequestMetadata" "baud v = baud_rate ProtoV2" "remainder v = 0"
    "inflate_state v = inflate_new ?env"
    using switch_to_v2_result [OF talked_ok [OF 1(2)], where ver = 2 and now = now] assms(10)
    by (auto split: if_splits)
  have "protocol_handle_packet env pr ?h p now dev =
      Some (HandshakeP \<lparr>expecting = ExpectVersion\<rparr>, d2, Status (Switch (V2P v)))"
    using d(1) assms(8,9) 1(1) 2(1)
    by (simp add: protocol_handle_packet_def handshake_handle_packet_def handshake_use_version_def
        supported_protocol_try_from_def)
  moreover have "dev_ok ?env d2" "proto_inv (V2P v)"
    using 2(2,4,5) by (simp_all add: shook_def proto_inv_def v2_inv_def at_baud_8n1_def)
  ultimately obtain st' where "between env n [] st'" "protocol st' = V2P v" "rs_dev st' = d2"
    "run_steps env its st = run_steps env its2 st'" "undisturbed env its2 st'"
    using go by blast
  with 2(3-) d(3) show ?thesis
    by blast
qed

lemma metadata_frames:
  fixes env :: "('h, 'i) run_env"
  assumes "env_ok (v2env env)" and "between env n [] st" and "undisturbed env its st" and "protocol st = V2P v"
    and "state v = RequestMetadata" and "remainder v = 0" and "inflate_state v = inflate_new (v2env env)"
    and "bootable (v2env env) at z d md addr"
    and "de_metadata (v2env env) p = Inr md" and "length p \<le> n" and "length p < 2 ^ 24"
    and "de_metadata_ack_ack (v2env env) q = Inr \<lparr>is_ok = True\<rparr>" and "length q \<le> n" and "length q < 2 ^ 24"
    and "encode_frame (crc_pkg (v2env env)) Metadata p = Some w1"
    and "encode_frame (crc_pkg (v2env env)) MetadataAckAck q = Some w2"
    and "received its = w1 @ w2 @ rest"
  shows "\<exists>st' v' its2. between env n [] st' \<and> protocol st' = V2P v'
    \<and> downloading (v2env env) (bin_new (v2env env) (ucast addr) md) at z d 0 v' (rs_dev st')
    \<and> received its2 = rest \<and> undisturbed env its2 st' \<and> run_steps env its st = run_steps env its2 st'"
proof -
  let ?env = "v2env env" and ?b = "bin_new (v2env env) (ucast addr) md"
  note b = assms(8) [unfolded bootable_def]
  let ?Q = "\<lambda>v d. state v = AckMetadata md \<and> remainder v = 0 \<and> inflate_state v = inflate_new ?env"
  have "\<exists>v'' d'. v2_handle_packet ?env v' \<lparr>message_type = Metadata, payload_len = length p\<rparr> p dev =
      Some (v'', d', Status (Continue :: 'i ProtocolEnum ProtocolStatus)) \<and> dev_ok ?env d' \<and> v2_inv v'' \<and> ?Q v'' d'"
    if sv: "same_v2 v v'" and tk: "talked ?env (rs_dev st) dev" and vi: "v2_inv v'" for v' dev
  proof -
    obtain d1 where d1: "println ?env (LogV2Timeouts (v1_timeouts v')) dev = Some d1" "dev_ok ?env d1"
      using println_talks [OF talked_ok [OF tk]] talked_ok by blast
    have "state v' = RequestMetadata" "at_baud_8n1 TRY_RESEND_CHUNK (baud v') \<noteq> None"
      "remainder v' = 0" "inflate_state v' = inflate_new ?env"
      using sv vi assms(5-7) by (auto simp: same_v2_def v2_inv_def)
    then show ?thesis
      using recv_metadata_answers [OF d1(2), of v' md addr] b d1(1) assms(9)
      by (auto simp: v2_handle_packet_def v2_inv_def)
  qed
  from frame_for_v2 [OF assms(1,2,10,11,15) assms(17) assms(3,4) this]
  obtain st1 v1 its1 where 1: "between env n [] st1" "protocol st1 = V2P v1" "?Q v1 (rs_dev st1)"
    "received its1 = w2 @ rest" "undisturbed env its1 st1" "run_steps env its st = run_steps env its1 st1"
    by blast
  have "\<exists>v'' d'. v2_handle_packet ?env v' \<lparr>message_type = MetadataAckAck, payload_len = length q\<rparr> q dev =
      Some (v'', d', Status (Continue :: 'i ProtocolEnum ProtocolStatus)) \<and> dev_ok ?env d' \<and> v2_inv v''
      \<and> downloading ?env ?b at z d 0 v'' d'"
    if sv: "same_v2 v1 v'" and tk: "talked ?env (rs_dev st1) dev" and vi: "v2_inv v'" for v' dev
  proof -
    have "state v' = AckMetadata md" "remainder v' = 0" "inflate_state v' = inflate_new ?env"
      using sv 1(3) by (auto simp: same_v2_def)
    then obtain v'' where "recv_metadata_ack_ack ?env v' \<lparr>is_ok = True\<rparr> dev = Some (v'', dev)"
      "downloading ?env ?b at z d 0 v'' dev"
      using recv_metadata_ack_ack_downloads [OF _ talked_ok [OF tk], of at z d v' md addr] b by blast
    moreover obtain v2 d2 where "recv_metadata_ack_ack ?env v' \<lparr>is_ok = True\<rparr> dev = Some (v2, d2)" "dev_ok ?env d2" "v2_inv v2"
      using recv_metadata_ack_ack_total [OF talked_ok [OF tk] vi] by blast
    ultimately show ?thesis
      using assms(12) by (auto simp: v2_handle_packet_def)
  qed
  from frame_for_v2 [OF assms(1) 1(1) assms(13,14,16) 1(4,5,2) this] 1(6) show ?thesis
    by auto
qed

section \<open>Properties\<close>


text \<open>A concrete loop: decoders that know one message each, and a loop between two frames.\<close>

definition demo_run :: "(u32, nat) run_env" where
  "demo_run = \<lparr>v2env = (demo_env 4)\<lparr>de_use_version := (\<lambda>_. Inr \<lparr>version = 2\<rparr>), de_metadata := (\<lambda>_. Inr demo_metadata),
       de_metadata_ack_ack := (\<lambda>_. Inr \<lparr>is_ok = True\<rparr>), de_chunk := (\<lambda>_. Inr \<lparr>which = 0, chunk_bytes = demo_data\<rparr>)\<rparr>,
     legacyenv = demo_legacy, fmt_run = (\<lambda>_. []), fmt_transitioned = (\<lambda>_. []), fmt_sp = [],
     baud_readback = (\<lambda>x. x)\<rparr>"

definition demo_state :: "Expecting \<Rightarrow> (u32, nat) run_state" where
  "demo_state e = \<lparr>rs_dev = demo_device, rx_buffer = rb_new (replicate 8 0), decoder = frame_new crc32_ops COBS_XOR,
     last_byte_received = 0, last_packet_received = 0, recv_state = Waiting False, last_sent_at = 0,
     protocol = HandshakeP \<lparr>expecting = e\<rparr>, frame_header = None\<rparr>"

definition busy :: "u8 \<Rightarrow> iteration" where
  "busy b = \<lparr>rx_byte = Some b, can_write = True, is_overrun = False, clock = (\<lambda>_. 0)\<rparr>"

lemma busy_schedule: "received (map busy bs) = bs" "undisturbed env (map busy bs) st"
proof -
  show "received (map busy bs) = bs"
    by (induction bs) (simp_all add: busy_def)
  show "undisturbed env (map busy bs) st"
    by (rule undisturbed_busy) (simp add: busy_def list_all_iff)
qed

lemma demo_run_ok: "env_ok (v2env demo_run)" "baud_readback demo_run 19 = 19" "crc_pkg (v2env demo_run) = crc32_ops"
  by (simp_all add: env_ok_def demo_run_def ser_ok_def demo_env_def)

lemma demo_between: "between demo_run 8 [] (demo_state e)"
proof -
  have "dev_ok (v2env demo_run) demo_device"
    using demo_dev_ok [of 4] by (simp add: dev_ok_def demo_run_def)
  then show ?thesis
    by (auto simp: between_def run_inv_def demo_state_def demo_run_ok rb_ok_def rb_new_def rb_contents_def proto_inv_def
        layer_defs frame_new_def ready_def)
qed

lemma demo_bootable: "bootable (v2env demo_run) (\<lambda>st i j. st = i \<and> i = j) demo_data demo_data demo_metadata 0x8000"
proof -
  have "inflates (demo_env 4) (\<lambda>st i j. st = i \<and> i = j) demo_data demo_data"
    using copying_inflates [of demo_data] by (simp add: demo_facts)
  then have "inflates (v2env demo_run) (\<lambda>st i j. st = i \<and> i = j) demo_data demo_data"
    by (simp add: inflates_def demo_run_def)
  moreover have "expects_data (v2env demo_run) demo_data demo_data demo_metadata"
    using demo_expects by (simp add: expects_data_def demo_run_def)
  ultimately show ?thesis
    by (simp add: bootable_def demo_run_def demo_facts demo_metadata_def layout_fits_def)
qed

lemma wire_of_total:
  assumes "\<forall>m \<in> set ms. length (snd m) < 2 ^ 24"
  shows "\<exists>wire. wire_of ops ms = Some wire"
  using assms
proof (induction ms)
  case (Cons m ms)
  obtain lf where "encode_length (length (snd m)) = Some lf"
    using Cons.prems by (simp add: encode_length_eq)
  then obtain w where "encode_frame ops (fst m) (snd m) = Some w"
    by (auto simp: encode_frame_def cobs_encode_stuff)
  with Cons show ?case
    by (auto simp: wire_of_Cons simp del: wire_of.simps(2))
qed simp




text \<open>
  C30. Starting up: with a transmit buffer that is not empty and not larger than a frame can be, and
  a decompression buffer large enough for two chunks, initialization succeeds, and the loop starts
  between two frames with the handshake expecting a probe.
\<close>

theorem startup_ready:
  assumes "crc_stream (crc_pkg (v2env env))" and "0 < tx" and "tx \<le> 2 ^ 24" and "0x2000 < ix"
  shows "\<exists>st. run_init env (static_buffers tx rx px ix) t1 t2 t3 m = Some st
    \<and> between env rx [] st \<and> protocol st = HandshakeP handshake_default \<and> recv_state st = Waiting True"
proof -
  let ?bufs = "static_buffers tx rx px ix"
  obtain m1 where m1: "legacy_print_string_blocking m (fmt_sp env) = Some m1"
    using print_string_blocking [of m "fmt_sp env"] by blast
  let ?fs = "sink_new (tb_new (ab_transmit ?bufs)) \<lparr>be_buffer = ab_cobs_encode ?bufs, be_xor = COBS_XOR\<rparr> (ab_staging ?bufs)"
  obtain ts where ts: "timeouts_new_8n1 INITIAL_BAUD_RATE = Some ts"
    using initial_timeouts by blast
  let ?d = "\<lparr>sink = ?fs, timeouts = ts, mach = m1, inflate_buffer = ab_inflate ?bufs\<rparr>"
  have d: "dev_ok (v2env env) ?d"
    using assms by (simp add: dev_ok_def sink_ok_def sink_new_def tb_new_def tb_inv_def capacity_def
        static_buffers_def COBS_ENCODE_BUFFER_SIZE_def)
  obtain d1 where 1: "print_run env LogStarting ?d = Some d1" "dev_ok (v2env env) d1"
    using print_run_talks [OF d] talked_ok by blast
  obtain d2 where 2: "flush_to_fifo d1 = Some d2" "dev_ok (v2env env) d2"
    using flush_talks [OF 1(2)] talked_ok by blast
  obtain d3 where 3: "print_run env (LogTimeoutConfiguration ts) d2 = Some d3" "dev_ok (v2env env) d3"
    using print_run_talks [OF 2(2)] talked_ok by blast
  show ?thesis
    using m1 ts 1(1) 2(1) 3
    by (auto simp: run_init_def Let_def between_def run_inv_def rb_new_def rb_ok_def rb_contents_def proto_inv_def
        static_buffers_def layer_defs frame_new_def ready_def)
qed

theorem startup_ready_witness:
  "crc_stream (crc_pkg (v2env demo_run))
   \<and> (\<exists>st. run_init demo_run (static_buffers 64 8 16 0x3000) 0 0 0 (demo_uart 0) = Some st
     \<and> between demo_run 8 [] st)"
  using startup_ready [of demo_run 64 "0x3000" 8 16 0 0 0 "demo_uart 0"] crc32.crc_stream_axioms
  by (auto simp: demo_run_ok)

text \<open>
  The end of a session: an idle iteration in which the time since the last packet exceeds the
  session timeout and the time since the last byte the byte timeout starts the handshake over and
  installs the timeouts of the initial rate. The rate of the UART itself stays what it was, so
  after a session that had switched to the higher rate the device expects probes at that rate.
\<close>

lemma expired_session_keeps_rate:
  assumes "run_inv env st" and "env_ok (v2env env)" and "recv_state st = Waiting i"
    and "rx_byte it = None" and "\<not> is_overrun it" and "expires it st"
  shows "\<exists>st'. run_step env it st = Some (st', Looping) \<and> run_inv env st'
    \<and> protocol st' = HandshakeP handshake_default \<and> recv_state st' = Waiting True
    \<and> Some (timeouts (rs_dev st')) = timeouts_new_8n1 INITIAL_BAUD_RATE
    \<and> uart_baud (mach (rs_dev st')) = uart_baud (mach (rs_dev st))"
proof -
  have "receiving env (protocol st) (rs_dev st) st"
    using assms(1,3) by (auto simp: receiving_def talked_def run_inv_def)
  then obtain st1 where 1: "before_receive env it st = Some st1" "receiving env (protocol st) (rs_dev st) st1"
    "recv_state st1 = recv_state st" "last_packet_received st1 = last_packet_received st"
    "last_byte_received st1 = last_byte_received st" "timeouts (rs_dev st1) = timeouts (rs_dev st)"
    using receiving_before [OF _ assms(2,5)] by blast
  have inv: "run_inv env st1" "talked (v2env env) (rs_dev st) (rs_dev st1)"
    using 1(2) by (simp_all add: receiving_def)
  let ?l = "LogSessionExpired (elapsed (last_packet_received st1) (clock it AtPacketElapsed))"
  obtain d1 d2 ts where e: "print_run env ?l (rs_dev st1) = Some d1" "flush_to_fifo d1 = Some d2"
    "timeouts_new_8n1 INITIAL_BAUD_RATE = Some ts" "talked (v2env env) (rs_dev st1) d2"
    using expiry [OF talked_ok [OF inv(2)], of ?l] by blast
  let ?st = "st1\<lparr>last_packet_received := clock it AtExpired, rs_dev := d2\<lparr>timeouts := ts\<rparr>,
    protocol := HandshakeP handshake_default, recv_state := Waiting True\<rparr>"
  have "expires it st1"
    using assms(6) unfolding expires_def 1(3-6) .
  then have "on_idle env it i st1 = Some ?st"
    using e(1-3) 1(3) assms(3) by (auto simp: on_idle_def expires_def Let_def)
  moreover have "run_inv env ?st"
    using inv(1) e(4) by (auto simp: run_inv_def talked_def dev_ok_def proto_inv_def)
  ultimately show ?thesis
    using 1(1,3) assms(3,4) e(3,4) inv(2) by (auto simp: run_step_before talked_def)
qed

theorem expired_session_keeps_rate_witness:
  "(let st = (demo_state ExpectVersion)\<lparr>rs_dev := demo_device\<lparr>mach := (mach demo_device)\<lparr>uart_baud := 19\<rparr>\<rparr>\<rparr>;
        it = \<lparr>rx_byte = None, can_write = True, is_overrun = False, clock = (\<lambda>_. 0)\<rparr>
    in \<exists>st'. run_step demo_run it st = Some (st', Looping) \<and> protocol st' = HandshakeP handshake_default
      \<and> uart_baud (mach (rs_dev st')) = 19)"
proof -
  let ?st = "(demo_state ExpectVersion)\<lparr>rs_dev := demo_device\<lparr>mach := (mach demo_device)\<lparr>uart_baud := 19\<rparr>\<rparr>\<rparr>"
  let ?it = "\<lparr>rx_byte = None, can_write = True, is_overrun = False, clock = (\<lambda>_. 0)\<rparr>"
  have "run_inv demo_run ?st"
    using demo_between [of ExpectVersion] by (auto simp: between_def run_inv_def dev_ok_def demo_state_def)
  moreover have "expires ?it ?st" "recv_state ?st = Waiting False"
    by (simp_all add: expires_def demo_state_def demo_device_def elapsed_def)
  ultimately show ?thesis
    using expired_session_keeps_rate [of demo_run ?st False ?it] demo_run_ok(1) by (auto simp: Let_def)
qed

lemma feed_xor:
  assumes "feed ops l b = Some (l', r)"
  shows "dec_xor (cobs_decoder l') = dec_xor (cobs_decoder l)"
proof -
  have poll: "dec_xor (fst (cobs_poll k b)) = dec_xor k" for k
    by (simp add: cobs_poll_def cobs_reset_def Let_def)
  have hdr: "cobs_decoder l' = cobs_decoder self" if "header_arm ops i n self st = Some (l', r)" for i n self st l' r
    using that by (auto simp: header_arm_def Let_def split: CobsState.splits if_splits sum.splits bind_splits)
  have bdy: "cobs_decoder l' = cobs_decoder self" if "body_arm ops i h self st = Some (l', r)" for i h self st l' r
    using that by (auto simp: body_arm_def Let_def split: CobsState.splits if_splits bind_splits)
  show ?thesis
    using assms poll [of "cobs_decoder l"]
    by (auto simp: feed_def feed_preamble_def feed_length_def Let_def split_def bind_eq_Some_conv
        split: FrameState.splits sum.splits PreambleStatus.splits if_splits dest!: hdr bdy)
qed

lemma length_rb_contents: "rb_ok rb \<Longrightarrow> length (rb_contents rb) = rb_cursor rb"
  by (simp add: rb_ok_def rb_contents_def)

lemma decode_error_step:
  assumes "run_inv env st" and "env_ok (v2env env)" and "recv_state st = Waiting i"
    and "rx_byte it = Some b" and "\<not> is_overrun it"
    and "feed (crc_pkg (v2env env)) (decoder st) b = Some (l, Inl e)"
  shows "\<exists>st'. run_step env it st = Some (st', Looping) \<and> run_inv env st'
    \<and> recv_state st' = ErrorState (clock it AtReceiveError) (Some (Decode e)) \<and> rx_buffer st' = rx_buffer st
    \<and> decoder st' = frame_reset (crc_pkg (v2env env)) l \<and> arrays_ok l
    \<and> same_protocol (protocol st) (protocol st') \<and> timeouts (rs_dev st') = timeouts (rs_dev st)"
proof -
  have "receiving env (protocol st) (rs_dev st) st"
    using assms(1,3) by (auto simp: receiving_def talked_def run_inv_def)
  then obtain st1 where 1: "receiving env (protocol st) (rs_dev st) st1" "decoder st1 = decoder st"
    "rx_buffer st1 = rx_buffer st" "run_step env it st = do {
      (st, res) \<leftarrow> on_byte env it b st1;
      if res \<noteq> Looping then Some (st, res)
      else Some (st\<lparr>last_byte_received := clock it AtByteReceived\<rparr>, res) }"
    using run_step_byte [OF _ assms(2,5,4)] by blast
  have "feed_ok (feed (crc_pkg (v2env env)) (decoder st) b)"
    using assms(1) by (intro feed_keeps_ok) (simp add: run_inv_def)
  then have arr: "arrays_ok l"
    using assms(6) by (simp add: feed_ok_def)
  have "result_ok env (on_byte env it b st1)"
    using on_byte_ok [of env st1 b it] 1(1,2) assms(2,6) by (simp add: receiving_def)
  then show ?thesis
    using 1 assms(6) arr by (auto simp: on_byte_def result_ok_def receiving_def talked_def)
qed

lemma recovery_step:
  assumes "run_inv env st" and "env_ok (v2env env)" and "recv_state st = ErrorState t e" and "\<not> is_overrun it"
    and "elapsed t (clock it AtRecovery) \<ge> error_recovery (timeouts (rs_dev st))"
  shows "\<exists>st'. run_step env it st = Some (st', Looping) \<and> run_inv env st' \<and> recv_state st' = Waiting False
    \<and> rx_buffer st' = rx_buffer st \<and> decoder st' = decoder st \<and> same_protocol (protocol st) (protocol st')"
proof -
  obtain st1 where 1: "before_receive env it st = Some st1" "run_inv env st1" "decoder st1 = decoder st"
    "rx_buffer st1 = rx_buffer st" "recv_state st1 = ErrorState t e" "same_protocol (protocol st) (protocol st1)"
    "talked (v2env env) (rs_dev st) (rs_dev st1)"
    using before_receive_ok [OF assms(1,2), of it] assms(3,4) by auto
  obtain d where d: "(case e of Some e \<Rightarrow> print_run env (LogReceiveError e) (rs_dev st1) | None \<Rightarrow> Some (rs_dev st1)) =
      Some d" "talked (v2env env) (rs_dev st1) d"
    using print_run_talks [OF talked_ok [OF 1(7)]] 1(7) by (cases e) (auto simp: talked_def)
  let ?st = "st1\<lparr>rs_dev := d, recv_state := Waiting False\<rparr>"
  have "on_error env it t e st1 = Some ?st"
    using d assms(5) 1(7) by (simp add: on_error_def talked_def)
  moreover have "run_inv env ?st"
    using 1(2) talked_ok [OF d(2)] by (auto simp: run_inv_def)
  ultimately show ?thesis
    using 1 by (cases "rx_byte it") (auto simp: run_step_before)
qed

text \<open>
  A decoding error leaves the payload bytes received so far in the receive buffer: after the
  recovery time they are put in front of the payload of the next frame. An intact frame with the
  host's choice of a version is then decoded together with these bytes; when that fails, the
  device falls back to the beginning of the handshake although nothing is wrong with the frame.
\<close>

lemma stale_bytes_spoil_next_frame:
  assumes "env_ok (v2env env)" and "run_inv env st" and "recv_state st = Waiting i"
    and "protocol st = HandshakeP \<lparr>expecting = ExpectVersion\<rparr>"
    and "dec_xor (cobs_decoder (decoder st)) = COBS_XOR"
    and "rx_byte it1 = Some b" and "feed (crc_pkg (v2env env)) (decoder st) b = Some (l, Inl e)"
    and "elapsed (clock it1 AtReceiveError) (clock it2 AtRecovery) \<ge> error_recovery (timeouts (rs_dev st))"
    and "encode_frame (crc_pkg (v2env env)) UseVersion p = Some (received its)"
    and "rb_cursor (rx_buffer st) + length p \<le> length (rb_storage (rx_buffer st))" and "length p < 2 ^ 24"
    and "de_use_version (v2env env) (rb_contents (rx_buffer st) @ p) = Inl err"
    and "undisturbed env (it1 # it2 # its) st"
  shows "\<exists>its1 its2 st' t. its = its1 @ its2 \<and> run_steps env (it1 # it2 # its1) st = Some (st', Looping)
    \<and> protocol st' = HandshakeP handshake_default \<and> recv_state st' = ErrorState t (Some ProtocolError)"
proof -
  let ?env = "v2env env" and ?c = "rb_contents (rx_buffer st)" and ?h = "\<lparr>message_type = UseVersion, payload_len = length p\<rparr>"
  obtain st1 where 1: "run_step env it1 st = Some (st1, Looping)" "run_inv env st1"
    "recv_state st1 = ErrorState (clock it1 AtReceiveError) (Some (Decode e))" "rx_buffer st1 = rx_buffer st"
    "decoder st1 = frame_reset (crc_pkg ?env) l" "arrays_ok l" "protocol st1 = protocol st"
    "timeouts (rs_dev st1) = timeouts (rs_dev st)"
    using decode_error_step [OF assms(2,1,3,6) _ assms(7)] assms(4,13) by auto
  obtain st2 where 2: "run_step env it2 st1 = Some (st2, Looping)" "run_inv env st2" "recv_state st2 = Waiting False"
    "rx_buffer st2 = rx_buffer st" "decoder st2 = frame_reset (crc_pkg ?env) l" "protocol st2 = protocol st"
    using recovery_step [OF 1(2) assms(1) 1(3), of it2] 1 assms(4,8,13) by auto
  have "ready (crc_pkg ?env) COBS_XOR (decoder st2)"
    using 2(5) 1(6) assms(5) feed_xor [OF assms(7)]
    by (simp add: ready_def frame_reset_def arrays_ok_def cobs_reset_def cobs_new_def)
  moreover have cur: "length ?c = rb_cursor (rx_buffer st)"
    using length_rb_contents assms(2) by (simp add: run_inv_def)
  ultimately have btw: "between env (length (rb_storage (rx_buffer st))) ?c st2"
    using 2(2-4) by (auto simp: between_def)
  have und: "undisturbed env its st2" "received its = received its @ []" "length ?c + length p \<le> length (rb_storage (rx_buffer st))"
    using assms(10,13) 1(1) 2(1) cur by simp_all
  obtain pr d now its1 its2 where f: "its = its1 @ its2" "same_protocol (protocol st2) pr" "talked ?env (rs_dev st2) d"
    and go: "\<And>pr' d'. protocol_handle_packet env pr ?h (?c @ p) now d = Some (pr', d', Status Abend) \<Longrightarrow>
      \<exists>st'. protocol st' = HandshakeP handshake_default \<and> run_steps env its1 st2 = Some (st', Looping)
        \<and> (\<exists>t. recv_state st' = ErrorState t (Some ProtocolError))"
    using frame_delivered [OF assms(1) btw und(3) assms(11,9) und(2,1)] by fastforce
  obtain d1 where d1: "print_run env LogUseVersionReceived d = Some d1" "dev_ok ?env d1"
    using print_run_talks [OF talked_ok [OF f(3)]] talked_ok by blast
  obtain d2 where d2: "print_run env (LogUseVersionMalformed err) d1 = Some d2"
    using print_run_talks [OF d1(2)] by blast
  have "protocol_handle_packet env pr ?h (?c @ p) now d =
      Some (HandshakeP \<lparr>expecting = ExpectVersion\<rparr>, d2, Status Abend)"
    using f(2) 2(6) assms(4,12) d1(1) d2
    by (simp add: protocol_handle_packet_def handshake_handle_packet_def handshake_use_version_def)
  with go f(1) 1(1) 2(1) show ?thesis
    by fastforce
qed

definition picky_run :: "(u32, nat) run_env" where
  "picky_run = demo_run\<lparr>v2env := (v2env demo_run)\<lparr>de_use_version :=
     (\<lambda>p. if p = [] then Inr \<lparr>version = 2\<rparr> else Inl ''too long'')\<rparr>\<rparr>"

definition interrupted :: "(u32, nat) run_state" where
  "interrupted = (demo_state ExpectVersion)\<lparr>rx_buffer := \<lparr>rb_storage = replicate 8 7, rb_cursor = 1\<rparr>,
     decoder := (frame_new crc32_ops COBS_XOR)\<lparr>decode_state := FsLength 0\<rparr>\<rparr>"

theorem stale_bytes_spoil_next_frame_witness:
  "de_use_version (v2env picky_run) [] = Inr \<lparr>version = 2\<rparr> \<and> rb_contents (rx_buffer interrupted) = [7]
   \<and> (\<exists>wire its1 its2 st' t. encode_frame crc32_ops UseVersion [] = Some wire \<and> map busy wire = its1 @ its2
     \<and> run_steps picky_run (busy 0 # busy 0 # its1) interrupted = Some (st', Looping)
     \<and> protocol st' = HandshakeP handshake_default \<and> recv_state st' = ErrorState t (Some ProtocolError))"
proof -
  have crc: "crc_pkg (v2env picky_run) = crc32_ops"
    using demo_run_ok(3) by (simp add: picky_run_def)
  have ok: "env_ok (v2env picky_run)"
    using demo_run_ok(1) by (simp add: picky_run_def env_ok_def)
  have inv: "run_inv picky_run interrupted"
    using demo_between [of ExpectVersion]
    by (auto simp: between_def run_inv_def picky_run_def interrupted_def demo_state_def dev_ok_def layer_defs
        rb_ok_def frame_new_def)
  have st: "recv_state interrupted = Waiting False" "protocol interrupted = HandshakeP \<lparr>expecting = ExpectVersion\<rparr>"
    "dec_xor (cobs_decoder (decoder interrupted)) = COBS_XOR" "rb_contents (rx_buffer interrupted) = [7]"
    by (simp_all add: interrupted_def demo_state_def frame_new_def cobs_new_def rb_contents_def numeral_eq_Suc)
  obtain l e where f: "feed (crc_pkg (v2env picky_run)) (decoder interrupted) 0 = Some (l, Inl e)"
    by (simp add: interrupted_def demo_state_def frame_new_def feed_def feed_length_def)
  obtain wire where w: "encode_frame crc32_ops UseVersion [] = Some wire"
    using wire_of_total [of "[(UseVersion, [])]" crc32_ops] by (auto simp: bind_eq_Some_conv)
  have "\<exists>its1 its2 st' t. map busy wire = its1 @ its2 \<and> run_steps picky_run (busy 0 # busy 0 # its1) interrupted = Some (st', Looping)
     \<and> protocol st' = HandshakeP handshake_default \<and> recv_state st' = ErrorState t (Some ProtocolError)"
  proof (rule stale_bytes_spoil_next_frame [OF ok inv st(1-3) _ f])
    show "undisturbed picky_run (busy 0 # busy 0 # map busy wire) interrupted"
      using busy_schedule(2) [of picky_run "0 # 0 # wire"] by simp
    show "de_use_version (v2env picky_run) (rb_contents (rx_buffer interrupted) @ []) = Inl ''too long''"
      using st(4) by (simp add: picky_run_def)
  qed (simp_all add: busy_def w crc busy_schedule(1) interrupted_def demo_state_def demo_device_def
      elapsed_def)
  then show ?thesis
    using w st(4) by (auto simp: picky_run_def)
qed

text \<open>
  A probe is answered: a handshake that expects a probe queues, behind what is queued already
  and its own texts, the frame with the list of the supported versions, and expects the host's
  choice next; the only condition is that the transmit buffer has room for the first text and for
  the frame.
\<close>

lemma probe_is_answered:
  assumes "dev_ok (v2env env) d" and "expecting h = ExpectProbe"
    and "\<forall>px. \<exists>px' n. ser_allowed_versions (v2env env) (allowed_versions_new [2]) px = (px', Inr n)
      \<and> n \<le> length px' \<and> take n px' = p"
    and "encode_frame (crc_pkg (v2env env)) AllowedVersions p = Some wire"
    and "length (queued (sink d)) + 8 + length (concat (fmt_run env LogProbeReceived)) + length wire
      \<le> capacity (transmit_buffer (sink d))"
  shows "\<exists>d' a b. handshake_probe env h d = Some (h\<lparr>expecting := ExpectVersion\<rparr>, d', Continue)
    \<and> queued (sink d') = queued (sink d) @ a @ wire @ b \<and> talked (v2env env) d d'"
proof -
  let ?env = "v2env env"
  note ok = assms(1) [unfolded dev_ok_def]
  obtain fs where 1: "legacy_println (sink d) (fmt_run env LogProbeReceived) = Some fs" "sink_ok fs"
    "capacity (transmit_buffer fs) = capacity (transmit_buffer (sink d))"
    "\<exists>a. queued fs = queued (sink d) @ a \<and> length a \<le> 8 + length (concat (fmt_run env LogProbeReceived))"
    using legacy_println_queued [of "sink d" "fmt_run env LogProbeReceived"] ok
    by (auto simp: sink_after_def legacy_text_def split: if_splits)
  then obtain a where a: "queued fs = queued (sink d) @ a" "length a \<le> 8 + length (concat (fmt_run env LogProbeReceived))"
    by blast
  obtain px where px: "postcard_buffer fs = Some px"
    using 1(2) by (auto simp: sink_ok_def)
  obtain px' n where ser: "ser_allowed_versions ?env (allowed_versions_new [2]) px = (px', Inr n)"
    "n \<le> length px'" "take n px' = p"
    using assms(3) by blast
  have fits: "length wire \<le> space fs"
    using assms(5) a 1(3) by (simp add: space_def)
  have "wire \<noteq> []"
    using assms(4) by (auto simp: encode_frame_def PREAMBLE_BYTES_def bind_eq_Some_conv)
  then obtain fs2 where 2: "sink_send (crc_pkg ?env) (ser_allowed_versions ?env) AllowedVersions fs (allowed_versions_new [2]) =
      Some (fs2, Inr ())" "sink_ok fs2" "queued fs2 = queued fs @ wire"
    using send_ok [of fs "crc_pkg ?env" px "ser_allowed_versions ?env" "allowed_versions_new [2]" px' n AllowedVersions]
      1(2) px ser(1,2) ok fits ser(3) assms(4)
    by (auto simp: sink_after_def frame_or_nothing_def)
  obtain fs3 b where 3: "legacy_println fs2 (fmt_run env LogAllowedVersionsSent) = Some fs3" "sink_ok fs3"
    "queued fs3 = queued fs2 @ b"
    using legacy_println_queued [OF 2(2), of "fmt_run env LogAllowedVersionsSent"] unfolding sink_after_def by blast
  show ?thesis
    using assms(1,2) 1(1) 2 3 a(1)
    by (auto simp: handshake_probe_def print_run_def SUPPORTED_PROTOCOL_VERSIONS_def talked_def dev_ok_def)
qed

theorem probe_is_answered_witness:
  "dev_ok (v2env demo_run) demo_device
   \<and> (\<exists>wire d' a b. encode_frame crc32_ops AllowedVersions [] = Some wire
     \<and> handshake_probe demo_run \<lparr>expecting = ExpectProbe\<rparr> demo_device =
         Some (\<lparr>expecting = ExpectVersion\<rparr>, d', Continue :: nat ProtocolEnum ProtocolStatus)
     \<and> queued (sink d') = a @ wire @ b)"
proof -
  have d: "dev_ok (v2env demo_run) demo_device"
    using demo_dev_ok [of 4] by (simp add: dev_ok_def demo_run_def)
  obtain wire where w: "encode_frame crc32_ops AllowedVersions [] = Some wire" "length wire \<le> 20"
  proof -
    obtain lf where lf: "encode_length 0 = Some lf" "length lf = 4"
      by (simp add: encode_length_eq)
    show ?thesis
      using that length_cobs_stuff [of "[]" "message_bytes crc32_ops AllowedVersions []"] lf
      by (simp add: encode_frame_def cobs_encode_stuff message_bytes_def Let_def)
  qed
  have "\<exists>d' a b. handshake_probe demo_run \<lparr>expecting = ExpectProbe\<rparr> demo_device =
       Some (\<lparr>expecting = ExpectProbe\<rparr>\<lparr>expecting := ExpectVersion\<rparr>, d', Continue :: nat ProtocolEnum ProtocolStatus)
     \<and> queued (sink d') = queued (sink demo_device) @ a @ wire @ b \<and> talked (v2env demo_run) demo_device d'"
    by (rule probe_is_answered [OF d, where p = "[]"])
       (use w in \<open>simp_all add: demo_run_ok demo_run_def demo_env_def demo_device_def\<close>)
  with d w(1) show ?thesis
    by (auto simp: demo_device_def)
qed

end
