(* ===== verification/Host_Upload.thy ===== *)
theory Host_Upload
  imports Frame_Correct
begin

text \<open>
  The host's side of the handshake (\<open>host/okdude/src/upload.rs\<close>) and the serial line it talks over
  (\<open>tty.rs\<close>). What reads return is a list of events: a byte, a read that times out, a broken pipe,
  another error; the end of the list is a read that does not return. A function that never returns
  to its caller ends in \<open>Exited\<close> (the process ends), \<open>Panicked\<close> or \<open>Blocked\<close>.
\<close>

section \<open>The line\<close>

datatype tty_event = Got u8 | Silence | Hangup | Fault

datatype io_error = TimedOut | OtherError

text \<open>
  \<open>tty_faults\<close> says of each coming write whether it fails, and then how many bytes were written
  before; \<open>tty_speed_ok\<close> says whether the rate can be set; \<open>tty_log\<close> are the texts printed.
\<close>

record tty =
  tty_in :: "tty_event list"
  tty_out :: "u8 list"
  tty_faults :: "nat option list"
  tty_speed_ok :: bool
  tty_baud :: u32
  tty_log :: "u8 list list"

datatype 'a run = Returned 'a | Exited | Panicked | Blocked

text \<open>\<open>read_exact\<close>: the bytes that were read, and the error that ended reading, if any.\<close>

datatype read_end = Complete | Stopped tty_event | NoMore

fun read_exact :: "nat \<Rightarrow> tty_event list \<Rightarrow> tty_event list \<times> u8 list \<times> read_end" where
  "read_exact 0 es = (es, [], Complete)"
| "read_exact (Suc n) (Got b # es) = (case read_exact n es of (es, bs, r) \<Rightarrow> (es, b # bs, r))"
| "read_exact (Suc n) (e # es) = (es, [], Stopped e)"
| "read_exact (Suc n) [] = ([], [], NoMore)"

definition io_result :: "'a \<Rightarrow> read_end \<Rightarrow> (io_error + 'a) run" where
  "io_result x r =
    (case r of
       Complete \<Rightarrow> Returned (Inr x)
     | Stopped Silence \<Rightarrow> Returned (Inl TimedOut)
     | Stopped Hangup \<Rightarrow> Exited
     | Stopped _ \<Rightarrow> Returned (Inl OtherError)
     | NoMore \<Rightarrow> Blocked)"

definition read8 :: "tty \<Rightarrow> tty \<times> (io_error + u8) run" where
  "read8 t = (case read_exact 1 (tty_in t) of (es, bs, r) \<Rightarrow> (t\<lparr>tty_in := es\<rparr>, io_result (hd bs) r))"

definition read32_le :: "tty \<Rightarrow> tty \<times> (io_error + u32) run" where
  "read32_le t =
    (case read_exact 4 (tty_in t) of
       (es, bs, r) \<Rightarrow> (t\<lparr>tty_in := es\<rparr>, io_result (the (u32_from_le_bytes bs)) r))"

definition write_all :: "tty \<Rightarrow> u8 list \<Rightarrow> tty \<times> (io_error + unit)" where
  "write_all t bs =
    (case tty_faults t of
       Some k # fs \<Rightarrow> (t\<lparr>tty_out := tty_out t @ take k bs, tty_faults := fs\<rparr>, Inl OtherError)
     | None # fs \<Rightarrow> (t\<lparr>tty_out := tty_out t @ bs, tty_faults := fs\<rparr>, Inr ())
     | [] \<Rightarrow> (t\<lparr>tty_out := tty_out t @ bs\<rparr>, Inr ()))"

text \<open>\<open>flush\<close>, which writes nothing more.\<close>

definition tty_flush :: "tty \<Rightarrow> tty \<times> (io_error + unit)" where
  "tty_flush t = write_all t []"

lemma tty_flush_ok [simp]: "tty_faults t = [] \<Longrightarrow> tty_flush t = (t, Inr ())"
  by (simp add: tty_flush_def write_all_def)

definition set_baud_rate :: "tty \<Rightarrow> u32 \<Rightarrow> tty \<times> (io_error + unit)" where
  "set_baud_rate t bd =
    (if tty_speed_ok t then (t\<lparr>tty_baud := bd\<rparr>, Inr ()) else (t, Inl OtherError))"

section \<open>Receiving during the handshake\<close>

text \<open>
  The matcher of the first loop: the next state, the preamble, or the start of a record of the
  legacy print-string command.
\<close>

datatype scan = To nat | PreambleSeen | RecordSeen

definition scan_byte :: "nat \<Rightarrow> u8 \<Rightarrow> scan" where
  "scan_byte st b =
    (if st = 0 \<and> b = 0x55 then To 1
     else if st = 1 \<and> b = 0x55 then To 2
     else if st = 2 \<and> b = 0x55 then To 3
     else if st = 3 \<and> b = 0x5e then PreambleSeen
     else if st = 3 \<and> b = 0x55 then To 3
     else if st = 0 \<and> b = 0xee then To 5
     else if st = 5 \<and> b = 0xee then To 6
     else if st = 6 \<and> b = 0xee then To 6
     else if st = 6 \<and> b = 0xdd then To 7
     else if st = 7 \<and> b = 0xdd then RecordSeen
     else To 0)"

text \<open>
  A record: its length (zero when it cannot be read) and its text, printed even when the text
  could not be read completely.
\<close>

definition read_record :: "tty \<Rightarrow> tty \<times> unit run" where
  "read_record t =
    (case read32_le t of
       (t, Returned r) \<Rightarrow>
         let len = (case r of Inr n \<Rightarrow> unat n | Inl _ \<Rightarrow> 0) in
         if len > 0 then
           (case read_exact len (tty_in t) of
              (es, bs, r) \<Rightarrow>
                if r = NoMore then (t\<lparr>tty_in := es\<rparr>, Blocked)
                else (t\<lparr>tty_in := es, tty_log := tty_log t @ [bs @ replicate (len - length bs) 0]\<rparr>, Returned ()))
         else (t, Returned ())
     | (t, Exited) \<Rightarrow> (t, Exited)
     | (t, Panicked) \<Rightarrow> (t, Panicked)
     | (t, Blocked) \<Rightarrow> (t, Blocked))"

lemma read_exact_length: "read_exact n es = (es', bs, r) \<Longrightarrow> length es' \<le> length es"
  by (induction n es arbitrary: es' bs r rule: read_exact.induct) (fastforce split: prod.splits)+

lemma read32_le_length: "read32_le t = (t', r) \<Longrightarrow> length (tty_in t') \<le> length (tty_in t)"
  by (auto simp: read32_le_def split: prod.splits dest: read_exact_length)

lemma read_record_length: "read_record t = (t', r) \<Longrightarrow> length (tty_in t') \<le> length (tty_in t)"
  by (fastforce simp: read_record_def Let_def split: prod.splits run.splits if_splits
      dest: read32_le_length read_exact_length)

lemma read8_Returned:
  assumes "read8 t = (t', r)" and "r \<noteq> Blocked"
  shows "length (tty_in t') < length (tty_in t)"
  using assms by (cases "tty_in t" rule: list.exhaust; cases "hd (tty_in t)")
    (auto simp: read8_def io_result_def numeral_eq_Suc)

text \<open>
  The first loop. \<open>late i\<close> says whether the receive timeout has passed at the \<open>i\<close>-th look at the
  clock. \<open>Inr True\<close> is the preamble, \<open>Inr False\<close> the timeout.
\<close>

function (sequential) recv_preamble ::
  "(nat \<Rightarrow> bool) \<Rightarrow> nat \<Rightarrow> nat \<Rightarrow> tty \<Rightarrow> tty \<times> (io_error + bool) run" where
  "recv_preamble late i st t =
    (if late i then (t, Returned (Inr False))
     else
       (case read8 t of
          (t1, Returned (Inl TimedOut)) \<Rightarrow> recv_preamble late (Suc i) st t1
        | (t1, Returned (Inl e)) \<Rightarrow> (t1, Returned (Inl e))
        | (t1, Returned (Inr b)) \<Rightarrow>
            (case scan_byte st b of
               To st' \<Rightarrow> recv_preamble late (Suc i) st' t1
             | PreambleSeen \<Rightarrow> (t1, Returned (Inr True))
             | RecordSeen \<Rightarrow>
                 (case read_record t1 of
                    (t2, Returned _) \<Rightarrow> recv_preamble late (Suc i) 0 t2
                  | (t2, Exited) \<Rightarrow> (t2, Exited)
                  | (t2, Panicked) \<Rightarrow> (t2, Panicked)
                  | (t2, Blocked) \<Rightarrow> (t2, Blocked)))
        | (t1, Exited) \<Rightarrow> (t1, Exited)
        | (t1, Panicked) \<Rightarrow> (t1, Panicked)
        | (t1, Blocked) \<Rightarrow> (t1, Blocked)))"
  by pat_completeness auto
termination
  by (relation "measure (\<lambda>(late, i, st, t). length (tty_in t))")
     (auto dest: read8_Returned [OF sym] read_record_length [OF sym] read8_Returned read_record_length
       intro: le_less_trans)

declare recv_preamble.simps [simp del]

datatype recv_error = RecvIo io_error | RecvTimeout | RecvFrame FrameError | SecondHeader | NoHeader
  | TooLong nat nat | LengthMismatch nat nat

text \<open>What the second loop does with the output of the frame layer.\<close>

definition recv_output ::
  "FrameHeader option \<Rightarrow> u8 list \<Rightarrow> FrameOutput
    \<Rightarrow> (FrameHeader option \<times> u8 list + (recv_error + (MessageType \<times> u8 list)) run)" where
  "recv_output header payload out =
    (case out of
       FoSkip \<Rightarrow> Inl (header, payload)
     | FoHeader hdr \<Rightarrow>
         (case header of
            Some _ \<Rightarrow> Inr (Returned (Inl SecondHeader))
          | None \<Rightarrow> Inl (Some hdr, payload))
     | FoPayload x \<Rightarrow>
         (case header of
            None \<Rightarrow> Inr (Returned (Inl NoHeader))
          | Some h \<Rightarrow>
              let payload = payload @ [x] in
              if payload_len h < length payload then Inr (Returned (Inl (TooLong (payload_len h) (length payload))))
              else Inl (header, payload))
     | FoFinished \<Rightarrow>
         (case header of
            None \<Rightarrow> Inr (Returned (Inl NoHeader))
          | Some h \<Rightarrow>
              if payload_len h \<noteq> length payload
              then Inr (Returned (Inl (LengthMismatch (payload_len h) (length payload))))
              else Inr (Returned (Inr (message_type h, payload))))
     | FoLegacy \<Rightarrow> Inr Panicked
     | FoLegacyPrintStringByte _ _ \<Rightarrow> Inr Panicked)"

function (sequential) recv_frame ::
  "'h crc_ops \<Rightarrow> (nat \<Rightarrow> bool) \<Rightarrow> nat \<Rightarrow> 'h FrameLayer \<Rightarrow> FrameHeader option \<Rightarrow> u8 list \<Rightarrow> tty
    \<Rightarrow> tty \<times> (recv_error + (MessageType \<times> u8 list)) run" where
  "recv_frame ops late i l header payload t =
    (if late i then (t, Returned (Inl RecvTimeout))
     else
       (case read8 t of
          (t1, Returned (Inl TimedOut)) \<Rightarrow> recv_frame ops late (Suc i) l header payload t1
        | (t1, Returned (Inl e)) \<Rightarrow> (t1, Returned (Inl (RecvIo e)))
        | (t1, Returned (Inr b)) \<Rightarrow>
            (case feed ops l b of
               None \<Rightarrow> (t1, Panicked)
             | Some (l1, Inl e) \<Rightarrow> (t1, Returned (Inl (RecvFrame e)))
             | Some (l1, Inr out) \<Rightarrow>
                 (case recv_output header payload out of
                    Inl (header', payload') \<Rightarrow> recv_frame ops late (Suc i) l1 header' payload' t1
                  | Inr r \<Rightarrow> (t1, r)))
        | (t1, Exited) \<Rightarrow> (t1, Exited)
        | (t1, Panicked) \<Rightarrow> (t1, Panicked)
        | (t1, Blocked) \<Rightarrow> (t1, Blocked)))"
  by pat_completeness auto
termination
  by (relation "measure (\<lambda>(ops, late, i, l, header, payload, t). length (tty_in t))")
     (auto dest: read8_Returned [OF sym] read8_Returned)

declare recv_frame.simps [simp del]

definition recv_with_print_string ::
  "'h crc_ops \<Rightarrow> (nat \<Rightarrow> bool) \<Rightarrow> (nat \<Rightarrow> bool) \<Rightarrow> tty
    \<Rightarrow> tty \<times> (recv_error + (MessageType \<times> u8 list) option) run" where
  "recv_with_print_string ops late late' t =
    (case recv_preamble late 0 0 t of
       (t, Returned (Inl e)) \<Rightarrow> (t, Returned (Inl (RecvIo e)))
     | (t, Returned (Inr False)) \<Rightarrow> (t, Returned (Inr None))
     | (t, Returned (Inr True)) \<Rightarrow>
         (case recv_frame ops late' 0 (skip_preamble (frame_new ops COBS_XOR)) None [] t of
            (t, Returned (Inl e)) \<Rightarrow> (t, Returned (Inl e))
          | (t, Returned (Inr m)) \<Rightarrow> (t, Returned (Inr (Some m)))
          | (t, Exited) \<Rightarrow> (t, Exited)
          | (t, Panicked) \<Rightarrow> (t, Panicked)
          | (t, Blocked) \<Rightarrow> (t, Blocked))
     | (t, Exited) \<Rightarrow> (t, Exited)
     | (t, Panicked) \<Rightarrow> (t, Panicked)
     | (t, Blocked) \<Rightarrow> (t, Blocked))"

section \<open>Sending\<close>

datatype send_failure = SerializeFailed string | WriteFailed

text \<open>\<open>encode\<close> and \<open>send\<close>; \<open>serialized\<close> is what \<open>postcard::to_stdvec\<close> returns for the message.\<close>

definition encode :: "'h crc_ops \<Rightarrow> MessageType \<Rightarrow> (string + u8 list) \<Rightarrow> (send_failure + u8 list) run" where
  "encode ops ty serialized =
    (case serialized of
       Inl e \<Rightarrow> Returned (Inl (SerializeFailed e))
     | Inr bs \<Rightarrow>
         (case encode_frame ops ty bs of
            None \<Rightarrow> Panicked
          | Some wire \<Rightarrow> Returned (Inr wire)))"

definition send :: "'h crc_ops \<Rightarrow> MessageType \<Rightarrow> (string + u8 list) \<Rightarrow> tty \<Rightarrow> tty \<times> (send_failure + unit) run" where
  "send ops ty serialized t =
    (case encode ops ty serialized of
       Returned (Inr wire) \<Rightarrow>
         (case write_all t wire of
            (t, Inl _) \<Rightarrow> (t, Returned (Inl WriteFailed))
          | (t, Inr _) \<Rightarrow>
              (case tty_flush t of
                 (t, Inl _) \<Rightarrow> (t, Returned (Inl WriteFailed))
               | (t, Inr _) \<Rightarrow> (t, Returned (Inr ()))))
     | Returned (Inl e) \<Rightarrow> (t, Returned (Inl e))
     | Exited \<Rightarrow> (t, Exited)
     | Panicked \<Rightarrow> (t, Panicked)
     | Blocked \<Rightarrow> (t, Blocked))"

section \<open>The handshake\<close>

text \<open>The serialization of the messages and the clock, from elsewhere.\<close>

record 'h promotion_env =
  pe_crc :: "'h crc_ops"
  ser_probe :: "string + u8 list"
  ser_use_version :: "UseVersion_msg \<Rightarrow> string + u8 list"
  de_allowed_versions :: "u8 list \<Rightarrow> string + AllowedVersions_msg"
  late_preamble :: "nat \<Rightarrow> bool"
  late_frame :: "nat \<Rightarrow> bool"

definition SUPPORTED_VERSIONS :: "u32 list" where "SUPPORTED_VERSIONS = [2]"

text \<open>The last of the allowed versions that is supported.\<close>

definition choose_version :: "u32 list \<Rightarrow> u32 option" where
  "choose_version allowed = find (\<lambda>x. x \<in> set SUPPORTED_VERSIONS) (rev allowed)"

definition announce_version ::
  "'h promotion_env \<Rightarrow> u32 \<Rightarrow> tty \<Rightarrow> tty \<times> UseVersion_msg option run" where
  "announce_version env ver t =
    (case send (pe_crc env) UseVersion (ser_use_version env \<lparr>version = ver\<rparr>) t of
       (t, Returned (Inr _)) \<Rightarrow>
         (case supported_protocol_try_from ver of
            Inl _ \<Rightarrow> (t, Panicked)
          | Inr proto \<Rightarrow>
              (case set_baud_rate t (baud_rate proto) of
                 (t, Inl _) \<Rightarrow> (t, Returned None)
               | (t, Inr _) \<Rightarrow> (t, Returned (Some \<lparr>version = ver\<rparr>))))
     | (t, Returned (Inl _)) \<Rightarrow> (t, Returned None)
     | (t, Exited) \<Rightarrow> (t, Exited)
     | (t, Panicked) \<Rightarrow> (t, Panicked)
     | (t, Blocked) \<Rightarrow> (t, Blocked))"

definition try_promotion_handshake ::
  "'h promotion_env \<Rightarrow> tty \<Rightarrow> tty \<times> UseVersion_msg option run" where
  "try_promotion_handshake env t =
    (case send (pe_crc env) Probe (ser_probe env) t of
       (t, Returned (Inl _)) \<Rightarrow> (t, Returned None)
     | (t, Returned (Inr _)) \<Rightarrow>
         (case recv_with_print_string (pe_crc env) (late_preamble env) (late_frame env) t of
            (t, Returned (Inl _)) \<Rightarrow> (t, Returned None)
          | (t, Returned (Inr None)) \<Rightarrow> (t, Returned None)
          | (t, Returned (Inr (Some (ty, payload)))) \<Rightarrow>
              if ty \<noteq> AllowedVersions then (t, Returned None)
              else
                (case de_allowed_versions env payload of
                   Inl _ \<Rightarrow> (t, Returned None)
                 | Inr av \<Rightarrow>
                     (case allowed_versions_iter av of
                        None \<Rightarrow> (t, Panicked)
                      | Some allowed \<Rightarrow>
                          (case choose_version allowed of
                             None \<Rightarrow> (t, Returned None)
                           | Some ver \<Rightarrow> announce_version env ver t)))
          | (t, Exited) \<Rightarrow> (t, Exited)
          | (t, Panicked) \<Rightarrow> (t, Panicked)
          | (t, Blocked) \<Rightarrow> (t, Blocked))
     | (t, Exited) \<Rightarrow> (t, Exited)
     | (t, Panicked) \<Rightarrow> (t, Panicked)
     | (t, Blocked) \<Rightarrow> (t, Blocked))"

text \<open>
  \<open>upload\<close> tries the promotion \<open>PROMOTION_TRIES\<close> times and then takes the legacy protocol; the two
  protocols and the echo mode that follows are arguments.
\<close>

definition PROMOTION_TRIES :: nat where "PROMOTION_TRIES = 1"

datatype Mode = LegacyMode | Okdude UseVersion_msg

fun negotiate :: "(nat \<Rightarrow> 'h promotion_env) \<Rightarrow> nat \<Rightarrow> tty \<Rightarrow> tty \<times> Mode run" where
  "negotiate envs 0 t = (t, Returned LegacyMode)"
| "negotiate envs (Suc n) t =
    (case try_promotion_handshake (envs n) t of
       (t, Returned (Some v)) \<Rightarrow> (t, Returned (Okdude v))
     | (t, Returned None) \<Rightarrow> negotiate envs n t
     | (t, Exited) \<Rightarrow> (t, Exited)
     | (t, Panicked) \<Rightarrow> (t, Panicked)
     | (t, Blocked) \<Rightarrow> (t, Blocked))"

definition upload_with ::
  "(nat \<Rightarrow> 'h promotion_env) \<Rightarrow> (tty \<Rightarrow> tty \<times> ('e + unit) run) \<Rightarrow> (tty \<Rightarrow> tty \<times> ('e + unit) run)
    \<Rightarrow> (tty \<Rightarrow> tty \<times> ('e + unit) run) \<Rightarrow> tty \<Rightarrow> tty \<times> ('e + unit) run" where
  "upload_with envs suboot_run v2_upload echo t =
    (case negotiate envs PROMOTION_TRIES t of
       (t, Returned mode) \<Rightarrow>
         (case (case mode of LegacyMode \<Rightarrow> suboot_run t | Okdude _ \<Rightarrow> v2_upload t) of
            (t, Returned (Inr _)) \<Rightarrow> echo t
          | r \<Rightarrow> r)
     | (t, Exited) \<Rightarrow> (t, Exited)
     | (t, Panicked) \<Rightarrow> (t, Panicked)
     | (t, Blocked) \<Rightarrow> (t, Blocked))"

section \<open>Reading past polls and texts\<close>

text \<open>What a waiting device sends: polls for a legacy host, and texts.\<close>

datatype noise = Poll | Text "u8 list"

fun noise_bytes :: "noise \<Rightarrow> u8 list" where
  "noise_bytes Poll = [0x22, 0x22, 0x11, 0x11]"
| "noise_bytes (Text bs) =
    u32_to_le_bytes (command_code CmdPrintString) @ u32_to_le_bytes (of_nat (length bs)) @ bs"

fun printed :: "noise \<Rightarrow> u8 list list" where
  "printed Poll = []"
| "printed (Text bs) = (if bs = [] then [] else [bs])"

definition short_texts :: "noise list \<Rightarrow> bool" where
  "short_texts ns \<longleftrightarrow> (\<forall>bs. Text bs \<in> set ns \<longrightarrow> length bs < 2 ^ 32)"

lemma read_exact_Got [simp]:
  "read_exact (length bs) (map Got bs @ es) = (es, bs, Complete)"
  by (induction bs) simp_all

lemma read8_Got [simp]: "tty_in t = Got b # es \<Longrightarrow> read8 t = (t\<lparr>tty_in := es\<rparr>, Returned (Inr b))"
  by (simp add: read8_def io_result_def numeral_eq_Suc)

lemma read32_le_Got:
  assumes "tty_in t = map Got (u32_to_le_bytes n) @ es"
  shows "read32_le t = (t\<lparr>tty_in := es\<rparr>, Returned (Inr n))"
  using read_exact_Got [of "u32_to_le_bytes n" es] assms by (simp add: read32_le_def io_result_def)

lemma read_record_Got:
  assumes "tty_in t = map Got (u32_to_le_bytes (of_nat (length bs)) @ bs) @ es" and "length bs < 2 ^ 32"
  shows "read_record t = (t\<lparr>tty_in := es, tty_log := tty_log t @ printed (Text bs)\<rparr>, Returned ())"
proof -
  have len: "unat (of_nat (length bs) :: u32) = length bs"
    using assms(2) by (simp add: unat_of_nat take_bit_nat_eq_self)
  have "read32_le t = (t\<lparr>tty_in := map Got bs @ es\<rparr>, Returned (Inr (of_nat (length bs))))"
    using read32_le_Got [of t "of_nat (length bs)" "map Got bs @ es"] assms(1) by simp
  then show ?thesis
    using read_exact_Got [of bs es] by (auto simp: read_record_def len)
qed

lemma recv_preamble_Got:
  assumes "tty_in t = Got b # es" and "\<not> late i" and "scan_byte st b = To st'"
  shows "recv_preamble late i st t = recv_preamble late (Suc i) st' (t\<lparr>tty_in := es\<rparr>)"
  using assms by (subst recv_preamble.simps) simp

lemma recv_preamble_skip:
  assumes "tty_in t = map Got bs @ es" and "\<And>i. \<not> late i" and "\<forall>b \<in> set bs. scan_byte 0 b = To 0"
  shows "recv_preamble late i 0 t = recv_preamble late (i + length bs) 0 (t\<lparr>tty_in := es\<rparr>)"
  using assms(1,3)
proof (induction bs arbitrary: t i)
  case Nil
  then show ?case
    by (cases t) auto
next
  case (Cons b bs)
  then have "recv_preamble late i 0 t = recv_preamble late (Suc i) 0 (t\<lparr>tty_in := map Got bs @ es\<rparr>)"
    using assms(2) by (intro recv_preamble_Got) auto
  with Cons show ?case
    by simp
qed

text \<open>The preamble is found behind any polls and texts, and the texts are printed.\<close>

lemma recv_preamble_noise:
  assumes "tty_in t = map Got (concat (map noise_bytes ns) @ PREAMBLE_BYTES) @ es" and "\<And>i. \<not> late i"
    and "short_texts ns"
  shows "recv_preamble late i 0 t =
    (t\<lparr>tty_in := es, tty_log := tty_log t @ concat (map printed ns)\<rparr>, Returned (Inr True))"
  using assms(1,3)
proof (induction ns arbitrary: t i)
  case Nil
  have "recv_preamble late i 0 t = recv_preamble late (i + 3) 3 (t\<lparr>tty_in := Got 0x5e # es\<rparr>)"
    using Nil assms(2) by (simp add: PREAMBLE_BYTES_def recv_preamble_Got scan_byte_def numeral_eq_Suc)
  also have "\<dots> = (t\<lparr>tty_in := es\<rparr>, Returned (Inr True))"
    using assms(2) by (subst recv_preamble.simps) (simp add: scan_byte_def)
  finally show ?case
    by simp
next
  case (Cons n ns)
  let ?es = "map Got (concat (map noise_bytes ns) @ PREAMBLE_BYTES) @ es"
  have short: "short_texts ns"
    using Cons.prems(2) by (simp add: short_texts_def)
  show ?case
  proof (cases n)
    case Poll
    have skip: "\<forall>b \<in> set (noise_bytes Poll). scan_byte 0 b = To 0"
      by (simp add: scan_byte_def)
    have "recv_preamble late i 0 t =
        recv_preamble late (i + length (noise_bytes Poll)) 0 (t\<lparr>tty_in := ?es\<rparr>)"
      by (rule recv_preamble_skip [OF _ assms(2) skip]) (use Cons.prems(1) Poll in simp)
    then show ?thesis
      using Cons.IH [of "t\<lparr>tty_in := ?es\<rparr>" "i + length (noise_bytes Poll)"] short Poll by simp
  next
    case (Text bs)
    let ?r = "map Got (u32_to_le_bytes (of_nat (length bs)) @ bs) @ ?es"
    have cmd: "u32_to_le_bytes 0xddddeeee = [0xee, 0xee, 0xdd, 0xdd]"
      by (simp add: u32_to_le_bytes_def)
    have scans: "scan_byte 0 0xee = To 5" "scan_byte 5 0xee = To 6" "scan_byte 6 0xdd = To 7"
      by (simp_all add: scan_byte_def)
    have "recv_preamble late i 0 t = recv_preamble late (Suc (Suc (Suc i))) 7 (t\<lparr>tty_in := Got 0xdd # ?r\<rparr>)"
      using Cons.prems(1) assms(2) Text by (simp add: cmd recv_preamble_Got scans)
    also have "\<dots> = recv_preamble late (Suc (Suc (Suc (Suc i)))) 0
        (t\<lparr>tty_in := ?es, tty_log := tty_log t @ printed (Text bs)\<rparr>)"
      using read_record_Got [of "t\<lparr>tty_in := ?r\<rparr>" bs ?es] Cons.prems(2) assms(2) Text
      by (subst recv_preamble.simps) (simp add: scan_byte_def short_texts_def)
    finally show ?thesis
      using Cons.IH [of "t\<lparr>tty_in := ?es, tty_log := tty_log t @ printed (Text bs)\<rparr>" "Suc (Suc (Suc (Suc i)))"]
        short Text by simp
  qed
qed

section \<open>Reading a frame\<close>

lemma feed_all_appendD:
  assumes "feed_all ops l (bs @ cs) = Some (l2, Inr outs)"
  shows "\<exists>l1 o1 o2. feed_all ops l bs = Some (l1, Inr o1) \<and> feed_all ops l1 cs = Some (l2, Inr o2) \<and> outs = o1 @ o2"
  using assms
proof (induction bs arbitrary: l outs)
  case (Cons b bs)
  then obtain l1 out outs' where f: "feed ops l b = Some (l1, Inr out)" "feed_all ops l1 (bs @ cs) = Some (l2, Inr outs')"
    "outs = out # outs'"
    by (auto split: bind_splits sum.splits)
  from Cons.IH [OF f(2)] f(1,3) show ?case
    by auto
qed simp

fun recv_outputs :: "FrameHeader option \<Rightarrow> u8 list \<Rightarrow> FrameOutput list \<Rightarrow> (FrameHeader option \<times> u8 list) option" where
  "recv_outputs h p [] = Some (h, p)"
| "recv_outputs h p (out # outs) =
    (case recv_output h p out of
       Inl (h, p) \<Rightarrow> recv_outputs h p outs
     | Inr _ \<Rightarrow> None)"

lemma recv_outputs_visible: "recv_outputs h p (visible outs) = recv_outputs h p outs"
  by (induction outs arbitrary: h p)
     (auto simp: visible_def recv_output_def split: FrameOutput.splits sum.splits option.splits)

lemma recv_outputs_payload:
  "length q + length p \<le> payload_len h \<Longrightarrow>
    recv_outputs (Some h) q (map FoPayload p) = Some (Some h, q @ p)"
  by (induction p arbitrary: q) (simp_all add: recv_output_def)

lemma recv_frame_feeds:
  assumes "feed_all ops l bs = Some (l', Inr outs)" and "recv_outputs h p outs = Some (h', p')"
    and "tty_in t = map Got bs @ es" and "\<And>i. \<not> late i"
  shows "recv_frame ops late i l h p t = recv_frame ops late (i + length bs) l' h' p' (t\<lparr>tty_in := es\<rparr>)"
  using assms(1-3)
proof (induction bs arbitrary: l h p t i outs)
  case (Cons b bs)
  then obtain l1 out outs' where f: "feed ops l b = Some (l1, Inr out)" "feed_all ops l1 bs = Some (l', Inr outs')"
    "outs = out # outs'"
    by (auto split: bind_splits sum.splits)
  then obtain h1 p1 where o: "recv_output h p out = Inl (h1, p1)" "recv_outputs h1 p1 outs' = Some (h', p')"
    using Cons.prems(2) by (auto split: sum.splits)
  have "recv_frame ops late i l h p t = recv_frame ops late (Suc i) l1 h1 p1 (t\<lparr>tty_in := map Got bs @ es\<rparr>)"
    using Cons.prems(3) assms(4) f(1) o(1) by (subst recv_frame.simps) simp
  then show ?case
    using Cons.IH [OF f(2) o(2), of "t\<lparr>tty_in := map Got bs @ es\<rparr>" "Suc i"] by simp
next
  case Nil
  then show ?case
    by (cases t) auto
qed

lemma recv_frame_message:
  assumes "crc_stream ops" and "encode_frame ops ty p = Some (PREAMBLE_BYTES @ body)" and "length p < 2 ^ 24"
    and "tty_in t = map Got body @ es" and "\<And>i. \<not> late i"
  shows "recv_frame ops late 0 (skip_preamble (frame_new ops COBS_XOR)) None [] t =
    (t\<lparr>tty_in := es\<rparr>, Returned (Inr (ty, p)))"
proof -
  let ?h = "\<lparr>message_type = ty, payload_len = length p\<rparr>"
  obtain l' outs where rt: "feed_all ops (frame_new ops COBS_XOR) (PREAMBLE_BYTES @ body) = Some (l', Inr (outs @ [FoFinished]))"
    "visible outs @ [FoFinished] = frame_outputs ty p"
    using frame_roundtrip [OF assms(1) ready_new assms(3), of ty] assms(2) by auto
  have pre: "feed_all ops (frame_new ops COBS_XOR) PREAMBLE_BYTES =
      Some (skip_preamble (frame_new ops COBS_XOR), Inr [FoSkip, FoSkip, FoSkip, FoSkip])"
    using feed_preamble_bytes [OF ready_new, of ops COBS_XOR] by (simp add: skip_preamble_def)
  obtain o2 where o2: "feed_all ops (skip_preamble (frame_new ops COBS_XOR)) body = Some (l', Inr o2)"
    "outs @ [FoFinished] = [FoSkip, FoSkip, FoSkip, FoSkip] @ o2"
    using feed_all_appendD [OF rt(1)] pre by auto
  then obtain o3 where o3: "o2 = o3 @ [FoFinished]" "outs = [FoSkip, FoSkip, FoSkip, FoSkip] @ o3"
    by (cases o2 rule: rev_cases) auto
  have vis: "visible o3 = FoHeader ?h # map FoPayload p"
    using rt(2) o3(2) by (simp add: frame_outputs_def)
  have outs: "recv_outputs None [] o3 = Some (Some ?h, p)"
    unfolding recv_outputs_visible [of None "[]" o3, symmetric] vis
    by (simp add: recv_output_def recv_outputs_payload)
  obtain as b l1 where snoc: "body = as @ [b]" "feed_all ops (skip_preamble (frame_new ops COBS_XOR)) as = Some (l1, Inr o3)"
    "feed ops l1 b = Some (l', Inr FoFinished)"
    using feed_all_snoc o2(1) o3(1) by blast
  have "recv_frame ops late 0 (skip_preamble (frame_new ops COBS_XOR)) None [] t =
      recv_frame ops late (length as) l1 (Some ?h) p (t\<lparr>tty_in := Got b # es\<rparr>)"
    using recv_frame_feeds [OF snoc(2) outs, of t "Got b # es" late 0] assms(4,5) snoc(1) by simp
  also have "\<dots> = (t\<lparr>tty_in := es\<rparr>, Returned (Inr (ty, p)))"
    using assms(5) snoc(3) by (subst recv_frame.simps) (simp add: recv_output_def)
  finally show ?thesis .
qed

lemma encode_frame_preamble: "encode_frame ops ty p = Some wire \<Longrightarrow> \<exists>body. wire = PREAMBLE_BYTES @ body"
  by (auto simp: encode_frame_def bind_eq_Some_conv)

lemma recv_message:
  assumes "crc_stream ops" and "encode_frame ops ty p = Some wire" and "length p < 2 ^ 24" and "short_texts ns"
    and "tty_in t = map Got (concat (map noise_bytes ns) @ wire) @ es" and "\<And>i. \<not> late i" and "\<And>i. \<not> late' i"
  shows "recv_with_print_string ops late late' t =
    (t\<lparr>tty_in := es, tty_log := tty_log t @ concat (map printed ns)\<rparr>, Returned (Inr (Some (ty, p))))"
proof -
  obtain body where body: "wire = PREAMBLE_BYTES @ body"
    using encode_frame_preamble assms(2) by blast
  let ?t = "t\<lparr>tty_in := map Got body @ es, tty_log := tty_log t @ concat (map printed ns)\<rparr>"
  have "recv_preamble late 0 0 t = (?t, Returned (Inr True))"
    using recv_preamble_noise [of t ns "map Got body @ es" late 0] assms(4-6) body by simp
  moreover have "recv_frame ops late' 0 (skip_preamble (frame_new ops COBS_XOR)) None [] ?t =
      (?t\<lparr>tty_in := es\<rparr>, Returned (Inr (ty, p)))"
    using recv_frame_message [OF assms(1) _ assms(3), of ty body ?t es late'] assms(2,7) body by simp
  ultimately show ?thesis
    by (simp add: recv_with_print_string_def)
qed

lemma find_eq_elem: "find (\<lambda>x. x = a) xs = (if a \<in> set xs then Some a else None)"
  by (induction xs) auto

section \<open>Properties\<close>

text \<open>
  C31. The host's handshake against a waiting device: when the bytes that come in are any polls and
  texts followed by the frame with the list of allowed versions, none of the reads being late, and
  the line works, the host has sent the frames of the probe and of its choice of version 2, has
  printed the texts, has switched to the rate of that version and reports the choice; and when
  version 2 is not in the list, it sends nothing but the probe, keeps the rate and reports that
  there is no choice.
\<close>

theorem promotion_negotiates:
  assumes "crc_stream (pe_crc env)" and "ser_probe env = Inr pb" and "length pb < 2 ^ 24"
    and "ser_use_version env \<lparr>version = 2\<rparr> = Inr ub" and "length ub < 2 ^ 24"
    and "de_allowed_versions env p = Inr (allowed_versions_new vs)" and "length p < 2 ^ 24"
    and "encode_frame (pe_crc env) AllowedVersions p = Some wire" and "short_texts ns"
    and "tty_in t = map Got (concat (map noise_bytes ns) @ wire) @ es"
    and "\<forall>i. \<not> late_preamble env i" and "\<forall>i. \<not> late_frame env i"
    and "tty_faults t = []" and "tty_speed_ok t"
  shows "\<exists>probe choice. encode_frame (pe_crc env) Probe pb = Some probe
    \<and> encode_frame (pe_crc env) UseVersion ub = Some choice
    \<and> (let t' = t\<lparr>tty_in := es, tty_log := tty_log t @ concat (map printed ns)\<rparr> in
       try_promotion_handshake env t =
         (if 2 \<in> set vs
          then (t'\<lparr>tty_out := tty_out t @ probe @ choice, tty_baud := 1500000\<rparr>, Returned (Some \<lparr>version = 2\<rparr>))
          else (t'\<lparr>tty_out := tty_out t @ probe\<rparr>, Returned None)))"
proof -
  obtain probe where probe: "encode_frame (pe_crc env) Probe pb = Some probe"
    using frame_roundtrip [OF assms(1) ready_new assms(3), of Probe] by blast
  obtain choice where choice: "encode_frame (pe_crc env) UseVersion ub = Some choice"
    using frame_roundtrip [OF assms(1) ready_new assms(5), of UseVersion] by blast
  have iter: "allowed_versions_iter (allowed_versions_new vs) = Some vs"
    by (simp add: allowed_versions_iter_def allowed_versions_new_def allowed_versions_step [of _ "[]"])
  have pick: "choose_version vs = (if 2 \<in> set vs then Some 2 else None)"
    by (simp add: choose_version_def SUPPORTED_VERSIONS_def find_eq_elem)
  let ?t1 = "t\<lparr>tty_out := tty_out t @ probe\<rparr>"
  have sent: "send (pe_crc env) Probe (ser_probe env) t = (?t1, Returned (Inr ()))"
    using assms(2,13) probe by (simp add: send_def encode_def write_all_def)
  note recv = recv_message [OF assms(1,8,7,9), of ?t1 es "late_preamble env" "late_frame env"]
  show ?thesis
    using probe choice sent recv assms(4,6,10-14) iter pick
    by (auto simp: try_promotion_handshake_def announce_version_def send_def encode_def write_all_def
        supported_protocol_try_from_def set_baud_rate_def Let_def)
qed


definition demo_promotion :: "u32 promotion_env" where
  "demo_promotion = \<lparr>pe_crc = crc32_ops, ser_probe = Inr [], ser_use_version = (\<lambda>u. Inr [2]),
    de_allowed_versions = (\<lambda>bs. Inr (allowed_versions_new [2])), late_preamble = (\<lambda>i. False),
    late_frame = (\<lambda>i. False)\<rparr>"

definition demo_line :: "u8 list \<Rightarrow> tty" where
  "demo_line bs = \<lparr>tty_in = map Got bs, tty_out = [], tty_faults = [], tty_speed_ok = True,
    tty_baud = 115200, tty_log = []\<rparr>"

theorem promotion_negotiates_witness:
  "\<exists>wire probe choice. encode_frame crc32_ops AllowedVersions [1, 2] = Some wire
    \<and> encode_frame crc32_ops Probe [] = Some probe \<and> encode_frame crc32_ops UseVersion [2] = Some choice
    \<and> try_promotion_handshake demo_promotion (demo_line ([0x22, 0x22, 0x11, 0x11] @ wire)) =
        ((demo_line [])\<lparr>tty_out := probe @ choice, tty_baud := 1500000\<rparr>, Returned (Some \<lparr>version = 2\<rparr>))"
proof -
  obtain wire where wire: "encode_frame crc32_ops AllowedVersions [1, 2] = Some wire"
    using frame_roundtrip [OF crc32.crc_stream_axioms ready_new, of "[1, 2]" AllowedVersions] by auto
  show ?thesis
    using promotion_negotiates [of demo_promotion "[]" "[2]" "[1, 2]" "[2]" wire "[Poll]"
        "demo_line ([0x22, 0x22, 0x11, 0x11] @ wire)" "[]"] crc32.crc_stream_axioms wire
    by (simp add: demo_promotion_def demo_line_def short_texts_def)
qed

end
