(* ===== verification/Args.thy ===== *)
theory Args
  imports Machine
begin

text \<open>
  The arguments of a program: the host writes them into a section of the ELF file
  (\<open>serialize_args\<close> in \<open>host/okdude/src/v2.rs\<close>), the kernel reads them back (\<open>get_nth_arg\<close> in
  \<open>device/bismuth/src/lib.rs\<close>). Strings are their bytes.
\<close>

section \<open>Writing and reading\<close>

definition pad_len :: "nat \<Rightarrow> nat" where "pad_len n = 4 - n mod 4"

fun serialize_each :: "u8 list list \<Rightarrow> u8 list" where
  "serialize_each [] = []"
| "serialize_each (a # as) =
    u32_to_le_bytes (of_nat (length a)) @ a @ replicate (pad_len (length a)) 0 @ serialize_each as"

definition serialize_args :: "u8 list list \<Rightarrow> u8 list" where
  "serialize_args as = u32_to_le_bytes (of_nat (length as)) @ serialize_each as"

text \<open>\<open>core::str::from_utf8\<close> as a test.\<close>

definition utf8_cont :: "u8 \<Rightarrow> bool" where "utf8_cont b \<longleftrightarrow> 0x80 \<le> b \<and> b \<le> 0xbf"

definition utf8_second :: "u8 \<Rightarrow> u8 \<Rightarrow> bool" where
  "utf8_second a b \<longleftrightarrow> utf8_cont b \<and> (a = 0xe0 \<longrightarrow> 0xa0 \<le> b) \<and> (a = 0xed \<longrightarrow> b \<le> 0x9f)
    \<and> (a = 0xf0 \<longrightarrow> 0x90 \<le> b) \<and> (a = 0xf4 \<longrightarrow> b \<le> 0x8f)"

fun utf8_valid :: "u8 list \<Rightarrow> bool" where
  "utf8_valid [] = True"
| "utf8_valid (a # as) =
    (if a < 0x80 then utf8_valid as
     else if 0xc2 \<le> a \<and> a \<le> 0xdf then
       (case as of b # bs \<Rightarrow> utf8_cont b \<and> utf8_valid bs | _ \<Rightarrow> False)
     else if 0xe0 \<le> a \<and> a \<le> 0xef then
       (case as of b # c # bs \<Rightarrow> utf8_second a b \<and> utf8_cont c \<and> utf8_valid bs | _ \<Rightarrow> False)
     else if 0xf0 \<le> a \<and> a \<le> 0xf4 then
       (case as of b # c # d # bs \<Rightarrow> utf8_second a b \<and> utf8_cont c \<and> utf8_cont d \<and> utf8_valid bs | _ \<Rightarrow> False)
     else False)"

text \<open>The kernel's side; addresses have 32 bits, and \<open>None\<close> is a panic.\<close>

definition word_at :: "u8 list \<Rightarrow> u32 \<Rightarrow> u32 option" where
  "word_at mem j = do {
     bs \<leftarrow> subslice mem (unat j) (unat (j + 4));
     u32_from_le_bytes bs
   }"

definition arg_count :: "u8 list \<Rightarrow> u32 option" where
  "arg_count mem = word_at mem 0"

fun skip_args :: "u8 list \<Rightarrow> nat \<Rightarrow> u32 \<Rightarrow> u32 option" where
  "skip_args mem 0 j = Some j"
| "skip_args mem (Suc n) j = do {
     len \<leftarrow> word_at mem j;
     skip_args mem n (j + (4 + ((len + 3) AND NOT 3)))
   }"

definition get_nth_arg :: "u8 list \<Rightarrow> u32 \<Rightarrow> u8 list option option" where
  "get_nth_arg mem i = do {
     count \<leftarrow> arg_count mem;
     if i \<ge> count then Some None
     else do {
       j \<leftarrow> skip_args mem (unat i) 4;
       len \<leftarrow> word_at mem j;
       s \<leftarrow> subslice mem (unat (j + 4)) (unat (j + 4 + len));
       _ \<leftarrow> assertion (utf8_valid s);
       Some (Some s)
     }
   }"

section \<open>Lemmas\<close>

text \<open>The reader skips to a multiple of four, the writer pads up to the next one.\<close>

lemma round_up_word:
  assumes "n + 3 < 2 ^ 32"
  shows "(of_nat n + 3 :: u32) AND NOT 3 = of_nat ((n + 3) div 4 * 4)"
proof -
  have m: "(NOT 3 :: u32) = NOT (mask 2)"
    by (simp add: mask_eq_exp_minus_1)
  have "unat (of_nat n + 3 :: u32) = n + 3"
    using assms by (simp add: unat_word_ariths unat_of_nat take_bit_nat_eq_self)
  moreover have "unat (of_nat ((n + 3) div 4 * 4) :: u32) = (n + 3) div 4 * 4"
    unfolding unat_of_nat by (rule mod_less) (use assms in \<open>simp; linarith\<close>)
  ultimately show ?thesis
    unfolding m word_unat_eq_iff unat_and_not_mask by simp
qed

lemma round_up_pad: "n mod 4 \<noteq> 0 \<Longrightarrow> (n + 3) div 4 * 4 = n + pad_len n"
  unfolding pad_len_def by presburger

lemma length_serialize_each_mod: "length (serialize_each as) mod 4 = 0"
proof (induction as)
  case (Cons a as)
  have "(4 + (length a + (pad_len (length a) + length (serialize_each as)))) mod 4 = 0"
    using Cons unfolding pad_len_def by presburger
  then show ?case
    by simp
qed simp

lemma word_at_append:
  assumes "length pre + 4 < 2 ^ 32"
  shows "word_at (pre @ u32_to_le_bytes w @ rest) (of_nat (length pre)) = Some w"
proof -
  have "unat (of_nat (length pre) :: u32) = length pre" "unat (of_nat (length pre) + 4 :: u32) = length pre + 4"
    using assms by (simp_all add: unat_word_ariths unat_of_nat take_bit_nat_eq_self)
  then show ?thesis
    by (simp add: word_at_def)
qed

lemma skip_args_serialized:
  assumes "\<forall>d \<in> set ds. length d mod 4 \<noteq> 0" and "length mem < 2 ^ 32"
    and "mem = pre @ serialize_each (ds @ es) @ rest"
  shows "skip_args mem (length ds) (of_nat (length pre)) = Some (of_nat (length (pre @ serialize_each ds)))"
  using assms
proof (induction ds arbitrary: pre)
  case (Cons d ds)
  let ?l = "u32_to_le_bytes (of_nat (length d))" and ?p = "replicate (pad_len (length d)) 0"
  have mem: "mem = (pre @ ?l @ d @ ?p) @ serialize_each (ds @ es) @ rest"
    "mem = pre @ ?l @ d @ ?p @ serialize_each (ds @ es) @ rest"
    using Cons.prems(3) by simp_all
  have w: "word_at mem (of_nat (length pre)) = Some (of_nat (length d))"
    unfolding mem(2) by (rule word_at_append) (use Cons.prems(2) mem(2) in \<open>simp add: pad_len_def\<close>)
  have len: "length d + 3 < 2 ^ 32"
    using Cons.prems(2) mem(2) by simp
  have "(of_nat (length d) + 3 :: u32) AND NOT 3 = of_nat (length d + pad_len (length d))"
    using round_up_word [OF len] round_up_pad [of "length d"] Cons.prems(1) by simp
  then have j: "of_nat (length pre) + (4 + ((of_nat (length d) + 3 :: u32) AND NOT 3)) = of_nat (length (pre @ ?l @ d @ ?p))"
    by (simp add: add.assoc)
  show ?case
    using w Cons.IH [OF _ Cons.prems(2) mem(1)] Cons.prems(1) unfolding j [symmetric] by (simp add: j)
qed simp

section \<open>Properties\<close>

text \<open>
  C35. Arguments arrive: when the section starts with the bytes the host has written, the kernel
  reads the number of arguments and gets the argument at every position, as long as none of the
  arguments in front of it has a length that is a multiple of four.
\<close>

theorem args_roundtrip:
  assumes "mem = serialize_args as @ rest" and "length mem < 2 ^ 32" and "i < length as"
    and "utf8_valid (as ! i)" and "\<forall>k < i. length (as ! k) mod 4 \<noteq> 0"
  shows "arg_count mem = Some (of_nat (length as)) \<and> get_nth_arg mem (of_nat i) = Some (Some (as ! i))"
proof -
  let ?c = "u32_to_le_bytes (of_nat (length as))" and ?a = "as ! i"
  have as: "as = take i as @ ?a # drop (Suc i) as"
    by (rule id_take_nth_drop [OF assms(3)])
  have le: "length bs \<le> length (serialize_each bs)" for bs
    by (induction bs) simp_all
  have len: "length as < 2 ^ 32" "i < 2 ^ 32"
    using assms(1-3) le [of as] by (simp_all add: serialize_args_def)
  have mem: "mem = ?c @ serialize_each (take i as @ ?a # drop (Suc i) as) @ rest"
    using assms(1) as by (simp add: serialize_args_def)
  let ?pre = "?c @ serialize_each (take i as)"
  have app: "serialize_each (xs @ ys) = serialize_each xs @ serialize_each ys" for xs ys
    by (induction xs) simp_all
  have mem2: "mem = ?pre @ u32_to_le_bytes (of_nat (length ?a)) @ ?a
      @ replicate (pad_len (length ?a)) 0 @ serialize_each (drop (Suc i) as) @ rest"
    using mem by (simp add: app)
  have count: "arg_count mem = Some (of_nat (length as))"
    using word_at_append [of "[]" "of_nat (length as)"] mem by (simp add: arg_count_def)
  have odd: "\<forall>d \<in> set (take i as). length d mod 4 \<noteq> 0"
    using assms(3,5) by (auto simp: in_set_conv_nth)
  have skip: "skip_args mem i 4 = Some (of_nat (length ?pre))"
    using skip_args_serialized [OF odd assms(2) mem] assms(3) by simp
  have bound: "length ?pre + 4 + length ?a < 2 ^ 32"
    using assms(2) mem2 by simp
  have w: "word_at mem (of_nat (length ?pre)) = Some (of_nat (length ?a))"
    unfolding mem2 by (rule word_at_append) (use bound in simp)
  have addr: "unat (of_nat (length ?pre) + 4 :: u32) = length ?pre + 4"
    "unat (of_nat (length ?pre) + 4 + of_nat (length ?a) :: u32) = length ?pre + 4 + length ?a"
    using bound by (simp_all add: unat_word_ariths unat_of_nat take_bit_nat_eq_self)
  have "subslice mem (length ?pre + 4) (length ?pre + 4 + length ?a) = Some ?a"
    unfolding mem2 by simp
  moreover have "\<not> (of_nat i :: u32) \<ge> of_nat (length as)" "unat (of_nat i :: u32) = i"
    using len assms(3) by (simp_all add: word_less_nat_alt unat_of_nat take_bit_nat_eq_self not_le)
  ultimately show ?thesis
    using count skip w addr assms(4) by (simp add: get_nth_arg_def)
qed

theorem args_roundtrip_witness:
  "utf8_valid [0x64, 0x65, 0x62, 0x75, 0x67] \<and>
   get_nth_arg (serialize_args [[0x61], [0x64, 0x65, 0x62, 0x75, 0x67], [0x62]]) 1 =
     Some (Some [0x64, 0x65, 0x62, 0x75, 0x67])"
  using args_roundtrip [of "serialize_args [[0x61], [0x64, 0x65, 0x62, 0x75, 0x67], [0x62]]"
      "[[0x61], [0x64, 0x65, 0x62, 0x75, 0x67], [0x62]]" "[]" 1]
  by (simp add: serialize_args_def pad_len_def)

text \<open>
  An argument whose length is a multiple of four hides the one behind it: the writer pads it
  with four more zero bytes, which the reader takes for the length of the next argument, so that
  the next argument reads as empty whatever it is.
\<close>

lemma argument_after_full_word_is_empty:
  assumes "length a mod 4 = 0" and "mem = serialize_args (a # b # as) @ rest" and "length mem < 2 ^ 32"
  shows "get_nth_arg mem 1 = Some (Some [])"
proof -
  have few: "length as < 2 ^ 32 - 2"
  proof -
    have "length bs \<le> length (serialize_each bs)" for bs
      by (induction bs) simp_all
    from this [of as] show ?thesis
      using assms(2,3) by (simp add: serialize_args_def)
  qed
  let ?c = "u32_to_le_bytes (of_nat (length (a # b # as)))" and ?l = "u32_to_le_bytes (of_nat (length a))"
  obtain r where mem: "mem = ?c @ ?l @ a @ replicate 4 0 @ r"
    using assms(1,2) by (simp add: serialize_args_def pad_len_def)
  have z: "replicate 4 0 = u32_to_le_bytes 0"
    by (simp add: u32_to_le_bytes_def numeral_eq_Suc)
  have bound: "12 + length a \<le> length mem" "length a + 16 < 2 ^ 32"
    using assms(2,3) mem by (simp_all add: serialize_args_def pad_len_def)
  have w: "word_at mem 0 = Some (of_nat (length (a # b # as)))" "word_at mem 4 = Some (of_nat (length a))"
    using word_at_append [of "[]"] word_at_append [of ?c "of_nat (length a)"] unfolding mem by simp_all
  have w0: "word_at mem (of_nat (8 + length a)) = Some 0"
    using word_at_append [of "?c @ ?l @ a" 0 r] bound(2) unfolding mem z by (simp add: add.assoc)
  have full: "(length a + 3) div 4 * 4 = length a"
    using assms(1) by presburger
  have "(of_nat (length a) + 3 :: u32) AND NOT 3 = of_nat (length a)"
    using round_up_word [of "length a"] bound(2) full by simp
  then have "skip_args mem 1 4 = Some (of_nat (8 + length a))"
    using w(2) by simp
  moreover have "unat (2 + of_nat (length as) :: u32) = 2 + length as"
    "unat (12 + of_nat (length a) :: u32) = 12 + length a"
    using few bound(2) by (simp_all add: unat_word_ariths unat_of_nat take_bit_nat_eq_self)
  ultimately show ?thesis
    using w w0 bound assms(3) by (simp add: get_nth_arg_def arg_count_def word_le_nat_alt)
qed

theorem argument_after_full_word_is_empty_witness:
  "get_nth_arg (serialize_args [[0x61, 0x62, 0x63, 0x64], [0x78]]) 1 = Some (Some [])"
  using argument_after_full_word_is_empty [of "[0x61, 0x62, 0x63, 0x64]"
      "serialize_args [[0x61, 0x62, 0x63, 0x64], [0x78]]" "[0x78]" "[]" "[]"]
  by (simp add: serialize_args_def pad_len_def)

end
