(* ===== verification/Host_V2.thy ===== *)
theory Host_V2
  imports Host_Upload Args
begin

text \<open>
  The host's side of the download (\<open>host/okdude/src/v2.rs\<close>): the decoder of incoming bytes, the
  answers to the device's requests, and the two threads that drive the line and answer. The
  channels between the threads are \<open>std::sync::mpsc\<close>: unbounded queues that know whether the other
  side still exists. \<open>None\<close> is a panic.
\<close>

section \<open>Channels\<close>

record 'a channel =
  chan_queue :: "'a list"
  chan_sender :: bool
  chan_receiver :: bool

datatype 'a try_recv = Item 'a | EmptyNow | Disconnected

definition chan_new :: "'a channel" where
  "chan_new = \<lparr>chan_queue = [], chan_sender = True, chan_receiver = True\<rparr>"

definition chan_send :: "'a \<Rightarrow> 'a channel \<Rightarrow> 'a channel \<times> bool" where
  "chan_send x c = (if chan_receiver c then (c\<lparr>chan_queue := chan_queue c @ [x]\<rparr>, True) else (c, False))"

definition chan_try_recv :: "'a channel \<Rightarrow> 'a channel \<times> 'a try_recv" where
  "chan_try_recv c =
    (case chan_queue c of
       x # xs \<Rightarrow> (c\<lparr>chan_queue := xs\<rparr>, Item x)
     | [] \<Rightarrow> (c, if chan_sender c then EmptyNow else Disconnected))"

section \<open>The decoder\<close>

text \<open>\<open>dc_log\<close> collects the bytes of the texts that are printed.\<close>

record 'h Decoder =
  dc_messages :: "(MessageType \<times> u8 list) channel"
  dc_decoder :: "'h FrameLayer"
  dc_header :: "FrameHeader option"
  dc_buffer :: "u8 list"
  dc_log :: "u8 list list"

datatype decode_failure = SecondFrameHeader | PayloadWithoutHeader | FinishedWithoutHeader | QueueClosed
  | ProgInfoFrame | BadFrame FrameError

definition decoder_new :: "'h crc_ops \<Rightarrow> 'h Decoder" where
  "decoder_new ops = \<lparr>dc_messages = chan_new, dc_decoder = frame_new ops COBS_XOR, dc_header = None,
     dc_buffer = [], dc_log = []\<rparr>"

definition decoder_reset :: "'h crc_ops \<Rightarrow> 'h Decoder \<Rightarrow> 'h Decoder" where
  "decoder_reset ops d =
    d\<lparr>dc_decoder := frame_reset ops (dc_decoder d), dc_header := None, dc_buffer := []\<rparr>"

definition decoder_output ::
  "'h crc_ops \<Rightarrow> FrameOutput \<Rightarrow> 'h Decoder \<Rightarrow> 'h Decoder \<times> (decode_failure + unit)" where
  "decoder_output ops out d =
    (case out of
       FoSkip \<Rightarrow> (d, Inr ())
     | FoHeader h \<Rightarrow>
         (case dc_header d of
            Some _ \<Rightarrow> (d, Inl SecondFrameHeader)
          | None \<Rightarrow> (d\<lparr>dc_header := Some h, dc_buffer := []\<rparr>, Inr ()))
     | FoPayload b \<Rightarrow>
         if dc_header d = None then (d, Inl PayloadWithoutHeader)
         else (d\<lparr>dc_buffer := dc_buffer d @ [b]\<rparr>, Inr ())
     | FoFinished \<Rightarrow>
         (case dc_header d of
            None \<Rightarrow> (d, Inl FinishedWithoutHeader)
          | Some h \<Rightarrow>
              let d = d\<lparr>dc_header := None\<rparr> in
              if message_type h = PrintString then (d\<lparr>dc_log := dc_log d @ [dc_buffer d]\<rparr>, Inr ())
              else
                (case chan_send (message_type h, dc_buffer d) (dc_messages d) of
                   (c, ok) \<Rightarrow>
                     (d\<lparr>dc_messages := c, dc_buffer := []\<rparr>, if ok then Inr () else Inl QueueClosed)))
     | FoLegacy \<Rightarrow> (d, Inl ProgInfoFrame)
     | FoLegacyPrintStringByte len b \<Rightarrow>
         let d = d\<lparr>dc_buffer := dc_buffer d @ [b]\<rparr> in
         if len = length (dc_buffer d)
         then (decoder_reset ops (d\<lparr>dc_log := dc_log d @ [dc_buffer d]\<rparr>), Inr ())
         else (d, Inr ()))"

fun process_incoming_bytes ::
  "'h crc_ops \<Rightarrow> u8 list \<Rightarrow> 'h Decoder \<Rightarrow> ('h Decoder \<times> (decode_failure + unit)) option" where
  "process_incoming_bytes ops [] d = Some (d, Inr ())"
| "process_incoming_bytes ops (b # bs) d =
    (case feed ops (dc_decoder d) b of
       None \<Rightarrow> None
     | Some (l, Inl e) \<Rightarrow> Some (decoder_reset ops (d\<lparr>dc_decoder := l\<rparr>), Inl (BadFrame e))
     | Some (l, Inr out) \<Rightarrow>
         (case decoder_output ops out (d\<lparr>dc_decoder := l\<rparr>) of
            (d, Inl e) \<Rightarrow> Some (d, Inl e)
          | (d, Inr _) \<Rightarrow> process_incoming_bytes ops bs d))"

section \<open>The answers\<close>

record Info =
  compressed_len :: u32
  decompressed_len :: u32
  compressed_crc :: u32
  decompressed_crc :: u32
  info_chunk_size :: nat

text \<open>
  The serialization of the messages, the compressor and the lookup of the section with the arguments
  (its offset and size) in an ELF file come from elsewhere.
\<close>

datatype section_lookup = UnparsableElf | UnparsableSections | NoSection | Section nat nat

record 'h host_env =
  he_crc :: "'h crc_ops"
  he_ser_metadata :: "Metadata_msg \<Rightarrow> string + u8 list"
  he_ser_metadata_ack_ack :: "MetadataAckAck_msg \<Rightarrow> string + u8 list"
  he_ser_chunk :: "Chunk_msg \<Rightarrow> string + u8 list"
  he_ser_booting_ack :: "string + u8 list"
  he_de_metadata_req :: "u8 list \<Rightarrow> string + unit"
  he_de_metadata_ack :: "u8 list \<Rightarrow> string + MetadataAck_msg"
  he_de_chunk_req :: "u8 list \<Rightarrow> string + ChunkReq_msg"
  compress_to_vec :: "u8 list \<Rightarrow> u8 list"
  args_section :: "u8 list \<Rightarrow> section_lookup"

type_synonym tx = "u8 list channel"

text \<open>\<open>send\<close>: the message is encoded and put into the queue; the result says whether that worked.\<close>

definition queue_message :: "'h crc_ops \<Rightarrow> MessageType \<Rightarrow> (string + u8 list) \<Rightarrow> tx \<Rightarrow> (tx \<times> bool) option" where
  "queue_message ops ty serialized tx =
    (case encode ops ty serialized of
       Returned (Inr wire) \<Rightarrow> Some (chan_send wire tx)
     | Returned (Inl _) \<Rightarrow> Some (tx, False)
     | _ \<Rightarrow> None)"

definition dispatch_metadata_req :: "'h host_env \<Rightarrow> Info \<Rightarrow> FormatDetails \<Rightarrow> tx \<Rightarrow> tx option" where
  "dispatch_metadata_req env info fd tx = do {
     (tx, _) \<leftarrow> queue_message (he_crc env) Metadata
       (he_ser_metadata env
         \<lparr>deflated_crc = compressed_crc info, deflated_len = compressed_len info,
          inflated_crc = decompressed_crc info, inflated_len = decompressed_len info,
          format_details = fd\<rparr>) tx;
     Some tx
   }"

definition metadata_agrees :: "Info \<Rightarrow> FormatDetails \<Rightarrow> Metadata_msg \<Rightarrow> bool" where
  "metadata_agrees info fd md =
    (deflated_crc md = compressed_crc info \<and> deflated_len md = compressed_len info
     \<and> inflated_crc md = decompressed_crc info \<and> inflated_len md = decompressed_len info
     \<and> format_details md = fd)"

text \<open>The result is the new information, or \<open>None\<close> when the acknowledgement is wrong or cannot be sent.\<close>

definition dispatch_metadata_ack ::
  "'h host_env \<Rightarrow> MetadataAck_msg \<Rightarrow> Info \<Rightarrow> FormatDetails \<Rightarrow> tx \<Rightarrow> (tx \<times> Info option) option" where
  "dispatch_metadata_ack env msg info fd tx = do {
     let ok = metadata_agrees info fd (metadata msg);
     (tx, sent) \<leftarrow> queue_message (he_crc env) MetadataAckAck (he_ser_metadata_ack_ack env \<lparr>is_ok = ok\<rparr>) tx;
     Some (tx, if sent \<and> ok then Some (info\<lparr>info_chunk_size := unat (chunk_size msg)\<rparr>) else None)
   }"

definition dispatch_chunk_req :: "'h host_env \<Rightarrow> ChunkReq_msg \<Rightarrow> Info \<Rightarrow> u8 list \<Rightarrow> tx \<Rightarrow> tx option" where
  "dispatch_chunk_req env msg info compressed tx = do {
     let chunk_begin = unat (req_which msg) * info_chunk_size info;
     let chunk_end = min (chunk_begin + info_chunk_size info) (length compressed);
     bytes \<leftarrow> subslice compressed chunk_begin chunk_end;
     (tx, _) \<leftarrow> queue_message (he_crc env) Chunk
       (he_ser_chunk env \<lparr>which = req_which msg, chunk_bytes = bytes\<rparr>) tx;
     Some tx
   }"

text \<open>One message of the loop of \<open>upload_inner\<close>; \<open>True\<close> means that the loop is left.\<close>

definition handle_message ::
  "'h host_env \<Rightarrow> FormatDetails \<Rightarrow> u8 list \<Rightarrow> MessageType \<times> u8 list \<Rightarrow> Info \<Rightarrow> tx \<Rightarrow> (Info \<times> tx \<times> bool) option" where
  "handle_message env fd compressed m info tx =
    (case m of (ty, msg) \<Rightarrow>
      (case ty of
         MetadataReq \<Rightarrow>
           (case he_de_metadata_req env msg of
              Inl _ \<Rightarrow> Some (info, tx, False)
            | Inr _ \<Rightarrow> do { tx \<leftarrow> dispatch_metadata_req env info fd tx; Some (info, tx, False) })
       | MetadataAck \<Rightarrow>
           (case he_de_metadata_ack env msg of
              Inl _ \<Rightarrow> Some (info, tx, False)
            | Inr ack \<Rightarrow> do {
                (tx, r) \<leftarrow> dispatch_metadata_ack env ack info fd tx;
                Some (case r of Some i \<Rightarrow> i | None \<Rightarrow> info, tx, False)
              })
       | ChunkReq \<Rightarrow>
           (case he_de_chunk_req env msg of
              Inl _ \<Rightarrow> Some (info, tx, False)
            | Inr req \<Rightarrow> do { tx \<leftarrow> dispatch_chunk_req env req info compressed tx; Some (info, tx, False) })
       | Booting \<Rightarrow> do {
           (tx, _) \<leftarrow> queue_message (he_crc env) BootingAck (he_ser_booting_ack env) tx;
           Some (info, tx, True)
         }
       | _ \<Rightarrow> Some (info, tx, False)))"

text \<open>The file as it is sent: for an ELF file the arguments are written into their section.\<close>

definition insert_args :: "'h host_env \<Rightarrow> u8 list list \<Rightarrow> FormatDetails \<Rightarrow> u8 list \<Rightarrow> u8 list run" where
  "insert_args env args fd uncompressed =
    (case fd of
       Bin _ \<Rightarrow> Returned uncompressed
     | Elf \<Rightarrow>
         (case args_section env uncompressed of
            Section offset sz \<Rightarrow>
              let v = serialize_args args in
              if length v \<ge> sz then Exited
              else (case copy_into uncompressed offset v of None \<Rightarrow> Panicked | Some u \<Rightarrow> Returned u)
          | _ \<Rightarrow> Panicked))"

definition make_info :: "'h crc_ops \<Rightarrow> u8 list \<Rightarrow> u8 list \<Rightarrow> Info" where
  "make_info ops uncompressed compressed =
    \<lparr>compressed_len = of_nat (length compressed), decompressed_len = of_nat (length uncompressed),
     compressed_crc = crc_hash ops compressed, decompressed_crc = crc_hash ops uncompressed,
     info_chunk_size = 0\<rparr>"

text \<open>Everything before the loop; \<open>file\<close> is the content of the file, if it can be read.\<close>

definition upload_prepare ::
  "'h host_env \<Rightarrow> u8 list list \<Rightarrow> FormatDetails \<Rightarrow> (string + u8 list) \<Rightarrow> (string + (u8 list \<times> Info)) run" where
  "upload_prepare env args fd file =
    (case file of
       Inl e \<Rightarrow> Returned (Inl e)
     | Inr content \<Rightarrow>
         (case insert_args env args fd content of
            Returned u \<Rightarrow>
              let z = compress_to_vec env u in Returned (Inr (z, make_info (he_crc env) u z))
          | Exited \<Rightarrow> Exited
          | Panicked \<Rightarrow> Panicked
          | Blocked \<Rightarrow> Blocked))"

section \<open>The two threads\<close>

text \<open>
  The driver thread runs \<open>drive\<close>, the main thread answers in \<open>upload_inner\<close>. They share the two
  channels and the flag \<open>close\<close>. A thread is at one of a few points; one step takes it to the next.
  The main thread, having left its loop, drops its ends of the channels, then sets the flag, then
  waits for the driver.
\<close>

datatype driver_pc = DriverTop | DriverPush | DriverRead | DriverDone

datatype main_pc = MainLoop | MainLeft bool | MainReturned bool | MainClosed bool

record 'h upload_state =
  u_close :: bool
  u_out :: tx
  u_decoder :: "'h Decoder"
  u_info :: Info
  u_driver :: driver_pc
  u_main :: main_pc
  u_tty :: tty

text \<open>What \<open>bytes_to_read\<close> and \<open>read\<close> give.\<close>

datatype line_read = CountFailed | NoneReady | ReadFailed | ReadBytes "u8 list"

definition drive_done :: "'h upload_state \<Rightarrow> 'h upload_state" where
  "drive_done s =
    s\<lparr>u_driver := DriverDone, u_out := (u_out s)\<lparr>chan_receiver := False\<rparr>,
      u_decoder := (u_decoder s)\<lparr>dc_messages := (dc_messages (u_decoder s))\<lparr>chan_sender := False\<rparr>\<rparr>\<rparr>"

definition drive_step :: "'h crc_ops \<Rightarrow> line_read \<Rightarrow> 'h upload_state \<Rightarrow> 'h upload_state option" where
  "drive_step ops rd s =
    (case u_driver s of
       DriverTop \<Rightarrow> Some (if u_close s then drive_done s else s\<lparr>u_driver := DriverPush\<rparr>)
     | DriverPush \<Rightarrow>
         (case chan_try_recv (u_out s) of
            (c, Item m) \<Rightarrow> Some (s\<lparr>u_out := c, u_tty := fst (tty_flush (fst (write_all (u_tty s) m)))\<rparr>)
          | (c, EmptyNow) \<Rightarrow> Some (s\<lparr>u_driver := DriverRead\<rparr>)
          | (c, Disconnected) \<Rightarrow> Some (drive_done s))
     | DriverRead \<Rightarrow>
         (case rd of
            ReadBytes bs \<Rightarrow> do {
              (d, _) \<leftarrow> process_incoming_bytes ops bs (u_decoder s);
              Some (s\<lparr>u_decoder := d, u_driver := DriverTop\<rparr>)
            }
          | _ \<Rightarrow> Some (s\<lparr>u_driver := DriverTop\<rparr>))
     | DriverDone \<Rightarrow> Some s)"

definition main_step :: "'h host_env \<Rightarrow> FormatDetails \<Rightarrow> u8 list \<Rightarrow> 'h upload_state \<Rightarrow> 'h upload_state option" where
  "main_step env fd compressed s =
    (case u_main s of
       MainLoop \<Rightarrow>
         (case chan_try_recv (dc_messages (u_decoder s)) of
            (c, Item m) \<Rightarrow> do {
              (info, out, stop) \<leftarrow> handle_message env fd compressed m (u_info s) (u_out s);
              Some (s\<lparr>u_decoder := (u_decoder s)\<lparr>dc_messages := c\<rparr>, u_info := info, u_out := out,
                u_main := (if stop then MainLeft True else MainLoop)\<rparr>)
            }
          | (c, EmptyNow) \<Rightarrow> Some s
          | (c, Disconnected) \<Rightarrow> Some (s\<lparr>u_main := MainLeft False\<rparr>))
     | MainLeft r \<Rightarrow>
         Some (s\<lparr>u_out := (u_out s)\<lparr>chan_sender := False\<rparr>,
           u_decoder := (u_decoder s)\<lparr>dc_messages := (dc_messages (u_decoder s))\<lparr>chan_receiver := False\<rparr>\<rparr>,
           u_main := MainReturned r\<rparr>)
     | MainReturned r \<Rightarrow> Some (s\<lparr>u_close := True, u_main := MainClosed r\<rparr>)
     | MainClosed r \<Rightarrow> Some s)"

inductive upload_step ::
  "'h host_env \<Rightarrow> FormatDetails \<Rightarrow> u8 list \<Rightarrow> 'h upload_state \<Rightarrow> 'h upload_state \<Rightarrow> bool"
  for env fd compressed where
  driver: "drive_step (he_crc env) rd s = Some s' \<Longrightarrow> upload_step env fd compressed s s'"
| main: "main_step env fd compressed s = Some s' \<Longrightarrow> upload_step env fd compressed s s'"

definition upload_start :: "'h crc_ops \<Rightarrow> Info \<Rightarrow> tty \<Rightarrow> 'h upload_state" where
  "upload_start ops info t =
    \<lparr>u_close = False, u_out = chan_new, u_decoder = decoder_new ops, u_info = info,
     u_driver = DriverTop, u_main = MainLoop, u_tty = t\<rparr>"

text \<open>Both threads have come to their ends; then the rate is set back, and a failure ends the process.\<close>

definition upload_finish :: "'h upload_state \<Rightarrow> (tty \<times> (io_error + unit) run) option" where
  "upload_finish s =
    (case (u_main s, u_driver s) of
       (MainClosed r, DriverDone) \<Rightarrow>
         Some (case set_baud_rate (u_tty s) INITIAL_BAUD_RATE of
                 (t, Inl e) \<Rightarrow> (t, Returned (Inl e))
               | (t, Inr _) \<Rightarrow> (t, if r then Returned (Inr ()) else Exited))
     | _ \<Rightarrow> None)"

end
