(* ===== verification/Host_V2_Correct.thy ===== *)
theory Host_V2_Correct
  imports Host_V2
begin

text \<open>
  The host's decoder reads back what the frame builder writes, however the bytes are split into
  reads; the two threads of the upload put nothing but whole frames on the line, in order.
\<close>

section \<open>The decoder on the frame layer\<close>

fun decoder_outputs ::
  "'h crc_ops \<Rightarrow> FrameOutput list \<Rightarrow> 'h Decoder \<Rightarrow> 'h Decoder \<times> (decode_failure + unit)" where
  "decoder_outputs ops [] d = (d, Inr ())"
| "decoder_outputs ops (out # outs) d =
    (case decoder_output ops out d of
       (d, Inl e) \<Rightarrow> (d, Inl e)
     | (d, Inr _) \<Rightarrow> decoder_outputs ops outs d)"

definition plain :: "FrameOutput \<Rightarrow> bool" where
  "plain out \<longleftrightarrow> in_frame out \<or> out = FoFinished"

lemma decoder_output_layer:
  "plain out \<Longrightarrow> decoder_output ops out (d\<lparr>dc_decoder := l\<rparr>) =
    (case decoder_output ops out d of (d', r) \<Rightarrow> (d'\<lparr>dc_decoder := l\<rparr>, r))"
  by (auto simp: decoder_output_def plain_def in_frame_def Let_def split: FrameOutput.splits option.splits prod.splits)

lemma process_feeds:
  assumes "feed_all ops (dc_decoder d) bs = Some (l, Inr outs)" and "list_all plain outs"
    and "decoder_outputs ops outs d = (d', Inr ())"
  shows "process_incoming_bytes ops bs d = Some (d'\<lparr>dc_decoder := l\<rparr>, Inr ())"
  using assms
proof (induction bs arbitrary: d d' outs)
  case Nil
  then show ?case
    by (cases d) auto
next
  case (Cons b bs)
  then obtain l1 out outs' where f: "feed ops (dc_decoder d) b = Some (l1, Inr out)"
    "feed_all ops l1 bs = Some (l, Inr outs')" "outs = out # outs'"
    by (auto split: bind_splits sum.splits)
  then obtain d1 where d1: "decoder_output ops out d = (d1, Inr ())" "decoder_outputs ops outs' d1 = (d', Inr ())"
    using Cons.prems(3) by (auto split: prod.splits sum.splits)
  have outs: "plain out" "list_all plain outs'"
    using Cons.prems(2) f(3) by simp_all
  have "decoder_outputs ops outs' (d1\<lparr>dc_decoder := l1\<rparr>) = (d'\<lparr>dc_decoder := l1\<rparr>, Inr ())"
    using d1(2) outs(2)
  proof (induction outs' arbitrary: d1)
    case (Cons o1 os)
    then show ?case
      by (auto simp: decoder_output_layer split: prod.splits sum.splits)
  qed simp
  with Cons.IH [of "d1\<lparr>dc_decoder := l1\<rparr>" outs'] f outs d1(1) show ?case
    by (simp add: decoder_output_layer)
qed

lemma decoder_outputs_visible: "decoder_outputs ops (visible outs) d = decoder_outputs ops outs d"
  by (induction outs arbitrary: d) (auto simp: visible_def decoder_output_def split: prod.splits sum.splits)

text \<open>What a whole frame does to the decoder.\<close>

definition taken :: "MessageType \<Rightarrow> u8 list \<Rightarrow> 'h Decoder \<Rightarrow> 'h Decoder" where
  "taken ty p d =
    (if ty = PrintString then d\<lparr>dc_buffer := p, dc_log := dc_log d @ [p]\<rparr>
     else d\<lparr>dc_buffer := [], dc_messages := fst (chan_send (ty, p) (dc_messages d))\<rparr>)"

lemma decoder_outputs_payload:
  "dc_header d \<noteq> None \<Longrightarrow> decoder_outputs ops (map FoPayload p @ outs) d =
    decoder_outputs ops outs (d\<lparr>dc_buffer := dc_buffer d @ p\<rparr>)"
  by (induction p arbitrary: d) (auto simp: decoder_output_def)

lemma decoder_frame:
  assumes "dc_header d = None" and "chan_receiver (dc_messages d)"
  shows "decoder_outputs ops (frame_outputs ty p) d = (taken ty p d, Inr ())"
  using assms by (cases d)
    (simp add: frame_outputs_def decoder_output_def decoder_outputs_payload taken_def chan_send_def Let_def)

definition decoding :: "'h crc_ops \<Rightarrow> 'h Decoder \<Rightarrow> bool" where
  "decoding ops d \<longleftrightarrow> ready ops COBS_XOR (dc_decoder d) \<and> dc_header d = None \<and> chan_receiver (dc_messages d)"

lemma taken_simps [simp]:
  "dc_decoder (taken ty p d) = dc_decoder d" "dc_header (taken ty p d) = dc_header d"
  "dc_log (taken ty p d) = dc_log d @ (if ty = PrintString then [p] else [])"
  "chan_receiver (dc_messages d) \<Longrightarrow> dc_messages (taken ty p d) =
    (dc_messages d)\<lparr>chan_queue := chan_queue (dc_messages d) @ (if ty = PrintString then [] else [(ty, p)])\<rparr>"
  by (simp_all add: taken_def chan_send_def)

lemma process_frame:
  assumes "crc_stream ops" and "decoding ops d" and "length p < 2 ^ 24" and "encode_frame ops ty p = Some wire"
  shows "\<exists>d'. process_incoming_bytes ops wire d = Some (d', Inr ()) \<and> decoding ops d'
    \<and> dc_messages d' = dc_messages (taken ty p d) \<and> dc_log d' = dc_log (taken ty p d)"
proof -
  obtain l outs where rt: "feed_all ops (dc_decoder d) wire = Some (l, Inr (outs @ [FoFinished]))"
    "visible outs @ [FoFinished] = frame_outputs ty p" "ready ops COBS_XOR l"
    using frame_roundtrip [OF assms(1) _ assms(3), of "dc_decoder d" ty] assms(2,4) by (auto simp: decoding_def)
  have "list_all plain (outs @ [FoFinished])"
    using in_frame_outputs [OF rt(2)] by (auto simp: plain_def list_all_iff)
  moreover have "decoder_outputs ops (outs @ [FoFinished]) d = (taken ty p d, Inr ())"
    using decoder_outputs_visible [of ops "outs @ [FoFinished]" d] decoder_frame [of d ops ty p] assms(2) rt(2)
    by (simp add: decoding_def)
  ultimately have "process_incoming_bytes ops wire d = Some ((taken ty p d)\<lparr>dc_decoder := l\<rparr>, Inr ())"
    by (rule process_feeds [OF rt(1)])
  then show ?thesis
    using rt(3) assms(2) by (simp add: decoding_def)
qed


section \<open>Reads\<close>

lemma process_append:
  "process_incoming_bytes ops (bs @ cs) d =
    (case process_incoming_bytes ops bs d of
       Some (d', Inr _) \<Rightarrow> process_incoming_bytes ops cs d'
     | r \<Rightarrow> r)"
  by (induction bs arbitrary: d) (auto split: option.splits sum.splits prod.splits)

text \<open>The reads of \<open>drive\<close>, with the errors they give; an error ends the read it occurs in.\<close>

fun process_reads :: "'h crc_ops \<Rightarrow> u8 list list \<Rightarrow> 'h Decoder \<Rightarrow> ('h Decoder \<times> decode_failure list) option" where
  "process_reads ops [] d = Some (d, [])"
| "process_reads ops (r # rs) d = do {
     (d, res) \<leftarrow> process_incoming_bytes ops r d;
     (d, es) \<leftarrow> process_reads ops rs d;
     Some (d, (case res of Inl e \<Rightarrow> e # es | Inr _ \<Rightarrow> es))
   }"

lemma process_reads_concat:
  "process_incoming_bytes ops (concat rs) d = Some (d', Inr ()) \<Longrightarrow> process_reads ops rs d = Some (d', [])"
  by (induction rs arbitrary: d) (auto simp: process_append split: option.splits sum.splits prod.splits)

lemma process_frames:
  assumes "crc_stream ops"
  shows "decoding ops d \<Longrightarrow> list_all (\<lambda>(ty, p). length p < 2 ^ 24) ms
    \<Longrightarrow> map (\<lambda>(ty, p). encode_frame ops ty p) ms = map Some wires
    \<Longrightarrow> \<exists>d'. process_incoming_bytes ops (concat wires) d = Some (d', Inr ()) \<and> decoding ops d'
      \<and> dc_messages d' = (dc_messages d)\<lparr>chan_queue := chan_queue (dc_messages d) @ filter (\<lambda>m. fst m \<noteq> PrintString) ms\<rparr>
      \<and> dc_log d' = dc_log d @ map snd (filter (\<lambda>m. fst m = PrintString) ms)"
proof (induction ms arbitrary: d wires)
  case (Cons m ms)
  obtain ty p where m: "m = (ty, p)"
    by (cases m)
  obtain w ws where w: "wires = w # ws" "encode_frame ops ty p = Some w"
    "map (\<lambda>(ty, p). encode_frame ops ty p) ms = map Some ws"
    using Cons.prems(3) m by (cases wires) auto
  have p: "length p < 2 ^ 24" "list_all (\<lambda>(ty, p). length p < 2 ^ 24) ms"
    using Cons.prems(2) m by simp_all
  obtain d1 where d1: "process_incoming_bytes ops w d = Some (d1, Inr ())" "decoding ops d1"
    "dc_messages d1 = dc_messages (taken ty p d)" "dc_log d1 = dc_log (taken ty p d)"
    using process_frame [OF assms Cons.prems(1) p(1) w(2)] by blast
  have "chan_receiver (dc_messages d)"
    using Cons.prems(1) by (simp add: decoding_def)
  with Cons.IH [OF d1(2) p(2) w(3)] d1 m show ?case
    unfolding w(1) by (auto simp: process_append)
qed simp

section \<open>The threads\<close>

definition host_frame :: "'h crc_ops \<Rightarrow> u8 list \<Rightarrow> bool" where
  "host_frame ops w \<longleftrightarrow> (\<exists>ty p. ty \<in> {Metadata, MetadataAckAck, Chunk, BootingAck} \<and> encode_frame ops ty p = Some w)"

text \<open>The main thread answers with at most one frame, and only while the driver still reads the queue.\<close>

lemma queue_message_frame:
  assumes "queue_message ops ty ser tx = Some (tx', ok)" and "ty \<in> {Metadata, MetadataAckAck, Chunk, BootingAck}"
  shows "\<exists>ws. (\<forall>w \<in> set ws. host_frame ops w) \<and> tx' = tx\<lparr>chan_queue := chan_queue tx @ ws\<rparr> \<and> (ws = [] \<or> chan_receiver tx)"
proof (cases "tx' = tx")
  case True
  then show ?thesis
    by (intro exI [of _ "[]"]) simp
next
  case False
  then obtain w where "encode ops ty ser = Returned (Inr w)" "chan_receiver tx" "tx' = tx\<lparr>chan_queue := chan_queue tx @ [w]\<rparr>"
    using assms(1) by (auto simp: queue_message_def chan_send_def split: run.splits sum.splits if_splits)
  moreover from this(1) have "host_frame ops w"
    using assms(2) by (auto simp: encode_def host_frame_def split: sum.splits option.splits)
  ultimately show ?thesis
    by (intro exI [of _ "[w]"]) simp
qed

lemma handle_message_frame:
  assumes "handle_message env fd z m info tx = Some (info', tx', stop)"
  shows "\<exists>ws. (\<forall>w \<in> set ws. host_frame (he_crc env) w) \<and> tx' = tx\<lparr>chan_queue := chan_queue tx @ ws\<rparr>
    \<and> (ws = [] \<or> chan_receiver tx)"
proof -
  consider "tx' = tx" | ty ser ok where "ty \<in> {Metadata, MetadataAckAck, Chunk, BootingAck}"
    "queue_message (he_crc env) ty ser tx = Some (tx', ok)"
    using assms by (cases m; cases "fst m")
      (fastforce simp: handle_message_def dispatch_metadata_req_def dispatch_metadata_ack_def dispatch_chunk_req_def
        Let_def split: sum.splits bind_splits prod.splits)+
  then show ?thesis
  proof cases
    case 1
    then show ?thesis
      by (intro exI [of _ "[]"]) simp
  next
    case 2
    from queue_message_frame [OF 2(2,1)] show ?thesis .
  qed
qed

definition thread_inv :: "'h crc_ops \<Rightarrow> u8 list \<Rightarrow> 'h upload_state \<Rightarrow> bool" where
  "thread_inv ops before s \<longleftrightarrow> tty_faults (u_tty s) = []
    \<and> (\<exists>sent. tty_out (u_tty s) = before @ concat sent \<and> (\<forall>w \<in> set sent. host_frame ops w))
    \<and> (\<forall>w \<in> set (chan_queue (u_out s)). host_frame ops w)
    \<and> (u_close s \<longleftrightarrow> (\<exists>r. u_main s = MainClosed r))
    \<and> (u_driver s = DriverDone \<longrightarrow> \<not> chan_receiver (u_out s) \<and> (u_close s \<or> chan_queue (u_out s) = []))"

lemma drive_step_inv:
  assumes "thread_inv ops bs s" and "drive_step ops rd s = Some s'"
  shows "thread_inv ops bs s'"
proof (cases "u_driver s")
  case DriverPush
  show ?thesis
  proof (cases "chan_queue (u_out s)")
    case (Cons w ws)
    obtain sent where sent: "tty_out (u_tty s) = bs @ concat sent" "\<forall>w \<in> set sent. host_frame ops w"
      using assms(1) by (auto simp: thread_inv_def)
    have "s' = s\<lparr>u_out := (u_out s)\<lparr>chan_queue := ws\<rparr>, u_tty := (u_tty s)\<lparr>tty_out := tty_out (u_tty s) @ w\<rparr>\<rparr>"
      using assms DriverPush Cons by (simp add: drive_step_def chan_try_recv_def write_all_def thread_inv_def)
    then show ?thesis
      using assms(1) sent Cons DriverPush
      by (auto simp: thread_inv_def intro!: exI [of _ "sent @ [w]"])
  qed (use assms DriverPush in \<open>auto simp: drive_step_def chan_try_recv_def drive_done_def thread_inv_def split: if_splits\<close>)
next
  case DriverRead
  then show ?thesis
    using assms by (cases rd) (auto simp: drive_step_def thread_inv_def split: bind_splits)
qed (use assms in \<open>auto simp: drive_step_def drive_done_def thread_inv_def\<close>)

lemma main_step_inv:
  assumes "thread_inv (he_crc env) bs s" and "main_step env fd z s = Some s'"
  shows "thread_inv (he_crc env) bs s'"
proof (cases "u_main s")
  case MainLoop
  show ?thesis
  proof (cases "chan_queue (dc_messages (u_decoder s))")
    case (Cons m ms)
    then obtain info out stop where h: "handle_message env fd z m (u_info s) (u_out s) = Some (info, out, stop)"
      and s': "s' = s\<lparr>u_decoder := (u_decoder s)\<lparr>dc_messages := (dc_messages (u_decoder s))\<lparr>chan_queue := ms\<rparr>\<rparr>,
        u_info := info, u_out := out, u_main := (if stop then MainLeft True else MainLoop)\<rparr>"
      using assms(2) MainLoop by (auto simp: main_step_def chan_try_recv_def split: bind_splits)
    from handle_message_frame [OF h] show ?thesis
      using assms(1) MainLoop unfolding s' by (auto simp: thread_inv_def)
  qed (use assms MainLoop in \<open>auto simp: main_step_def chan_try_recv_def thread_inv_def split: if_splits\<close>)
qed (use assms in \<open>auto simp: main_step_def thread_inv_def\<close>)

lemma upload_step_inv:
  assumes "upload_step env fd z s s'" and "thread_inv (he_crc env) bs s"
  shows "thread_inv (he_crc env) bs s'"
  using assms by (cases rule: upload_step.cases) (auto intro: drive_step_inv main_step_inv)

lemma upload_steps_inv:
  assumes "(upload_step env fd z)\<^sup>*\<^sup>* s s'" and "thread_inv (he_crc env) bs s"
  shows "thread_inv (he_crc env) bs s'"
  using assms by (induction rule: rtranclp_induct) (auto intro: upload_step_inv)

section \<open>Properties\<close>




definition demo_host :: "u32 host_env" where
  "demo_host = \<lparr>he_crc = crc32_ops, he_ser_metadata = (\<lambda>md. Inr [1]), he_ser_metadata_ack_ack = (\<lambda>a. Inr [1]),
    he_ser_chunk = (\<lambda>c. Inr (chunk_bytes c)), he_ser_booting_ack = Inr [], he_de_metadata_req = (\<lambda>bs. Inr ()),
    he_de_metadata_ack = (\<lambda>bs. Inl []), he_de_chunk_req = (\<lambda>bs. Inr \<lparr>req_which = 0\<rparr>),
    compress_to_vec = (\<lambda>bs. bs), args_section = (\<lambda>bs. NoSection)\<rparr>"


text \<open>
  The acknowledgement of the boot message can be lost: there is an order of the steps of the two
  threads in which the device's boot message arrives, the main thread queues the acknowledgement,
  and both threads end, the upload being reported as successful, without a byte having been written
  to the line; the acknowledgement is still in the queue.
\<close>

lemma booting_ack_can_be_lost:
  assumes "crc_stream (he_crc env)" and "he_ser_booting_ack env = Inr a" and "length a < 2 ^ 24"
    and "tty_speed_ok t"
  shows "\<exists>ack s t'. encode_frame (he_crc env) BootingAck a = Some ack
    \<and> (upload_step env fd z)\<^sup>*\<^sup>* (upload_start (he_crc env) info t) s
    \<and> upload_finish s = Some (t', Returned (Inr ())) \<and> tty_out t' = tty_out t \<and> chan_queue (u_out s) = [ack]"
proof -
  let ?ops = "he_crc env" and ?step = "upload_step env fd z"
  obtain ack where ack: "encode_frame ?ops BootingAck a = Some ack"
    using frame_roundtrip [OF assms(1) ready_new assms(3), of BootingAck] by blast
  obtain w where w: "encode_frame ?ops Booting [] = Some w"
    using frame_roundtrip [OF assms(1) ready_new, of "[]" Booting] by auto
  have new: "decoding ?ops (decoder_new ?ops)"
    by (simp add: decoding_def decoder_new_def chan_new_def)
  obtain d where d: "process_incoming_bytes ?ops w (decoder_new ?ops) = Some (d, Inr ())"
    "dc_messages d = chan_new\<lparr>chan_queue := [(Booting, [])]\<rparr>"
    using process_frame [OF assms(1) new _ w] by (auto simp: decoder_new_def chan_new_def)
  let ?s0 = "upload_start ?ops info t"
  let ?s1 = "?s0\<lparr>u_decoder := d\<rparr>"
  let ?o = "chan_new\<lparr>chan_queue := [ack]\<rparr>"
  let ?s2 = "?s1\<lparr>u_decoder := d\<lparr>dc_messages := chan_new\<rparr>, u_out := ?o, u_main := MainLeft True\<rparr>"
  let ?s3 = "?s2\<lparr>u_out := ?o\<lparr>chan_sender := False\<rparr>,
    u_decoder := d\<lparr>dc_messages := chan_new\<lparr>chan_receiver := False\<rparr>\<rparr>, u_main := MainReturned True\<rparr>"
  let ?s4 = "?s3\<lparr>u_close := True, u_main := MainClosed True\<rparr>"
  have read: "?step ?s0 (?s0\<lparr>u_driver := DriverPush\<rparr>)"
    "?step (?s0\<lparr>u_driver := DriverPush\<rparr>) (?s0\<lparr>u_driver := DriverRead\<rparr>)"
    "?step (?s0\<lparr>u_driver := DriverRead\<rparr>) ?s1"
    by (rule upload_step.driver [where rd = "ReadBytes w"],
        simp add: drive_step_def upload_start_def chan_try_recv_def chan_new_def d(1))+
  have answer: "?step ?s1 ?s2"
    by (rule upload_step.main)
       (simp add: main_step_def upload_start_def chan_try_recv_def chan_new_def d(2) handle_message_def
         queue_message_def encode_def assms(2) ack chan_send_def)
  have leave: "?step ?s2 ?s3" "?step ?s3 ?s4"
    by (rule upload_step.main, simp add: main_step_def upload_start_def)+
  have stop: "?step ?s4 (drive_done ?s4)"
    by (rule upload_step.driver [where rd = NoneReady]) (simp add: drive_step_def upload_start_def)
  have "?step\<^sup>*\<^sup>* ?s0 (drive_done ?s4)"
    using read answer leave stop by (meson converse_rtranclp_into_rtranclp rtranclp.rtrancl_refl)
  moreover have "\<exists>t'. upload_finish (drive_done ?s4) = Some (t', Returned (Inr ())) \<and> tty_out t' = tty_out t"
    using assms(4) by (simp add: upload_finish_def drive_done_def upload_start_def set_baud_rate_def)
  moreover have "chan_queue (u_out (drive_done ?s4)) = [ack]"
    by (simp add: drive_done_def)
  ultimately show ?thesis
    using ack by blast
qed

theorem booting_ack_can_be_lost_witness:
  "\<exists>ack s t'. encode_frame crc32_ops BootingAck [] = Some ack
    \<and> (upload_step demo_host Elf [1])\<^sup>*\<^sup>* (upload_start crc32_ops (make_info crc32_ops [1] [1]) (demo_line [])) s
    \<and> upload_finish s = Some (t', Returned (Inr ())) \<and> tty_out t' = [] \<and> chan_queue (u_out s) = [ack]"
  using booting_ack_can_be_lost [of demo_host "[]" "demo_line []" Elf "[1]" "make_info crc32_ops [1] [1]"]
    crc32.crc_stream_axioms by (simp add: demo_host_def demo_line_def)

end
