(* ===== verification/Exchange.thy ===== *)
theory Exchange
  imports Session Host_V2_Correct
begin

text \<open>
  Host and device together: the device's request, as the frame its heartbeat queues, is read by the
  host's decoder and answered by the host's main thread; the answer is read by the device's frame
  layer and handled by its protocol. Exchanges follow each other until the device leaves the
  protocol.
\<close>

section \<open>One exchange\<close>

text \<open>The first complete frame in the outputs of a frame layer.\<close>

fun first_packet :: "FrameHeader option \<Rightarrow> u8 list \<Rightarrow> FrameOutput list \<Rightarrow> (FrameHeader \<times> u8 list) option" where
  "first_packet h p [] = None"
| "first_packet h p (FoHeader h' # outs) = first_packet (Some h') p outs"
| "first_packet h p (FoPayload b # outs) = first_packet h (p @ [b]) outs"
| "first_packet h p (FoFinished # outs) = map_option (\<lambda>h. (h, p)) h"
| "first_packet h p (_ # outs) = first_packet h p outs"

definition request_frame :: "('h, 'i) env \<Rightarrow> S \<Rightarrow> u8 list \<Rightarrow> u8 list option" where
  "request_frame env st px =
    (case request_of env st px of
       (ty, px', Inr n) \<Rightarrow> encode_frame (crc_pkg env) ty (take n px')
     | (ty, px', Inl _) \<Rightarrow> None)"

definition host_reply ::
  "'h host_env \<Rightarrow> FormatDetails \<Rightarrow> u8 list \<Rightarrow> u8 list \<Rightarrow> Info \<Rightarrow> (Info \<times> u8 list \<times> bool) option" where
  "host_reply henv fd z wire info = do {
     (dec, _) \<leftarrow> process_incoming_bytes (he_crc henv) wire (decoder_new (he_crc henv));
     m \<leftarrow> (case chan_queue (dc_messages dec) of m # _ \<Rightarrow> Some m | [] \<Rightarrow> None);
     (info, tx, stop) \<leftarrow> handle_message henv fd z m info chan_new;
     Some (info, concat (chan_queue tx), stop)
   }"

definition device_reads ::
  "('h, 'i) env \<Rightarrow> 'i V2 \<Rightarrow> device \<Rightarrow> u8 list \<Rightarrow> ('i V2 \<times> device \<times> unit outcome) option" where
  "device_reads env v dev wire =
    (case feed_all (crc_pkg env) (frame_new (crc_pkg env) COBS_XOR) wire of
       Some (_, Inr outs) \<Rightarrow> do {
         (h, p) \<leftarrow> first_packet None [] outs;
         v2_handle_packet env v h p dev
       }
     | _ \<Rightarrow> None)"

definition exchange ::
  "('h, 'i) env \<Rightarrow> 'h host_env \<Rightarrow> FormatDetails \<Rightarrow> u8 list \<Rightarrow> u8 list \<Rightarrow> 'i V2 \<times> device \<times> Info
    \<Rightarrow> (('i V2 \<times> device \<times> Info) \<times> unit outcome \<times> bool) option" where
  "exchange env henv fd z px = (\<lambda>(v, dev, info). do {
     wire \<leftarrow> request_frame env (state v) px;
     (info, wire', stop) \<leftarrow> host_reply henv fd z wire info;
     (v, dev, out) \<leftarrow> device_reads env v dev wire';
     Some ((v, dev, info), out, stop)
   })"

fun exchanges ::
  "('h, 'i) env \<Rightarrow> 'h host_env \<Rightarrow> FormatDetails \<Rightarrow> u8 list \<Rightarrow> u8 list \<Rightarrow> nat \<Rightarrow> 'i V2 \<times> device \<times> Info
    \<Rightarrow> (('i V2 \<times> device \<times> Info) \<times> unit outcome \<times> bool) option" where
  "exchanges env henv fd z px 0 s = Some (s, Status Continue, False)"
| "exchanges env henv fd z px (Suc n) s = do {
     (s, out, stop) \<leftarrow> exchange env henv fd z px s;
     (case out of
        Status Continue \<Rightarrow> exchanges env henv fd z px n s
      | _ \<Rightarrow> Some (s, out, stop))
   }"

section \<open>What the two sides have to agree on\<close>

text \<open>
  Every message of the download is read back on the other side; a device's message needs at most
  \<open>room\<close> bytes of its buffer.
\<close>

definition reads_back :: "nat \<Rightarrow> 'm serializer \<Rightarrow> (u8 list \<Rightarrow> string + 'm) \<Rightarrow> 'm \<Rightarrow> bool" where
  "reads_back room ser de m \<longleftrightarrow> (\<forall>px. room \<le> length px \<longrightarrow>
    (\<exists>px' n. ser m px = (px', Inr n) \<and> n \<le> room \<and> de (take n px') = Inr m))"

definition understood :: "('m \<Rightarrow> string + u8 list) \<Rightarrow> (u8 list \<Rightarrow> string + 'm) \<Rightarrow> 'm \<Rightarrow> bool" where
  "understood ser de m \<longleftrightarrow> (\<exists>p. ser m = Inr p \<and> length p < 2 ^ 24 \<and> de p = Inr m)"

definition agree :: "('h, 'i) env \<Rightarrow> 'h host_env \<Rightarrow> nat \<Rightarrow> Metadata_msg \<Rightarrow> u8 list \<Rightarrow> bool" where
  "agree env henv room md z \<longleftrightarrow> he_crc henv = crc_pkg env \<and> crc_stream (crc_pkg env) \<and> room < 2 ^ 24
    \<and> reads_back room (ser_metadata_req env) (he_de_metadata_req henv) ()
    \<and> reads_back room (ser_metadata_ack env) (he_de_metadata_ack henv) \<lparr>chunk_size = of_nat CHUNK_SIZE, metadata = md\<rparr>
    \<and> (\<forall>k < chunks_of z. reads_back room (ser_chunk_req env) (he_de_chunk_req henv) \<lparr>req_which = of_nat k\<rparr>)
    \<and> reads_back room (ser_booting env) (\<lambda>p. Inr ()) ()
    \<and> understood (he_ser_metadata henv) (de_metadata env) md
    \<and> understood (he_ser_metadata_ack_ack henv) (de_metadata_ack_ack env) \<lparr>is_ok = True\<rparr>
    \<and> (\<forall>k < chunks_of z. understood (he_ser_chunk henv) (de_chunk env) \<lparr>which = of_nat k, chunk_bytes = chunk_of z k\<rparr>)
    \<and> (\<exists>p. he_ser_booting_ack henv = Inr p \<and> length p < 2 ^ 24)"

section \<open>Frames across the line\<close>

lemma first_packet_visible: "first_packet h p (visible outs) = first_packet h p outs"
  by (induction h p outs rule: first_packet.induct) (simp_all add: visible_def)

lemma first_packet_payload: "first_packet h q (map FoPayload p @ outs) = first_packet h (q @ p) outs"
  by (induction p arbitrary: q) simp_all

lemma device_reads_frame:
  assumes "crc_stream (crc_pkg env)" and "length p < 2 ^ 24" and "encode_frame (crc_pkg env) ty p = Some wire"
  shows "device_reads env v dev wire = v2_handle_packet env v \<lparr>message_type = ty, payload_len = length p\<rparr> p dev"
proof -
  obtain l outs where rt: "feed_all (crc_pkg env) (frame_new (crc_pkg env) COBS_XOR) wire = Some (l, Inr (outs @ [FoFinished]))"
    "visible outs @ [FoFinished] = frame_outputs ty p"
    using frame_roundtrip [OF assms(1) ready_new assms(2), of ty] assms(3) by auto
  have "first_packet None [] (outs @ [FoFinished]) = Some (\<lparr>message_type = ty, payload_len = length p\<rparr>, p)"
    using first_packet_visible [of None "[]" "outs @ [FoFinished]"] rt(2)
    by (simp add: frame_outputs_def first_packet_payload)
  with rt(1) show ?thesis
    by (simp add: device_reads_def)
qed

lemma host_reads_frame:
  assumes "crc_stream (he_crc henv)" and "length p < 2 ^ 24" and "encode_frame (he_crc henv) ty p = Some wire"
    and "ty \<noteq> PrintString"
  shows "host_reply henv fd z wire info = do {
    (info, tx, stop) \<leftarrow> handle_message henv fd z (ty, p) info chan_new;
    Some (info, concat (chan_queue tx), stop)
  }"
proof -
  have "decoding (he_crc henv) (decoder_new (he_crc henv))"
    by (simp add: decoding_def decoder_new_def chan_new_def)
  from process_frame [OF assms(1) this assms(2,3)] assms(4) show ?thesis
    by (auto simp: host_reply_def decoder_new_def chan_new_def)
qed

text \<open>An exchange in terms of the messages, when each side's message reaches the other.\<close>

lemma exchange_messages:
  assumes "agree env henv room md z" and "request_of env (state v) px = (ty, px', Inr n)" and "n \<le> room"
    and "ty \<noteq> PrintString" and "handle_message henv fd z (ty, take n px') info chan_new = Some (info', tx, stop)"
    and "chan_queue tx = [wire]" and "encode_frame (crc_pkg env) rty rp = Some wire" and "length rp < 2 ^ 24"
    and "v2_handle_packet env v \<lparr>message_type = rty, payload_len = length rp\<rparr> rp dev = Some (v', dev', out)"
  shows "exchange env henv fd z px (v, dev, info) = Some ((v', dev', info'), out, stop)"
proof -
  have ops: "he_crc henv = crc_pkg env" "crc_stream (crc_pkg env)" "crc_stream (he_crc henv)"
    and len: "length (take n px') < 2 ^ 24"
    using assms(1,3) by (auto simp: agree_def)
  obtain req where req: "encode_frame (crc_pkg env) ty (take n px') = Some req"
    using frame_roundtrip [OF ops(2) ready_new len, of ty] by blast
  have "host_reply henv fd z req info = Some (info', wire, stop)"
    using host_reads_frame [OF ops(3) len _ assms(4), of req fd z info] assms(5,6) req ops(1) by simp
  moreover have "device_reads env v dev wire = Some (v', dev', out)"
    using device_reads_frame [OF ops(2) assms(8,7)] assms(9) by simp
  ultimately show ?thesis
    using assms(2) req by (simp add: exchange_def request_frame_def)
qed

lemma queue_message_new:
  assumes "crc_stream ops" and "ser = Inr p" and "length p < 2 ^ 24"
  shows "\<exists>wire. encode_frame ops ty p = Some wire \<and> queue_message ops ty ser chan_new =
    Some (chan_new\<lparr>chan_queue := [wire]\<rparr>, True)"
  using frame_roundtrip [OF assms(1) ready_new assms(3), of ty] assms(2)
  by (auto simp: queue_message_def encode_def chan_send_def chan_new_def)

section \<open>The exchanges of a download\<close>

definition host_metadata :: "Info \<Rightarrow> FormatDetails \<Rightarrow> Metadata_msg" where
  "host_metadata info fd =
    \<lparr>deflated_crc = compressed_crc info, deflated_len = compressed_len info,
     inflated_crc = decompressed_crc info, inflated_len = decompressed_len info, format_details = fd\<rparr>"

lemma exchange_metadata:
  assumes "agree env henv room md z" and "room \<le> length px" and "v2_new env now bd = Some v" and "dev_ok env dev"
    and "addr < 0x10000000" and "addr AND 3 = 0" and md_def: "md = host_metadata info (Bin addr)"
  shows "\<exists>v' dev'. exchange env henv (Bin addr) z px (v, dev, info) = Some ((v', dev', info), Status Continue, False)
    \<and> dev_ok env dev' \<and> state v' = AckMetadata md \<and> remainder v' = 0 \<and> inflate_state v' = inflate_new env"
proof -
  note ag = assms(1) [unfolded agree_def]
  obtain px' n where req: "ser_metadata_req env () px = (px', Inr n)" "n \<le> room"
    "he_de_metadata_req henv (take n px') = Inr ()"
    using ag assms(2) unfolding reads_back_def by blast
  obtain p where p: "he_ser_metadata henv md = Inr p" "length p < 2 ^ 24" "de_metadata env p = Inr md"
    using ag unfolding understood_def by blast
  obtain wire where wire: "encode_frame (crc_pkg env) Metadata p = Some wire"
    "queue_message (crc_pkg env) Metadata (he_ser_metadata henv md) chan_new = Some (chan_new\<lparr>chan_queue := [wire]\<rparr>, True)"
    using queue_message_new [OF _ p(1,2)] ag by blast
  have st: "state v = RequestMetadata"
    using assms(3) by (auto simp: v2_new_def split: bind_splits)
  have host: "handle_message henv (Bin addr) z (MetadataReq, take n px') info chan_new =
      Some (info, chan_new\<lparr>chan_queue := [wire]\<rparr>, False)"
    using req(3) wire(2) ag by (simp add: handle_message_def dispatch_metadata_req_def md_def host_metadata_def)
  obtain dev1 where 1: "println env (LogV2Timeouts (v1_timeouts v)) dev = Some dev1" "dev_ok env dev1"
    using println_talks [OF assms(4)] by (auto simp: talked_def)
  obtain v' dev' where 2: "recv_metadata env v md dev1 = Some (v', dev')" "dev_ok env dev'"
    "state v' = AckMetadata md" "remainder v' = 0" "inflate_state v' = inflate_new env"
    using recv_metadata_acks [OF 1(2) assms(3) _ assms(5,6), of md] by (auto simp: md_def host_metadata_def)
  have "v2_handle_packet env v \<lparr>message_type = Metadata, payload_len = length p\<rparr> p dev = Some (v', dev', Status Continue)"
    using 1(1) 2(1) p(3) by (simp add: v2_handle_packet_def)
  from exchange_messages [OF assms(1) _ req(2) _ host _ wire(1) p(2) this] req(1) st 2 show ?thesis
    by (auto simp: request_of_def)
qed

lemma exchange_agreement:
  assumes "agree env henv room md z" and "room \<le> length px" and "dev_ok env dev"
    and "state v = AckMetadata md" and "remainder v = 0" and "inflate_state v = inflate_new env"
    and "md = host_metadata info (Bin addr)" and "bootable env at z d md addr"
  shows "\<exists>v'. exchange env henv (Bin addr) z px (v, dev, info) =
      Some ((v', dev, info\<lparr>info_chunk_size := CHUNK_SIZE\<rparr>), Status Continue, False)
    \<and> downloading env (bin_new env (ucast addr) md) at z d 0 v' dev"
proof -
  note ag = assms(1) [unfolded agree_def] and bt = assms(8) [unfolded bootable_def]
  let ?ack = "\<lparr>chunk_size = of_nat CHUNK_SIZE, metadata = md\<rparr> :: MetadataAck_msg"
  let ?info = "info\<lparr>info_chunk_size := CHUNK_SIZE\<rparr>"
  obtain px' n where req: "ser_metadata_ack env ?ack px = (px', Inr n)" "n \<le> room"
    "he_de_metadata_ack henv (take n px') = Inr ?ack"
    using ag assms(2) unfolding reads_back_def by blast
  obtain p where p: "he_ser_metadata_ack_ack henv \<lparr>is_ok = True\<rparr> = Inr p" "length p < 2 ^ 24"
    "de_metadata_ack_ack env p = Inr \<lparr>is_ok = True\<rparr>"
    using ag unfolding understood_def by blast
  obtain wire where wire: "encode_frame (crc_pkg env) MetadataAckAck p = Some wire"
    "queue_message (crc_pkg env) MetadataAckAck (he_ser_metadata_ack_ack henv \<lparr>is_ok = True\<rparr>) chan_new =
      Some (chan_new\<lparr>chan_queue := [wire]\<rparr>, True)"
    using queue_message_new [OF _ p(1,2)] ag by blast
  have host: "handle_message henv (Bin addr) z (MetadataAck, take n px') info chan_new =
      Some (?info, chan_new\<lparr>chan_queue := [wire]\<rparr>, False)"
    using req(3) wire(2) ag assms(7)
    by (simp add: handle_message_def dispatch_metadata_ack_def metadata_agrees_def host_metadata_def Let_def CHUNK_SIZE_def)
  obtain v' where 2: "recv_metadata_ack_ack env v \<lparr>is_ok = True\<rparr> dev = Some (v', dev)"
    "downloading env (bin_new env (ucast addr) md) at z d 0 v' dev"
    using recv_metadata_ack_ack_downloads [of env at z d dev v md addr] assms(3-6) bt by blast
  have "v2_handle_packet env v \<lparr>message_type = MetadataAckAck, payload_len = length p\<rparr> p dev = Some (v', dev, Status Continue)"
    using 2(1) p(3) by (simp add: v2_handle_packet_def)
  from exchange_messages [OF assms(1) _ req(2) _ host _ wire(1) p(2) this] req(1) assms(4) 2(2) show ?thesis
    by (auto simp: request_of_def)
qed

text \<open>The host's slice of the compressed file is the chunk the device asks for.\<close>

lemma host_chunk:
  assumes "k < chunks_of z"
  shows "subslice z (k * CHUNK_SIZE) (min (k * CHUNK_SIZE + CHUNK_SIZE) (length z)) = Some (chunk_of z k)"
  using assms by (simp add: chunk_bound chunk_of_def min_def)

lemma exchange_chunk:
  assumes "agree env henv room md z" and "room \<le> length px" and "bootable env at z d md addr" and "k < chunks_of z"
    and "downloading env (bin_new env (ucast addr) md) at z d k v dev" and "info_chunk_size info = CHUNK_SIZE"
  shows "\<exists>v' dev'. exchange env henv fd z px (v, dev, info) = Some ((v', dev', info), Status Continue, False)
    \<and> downloading env (bin_new env (ucast addr) md) at z d (Suc k) v' dev'"
proof -
  note ag = assms(1) [unfolded agree_def] and bt = assms(3) [unfolded bootable_def]
  let ?req = "\<lparr>req_which = of_nat k\<rparr> :: ChunkReq_msg" and ?msg = "\<lparr>which = of_nat k, chunk_bytes = chunk_of z k\<rparr> :: Chunk_msg"
  obtain loader where st: "state v = RequestChunk k (chunks_of z) loader"
    using assms(4,5) by (auto simp: downloading_def awaiting_def)
  have "k < 2 ^ 32"
  proof -
    have "k * CHUNK_SIZE < length z" "length z < 2 ^ 32"
      using assms(4) bt chunk_bound by (auto simp: expects_data_def)
    then show ?thesis
      by (simp add: CHUNK_SIZE_def)
  qed
  then have k: "unat (of_nat k :: u32) = k"
    by (simp add: unat_of_nat take_bit_nat_eq_self)
  obtain px' n where req: "ser_chunk_req env ?req px = (px', Inr n)" "n \<le> room" "he_de_chunk_req henv (take n px') = Inr ?req"
    using ag assms(2,4) unfolding reads_back_def by blast
  obtain p where p: "he_ser_chunk henv ?msg = Inr p" "length p < 2 ^ 24" "de_chunk env p = Inr ?msg"
    using ag assms(4) unfolding understood_def by blast
  obtain wire where wire: "encode_frame (crc_pkg env) Chunk p = Some wire"
    "queue_message (crc_pkg env) Chunk (he_ser_chunk henv ?msg) chan_new = Some (chan_new\<lparr>chan_queue := [wire]\<rparr>, True)"
    using queue_message_new [OF _ p(1,2)] ag by blast
  have host: "handle_message henv fd z (ChunkReq, take n px') info chan_new =
      Some (info, chan_new\<lparr>chan_queue := [wire]\<rparr>, False)"
    using req(3) wire(2) ag host_chunk [OF assms(4)] assms(6) k
    by (simp add: handle_message_def dispatch_chunk_req_def Let_def)
  have "carries_chunk z ?msg" "due_after (chunks_of z) k [?msg] = Suc k"
    using k assms(4) by (simp_all add: carries_chunk_def)
  then obtain v' dev' where 2: "recv_chunk env v ?msg dev = Some (v', dev', True)"
    "downloading env (bin_new env (ucast addr) md) at z d (Suc k) v' dev'"
    using recv_chunk_downloading [OF _ assms(5), of ?msg] bt bootable_relocation(1) [OF assms(3)] assms(4) by fastforce
  have "v2_handle_packet env v \<lparr>message_type = Chunk, payload_len = length p\<rparr> p dev = Some (v', dev', Status Continue)"
    using 2(1) p(3) by (simp add: v2_handle_packet_def)
  from exchange_messages [OF assms(1) _ req(2) _ host _ wire(1) p(2) this] req(1) st 2(2) show ?thesis
    by (auto simp: request_of_def)
qed

lemma exchange_boot:
  assumes "agree env henv room md z" and "room \<le> length px" and "bootable env at z d md addr"
    and "downloading env (bin_new env (ucast addr) md) at z d (chunks_of z) v dev"
  shows "\<exists>v' dev' call. exchange env henv fd z px (v, dev, info) = Some ((v', dev', info), Entered (JumpStub call), True)
    \<and> boots dev' call (ucast addr) d"
proof -
  note ag = assms(1) [unfolded agree_def] and bt = assms(3) [unfolded bootable_def]
  have bo: "booting env (bin_relocation (bin_new env (ucast addr) md)) d v dev"
    using assms(4) by (simp add: downloading_def)
  obtain px' n where req: "ser_booting env () px = (px', Inr n)" "n \<le> room"
    using ag assms(2) unfolding reads_back_def by blast
  obtain p where p: "he_ser_booting_ack henv = Inr p" "length p < 2 ^ 24"
    using ag by blast
  obtain wire where wire: "encode_frame (crc_pkg env) BootingAck p = Some wire"
    "queue_message (crc_pkg env) BootingAck (he_ser_booting_ack henv) chan_new = Some (chan_new\<lparr>chan_queue := [wire]\<rparr>, True)"
    using queue_message_new [OF _ p] ag by blast
  have host: "handle_message henv fd z (Booting, take n px') info chan_new =
      Some (info, chan_new\<lparr>chan_queue := [wire]\<rparr>, True)"
    using wire(2) ag by (simp add: handle_message_def)
  obtain v' dev' call m where 2:
    "recv_booting_ack env v dev = Some (v', dev', (Entered (JumpStub call) :: unit outcome))"
    "stub_copy (unat (r2_len call)) (ram (mach dev')) (r0_dst call) (r1_src call) (r2_len call) = Some m"
    "mem_read m (ucast addr) (length d) = d" "r3_entry call = ucast addr"
    using stub_boots [OF bo bootable_relocation(2) [OF assms(3)] _ bootable_relocation(3) [OF assms(3)]] bt by blast
  have "v2_handle_packet env v \<lparr>message_type = BootingAck, payload_len = length p\<rparr> p dev =
      Some (v', dev', (Entered (JumpStub call) :: unit outcome))"
    using 2(1) by (simp add: v2_handle_packet_def)
  from exchange_messages [OF assms(1) _ req(2) _ host _ wire(1) p(2) this] req(1) bo 2 show ?thesis
    by (auto simp: request_of_def booting_def boots_def)
qed

lemma exchanges_chunks:
  assumes "agree env henv room md z" and "room \<le> length px" and "bootable env at z d md addr"
    and "info_chunk_size info = CHUNK_SIZE"
  shows "k \<le> chunks_of z \<Longrightarrow> downloading env (bin_new env (ucast addr) md) at z d k v dev \<Longrightarrow>
    \<exists>v' dev' call. exchanges env henv fd z px (Suc (chunks_of z - k)) (v, dev, info) =
      Some ((v', dev', info), Entered (JumpStub call), True) \<and> boots dev' call (ucast addr) d"
proof (induction "chunks_of z - k" arbitrary: k v dev)
  case 0
  then have "k = chunks_of z"
    by simp
  with exchange_boot [OF assms(1-3), of v dev fd info] 0(3) show ?case
    by fastforce
next
  case (Suc n)
  then have k: "k < chunks_of z" "n = chunks_of z - Suc k"
    by simp_all
  obtain v' dev' where 1: "exchange env henv fd z px (v, dev, info) = Some ((v', dev', info), Status Continue, False)"
    "downloading env (bin_new env (ucast addr) md) at z d (Suc k) v' dev'"
    using exchange_chunk [OF assms(1-3) k(1) Suc.prems(2) assms(4)] by blast
  from Suc.hyps(1) [OF k(2) _ 1(2)] k(1) have "\<exists>v'' dev'' call. exchanges env henv fd z px (Suc n) (v', dev', info) =
      Some ((v'', dev'', info), Entered (JumpStub call), True) \<and> boots dev'' call (ucast addr) d"
    by (simp add: k(2))
  then show ?case
    using 1(1) by (simp flip: Suc.hyps(2))
qed

section \<open>Properties\<close>


definition demo_file_info :: Info where
  "demo_file_info = make_info crc32_ops demo_data demo_data"

definition demo_uploader :: "u32 host_env" where
  "demo_uploader = \<lparr>he_crc = crc32_ops, he_ser_metadata = (\<lambda>md. Inr [1]), he_ser_metadata_ack_ack = (\<lambda>a. Inr [1]),
    he_ser_chunk = (\<lambda>c. Inr (chunk_bytes c)), he_ser_booting_ack = Inr [], he_de_metadata_req = (\<lambda>bs. Inr ()),
    he_de_metadata_ack = (\<lambda>bs. Inr \<lparr>chunk_size = of_nat CHUNK_SIZE, metadata = host_metadata demo_file_info (Bin 0x8000)\<rparr>),
    he_de_chunk_req = (\<lambda>bs. Inr \<lparr>req_which = 0\<rparr>), compress_to_vec = (\<lambda>bs. bs), args_section = (\<lambda>bs. NoSection)\<rparr>"

definition demo_receiver :: "(u32, nat) env" where
  "demo_receiver = (demo_env 4)\<lparr>de_metadata := (\<lambda>bs. Inr (host_metadata demo_file_info (Bin 0x8000))),
    de_metadata_ack_ack := (\<lambda>bs. Inr \<lparr>is_ok = True\<rparr>), de_chunk := (\<lambda>bs. Inr \<lparr>which = 0, chunk_bytes = demo_data\<rparr>)\<rparr>"

lemma demo_agree: "agree demo_receiver demo_uploader 0 (host_metadata demo_file_info (Bin 0x8000)) demo_data"
  using crc32.crc_stream_axioms
  by (simp add: agree_def reads_back_def understood_def demo_receiver_def demo_uploader_def demo_env_def demo_facts)
     (simp add: chunk_of_def demo_data_def CHUNK_SIZE_def)

lemma demo_receiver_inflates: "inflates demo_receiver (\<lambda>st i j. st = i \<and> i = j) demo_data demo_data"
  using copying_inflates [of demo_data] by (simp add: inflates_def demo_receiver_def demo_facts)


end
