(* ===== verification/Host_Suboot.thy ===== *)
theory Host_Suboot
  imports Host_Upload Legacy
begin

text \<open>
  The host's side of the legacy protocol (\<open>host/okdude/src/suboot.rs\<close>), on the line of
  \<open>Host_Upload\<close>, and its conversation with the device's \<open>perform_download\<close>.
\<close>

section \<open>Waiting for an answer\<close>

text \<open>
  The matcher of both loops: \<open>status\<close> bytes of an answer have been seen, \<open>switch\<close> says of which one.
  The first answer is \<open>BOOT_ERROR\<close>, the second one starts with the byte \<open>lo\<close> twice and goes on with
  \<open>hi\<close>, the third one is a text.
\<close>

datatype answer_step = Seen nat nat | TextSeen

definition answer_byte :: "u8 \<Rightarrow> u8 \<Rightarrow> nat \<times> nat \<Rightarrow> u8 \<Rightarrow> answer_step" where
  "answer_byte lo hi st b =
    (if st = (0, 0) \<and> b = 0xcc then Seen 1 1
     else if st = (1, 1) \<and> b = 0xcc then Seen 2 1
     else if st = (2, 1) \<and> b = 0xbb then Seen 3 1
     else if st = (3, 1) \<and> b = 0xbb then Seen 4 1
     else if st = (0, 0) \<and> b = lo then Seen 1 2
     else if st = (1, 2) \<and> b = lo then Seen 2 2
     else if st = (2, 2) \<and> b = hi then Seen 3 2
     else if st = (3, 2) \<and> b = hi then Seen 4 2
     else if st = (0, 0) \<and> b = 0xee then Seen 1 3
     else if st = (1, 3) \<and> b = 0xee then Seen 2 3
     else if st = (2, 3) \<and> b = 0xdd then Seen 3 3
     else if st = (3, 3) \<and> b = 0xdd then TextSeen
     else Seen 0 0)"

text \<open>The loop; read errors other than a broken pipe are ignored. The result is \<open>switch\<close>.\<close>

function (sequential) wait_answer :: "u8 \<Rightarrow> u8 \<Rightarrow> nat \<times> nat \<Rightarrow> tty \<Rightarrow> tty \<times> nat run" where
  "wait_answer lo hi st t =
    (case read8 t of
       (t1, Returned (Inl _)) \<Rightarrow> wait_answer lo hi st t1
     | (t1, Returned (Inr b)) \<Rightarrow>
         (case answer_byte lo hi st b of
            Seen status switch \<Rightarrow>
              if status = 4 then (t1, Returned switch) else wait_answer lo hi (status, switch) t1
          | TextSeen \<Rightarrow>
              (case read_record t1 of
                 (t2, Returned _) \<Rightarrow> wait_answer lo hi (0, 0) t2
               | (t2, Exited) \<Rightarrow> (t2, Exited)
               | (t2, Panicked) \<Rightarrow> (t2, Panicked)
               | (t2, Blocked) \<Rightarrow> (t2, Blocked)))
     | (t1, Exited) \<Rightarrow> (t1, Exited)
     | (t1, Panicked) \<Rightarrow> (t1, Panicked)
     | (t1, Blocked) \<Rightarrow> (t1, Blocked))"
  by pat_completeness auto
termination
  by (relation "measure (\<lambda>(lo, hi, st, t). length (tty_in t))")
     (auto dest: read8_Returned [OF sym] read_record_length [OF sym] read8_Returned read_record_length
       intro: le_less_trans)

declare wait_answer.simps [simp del]

section \<open>The upload\<close>

datatype suboot_error = ClearFailed | UnsupportedFormat | FileError string | SubootIo io_error

fun write_words :: "u32 list \<Rightarrow> tty \<Rightarrow> tty \<times> (io_error + unit)" where
  "write_words [] t = (t, Inr ())"
| "write_words (w # ws) t =
    (case write_all t (u32_to_le_bytes w) of
       (t, Inl e) \<Rightarrow> (t, Inl e)
     | (t, Inr _) \<Rightarrow> write_words ws t)"

text \<open>\<open>BOOT_ERROR\<close> ends the process; any other end state than the two is impossible.\<close>

definition after_answer ::
  "tty \<times> nat run \<Rightarrow> (tty \<Rightarrow> tty \<times> (suboot_error + unit) run) \<Rightarrow> tty \<times> (suboot_error + unit) run" where
  "after_answer r k =
    (case r of
       (t, Returned switch) \<Rightarrow>
         if switch = 1 then (t, Exited) else if switch = 2 then k t else (t, Panicked)
     | (t, Exited) \<Rightarrow> (t, Exited)
     | (t, Panicked) \<Rightarrow> (t, Panicked)
     | (t, Blocked) \<Rightarrow> (t, Blocked))"

definition suboot_transfer :: "u32 \<Rightarrow> u8 list \<Rightarrow> tty \<Rightarrow> tty \<times> (suboot_error + unit) run" where
  "suboot_transfer crc32 prog_data t =
    (case read32_le t of
       (t, Returned (Inl e)) \<Rightarrow> (t, Returned (Inl (SubootIo e)))
     | (t, Returned (Inr retransmitted_crc)) \<Rightarrow>
         if retransmitted_crc \<noteq> crc32 then (t, Exited)
         else
           (case write_words [command_code PutCode] t of
              (t, Inl e) \<Rightarrow> (t, Returned (Inl (SubootIo e)))
            | (t, Inr _) \<Rightarrow>
                (case write_all t prog_data of
                   (t, Inl e) \<Rightarrow> (t, Returned (Inl (SubootIo e)))
                 | (t, Inr _) \<Rightarrow>
                     after_answer (wait_answer 0xaa 0x99 (0, 0) t) (\<lambda>t. (t, Returned (Inr ())))))
     | (t, Exited) \<Rightarrow> (t, Exited)
     | (t, Panicked) \<Rightarrow> (t, Panicked)
     | (t, Blocked) \<Rightarrow> (t, Blocked))"

text \<open>
  \<open>run\<close>. \<open>stale\<close> is the number of input events that clearing the buffers discards, \<open>None\<close> when
  clearing fails. The conversions to 32 bits panic when they fail.
\<close>

definition suboot_run ::
  "'h crc_ops \<Rightarrow> FormatDetails \<Rightarrow> (string + u8 list) \<Rightarrow> nat option \<Rightarrow> tty \<Rightarrow> tty \<times> (suboot_error + unit) run" where
  "suboot_run ops fd file stale t =
    (case stale of
       None \<Rightarrow> (t, Returned (Inl ClearFailed))
     | Some n \<Rightarrow>
         let t = t\<lparr>tty_in := drop n (tty_in t)\<rparr> in
         (case fd of
            Elf \<Rightarrow> (t, Returned (Inl UnsupportedFormat))
          | Bin load_address \<Rightarrow>
              (case file of
                 Inl e \<Rightarrow> (t, Returned (Inl (FileError e)))
               | Inr prog_data \<Rightarrow>
                   let crc32 = crc_hash ops prog_data in
                   (case write_words [command_code PutProgInfo] t of
                      (t, Inl e) \<Rightarrow> (t, Returned (Inl (SubootIo e)))
                    | (t, Inr _) \<Rightarrow>
                        if load_address \<ge> 2 ^ 32 then (t, Panicked)
                        else
                          (case write_words [ucast load_address] t of
                             (t, Inl e) \<Rightarrow> (t, Returned (Inl (SubootIo e)))
                           | (t, Inr _) \<Rightarrow>
                               if length prog_data \<ge> 2 ^ 32 then (t, Panicked)
                               else
                                 (case write_words [of_nat (length prog_data), crc32] t of
                                    (t, Inl e) \<Rightarrow> (t, Returned (Inl (SubootIo e)))
                                  | (t, Inr _) \<Rightarrow>
                                      (case tty_flush t of
                                         (t, Inl e) \<Rightarrow> (t, Returned (Inl (SubootIo e)))
                                       | (t, Inr _) \<Rightarrow>
                                           after_answer (wait_answer 0x66 0x55 (0, 0) t)
                                             (suboot_transfer crc32 prog_data))))))))"

section \<open>Reading the answers\<close>

lemma wait_answer_Got:
  assumes "tty_in t = Got b # es" and "answer_byte lo hi st b = Seen i j" and "i \<noteq> 4"
  shows "wait_answer lo hi st t = wait_answer lo hi (i, j) (t\<lparr>tty_in := es\<rparr>)"
  using assms by (subst wait_answer.simps) simp

lemma wait_answer_last:
  assumes "tty_in t = Got b # es" and "answer_byte lo hi st b = Seen 4 j"
  shows "wait_answer lo hi st t = (t\<lparr>tty_in := es\<rparr>, Returned j)"
  using assms by (subst wait_answer.simps) simp

lemma wait_answer_four:
  assumes "tty_in t = map Got [a, b, c, d] @ es" and "answer_byte lo hi (0, 0) a = Seen 1 j"
    and "answer_byte lo hi (1, j) b = Seen 2 j" and "answer_byte lo hi (2, j) c = Seen 3 j"
    and "answer_byte lo hi (3, j) d = Seen 4 j"
  shows "wait_answer lo hi (0, 0) t = (t\<lparr>tty_in := es\<rparr>, Returned j)"
proof -
  have "wait_answer lo hi (0, 0) t = wait_answer lo hi (1, j) (t\<lparr>tty_in := map Got [b, c, d] @ es\<rparr>)"
    using assms(1,2) by (intro wait_answer_Got) simp_all
  also have "\<dots> = wait_answer lo hi (2, j) (t\<lparr>tty_in := map Got [c, d] @ es\<rparr>)"
    using assms(3) wait_answer_Got [of "t\<lparr>tty_in := map Got [b, c, d] @ es\<rparr>" b] by simp
  also have "\<dots> = wait_answer lo hi (3, j) (t\<lparr>tty_in := map Got [d] @ es\<rparr>)"
    using assms(4) wait_answer_Got [of "t\<lparr>tty_in := map Got [c, d] @ es\<rparr>" c] by simp
  also have "\<dots> = (t\<lparr>tty_in := es\<rparr>, Returned j)"
    using assms(5) wait_answer_last [of "t\<lparr>tty_in := map Got [d] @ es\<rparr>" d] by simp
  finally show ?thesis .
qed

lemma wait_answer_text:
  assumes "tty_in t = map Got (text_record s) @ es" and "length s < 2 ^ 32" and "lo \<noteq> 0xee"
  shows "wait_answer lo hi (0, 0) t =
    wait_answer lo hi (0, 0) (t\<lparr>tty_in := es, tty_log := tty_log t @ printed (Text s)\<rparr>)"
proof -
  let ?r = "map Got (u32_to_le_bytes (of_nat (length s)) @ s) @ es"
  have cmd: "u32_to_le_bytes 0xddddeeee = [0xee, 0xee, 0xdd, 0xdd]"
    by (simp add: u32_to_le_bytes_def)
  have scans: "answer_byte lo hi (0, 0) 0xee = Seen 1 3" "answer_byte lo hi (Suc 0, 3) 0xee = Seen 2 3"
    "answer_byte lo hi (2, 3) 0xdd = Seen 3 3" "answer_byte lo hi (3, 3) 0xdd = TextSeen"
    using assms(3) by (auto simp: answer_byte_def)
  have "wait_answer lo hi (0, 0) t = wait_answer lo hi (3, 3) (t\<lparr>tty_in := Got 0xdd # ?r\<rparr>)"
    using assms(1) by (simp add: text_record_def cmd wait_answer_Got scans)
  also have "\<dots> = wait_answer lo hi (0, 0) (t\<lparr>tty_in := es, tty_log := tty_log t @ printed (Text s)\<rparr>)"
    using read_record_Got [of "t\<lparr>tty_in := ?r\<rparr>" s es] assms(2)
    by (subst wait_answer.simps) (simp add: scans)
  finally show ?thesis .
qed

lemma wait_answer_texts:
  assumes "texts out" and "tty_in t = map Got out @ es" and "lo \<noteq> 0xee"
  shows "\<exists>log. wait_answer lo hi (0, 0) t = wait_answer lo hi (0, 0) (t\<lparr>tty_in := es, tty_log := log\<rparr>)"
proof -
  obtain ts where ts: "out = concat (map text_record ts)" "\<forall>s \<in> set ts. length s < 2 ^ 32"
    using assms(1) by (auto simp: texts_def)
  from ts(2) assms(2) [unfolded ts(1)] show ?thesis
  proof (induction ts arbitrary: t)
    case Nil
    then show ?case
      by (intro exI [of _ "tty_log t"]) (cases t, simp)
  next
    case (Cons s ts)
    let ?es = "map Got (concat (map text_record ts)) @ es"
    have "wait_answer lo hi (0, 0) t =
        wait_answer lo hi (0, 0) (t\<lparr>tty_in := ?es, tty_log := tty_log t @ printed (Text s)\<rparr>)"
      by (rule wait_answer_text) (use Cons.prems assms(3) in simp_all)
    with Cons.IH [of "t\<lparr>tty_in := ?es, tty_log := tty_log t @ printed (Text s)\<rparr>"] Cons.prems(1) show ?case
      by auto
  qed
qed

lemma answer_bytes:
  "u32_to_le_bytes (command_code GetCode) = [0x66, 0x66, 0x55, 0x55]"
  "u32_to_le_bytes (command_code BootSuccess) = [0xaa, 0xaa, 0x99, 0x99]"
  "u32_to_le_bytes (command_code BootError) = [0xcc, 0xcc, 0xbb, 0xbb]"
  by (simp_all add: u32_to_le_bytes_def)

text \<open>Behind any texts, the awaited command and \<open>BOOT_ERROR\<close> are recognized.\<close>

lemma wait_command:
  assumes "texts out" and "tty_in t = map Got (out @ [lo, lo, hi, hi]) @ es" and "lo \<noteq> 0xee" and "lo \<noteq> 0xcc"
  shows "\<exists>log. wait_answer lo hi (0, 0) t = (t\<lparr>tty_in := es, tty_log := log\<rparr>, Returned 2)"
proof -
  let ?es = "map Got [lo, lo, hi, hi] @ es"
  obtain log where "wait_answer lo hi (0, 0) t = wait_answer lo hi (0, 0) (t\<lparr>tty_in := ?es, tty_log := log\<rparr>)"
    using wait_answer_texts [OF assms(1), of t ?es lo hi] assms(2,3) by auto
  also have "\<dots> = (t\<lparr>tty_in := es, tty_log := log\<rparr>, Returned 2)"
    using wait_answer_four [of "t\<lparr>tty_in := ?es, tty_log := log\<rparr>" lo lo hi hi es lo hi 2] assms(4)
    by (simp add: answer_byte_def)
  finally show ?thesis
    by blast
qed

lemma wait_boot_error:
  assumes "texts out" and "tty_in t = map Got (out @ [0xcc, 0xcc, 0xbb, 0xbb]) @ es" and "lo \<noteq> 0xee"
  shows "\<exists>log. wait_answer lo hi (0, 0) t = (t\<lparr>tty_in := es, tty_log := log\<rparr>, Returned 1)"
proof -
  let ?es = "map Got [0xcc, 0xcc, 0xbb, 0xbb] @ es"
  obtain log where "wait_answer lo hi (0, 0) t = wait_answer lo hi (0, 0) (t\<lparr>tty_in := ?es, tty_log := log\<rparr>)"
    using wait_answer_texts [OF assms(1), of t ?es lo hi] assms(2,3) by auto
  also have "\<dots> = (t\<lparr>tty_in := es, tty_log := log\<rparr>, Returned 1)"
    using wait_answer_four [of "t\<lparr>tty_in := ?es, tty_log := log\<rparr>" "0xcc" "0xcc" "0xbb" "0xbb" es lo hi 1]
    by (simp add: answer_byte_def)
  finally show ?thesis
    by blast
qed

lemma write_words_ok:
  "tty_faults t = [] \<Longrightarrow> write_words ws t = (t\<lparr>tty_out := tty_out t @ concat (map u32_to_le_bytes ws)\<rparr>, Inr ())"
  by (induction ws arbitrary: t) (simp_all add: write_all_def)

lemma suboot_transfer_ok:
  assumes "texts t2" and "tty_in t = map Got (u32_to_le_bytes ck @ t2 @ u32_to_le_bytes (command_code BootSuccess)) @ es"
    and "tty_faults t = []"
  shows "\<exists>log. suboot_transfer ck d t = (t\<lparr>tty_in := es, tty_log := log,
    tty_out := tty_out t @ u32_to_le_bytes (command_code PutCode) @ d\<rparr>, Returned (Inr ()))"
proof -
  let ?es = "map Got (t2 @ [0xaa, 0xaa, 0x99, 0x99]) @ es"
  let ?t = "t\<lparr>tty_in := ?es, tty_out := tty_out t @ u32_to_le_bytes (command_code PutCode) @ d\<rparr>"
  have "read32_le t = (t\<lparr>tty_in := ?es\<rparr>, Returned (Inr ck))"
    using read32_le_Got [of t ck ?es] assms(2) unfolding answer_bytes by simp
  moreover obtain log where "wait_answer 0xaa 0x99 (0, 0) ?t = (?t\<lparr>tty_in := es, tty_log := log\<rparr>, Returned 2)"
    using wait_command [OF assms(1), of ?t "0xaa" "0x99" es] by auto
  ultimately show ?thesis
    using assms(3) by (intro exI [of _ log]) (simp add: suboot_transfer_def write_words_ok write_all_def after_answer_def
        del: command_code.simps write_words.simps)
qed

text \<open>The whole run, given answers of the expected form.\<close>

definition suboot_answers :: "u32 \<Rightarrow> u8 list \<Rightarrow> u8 list \<Rightarrow> u8 list \<Rightarrow> u8 list" where
  "suboot_answers ck t1 t2 last_word =
    t1 @ u32_to_le_bytes (command_code GetCode) @ u32_to_le_bytes ck @ t2 @ last_word"

lemma suboot_run_writes:
  assumes "tty_faults t = []" and "addr < 2 ^ 32" and "length d < 2 ^ 32"
    and "tty_in t = old @ map Got (t1 @ [0x66, 0x66, 0x55, 0x55]) @ es" and "texts t1"
  shows "\<exists>log. suboot_run ops (Bin addr) (Inr d) (Some (length old)) t =
    suboot_transfer (crc_hash ops d) d (t\<lparr>
      tty_out := tty_out t @ u32_to_le_bytes (command_code PutProgInfo) @ u32_to_le_bytes (ucast addr)
        @ u32_to_le_bytes (of_nat (length d)) @ u32_to_le_bytes (crc_hash ops d), tty_in := es, tty_log := log\<rparr>)"
proof -
  let ?t = "t\<lparr>tty_in := map Got (t1 @ [0x66, 0x66, 0x55, 0x55]) @ es,
      tty_out := tty_out t @ u32_to_le_bytes (command_code PutProgInfo) @ u32_to_le_bytes (ucast addr)
        @ u32_to_le_bytes (of_nat (length d)) @ u32_to_le_bytes (crc_hash ops d)\<rparr>"
  obtain log where "wait_answer 0x66 0x55 (0, 0) ?t = (?t\<lparr>tty_in := es, tty_log := log\<rparr>, Returned 2)"
    using wait_command [OF assms(5), of ?t "0x66" "0x55" es] by auto
  moreover have "\<not> 2 ^ 32 \<le> addr"
    using assms(2) by (simp add: not_le)
  ultimately show ?thesis
    using assms(1,3,4)
    by (intro exI [of _ log]) (auto simp: suboot_run_def write_words_ok Let_def after_answer_def
        simp del: command_code.simps write_words.simps)
qed

section \<open>Properties\<close>



lemma read8_keeps: "read8 t = (t', r) \<Longrightarrow> tty_out t' = tty_out t \<and> tty_faults t' = tty_faults t"
  by (auto simp: read8_def split: prod.splits)

lemma read32_le_keeps: "read32_le t = (t', r) \<Longrightarrow> tty_out t' = tty_out t \<and> tty_faults t' = tty_faults t"
  by (auto simp: read32_le_def split: prod.splits)

lemma read_record_keeps: "read_record t = (t', r) \<Longrightarrow> tty_out t' = tty_out t \<and> tty_faults t' = tty_faults t"
  by (auto simp: read_record_def Let_def split: prod.splits run.splits if_splits dest: read32_le_keeps)

lemma wait_answer_keeps:
  "wait_answer lo hi st t = (t', r) \<Longrightarrow> tty_out t' = tty_out t \<and> tty_faults t' = tty_faults t"
proof (induction lo hi st t arbitrary: t' r rule: wait_answer.induct)
  case (1 lo hi st t)
  obtain t1 res where r8: "read8 t = (t1, res)"
    by (cases "read8 t")
  note k = read8_keeps [OF r8]
  note unfolded = "1.prems" [unfolded wait_answer.simps [of lo hi st t] r8, simplified]
  show ?case
  proof (cases res)
    case (Returned x)
    show ?thesis
    proof (cases x)
      case (Inl e)
      then show ?thesis
        using "1.IH"(1) [OF r8 [symmetric], unfolded Returned Inl, OF refl refl] unfolded k Returned by simp
    next
      case (Inr b)
      show ?thesis
      proof (cases "answer_byte lo hi st b")
        case (Seen i j)
        then show ?thesis
          using "1.IH"(2) [OF r8 [symmetric], unfolded Returned Inr, OF refl refl Seen] unfolded k Returned Inr
          by (auto split: if_splits)
      next
        case TextSeen
        obtain t2 r2 where rr: "read_record t1 = (t2, r2)"
          by (cases "read_record t1")
        then show ?thesis
          using "1.IH"(3) [OF r8 [symmetric], unfolded Returned Inr, OF refl refl TextSeen rr [symmetric]]
            unfolded k Returned Inr TextSeen read_record_keeps [OF rr]
          by (cases r2) auto
      qed
    qed
  qed (use unfolded k in auto)
qed

text \<open>
  The host sends a program only after the device has confirmed its checksum, and all of it:
  whatever arrives on the line, the host has written the four words that announce the program, or
  these words and the command with the whole program, and it reports success only in the second
  case.
\<close>

lemma suboot_all_or_announcement:
  assumes "suboot_run ops (Bin addr) (Inr d) (Some n) t = (t', r)" and "tty_faults t = []"
    and "addr < 2 ^ 32" and "length d < 2 ^ 32"
  defines "info \<equiv> concat (map u32_to_le_bytes [command_code PutProgInfo, ucast addr, of_nat (length d), crc_hash ops d])"
  shows "tty_out t' = tty_out t @ info \<and> r \<noteq> Returned (Inr ())
    \<or> tty_out t' = tty_out t @ info @ u32_to_le_bytes (command_code PutCode) @ d"
proof -
  let ?t = "t\<lparr>tty_in := drop n (tty_in t), tty_out := tty_out t @ info\<rparr>"
  have "suboot_run ops (Bin addr) (Inr d) (Some n) t =
      after_answer (wait_answer 0x66 0x55 (0, 0) ?t) (suboot_transfer (crc_hash ops d) d)"
    using assms(2-4) by (auto simp: suboot_run_def write_words_ok Let_def info_def
        simp del: command_code.simps write_words.simps)
  moreover obtain t1 r1 where w1: "wait_answer 0x66 0x55 (0, 0) ?t = (t1, r1)"
    by (cases "wait_answer 0x66 0x55 (0, 0) ?t")
  ultimately have run: "after_answer (t1, r1) (suboot_transfer (crc_hash ops d) d) = (t', r)"
    using assms(1) by simp
  have t1: "tty_out t1 = tty_out t @ info" "tty_faults t1 = []"
    using wait_answer_keeps [OF w1] assms(2) by simp_all
  show ?thesis
  proof (cases "r1 = Returned 2")
    case False
    then show ?thesis
      using run t1(1) by (cases r1) (auto simp: after_answer_def split: if_splits)
  next
    case True
    then have tr: "suboot_transfer (crc_hash ops d) d t1 = (t', r)"
      using run by (simp add: after_answer_def)
    obtain t2 r2 where r2: "read32_le t1 = (t2, r2)"
      by (cases "read32_le t1")
    note k2 = read32_le_keeps [OF r2]
    show ?thesis
    proof (cases "r2 = Returned (Inr (crc_hash ops d))")
      case False
      then show ?thesis
        using tr r2 k2 t1 by (auto simp: suboot_transfer_def split: run.splits sum.splits if_splits)
    next
      case True
      let ?t3 = "t2\<lparr>tty_out := tty_out t2 @ u32_to_le_bytes (command_code PutCode) @ d\<rparr>"
      obtain t4 r4 where w4: "wait_answer 0xaa 0x99 (0, 0) ?t3 = (t4, r4)"
        by (cases "wait_answer 0xaa 0x99 (0, 0) ?t3")
      have "after_answer (t4, r4) (\<lambda>t. (t, Returned (Inr ()))) = (t', r)"
        using tr r2 True k2 t1(2) w4
        by (simp add: suboot_transfer_def write_words_ok write_all_def del: command_code.simps write_words.simps)
      then have "t' = t4"
        by (cases r4) (auto simp: after_answer_def split: if_splits)
      then show ?thesis
        using wait_answer_keeps [OF w4] k2 t1 by simp
    qed
  qed
qed

theorem suboot_all_or_announcement_witness:
  "\<exists>t' r. suboot_run crc32_ops (Bin 0x8000) (Inr [1, 2, 3, 4]) (Some 0) (demo_line [7, 7]) = (t', r)
    \<and> (tty_out t' = concat (map u32_to_le_bytes [command_code PutProgInfo, 0x8000, 4, crc_hash crc32_ops [1, 2, 3, 4]])
         \<and> r \<noteq> Returned (Inr ())
       \<or> tty_out t' = concat (map u32_to_le_bytes [command_code PutProgInfo, 0x8000, 4, crc_hash crc32_ops [1, 2, 3, 4]])
           @ u32_to_le_bytes (command_code PutCode) @ [1, 2, 3, 4])"
proof -
  obtain t' r where run: "suboot_run crc32_ops (Bin 0x8000) (Inr [1, 2, 3, 4]) (Some 0) (demo_line [7, 7]) = (t', r)"
    by (cases "suboot_run crc32_ops (Bin 0x8000) (Inr [1, 2, 3, 4]) (Some 0) (demo_line [7, 7])")
  from suboot_all_or_announcement [OF run] run show ?thesis
    by (simp add: demo_line_def del: command_code.simps)
qed

end
