(* ===== verification/Ppp_Frame.thy ===== *)
theory Ppp_Frame
  imports Message
begin

text \<open>
  PPP frames of the antimony kernel in HDLC-like framing: the frame check sequence
  (\<open>device/antimony/src/net/hdlc.rs\<close>), the fixed-size buffer in which frames are built and the check of
  received frames (\<open>net.rs\<close>). \<open>None\<close> is a panic.
\<close>

section \<open>Frame check sequence\<close>

definition HDLC_FLAG :: u8 where "HDLC_FLAG = 0x7e"
definition HDLC_ADDRESS :: u8 where "HDLC_ADDRESS = 0xff"
definition HDLC_CONTROL :: u8 where "HDLC_CONTROL = 0x03"
definition HDLC_ESC :: u8 where "HDLC_ESC = 0x7d"
definition HDLC_ESC_XOR :: u8 where "HDLC_ESC_XOR = 0x20"

definition FCS_TABLE :: "u16 list" where
  "FCS_TABLE = [
    0x0000, 0x1189, 0x2312, 0x329b, 0x4624, 0x57ad, 0x6536, 0x74bf,
    0x8c48, 0x9dc1, 0xaf5a, 0xbed3, 0xca6c, 0xdbe5, 0xe97e, 0xf8f7,
    0x1081, 0x0108, 0x3393, 0x221a, 0x56a5, 0x472c, 0x75b7, 0x643e,
    0x9cc9, 0x8d40, 0xbfdb, 0xae52, 0xdaed, 0xcb64, 0xf9ff, 0xe876,
    0x2102, 0x308b, 0x0210, 0x1399, 0x6726, 0x76af, 0x4434, 0x55bd,
    0xad4a, 0xbcc3, 0x8e58, 0x9fd1, 0xeb6e, 0xfae7, 0xc87c, 0xd9f5,
    0x3183, 0x200a, 0x1291, 0x0318, 0x77a7, 0x662e, 0x54b5, 0x453c,
    0xbdcb, 0xac42, 0x9ed9, 0x8f50, 0xfbef, 0xea66, 0xd8fd, 0xc974,
    0x4204, 0x538d, 0x6116, 0x709f, 0x0420, 0x15a9, 0x2732, 0x36bb,
    0xce4c, 0xdfc5, 0xed5e, 0xfcd7, 0x8868, 0x99e1, 0xab7a, 0xbaf3,
    0x5285, 0x430c, 0x7197, 0x601e, 0x14a1, 0x0528, 0x37b3, 0x263a,
    0xdecd, 0xcf44, 0xfddf, 0xec56, 0x98e9, 0x8960, 0xbbfb, 0xaa72,
    0x6306, 0x728f, 0x4014, 0x519d, 0x2522, 0x34ab, 0x0630, 0x17b9,
    0xef4e, 0xfec7, 0xcc5c, 0xddd5, 0xa96a, 0xb8e3, 0x8a78, 0x9bf1,
    0x7387, 0x620e, 0x5095, 0x411c, 0x35a3, 0x242a, 0x16b1, 0x0738,
    0xffcf, 0xee46, 0xdcdd, 0xcd54, 0xb9eb, 0xa862, 0x9af9, 0x8b70,
    0x8408, 0x9581, 0xa71a, 0xb693, 0xc22c, 0xd3a5, 0xe13e, 0xf0b7,
    0x0840, 0x19c9, 0x2b52, 0x3adb, 0x4e64, 0x5fed, 0x6d76, 0x7cff,
    0x9489, 0x8500, 0xb79b, 0xa612, 0xd2ad, 0xc324, 0xf1bf, 0xe036,
    0x18c1, 0x0948, 0x3bd3, 0x2a5a, 0x5ee5, 0x4f6c, 0x7df7, 0x6c7e,
    0xa50a, 0xb483, 0x8618, 0x9791, 0xe32e, 0xf2a7, 0xc03c, 0xd1b5,
    0x2942, 0x38cb, 0x0a50, 0x1bd9, 0x6f66, 0x7eef, 0x4c74, 0x5dfd,
    0xb58b, 0xa402, 0x9699, 0x8710, 0xf3af, 0xe226, 0xd0bd, 0xc134,
    0x39c3, 0x284a, 0x1ad1, 0x0b58, 0x7fe7, 0x6e6e, 0x5cf5, 0x4d7c,
    0xc60c, 0xd785, 0xe51e, 0xf497, 0x8028, 0x91a1, 0xa33a, 0xb2b3,
    0x4a44, 0x5bcd, 0x6956, 0x78df, 0x0c60, 0x1de9, 0x2f72, 0x3efb,
    0xd68d, 0xc704, 0xf59f, 0xe416, 0x90a9, 0x8120, 0xb3bb, 0xa232,
    0x5ac5, 0x4b4c, 0x79d7, 0x685e, 0x1ce1, 0x0d68, 0x3ff3, 0x2e7a,
    0xe70e, 0xf687, 0xc41c, 0xd595, 0xa12a, 0xb0a3, 0x8238, 0x93b1,
    0x6b46, 0x7acf, 0x4854, 0x59dd, 0x2d62, 0x3ceb, 0x0e70, 0x1ff9,
    0xf78f, 0xe606, 0xd49d, 0xc514, 0xb1ab, 0xa022, 0x92b9, 0x8330,
    0x7bc7, 0x6a4e, 0x58d5, 0x495c, 0x3de3, 0x2c6a, 0x1ef1, 0x0f78]"

definition PPP_INIT_FCS16 :: u16 where "PPP_INIT_FCS16 = 0xffff"

fun ppp_fcs16 :: "u16 \<Rightarrow> u8 list \<Rightarrow> u16 option" where
  "ppp_fcs16 fcs [] = Some fcs"
| "ppp_fcs16 fcs (b # bs) = do {
     t \<leftarrow> idx FCS_TABLE (unat ((fcs XOR ucast b) AND 0xff));
     ppp_fcs16 (drop_bit 8 fcs XOR t) bs
   }"

definition ppp_calc_fcs :: "u8 list \<Rightarrow> u16 option" where
  "ppp_calc_fcs bs = do { fcs \<leftarrow> ppp_fcs16 PPP_INIT_FCS16 bs; Some (NOT fcs) }"

section \<open>Building and checking frames\<close>

definition PPP_MRU :: nat where "PPP_MRU = 1500"
definition MAX_FRAME :: nat where "MAX_FRAME = 1 + 1 + 1 + 2 + PPP_MRU + 2"
definition PROTO_LCP :: u16 where "PROTO_LCP = 0xc021"
definition PROTO_IPCP :: u16 where "PROTO_IPCP = 0x8021"
definition PROTO_IP :: u16 where "PROTO_IP = 0x0021"

record Buffer =
  buf_len :: nat
  buf_bytes :: "u8 list"

definition buffer_new :: Buffer where
  "buffer_new = \<lparr>buf_len = 0, buf_bytes = replicate MAX_FRAME 0\<rparr>"

definition begin_ppp :: "u16 \<Rightarrow> Buffer \<Rightarrow> Buffer option" where
  "begin_ppp proto self = do {
     bs \<leftarrow> upd (buf_bytes self) 0 HDLC_FLAG;
     bs \<leftarrow> upd bs 1 HDLC_ADDRESS;
     bs \<leftarrow> upd bs 2 HDLC_CONTROL;
     bs \<leftarrow> copy_into bs 3 (u16_to_be_bytes proto);
     Some (self\<lparr>buf_bytes := bs, buf_len := 5\<rparr>)
   }"

definition buffer_write :: "u8 list \<Rightarrow> Buffer \<Rightarrow> Buffer option" where
  "buffer_write b self = do {
     bs \<leftarrow> copy_into (buf_bytes self) (buf_len self) b;
     Some (self\<lparr>buf_bytes := bs, buf_len := buf_len self + length b\<rparr>)
   }"

definition finish_ppp :: "Buffer \<Rightarrow> Buffer option" where
  "finish_ppp self = do {
     body \<leftarrow> subslice (buf_bytes self) 1 (buf_len self);
     fcs \<leftarrow> ppp_calc_fcs body;
     bs \<leftarrow> copy_into (buf_bytes self) (buf_len self) (u16_to_le_bytes fcs);
     bs \<leftarrow> upd bs (buf_len self + 2) HDLC_FLAG;
     Some (self\<lparr>buf_bytes := bs, buf_len := buf_len self + 3\<rparr>)
   }"

text \<open>The frame as the receive channel stores it: with the leading flag, without the closing one.\<close>

definition try_from_hdlc_frame :: "u8 list \<Rightarrow> (unit + u8 list) option" where
  "try_from_hdlc_frame frame =
    (if length frame < 7 then Some (Inl ())
     else if frame ! 0 \<noteq> HDLC_FLAG \<or> frame ! 1 \<noteq> HDLC_ADDRESS \<or> frame ! 2 \<noteq> HDLC_CONTROL then Some (Inl ())
     else do {
       field \<leftarrow> subslice frame (length frame - 2) (length frame);
       fcs_field \<leftarrow> u16_from_le_bytes field;
       body \<leftarrow> subslice frame 1 (length frame - 2);
       fcs_calc \<leftarrow> ppp_calc_fcs body;
       if fcs_calc \<noteq> fcs_field then Some (Inl ())
       else do { p \<leftarrow> subslice frame 3 (length frame - 2); Some (Inr p) }
     })"

section \<open>The check sequence bit by bit\<close>

text \<open>The reference: the reflected polynomial of the 16-bit check sequence, one bit at a time.\<close>

definition fcs_bit :: "u16 \<Rightarrow> u16" where
  "fcs_bit r = (if r AND 1 = 1 then drop_bit 1 r XOR 0x8408 else drop_bit 1 r)"

definition fcs_entry :: "u16 \<Rightarrow> u16" where
  "fcs_entry i = (fcs_bit ^^ 8) i"

definition fcs_byte :: "u16 \<Rightarrow> u8 \<Rightarrow> u16" where
  "fcs_byte r b = (fcs_bit ^^ 8) (r XOR ucast b)"

lemma fcs_entry_eight:
  "fcs_entry i = fcs_bit (fcs_bit (fcs_bit (fcs_bit (fcs_bit (fcs_bit (fcs_bit (fcs_bit i)))))))"
  by (simp add: fcs_entry_def numeral_eq_Suc)

lemma FCS_TABLE_literal:
  "FCS_TABLE = map fcs_entry [
    0, 1, 2, 3, 4, 5, 6, 7, 8, 9, 10, 11, 12, 13, 14, 15,
    16, 17, 18, 19, 20, 21, 22, 23, 24, 25, 26, 27, 28, 29, 30, 31,
    32, 33, 34, 35, 36, 37, 38, 39, 40, 41, 42, 43, 44, 45, 46, 47,
    48, 49, 50, 51, 52, 53, 54, 55, 56, 57, 58, 59, 60, 61, 62, 63,
    64, 65, 66, 67, 68, 69, 70, 71, 72, 73, 74, 75, 76, 77, 78, 79,
    80, 81, 82, 83, 84, 85, 86, 87, 88, 89, 90, 91, 92, 93, 94, 95,
    96, 97, 98, 99, 100, 101, 102, 103, 104, 105, 106, 107, 108, 109, 110, 111,
    112, 113, 114, 115, 116, 117, 118, 119, 120, 121, 122, 123, 124, 125, 126, 127,
    128, 129, 130, 131, 132, 133, 134, 135, 136, 137, 138, 139, 140, 141, 142, 143,
    144, 145, 146, 147, 148, 149, 150, 151, 152, 153, 154, 155, 156, 157, 158, 159,
    160, 161, 162, 163, 164, 165, 166, 167, 168, 169, 170, 171, 172, 173, 174, 175,
    176, 177, 178, 179, 180, 181, 182, 183, 184, 185, 186, 187, 188, 189, 190, 191,
    192, 193, 194, 195, 196, 197, 198, 199, 200, 201, 202, 203, 204, 205, 206, 207,
    208, 209, 210, 211, 212, 213, 214, 215, 216, 217, 218, 219, 220, 221, 222, 223,
    224, 225, 226, 227, 228, 229, 230, 231, 232, 233, 234, 235, 236, 237, 238, 239,
    240, 241, 242, 243, 244, 245, 246, 247, 248, 249, 250, 251, 252, 253, 254, 255]"
  by (simp add: FCS_TABLE_def fcs_entry_eight fcs_bit_def)

lemma FCS_TABLE_entries: "FCS_TABLE = map (\<lambda>i. fcs_entry (of_nat i)) [0..<256]"
proof -
  have "[0..<256] = [
    0, 1, 2, 3, 4, 5, 6, 7, 8, 9, 10, 11, 12, 13, 14, 15,
    16, 17, 18, 19, 20, 21, 22, 23, 24, 25, 26, 27, 28, 29, 30, 31,
    32, 33, 34, 35, 36, 37, 38, 39, 40, 41, 42, 43, 44, 45, 46, 47,
    48, 49, 50, 51, 52, 53, 54, 55, 56, 57, 58, 59, 60, 61, 62, 63,
    64, 65, 66, 67, 68, 69, 70, 71, 72, 73, 74, 75, 76, 77, 78, 79,
    80, 81, 82, 83, 84, 85, 86, 87, 88, 89, 90, 91, 92, 93, 94, 95,
    96, 97, 98, 99, 100, 101, 102, 103, 104, 105, 106, 107, 108, 109, 110, 111,
    112, 113, 114, 115, 116, 117, 118, 119, 120, 121, 122, 123, 124, 125, 126, 127,
    128, 129, 130, 131, 132, 133, 134, 135, 136, 137, 138, 139, 140, 141, 142, 143,
    144, 145, 146, 147, 148, 149, 150, 151, 152, 153, 154, 155, 156, 157, 158, 159,
    160, 161, 162, 163, 164, 165, 166, 167, 168, 169, 170, 171, 172, 173, 174, 175,
    176, 177, 178, 179, 180, 181, 182, 183, 184, 185, 186, 187, 188, 189, 190, 191,
    192, 193, 194, 195, 196, 197, 198, 199, 200, 201, 202, 203, 204, 205, 206, 207,
    208, 209, 210, 211, 212, 213, 214, 215, 216, 217, 218, 219, 220, 221, 222, 223,
    224, 225, 226, 227, 228, 229, 230, 231, 232, 233, 234, 235, 236, 237, 238, 239,
    240, 241, 242, 243, 244, 245, 246, 247, 248, 249, 250, 251, 252, 253, 254, 255]"
    by code_simp
  then show ?thesis
    unfolding FCS_TABLE_literal by simp
qed

lemma fcs_bit_xor: "fcs_bit (a XOR b) = fcs_bit a XOR fcs_bit b"
proof -
  have bit: "(r AND 1 = 1) = bit r 0" for r :: u16
    by (simp add: and_one_eq odd_iff_mod_2_eq_one bit_0)
  show ?thesis
    unfolding fcs_bit_def bit by (auto simp: bit_xor_iff drop_bit_xor ac_simps xor.assoc)
qed

lemma fcs_bits_xor: "(fcs_bit ^^ n) (a XOR b) = (fcs_bit ^^ n) a XOR (fcs_bit ^^ n) b"
  by (induction n) (simp_all add: fcs_bit_xor)

lemma fcs_bit_even: "\<not> bit r 0 \<Longrightarrow> fcs_bit r = drop_bit 1 r"
  by (simp add: fcs_bit_def and_one_eq bit_0 odd_iff_mod_2_eq_one)

lemma fcs_bits_shift:
  fixes r :: u16
  shows "(\<forall>i < n. \<not> bit r i) \<Longrightarrow> (fcs_bit ^^ n) r = drop_bit n r"
proof (induction n)
  case (Suc n)
  then have "(fcs_bit ^^ n) r = drop_bit n r" "\<not> bit (drop_bit n r) 0"
    by (simp_all add: bit_drop_bit_eq)
  then show ?case
    using fcs_bit_even [of "drop_bit n r"] by (simp add: drop_bit_drop_bit add.commute)
qed simp

lemma fcs_table_step:
  fixes r :: u16 and b :: u8
  shows "idx FCS_TABLE (unat ((r XOR ucast b) AND 0xff)) = Some (fcs_entry ((r XOR ucast b) AND 0xff))"
    and "drop_bit 8 r XOR fcs_entry ((r XOR ucast b) AND 0xff) = fcs_byte r b"
proof -
  let ?x = "r XOR ucast b"
  have m: "(0xff :: u16) = mask 8"
    by (simp add: mask_eq_exp_minus_1)
  have lo: "unat (?x AND 0xff) < 256"
    using take_bit_nat_less_exp [of 8 "unat ?x"]
    by (simp only: m take_bit_eq_mask [symmetric] unsigned_take_bit_eq) simp
  then show "idx FCS_TABLE (unat (?x AND 0xff)) = Some (fcs_entry (?x AND 0xff))"
    unfolding FCS_TABLE_entries by simp
  let ?hi = "push_bit 8 (drop_bit 8 ?x)"
  have split: "?x = (?x AND 0xff) XOR ?hi"
    unfolding m by (rule bit_eqI) (auto simp: bit_simps)
  have "(fcs_bit ^^ 8) ?hi = drop_bit 8 ?hi"
    by (rule fcs_bits_shift) (simp add: bit_simps)
  also have "\<dots> = drop_bit 8 r"
    by (rule bit_eqI) (auto simp: bit_simps dest: bit_imp_le_length)
  finally have hi: "(fcs_bit ^^ 8) ?hi = drop_bit 8 r" .
  have "(fcs_bit ^^ 8) ?x = (fcs_bit ^^ 8) ((?x AND 0xff) XOR ?hi)"
    using split by (rule arg_cong)
  then show "drop_bit 8 r XOR fcs_entry (?x AND 0xff) = fcs_byte r b"
    unfolding fcs_byte_def fcs_entry_def fcs_bits_xor hi by (simp add: xor.commute)
qed

lemma ppp_fcs16_bitwise: "ppp_fcs16 r bs = Some (foldl fcs_byte r bs)"
  by (induction bs arbitrary: r) (simp_all add: fcs_table_step)

definition fcs16 :: "u8 list \<Rightarrow> u16" where
  "fcs16 bs = NOT (foldl fcs_byte 0xffff bs)"

lemma ppp_calc_fcs_bitwise: "ppp_calc_fcs bs = Some (fcs16 bs)"
  by (simp add: ppp_calc_fcs_def ppp_fcs16_bitwise PPP_INIT_FCS16_def fcs16_def)

section \<open>Frames in buffers\<close>

definition buffer_holds :: "Buffer \<Rightarrow> u8 list \<Rightarrow> bool" where
  "buffer_holds b bs \<longleftrightarrow> length (buf_bytes b) = MAX_FRAME \<and> buf_len b = length bs \<and> take (length bs) (buf_bytes b) = bs"

lemma begin_ppp_holds:
  "\<exists>b. begin_ppp proto buffer_new = Some b
    \<and> buffer_holds b ([HDLC_FLAG, HDLC_ADDRESS, HDLC_CONTROL] @ u16_to_be_bytes proto)"
  by (simp add: begin_ppp_def buffer_new_def buffer_holds_def MAX_FRAME_def PPP_MRU_def blit_def u16_to_be_bytes_def
      numeral_eq_Suc)

lemma buffer_write_holds:
  assumes "buffer_holds b bs" and "length bs + length cs \<le> MAX_FRAME"
  shows "\<exists>b'. buffer_write cs b = Some b' \<and> buffer_holds b' (bs @ cs)"
  using assms take_blit [of "length bs" "buf_bytes b" cs] length_blit [of "length bs" cs "buf_bytes b"]
  by (simp add: buffer_write_def buffer_holds_def)

lemma buffer_write_panics:
  "buffer_holds b bs \<Longrightarrow> MAX_FRAME < length bs + length cs \<Longrightarrow> buffer_write cs b = None"
  by (simp add: buffer_write_def buffer_holds_def)

definition ppp_wire :: "u16 \<Rightarrow> u8 list \<Rightarrow> u8 list" where
  "ppp_wire proto p =
    (let body = [HDLC_ADDRESS, HDLC_CONTROL] @ u16_to_be_bytes proto @ p
     in [HDLC_FLAG] @ body @ u16_to_le_bytes (fcs16 body) @ [HDLC_FLAG])"

lemma length_ppp_wire [simp]: "length (ppp_wire proto p) = length p + 8"
  by (simp add: ppp_wire_def Let_def)

lemma finish_ppp_holds:
  assumes "buffer_holds b ([HDLC_FLAG, HDLC_ADDRESS, HDLC_CONTROL] @ u16_to_be_bytes proto @ p)"
  shows "if length p < PPP_MRU then \<exists>b'. finish_ppp b = Some b' \<and> buffer_holds b' (ppp_wire proto p)
    else finish_ppp b = None"
proof -
  let ?bs = "[HDLC_FLAG, HDLC_ADDRESS, HDLC_CONTROL] @ u16_to_be_bytes proto @ p"
  let ?body = "[HDLC_ADDRESS, HDLC_CONTROL] @ u16_to_be_bytes proto @ p"
  have b: "length (buf_bytes b) = MAX_FRAME" "buf_len b = length p + 5" "take (length p + 5) (buf_bytes b) = ?bs"
    "length p + 5 \<le> MAX_FRAME"
    using assms by (auto simp: buffer_holds_def numeral_eq_Suc dest: arg_cong [of _ _ length])
  have body: "subslice (buf_bytes b) (Suc 0) (buf_len b) = Some ?body"
    using b drop_take [of 1 "length p + 5" "buf_bytes b"] by (simp add: add.commute)
  let ?fcs = "u16_to_le_bytes (fcs16 ?body)"
  show ?thesis
  proof (cases "length p + 7 \<le> MAX_FRAME")
    case False
    then have "copy_into (buf_bytes b) (buf_len b) ?fcs = None"
      using b by simp
    with False show ?thesis
      by (simp add: finish_ppp_def body ppp_calc_fcs_bitwise MAX_FRAME_def PPP_MRU_def)
  next
    case True
    let ?bs1 = "blit (buf_bytes b) (length p + 5) ?fcs"
    have bs1: "copy_into (buf_bytes b) (buf_len b) ?fcs = Some ?bs1" "length ?bs1 = MAX_FRAME"
      "take (length p + 7) ?bs1 = ?bs @ ?fcs"
      using b True take_blit [of "length p + 5" "buf_bytes b" ?fcs] by (simp_all add: length_blit add.commute)
    have lens: "buf_len b + 2 = length p + 7" "buf_len b + 3 = length p + 8"
      using b(2) by simp_all
    have fin: "finish_ppp b = do {
        bs \<leftarrow> upd ?bs1 (length p + 7) HDLC_FLAG;
        Some (b\<lparr>buf_bytes := bs, buf_len := length p + 8\<rparr>)
      }"
      by (simp only: finish_ppp_def One_nat_def body ppp_calc_fcs_bitwise bs1(1) Option.bind.simps lens)
    show ?thesis
    proof (cases "length p < PPP_MRU")
      case True
      then have i: "length p + 7 < length ?bs1"
        using bs1(2) by (simp add: MAX_FRAME_def PPP_MRU_def)
      have eight: "Suc (length p + 7) = length p + 8"
        by simp
      have "take (length p + 8) (?bs1[length p + 7 := HDLC_FLAG]) = ?bs @ ?fcs @ [HDLC_FLAG]"
        using take_Suc_update [OF i, of HDLC_FLAG, unfolded eight] bs1(3) by simp
      then have "buffer_holds (b\<lparr>buf_bytes := ?bs1[length p + 7 := HDLC_FLAG], buf_len := length p + 8\<rparr>) (ppp_wire proto p)"
        unfolding buffer_holds_def length_ppp_wire using bs1(2) by (simp add: ppp_wire_def Let_def)
      with True i show ?thesis
        unfolding fin by simp
    next
      case False
      then have "length ?bs1 \<le> length p + 7"
        using bs1(2) by (simp add: MAX_FRAME_def PPP_MRU_def)
      then have "upd ?bs1 (length p + 7) HDLC_FLAG = None"
        by (rule upd_None)
      with False show ?thesis
        unfolding fin by simp
    qed
  qed
qed

text \<open>A frame built in a new buffer from its pieces.\<close>

fun write_pieces :: "u8 list list \<Rightarrow> Buffer \<Rightarrow> Buffer option" where
  "write_pieces [] b = Some b"
| "write_pieces (p # ps) b = do { b \<leftarrow> buffer_write p b; write_pieces ps b }"

definition build_ppp :: "u16 \<Rightarrow> u8 list list \<Rightarrow> Buffer option" where
  "build_ppp proto ps = do {
     b \<leftarrow> begin_ppp proto buffer_new;
     b \<leftarrow> write_pieces ps b;
     finish_ppp b
   }"

lemma write_pieces_holds:
  "buffer_holds b bs \<Longrightarrow>
    if length bs + length (concat ps) \<le> MAX_FRAME
    then \<exists>b'. write_pieces ps b = Some b' \<and> buffer_holds b' (bs @ concat ps)
    else write_pieces ps b = None"
proof (induction ps arbitrary: b bs)
  case (Cons p ps)
  show ?case
  proof (cases "length bs + length p \<le> MAX_FRAME")
    case True
    then obtain b' where b': "buffer_write p b = Some b'" "buffer_holds b' (bs @ p)"
      using buffer_write_holds [OF Cons.prems] by blast
    from Cons.IH [OF b'(2)] b'(1) show ?thesis
      by (auto simp: add.assoc split: if_splits)
  next
    case False
    then show ?thesis
      using buffer_write_panics [OF Cons.prems] by simp
  qed
next
  case Nil
  then have "length bs \<le> length (buf_bytes b)"
    using length_take [of "length bs" "buf_bytes b"] by (simp add: buffer_holds_def del: length_take)
  with Nil show ?case
    by (simp add: buffer_holds_def)
qed

lemma build_ppp_holds:
  "if length (concat ps) < PPP_MRU then \<exists>b. build_ppp proto ps = Some b \<and> buffer_holds b (ppp_wire proto (concat ps))
   else build_ppp proto ps = None"
proof -
  let ?h = "[HDLC_FLAG, HDLC_ADDRESS, HDLC_CONTROL] @ u16_to_be_bytes proto"
  obtain b where b: "begin_ppp proto buffer_new = Some b" "buffer_holds b ?h"
    using begin_ppp_holds by blast
  show ?thesis
  proof (cases "length ?h + length (concat ps) \<le> MAX_FRAME")
    case True
    then obtain b' where b': "write_pieces ps b = Some b'" "buffer_holds b' (?h @ concat ps)"
      using write_pieces_holds [OF b(2), of ps] by auto
    from finish_ppp_holds [of b' proto "concat ps"] b b' show ?thesis
      by (simp add: build_ppp_def)
  next
    case False
    then have "write_pieces ps b = None"
      using write_pieces_holds [OF b(2), of ps] by auto
    with False b show ?thesis
      by (simp add: build_ppp_def MAX_FRAME_def)
  qed
qed

section \<open>The check of a received frame\<close>

definition hdlc_frame :: "u8 list \<Rightarrow> u8 list" where
  "hdlc_frame q = [HDLC_FLAG, HDLC_ADDRESS, HDLC_CONTROL] @ q @ u16_to_le_bytes (fcs16 ([HDLC_ADDRESS, HDLC_CONTROL] @ q))"

lemma ppp_wire_frame: "ppp_wire proto p = hdlc_frame (u16_to_be_bytes proto @ p) @ [HDLC_FLAG]"
  by (simp add: ppp_wire_def hdlc_frame_def Let_def)

lemma list_of_two: "length xs = 2 \<Longrightarrow> \<exists>a b. xs = [a, b]"
  by (auto simp: numeral_eq_Suc length_Suc_conv)

lemma list_of_three: "length xs = 3 \<Longrightarrow> \<exists>a b c. xs = [a, b, c]"
  by (auto simp: numeral_eq_Suc length_Suc_conv)

lemma u16_to_from_le_bytes: "u16_from_le_bytes [x, y] = Some w \<Longrightarrow> u16_to_le_bytes w = [x, y]"
  by (auto simp: u16_to_le_bytes_def bit_simps intro!: bit_word_eqI) (drule bit_imp_le_length, simp)

lemma try_from_hdlc_frame_split:
  assumes "7 \<le> length f"
  shows "\<exists>a b c q field. f = [a, b, c] @ q @ u16_to_le_bytes field \<and> 2 \<le> length q
    \<and> try_from_hdlc_frame f = Some (if a = HDLC_FLAG \<and> b = HDLC_ADDRESS \<and> c = HDLC_CONTROL \<and> field = fcs16 (b # c # q)
        then Inr q else Inl ())"
proof -
  define q where "q = take (length f - 5) (drop 3 f)"
  have f: "f = take 3 f @ q @ drop (length f - 2) f"
    using assms append_take_drop_id [of "length f - 5" "drop 3 f"] by (simp add: q_def)
  have "length (take 3 f) = 3" "length (drop (length f - 2) f) = 2" and q: "2 \<le> length q"
    using assms by (simp_all add: q_def)
  then obtain a b c x y where abc: "take 3 f = [a, b, c]" "drop (length f - 2) f = [x, y]"
    using list_of_two list_of_three by blast
  obtain field where field: "u16_from_le_bytes [x, y] = Some field"
    by simp
  note xy = u16_to_from_le_bytes [OF field, symmetric]
  have f': "f = [a, b, c] @ q @ [x, y]"
    using f abc by simp
  have "try_from_hdlc_frame f = Some (if a = HDLC_FLAG \<and> b = HDLC_ADDRESS \<and> c = HDLC_CONTROL \<and> field = fcs16 (b # c # q)
        then Inr q else Inl ())"
    using field q unfolding f' by (simp add: try_from_hdlc_frame_def ppp_calc_fcs_bitwise)
  then show ?thesis
    using f' xy q by blast
qed

lemma try_from_hdlc_frame_short: "length f < 7 \<Longrightarrow> try_from_hdlc_frame f = Some (Inl ())"
  by (simp add: try_from_hdlc_frame_def)

lemma try_from_hdlc_frame_intact:
  assumes "2 \<le> length q"
  shows "try_from_hdlc_frame (hdlc_frame q) = Some (Inr q)"
proof -
  have len: "7 \<le> length (hdlc_frame q)"
    using assms by (simp add: hdlc_frame_def)
  from try_from_hdlc_frame_split [OF len] obtain a b c q' field where
    f: "hdlc_frame q = [a, b, c] @ q' @ u16_to_le_bytes field"
      "try_from_hdlc_frame (hdlc_frame q) = Some (if a = HDLC_FLAG \<and> b = HDLC_ADDRESS \<and> c = HDLC_CONTROL \<and> field = fcs16 (b # c # q')
        then Inr q' else Inl ())"
    by blast
  then have "a = HDLC_FLAG" "b = HDLC_ADDRESS" "c = HDLC_CONTROL" "q' = q"
    "u16_to_le_bytes field = u16_to_le_bytes (fcs16 (HDLC_ADDRESS # HDLC_CONTROL # q))"
    by (auto simp: hdlc_frame_def append_eq_append_conv)
  moreover from this(5) have "field = fcs16 (HDLC_ADDRESS # HDLC_CONTROL # q)"
    using u16_le_roundtrip by (metis option.inject)
  ultimately show ?thesis
    using f(2) by simp
qed

text \<open>
  C16. The check of a received frame accepts exactly the intact frames and never panics: a frame is accepted with
  contents \<open>q\<close> if and only if it consists of flag, address and control byte, \<open>q\<close> with at least the two bytes of the
  protocol, and the 16-bit frame check sequence of all between the flag and the check, least significant byte first,
  where the sequence that the code looks up in its table byte by byte is the one that the reflected polynomial 0x8408
  gives bit by bit.\<close>

theorem accepted_frames_are_intact:
  "(try_from_hdlc_frame f = Some (Inr q) \<longleftrightarrow> f = hdlc_frame q \<and> 2 \<le> length q) \<and> (\<exists>r. try_from_hdlc_frame f = Some r)"
proof (cases "7 \<le> length f")
  case True
  from try_from_hdlc_frame_split [OF True] obtain a b c q' field where
    f: "f = [a, b, c] @ q' @ u16_to_le_bytes field" "2 \<le> length q'"
      "try_from_hdlc_frame f = Some (if a = HDLC_FLAG \<and> b = HDLC_ADDRESS \<and> c = HDLC_CONTROL \<and> field = fcs16 (b # c # q')
        then Inr q' else Inl ())"
    by blast
  have "try_from_hdlc_frame f = Some (Inr q) \<Longrightarrow> f = hdlc_frame q \<and> 2 \<le> length q"
    using f by (auto simp: hdlc_frame_def split: if_splits)
  with f(3) show ?thesis
    using try_from_hdlc_frame_intact [of q] by blast
next
  case False
  then have "f \<noteq> hdlc_frame q \<or> \<not> 2 \<le> length q"
    by (auto simp: hdlc_frame_def)
  with False show ?thesis
    by (auto simp: try_from_hdlc_frame_short)
qed

end
