(* ===== verification/Ppp_Channel.thy ===== *)
theory Ppp_Channel
  imports Ppp_Frame
begin

text \<open>
  The serial channels below PPP (\<open>device/antimony/src/net/phy.rs\<close>): the transmit channel, which
  writes queued frames to the UART with byte stuffing, and the receive channel, a ring of frame
  buffers that the receive interrupt fills and the network task empties.

  A transmit call is given \<open>room\<close>, how often during the call the UART reports that its FIFO is not
  full, and returns the bytes it wrote; \<open>etbei\<close> is the transmit interrupt enable bit. A receive call is
  given the bytes that the UART's FIFO yields during the call. \<open>None\<close> is a panic.
\<close>

section \<open>Transmit channel\<close>

definition CHANNEL_MAX_FRAMES :: nat where "CHANNEL_MAX_FRAMES = 128"

record TxBuffer =
  tb_buffer :: Buffer
  tb_index :: nat
  tb_pending_escape :: bool

record XmitChannel =
  xc_buffers :: "TxBuffer list"
  xc_writing :: bool
  xc_needs_escape :: "u8 \<Rightarrow> bool"

definition xmit_new :: XmitChannel where
  "xmit_new = \<lparr>xc_buffers = [], xc_writing = False, xc_needs_escape = (\<lambda>_. False)\<rparr>"

definition needs_escape :: "u8 \<Rightarrow> XmitChannel \<Rightarrow> XmitChannel" where
  "needs_escape c self = self\<lparr>xc_needs_escape := (xc_needs_escape self)(c := True)\<rparr>"

text \<open>The loop over the bytes of one buffer: the bytes written, the index, the pending escape, and
  whether the buffer was finished.\<close>

fun write_inner :: "(u8 \<Rightarrow> bool) \<Rightarrow> Buffer \<Rightarrow> nat \<Rightarrow> nat \<Rightarrow> bool \<Rightarrow> (u8 list \<times> nat \<times> bool \<times> bool) option" where
  "write_inner esc buf 0 i pending = Some ([], i, pending, False)"
| "write_inner esc buf (Suc room) i pending = do {
     byte \<leftarrow> idx (buf_bytes buf) i;
     let (out, i, pending) =
       (if pending then (HDLC_ESC_XOR XOR byte, i + 1, False)
        else if esc byte \<and> \<not> ((i = 0 \<or> i = buf_len buf - 1) \<and> byte = 0x7e) then (HDLC_ESC, i, True)
        else (byte, i + 1, False));
     if i = buf_len buf then Some ([out], i, pending, True)
     else do {
       (outs, i, pending, finished) \<leftarrow> write_inner esc buf room i pending;
       Some (out # outs, i, pending, finished)
     }
   }"

definition write_out :: "nat \<Rightarrow> XmitChannel \<Rightarrow> (u8 list \<times> XmitChannel \<times> bool) option" where
  "write_out room self = (case xc_buffers self of
     [] \<Rightarrow> Some ([], self, True)
   | t # ts \<Rightarrow> do {
       (out, i, pending, finished) \<leftarrow>
         write_inner (xc_needs_escape self) (tb_buffer t) room (tb_index t) (tb_pending_escape t);
       let bufs = (if finished then ts else t\<lparr>tb_index := i, tb_pending_escape := pending\<rparr> # ts);
       Some (out, self\<lparr>xc_buffers := bufs\<rparr>, bufs = [])
     })"

definition xmit_push :: "nat \<Rightarrow> Buffer \<Rightarrow> XmitChannel \<Rightarrow> bool \<Rightarrow> (u8 list \<times> XmitChannel \<times> bool) option" where
  "xmit_push room buffer self etbei =
    (let self = self\<lparr>xc_buffers := xc_buffers self @ [\<lparr>tb_buffer = buffer, tb_index = 0, tb_pending_escape = False\<rparr>]\<rparr>
     in if \<not> xc_writing self \<and> xc_buffers self = [] then do {
          (out, self, done) \<leftarrow> write_out room self;
          if \<not> done then Some (out, self\<lparr>xc_writing := True\<rparr>, True) else Some (out, self, etbei)
        } else Some ([], self, etbei))"

definition dump_uart_buffer :: "nat \<Rightarrow> XmitChannel \<Rightarrow> bool \<Rightarrow> (u8 list \<times> XmitChannel \<times> bool) option" where
  "dump_uart_buffer room channel etbei = do {
     (out, channel, done) \<leftarrow> write_out room channel;
     if done then Some (out, channel\<lparr>xc_writing := False\<rparr>, False) else Some (out, channel, etbei)
   }"

text \<open>\<open>link_init\<close> of \<open>net.rs\<close>.\<close>

definition link_init :: "XmitChannel \<Rightarrow> XmitChannel" where
  "link_init xmit = needs_escape HDLC_FLAG (needs_escape HDLC_ESC xmit)"

section \<open>Receive channel\<close>

record RecvChannel =
  rc_write_head :: nat
  rc_finished_head :: nat
  rc_read_head :: nat
  rc_free_buffers :: nat
  rc_in_packet :: bool
  rc_last_esc :: bool
  rc_buffers :: "Buffer list"

definition recv_new :: RecvChannel where
  "recv_new = \<lparr>rc_write_head = 0, rc_finished_head = 0, rc_read_head = 0, rc_free_buffers = CHANNEL_MAX_FRAMES,
     rc_in_packet = False, rc_last_esc = False, rc_buffers = replicate CHANNEL_MAX_FRAMES buffer_new\<rparr>"

definition free_buffer :: "RecvChannel \<Rightarrow> RecvChannel" where
  "free_buffer self = self\<lparr>rc_read_head := (rc_read_head self + 1) mod CHANNEL_MAX_FRAMES,
     rc_free_buffers := rc_free_buffers self + 1\<rparr>"

definition try_alloc_buffer :: "RecvChannel \<Rightarrow> nat option \<times> RecvChannel" where
  "try_alloc_buffer self =
    (if rc_free_buffers self = 0 then (None, self)
     else (Some (rc_write_head self), self\<lparr>rc_write_head := (rc_write_head self + 1) mod CHANNEL_MAX_FRAMES,
       rc_free_buffers := rc_free_buffers self - 1\<rparr>))"

definition read_head_buf :: "RecvChannel \<Rightarrow> Buffer option option" where
  "read_head_buf self =
    (if rc_free_buffers self = CHANNEL_MAX_FRAMES \<or> rc_read_head self = rc_finished_head self then Some None
     else do { b \<leftarrow> idx (rc_buffers self) (rc_read_head self); Some (Some b) })"

text \<open>\<open>channel.buffers[buf].len = n\<close> and \<open>channel.buffers[buf].bytes[i] = byte\<close>.\<close>

definition set_buf_len :: "nat \<Rightarrow> nat \<Rightarrow> RecvChannel \<Rightarrow> RecvChannel option" where
  "set_buf_len buf n ch = do {
     b \<leftarrow> idx (rc_buffers ch) buf;
     bufs \<leftarrow> upd (rc_buffers ch) buf (b\<lparr>buf_len := n\<rparr>);
     Some (ch\<lparr>rc_buffers := bufs\<rparr>)
   }"

definition set_buf_byte :: "nat \<Rightarrow> nat \<Rightarrow> u8 \<Rightarrow> RecvChannel \<Rightarrow> RecvChannel option" where
  "set_buf_byte buf i byte ch = do {
     b \<leftarrow> idx (rc_buffers ch) buf;
     bs \<leftarrow> upd (buf_bytes b) i byte;
     bufs \<leftarrow> upd (rc_buffers ch) buf (b\<lparr>buf_bytes := bs\<rparr>);
     Some (ch\<lparr>rc_buffers := bufs\<rparr>)
   }"

text \<open>The local variables of \<open>drain_uart_buffer\<close>, and the body of its loop.\<close>

record DrainLocals =
  dl_in_packet :: bool
  dl_denied :: bool
  dl_buf :: nat
  dl_last_esc :: bool
  dl_bi :: nat

definition drain_flag :: "u8 \<Rightarrow> DrainLocals \<Rightarrow> RecvChannel \<Rightarrow> (DrainLocals \<times> RecvChannel) option" where
  "drain_flag byte l channel = do {
     let did_finish_frame = (dl_in_packet l \<and> 1 < dl_bi l);
     channel \<leftarrow> (if did_finish_frame then set_buf_len (dl_buf l) (dl_bi l) channel else Some channel);
     let l = (if did_finish_frame then l\<lparr>dl_bi := 0\<rparr> else l);
     if dl_bi l \<noteq> 1 then
       let channel = (if dl_in_packet l \<and> did_finish_frame
             then channel\<lparr>rc_finished_head := (rc_finished_head channel + 1) mod CHANNEL_MAX_FRAMES\<rparr> else channel)
       in case try_alloc_buffer channel of
         (None, channel) \<Rightarrow> Some (l\<lparr>dl_denied := True\<rparr>, channel)
       | (Some a_buf, channel) \<Rightarrow> do {
           channel \<leftarrow> set_buf_byte a_buf 0 byte channel;
           channel \<leftarrow> set_buf_len a_buf 1 channel;
           Some (l\<lparr>dl_buf := a_buf, dl_in_packet := True, dl_last_esc := False, dl_bi := 1\<rparr>, channel)
         }
     else Some (l, channel)
   }"

definition drain_step :: "u8 \<Rightarrow> DrainLocals \<Rightarrow> RecvChannel \<Rightarrow> (DrainLocals \<times> RecvChannel) option" where
  "drain_step byte l channel =
    (if dl_denied l then Some (l, channel)
     else if byte = HDLC_FLAG then drain_flag byte l channel
     else if dl_in_packet l then
       if \<not> dl_last_esc l \<and> byte = HDLC_ESC then Some (l\<lparr>dl_last_esc := True\<rparr>, channel)
       else do {
         channel \<leftarrow> set_buf_byte (dl_buf l) (dl_bi l) (if dl_last_esc l then byte XOR HDLC_ESC_XOR else byte) channel;
         Some (l\<lparr>dl_last_esc := False, dl_bi := dl_bi l + 1\<rparr>, channel)
       }
     else Some (l, channel))"

fun drain_loop :: "u8 list \<Rightarrow> DrainLocals \<Rightarrow> RecvChannel \<Rightarrow> (DrainLocals \<times> RecvChannel) option" where
  "drain_loop [] l channel = Some (l, channel)"
| "drain_loop (byte # bytes) l channel = do {
     (l, channel) \<leftarrow> drain_step byte l channel;
     drain_loop bytes l channel
   }"

definition drain_enter :: "RecvChannel \<Rightarrow> DrainLocals option" where
  "drain_enter channel = do {
     let in_packet = rc_in_packet channel;
     let buf = (CHANNEL_MAX_FRAMES + rc_write_head channel - 1) mod CHANNEL_MAX_FRAMES;
     bi \<leftarrow> (if in_packet then do { b \<leftarrow> idx (rc_buffers channel) buf; Some (buf_len b) } else Some 0);
     Some \<lparr>dl_in_packet = in_packet, dl_denied = False, dl_buf = buf, dl_last_esc = rc_last_esc channel, dl_bi = bi\<rparr>
   }"

definition drain_leave :: "DrainLocals \<Rightarrow> RecvChannel \<Rightarrow> RecvChannel option" where
  "drain_leave l channel =
    (let channel = channel\<lparr>rc_in_packet := dl_in_packet l\<rparr>
     in if dl_in_packet l then set_buf_len (dl_buf l) (dl_bi l) channel else Some channel)"

definition drain_uart_buffer :: "u8 list \<Rightarrow> RecvChannel \<Rightarrow> RecvChannel option" where
  "drain_uart_buffer bytes channel = do {
     l \<leftarrow> drain_enter channel;
     (l, channel) \<leftarrow> drain_loop bytes l channel;
     drain_leave l channel
   }"

text \<open>A sequence of receive interrupts, one list of bytes for each.\<close>

fun receive_interrupts :: "u8 list list \<Rightarrow> RecvChannel \<Rightarrow> RecvChannel option" where
  "receive_interrupts [] ch = Some ch"
| "receive_interrupts (bs # bss) ch = do { ch \<leftarrow> drain_uart_buffer bs ch; receive_interrupts bss ch }"

section \<open>What the receive channel refines\<close>

text \<open>
  The specification: a queue of finished frames, the open frame, and whether the last byte was an
  escape.
\<close>

type_synonym hdlc_state = "u8 list list \<times> u8 list option \<times> bool"

fun hdlc_step :: "hdlc_state \<Rightarrow> u8 \<Rightarrow> hdlc_state" where
  "hdlc_step (fs, None, esc) b = (if b = HDLC_FLAG then (fs, Some [HDLC_FLAG], False) else (fs, None, esc))"
| "hdlc_step (fs, Some c, esc) b =
    (if b = HDLC_FLAG then if 1 < length c then (fs @ [c], Some [HDLC_FLAG], False) else (fs, Some c, esc)
     else if esc then (fs, Some (c @ [b XOR HDLC_ESC_XOR]), False)
     else if b = HDLC_ESC then (fs, Some c, True)
     else (fs, Some (c @ [b]), False))"

definition ring_index :: "RecvChannel \<Rightarrow> nat \<Rightarrow> nat" where
  "ring_index ch k = (rc_read_head ch + k) mod CHANNEL_MAX_FRAMES"

text \<open>\<open>n\<close> finished frames and, if \<open>opened\<close>, one more buffer in use.\<close>

definition rx_heads :: "RecvChannel \<Rightarrow> nat \<Rightarrow> bool \<Rightarrow> bool" where
  "rx_heads ch n opened \<longleftrightarrow> length (rc_buffers ch) = CHANNEL_MAX_FRAMES
    \<and> (\<forall>b \<in> set (rc_buffers ch). length (buf_bytes b) = MAX_FRAME)
    \<and> rc_read_head ch < CHANNEL_MAX_FRAMES \<and> n < CHANNEL_MAX_FRAMES
    \<and> rc_finished_head ch = ring_index ch n
    \<and> rc_write_head ch = ring_index ch (n + of_bool opened)
    \<and> rc_free_buffers ch + n + of_bool opened = CHANNEL_MAX_FRAMES
    \<and> \<not> rc_last_esc ch"

definition rx_frames :: "RecvChannel \<Rightarrow> u8 list list \<Rightarrow> bool" where
  "rx_frames ch fs \<longleftrightarrow> (\<forall>k < length fs. buffer_holds (rc_buffers ch ! ring_index ch k) (fs ! k))"

definition rx_abs :: "RecvChannel \<Rightarrow> u8 list list \<Rightarrow> u8 list option \<Rightarrow> bool" where
  "rx_abs ch fs cur \<longleftrightarrow> rx_heads ch (length fs) (cur \<noteq> None) \<and> rx_frames ch fs \<and> rc_in_packet ch = (cur \<noteq> None)
    \<and> (case cur of None \<Rightarrow> True
       | Some c \<Rightarrow> c \<noteq> [] \<and> buffer_holds (rc_buffers ch ! ring_index ch (length fs)) c)"

text \<open>The relation inside the loop, where the length of the open frame is in a local variable.\<close>

definition rx_loop :: "DrainLocals \<Rightarrow> RecvChannel \<Rightarrow> hdlc_state \<Rightarrow> bool" where
  "rx_loop l ch s = (case s of (fs, cur, esc) \<Rightarrow>
     rx_heads ch (length fs) (cur \<noteq> None) \<and> rx_frames ch fs \<and> \<not> dl_denied l
     \<and> dl_in_packet l = (cur \<noteq> None) \<and> dl_last_esc l = esc
     \<and> (case cur of None \<Rightarrow> dl_bi l = 0
        | Some c \<Rightarrow> c \<noteq> [] \<and> dl_buf l = ring_index ch (length fs) \<and> dl_bi l = length c
            \<and> take (length c) (buf_bytes (rc_buffers ch ! ring_index ch (length fs))) = c))"

section \<open>The ring\<close>

lemma ring_index_less: "ring_index ch k < CHANNEL_MAX_FRAMES"
  by (simp add: ring_index_def CHANNEL_MAX_FRAMES_def)

lemma ring_index_inj:
  assumes "j < k" and "k < CHANNEL_MAX_FRAMES"
  shows "ring_index ch j \<noteq> ring_index ch k"
proof
  assume "ring_index ch j = ring_index ch k"
  then have "CHANNEL_MAX_FRAMES dvd (rc_read_head ch + k) - (rc_read_head ch + j)"
    unfolding ring_index_def by (metis mod_eq_dvd_iff_nat assms(1) nat_add_left_cancel_le less_imp_le)
  then have "CHANNEL_MAX_FRAMES dvd k - j"
    by simp
  with assms show False
    using dvd_imp_le [of CHANNEL_MAX_FRAMES "k - j"] by simp
qed

lemma ring_index_Suc: "(ring_index ch k + 1) mod CHANNEL_MAX_FRAMES = ring_index ch (k + 1)"
  by (simp add: ring_index_def mod_simps add.assoc)

lemma ring_index_prev: "(CHANNEL_MAX_FRAMES + ring_index ch (k + 1) - 1) mod CHANNEL_MAX_FRAMES = ring_index ch k"
proof -
  have "ring_index ch (k + 1) = (if ring_index ch k = CHANNEL_MAX_FRAMES - 1 then 0 else ring_index ch k + 1)"
    using ring_index_less [of ch k] unfolding ring_index_Suc [symmetric] by (auto simp: CHANNEL_MAX_FRAMES_def)
  then show ?thesis
    using ring_index_less [of ch k] by (auto simp: CHANNEL_MAX_FRAMES_def)
qed

lemma ring_index_cong: "rc_read_head ch' = rc_read_head ch \<Longrightarrow> ring_index ch' = ring_index ch"
  by (simp add: ring_index_def fun_eq_iff)

text \<open>Replacing the buffer behind the finished frames.\<close>

definition put_buffer :: "nat \<Rightarrow> Buffer \<Rightarrow> RecvChannel \<Rightarrow> RecvChannel" where
  "put_buffer i b ch = ch\<lparr>rc_buffers := (rc_buffers ch)[i := b]\<rparr>"

lemma put_buffer_sel [simp]:
  "rc_read_head (put_buffer i b ch) = rc_read_head ch"
  "rc_in_packet (put_buffer i b ch) = rc_in_packet ch"
  "ring_index (put_buffer i b ch) = ring_index ch"
  "rc_buffers (put_buffer i b ch) = (rc_buffers ch)[i := b]"
  by (simp_all add: put_buffer_def ring_index_def fun_eq_iff)

lemma rx_heads_put:
  "rx_heads ch n opened \<Longrightarrow> length (buf_bytes b) = MAX_FRAME \<Longrightarrow> rx_heads (put_buffer i b ch) n opened"
  using set_update_subset_insert [of "rc_buffers ch" i b] by (auto simp: rx_heads_def put_buffer_def ring_index_def)

lemma rx_frames_put:
  assumes "rx_frames ch fs" and "length fs < CHANNEL_MAX_FRAMES"
  shows "rx_frames (put_buffer (ring_index ch (length fs)) b ch) fs"
  unfolding rx_frames_def
proof (intro allI impI)
  fix k assume k: "k < length fs"
  then show "buffer_holds (rc_buffers (put_buffer (ring_index ch (length fs)) b ch)
      ! ring_index (put_buffer (ring_index ch (length fs)) b ch) k) (fs ! k)"
    using assms ring_index_inj [OF k, of ch] by (simp add: rx_frames_def)
qed

lemma rx_heads_buffer:
  assumes "rx_heads ch n opened"
  shows "length (rc_buffers ch) = CHANNEL_MAX_FRAMES" "ring_index ch k < length (rc_buffers ch)"
    "length (buf_bytes (rc_buffers ch ! ring_index ch k)) = MAX_FRAME" "n < CHANNEL_MAX_FRAMES"
  using assms ring_index_less [of ch k] by (simp_all add: rx_heads_def)

lemma set_buf_len_eq:
  "i < length (rc_buffers ch) \<Longrightarrow> set_buf_len i n ch = Some (put_buffer i ((rc_buffers ch ! i)\<lparr>buf_len := n\<rparr>) ch)"
  by (simp add: set_buf_len_def put_buffer_def)

lemma set_buf_byte_eq:
  "i < length (rc_buffers ch) \<Longrightarrow> j < length (buf_bytes (rc_buffers ch ! i)) \<Longrightarrow> set_buf_byte i j b ch =
    Some (put_buffer i ((rc_buffers ch ! i)\<lparr>buf_bytes := (buf_bytes (rc_buffers ch ! i))[j := b]\<rparr>) ch)"
  by (simp add: set_buf_byte_def put_buffer_def)

lemma rx_finish:
  assumes h: "rx_heads ch (length fs) True" and f: "rx_frames ch fs" and n: "Suc (length fs) < CHANNEL_MAX_FRAMES"
    and c: "c \<noteq> []" "take (length c) (buf_bytes (rc_buffers ch ! ring_index ch (length fs))) = c"
    and ch': "ch' = put_buffer (ring_index ch (length fs)) ((rc_buffers ch ! ring_index ch (length fs))\<lparr>buf_len := length c\<rparr>) ch"
    and ch'': "ch'' = ch'\<lparr>rc_finished_head := (rc_finished_head ch' + 1) mod CHANNEL_MAX_FRAMES\<rparr>"
  shows "rx_heads ch'' (length (fs @ [c])) False \<and> rx_frames ch'' (fs @ [c])"
proof
  have h': "rx_heads ch' (length fs) True"
    unfolding ch' by (rule rx_heads_put [OF h]) (simp add: rx_heads_buffer [OF h])
  have f': "rx_frames ch' fs"
    unfolding ch' using rx_frames_put [OF f] n by simp
  have ri: "ring_index ch'' = ring_index ch" "ring_index ch' = ring_index ch" "rc_buffers ch'' = rc_buffers ch'"
    by (simp_all add: ch'' ch' ring_index_def fun_eq_iff)
  show "rx_heads ch'' (length (fs @ [c])) False"
    using h' n ri ring_index_Suc [of ch "length fs"] unfolding rx_heads_def by (simp add: ch'')
  have b: "buffer_holds (rc_buffers ch' ! ring_index ch (length fs)) c"
    using rx_heads_buffer [OF h] c by (simp add: ch' buffer_holds_def)
  show "rx_frames ch'' (fs @ [c])"
    using f' b by (auto simp: rx_frames_def ri nth_append less_Suc_eq)
qed

lemma rx_open:
  assumes h: "rx_heads ch (length fs) False" and f: "rx_frames ch fs"
  shows "\<exists>a_buf ch1 ch2 ch3. try_alloc_buffer ch = (Some a_buf, ch1) \<and> set_buf_byte a_buf 0 HDLC_FLAG ch1 = Some ch2
    \<and> set_buf_len a_buf 1 ch2 = Some ch3 \<and> a_buf = ring_index ch3 (length fs) \<and> rx_heads ch3 (length fs) True
    \<and> rx_frames ch3 fs \<and> rc_read_head ch3 = rc_read_head ch \<and> buffer_holds (rc_buffers ch3 ! a_buf) [HDLC_FLAG]"
proof -
  let ?a = "ring_index ch (length fs)"
  define ch1 where "ch1 = ch\<lparr>rc_write_head := (rc_write_head ch + 1) mod CHANNEL_MAX_FRAMES,
    rc_free_buffers := rc_free_buffers ch - 1\<rparr>"
  have a: "try_alloc_buffer ch = (Some ?a, ch1)"
    using h by (auto simp: try_alloc_buffer_def ch1_def rx_heads_def)
  have ri: "ring_index ch1 = ring_index ch" "rc_buffers ch1 = rc_buffers ch" "rc_read_head ch1 = rc_read_head ch"
    by (simp_all add: ch1_def ring_index_def fun_eq_iff)
  have h1: "rx_heads ch1 (length fs) True"
    using h ring_index_Suc [of ch "length fs"] ri unfolding rx_heads_def by (simp add: ch1_def)
  have f1: "rx_frames ch1 fs"
    using f by (simp add: rx_frames_def ri)
  let ?b = "rc_buffers ch ! ?a"
  have m: "0 < length (buf_bytes ?b)"
    using rx_heads_buffer(3) [OF h] by (simp add: MAX_FRAME_def)
  define ch2 where "ch2 = put_buffer ?a (?b\<lparr>buf_bytes := (buf_bytes ?b)[0 := HDLC_FLAG]\<rparr>) ch1"
  have h2: "rx_heads ch2 (length fs) True" "rx_frames ch2 fs"
    unfolding ch2_def using rx_heads_put [OF h1] rx_frames_put [OF f1] rx_heads_buffer [OF h] by (simp_all add: ri)
  have s2: "set_buf_byte ?a 0 HDLC_FLAG ch1 = Some ch2"
    using rx_heads_buffer [OF h] m by (simp add: set_buf_byte_eq ri ch2_def)
  define ch3 where "ch3 = put_buffer ?a ((rc_buffers ch2 ! ?a)\<lparr>buf_len := 1\<rparr>) ch2"
  have r2: "ring_index ch2 = ring_index ch" "rc_read_head ch2 = rc_read_head ch"
    by (simp_all add: ch2_def ri)
  have s3: "set_buf_len ?a 1 ch2 = Some ch3"
    using rx_heads_buffer [OF h2(1)] by (simp add: set_buf_len_eq ch3_def r2)
  have h3: "rx_heads ch3 (length fs) True" "rx_frames ch3 fs"
    unfolding ch3_def using rx_heads_put [OF h2(1)] rx_frames_put [OF h2(2)] rx_heads_buffer [OF h2(1)]
    by (simp_all add: r2 [symmetric])
  have "buffer_holds (rc_buffers ch3 ! ?a) [HDLC_FLAG]"
    using rx_heads_buffer [OF h] m take_Suc_update [OF m] by (simp add: ch3_def ch2_def ri buffer_holds_def)
  with a s2 s3 h3 show ?thesis
    by (intro exI [of _ ?a] exI [of _ ch1] exI [of _ ch2] exI [of _ ch3]) (simp add: ch3_def r2)
qed

section \<open>The receive interrupt refines the specification\<close>

lemma drain_flag_opens:
  assumes "rx_heads ch (length fs) False" and "rx_frames ch fs" and "\<not> dl_denied l"
  shows "\<exists>l' ch'. (case try_alloc_buffer ch of
         (None, channel) \<Rightarrow> Some (l\<lparr>dl_denied := True\<rparr>, channel)
       | (Some a_buf, channel) \<Rightarrow> do {
           channel \<leftarrow> set_buf_byte a_buf 0 HDLC_FLAG channel;
           channel \<leftarrow> set_buf_len a_buf 1 channel;
           Some (l\<lparr>dl_buf := a_buf, dl_in_packet := True, dl_last_esc := False, dl_bi := 1\<rparr>, channel)
         }) = Some (l', ch')
    \<and> rx_loop l' ch' (fs, Some [HDLC_FLAG], False) \<and> rc_read_head ch' = rc_read_head ch"
  using rx_open [OF assms(1,2)] assms(3) by (fastforce simp: rx_loop_def buffer_holds_def)

lemma drain_step_flag:
  assumes r: "rx_loop l ch (fs, cur, esc)" and s: "hdlc_step (fs, cur, esc) HDLC_FLAG = (fs', cur', esc')"
    and n: "length fs' < CHANNEL_MAX_FRAMES"
  shows "\<exists>l' ch'. drain_step HDLC_FLAG l ch = Some (l', ch') \<and> rx_loop l' ch' (fs', cur', esc')
    \<and> rc_read_head ch' = rc_read_head ch"
proof (cases cur)
  case None
  with r have "drain_step HDLC_FLAG l ch = (case try_alloc_buffer ch of
         (None, channel) \<Rightarrow> Some (l\<lparr>dl_denied := True\<rparr>, channel)
       | (Some a_buf, channel) \<Rightarrow> do {
           channel \<leftarrow> set_buf_byte a_buf 0 HDLC_FLAG channel;
           channel \<leftarrow> set_buf_len a_buf 1 channel;
           Some (l\<lparr>dl_buf := a_buf, dl_in_packet := True, dl_last_esc := False, dl_bi := 1\<rparr>, channel)
         })"
    by (simp add: rx_loop_def drain_step_def drain_flag_def)
  with drain_flag_opens [of ch fs l] r s None show ?thesis
    by (auto simp: rx_loop_def)
next
  case (Some c)
  show ?thesis
  proof (cases "1 < length c")
    case False
    then have "length c = 1"
      using r Some by (cases c) (auto simp: rx_loop_def)
    with False r s Some show ?thesis
      by (auto simp: drain_step_def drain_flag_def rx_loop_def)
  next
    case True
    let ?i = "ring_index ch (length fs)"
    let ?b = "(rc_buffers ch ! ?i)\<lparr>buf_len := length c\<rparr>"
    define ch1 where "ch1 = put_buffer ?i ?b ch"
    define ch2 where "ch2 = ch1\<lparr>rc_finished_head := (rc_finished_head ch1 + 1) mod CHANNEL_MAX_FRAMES\<rparr>"
    from r Some have h: "rx_heads ch (length fs) True" "rx_frames ch fs" "c \<noteq> []"
      "take (length c) (buf_bytes (rc_buffers ch ! ?i)) = c"
      by (simp_all add: rx_loop_def)
    have fs': "fs' = fs @ [c]" "cur' = Some [HDLC_FLAG]" "\<not> esc'"
      using s Some True by simp_all
    have fin: "rx_heads ch2 (length (fs @ [c])) False" "rx_frames ch2 (fs @ [c])"
      using rx_finish [OF h(1,2) _ h(3,4) ch1_def ch2_def] n fs' by simp_all
    have len: "set_buf_len ?i (length c) ch = Some ch1"
      using rx_heads_buffer [OF h(1)] by (simp add: set_buf_len_eq ch1_def)
    have "drain_step HDLC_FLAG l ch = (case try_alloc_buffer ch2 of
         (None, channel) \<Rightarrow> Some (l\<lparr>dl_bi := 0\<rparr>\<lparr>dl_denied := True\<rparr>, channel)
       | (Some a_buf, channel) \<Rightarrow> do {
           channel \<leftarrow> set_buf_byte a_buf 0 HDLC_FLAG channel;
           channel \<leftarrow> set_buf_len a_buf 1 channel;
           Some (l\<lparr>dl_bi := 0\<rparr>\<lparr>dl_buf := a_buf, dl_in_packet := True, dl_last_esc := False, dl_bi := 1\<rparr>, channel)
         })"
      using r Some True len by (simp add: rx_loop_def drain_step_def drain_flag_def Let_def ch2_def)
    moreover have "rc_read_head ch2 = rc_read_head ch"
      by (simp add: ch2_def ch1_def)
    ultimately show ?thesis
      using drain_flag_opens [OF fin, of "l\<lparr>dl_bi := 0\<rparr>"] r fs' by (simp add: rx_loop_def)
  qed
qed

lemma drain_step_byte:
  assumes r: "rx_loop l ch (fs, Some c, esc)" and b: "b \<noteq> HDLC_FLAG" "\<not> (\<not> esc \<and> b = HDLC_ESC)"
    and n: "length c < MAX_FRAME"
  shows "\<exists>l' ch'. drain_step b l ch = Some (l', ch')
    \<and> rx_loop l' ch' (fs, Some (c @ [if esc then b XOR HDLC_ESC_XOR else b]), False) \<and> rc_read_head ch' = rc_read_head ch"
proof -
  let ?i = "ring_index ch (length fs)" and ?v = "if esc then b XOR HDLC_ESC_XOR else b"
  let ?bs = "(buf_bytes (rc_buffers ch ! ?i))[length c := ?v]"
  define ch1 where "ch1 = put_buffer ?i ((rc_buffers ch ! ?i)\<lparr>buf_bytes := ?bs\<rparr>) ch"
  from r have h: "rx_heads ch (length fs) True" "rx_frames ch fs" "take (length c) (buf_bytes (rc_buffers ch ! ?i)) = c"
    by (auto simp: rx_loop_def)
  have set: "set_buf_byte ?i (length c) ?v ch = Some ch1"
    using rx_heads_buffer [OF h(1)] n unfolding ch1_def by (simp add: set_buf_byte_eq)
  have "drain_step b l ch = Some (l\<lparr>dl_last_esc := False, dl_bi := dl_bi l + 1\<rparr>, ch1)"
    using r b set by (auto simp: rx_loop_def drain_step_def)
  moreover have "rx_heads ch1 (length fs) True" "rx_frames ch1 fs"
    unfolding ch1_def using rx_heads_put [OF h(1)] rx_frames_put [OF h(2)] rx_heads_buffer [OF h(1)] by simp_all
  moreover have "take (Suc (length c)) ?bs = c @ [?v]"
    using h(3) n rx_heads_buffer [OF h(1)] take_Suc_update [of "length c" "buf_bytes (rc_buffers ch ! ?i)" ?v] by simp
  ultimately show ?thesis
    using r rx_heads_buffer [OF h(1)] by (simp add: rx_loop_def ch1_def)
qed

definition cur_fits :: "u8 list option \<Rightarrow> bool" where
  "cur_fits cur \<longleftrightarrow> (case cur of None \<Rightarrow> True | Some c \<Rightarrow> length c \<le> MAX_FRAME)"

lemma drain_step_refines:
  assumes r: "rx_loop l ch (fs, cur, esc)" and s: "hdlc_step (fs, cur, esc) b = (fs', cur', esc')"
    and n: "length fs' < CHANNEL_MAX_FRAMES" "cur_fits cur'"
  shows "\<exists>l' ch'. drain_step b l ch = Some (l', ch') \<and> rx_loop l' ch' (fs', cur', esc')
    \<and> rc_read_head ch' = rc_read_head ch"
proof (cases "b = HDLC_FLAG")
  case True
  then show ?thesis
    using drain_step_flag [OF r] s n by simp
next
  case False
  show ?thesis
  proof (cases cur)
    case None
    with r s False show ?thesis
      by (auto simp: rx_loop_def drain_step_def)
  next
    case (Some c)
    show ?thesis
    proof (cases "\<not> esc \<and> b = HDLC_ESC")
      case True
      with r s False Some show ?thesis
        by (auto simp: rx_loop_def drain_step_def)
    next
      case esc: False
      then have "fs' = fs" "cur' = Some (c @ [if esc then b XOR HDLC_ESC_XOR else b])" "\<not> esc'"
        using s False Some by (auto split: if_splits)
      with drain_step_byte [of l ch fs c esc b] r Some False esc n show ?thesis
        by (simp add: cur_fits_def)
    qed
  qed
qed

text \<open>The frames and the open frame only grow until they are finished.\<close>

definition hdlc_fits :: "hdlc_state \<Rightarrow> bool" where
  "hdlc_fits s = (case s of (fs, cur, esc) \<Rightarrow> length fs < CHANNEL_MAX_FRAMES \<and> (\<forall>f \<in> set fs. length f \<le> MAX_FRAME) \<and> cur_fits cur)"

lemma hdlc_fits_step: "hdlc_fits (hdlc_step s b) \<Longrightarrow> hdlc_fits s"
  by (cases s; cases "fst (snd s)") (auto simp: hdlc_fits_def cur_fits_def split: if_splits)

lemma hdlc_fits_foldl: "hdlc_fits (foldl hdlc_step s bs) \<Longrightarrow> hdlc_fits s"
  by (induction bs arbitrary: s) (simp, metis foldl_Cons hdlc_fits_step)

lemma drain_loop_refines:
  "rx_loop l ch s \<Longrightarrow> hdlc_fits (foldl hdlc_step s bs) \<Longrightarrow>
    \<exists>l' ch'. drain_loop bs l ch = Some (l', ch') \<and> rx_loop l' ch' (foldl hdlc_step s bs) \<and> rc_read_head ch' = rc_read_head ch"
proof (induction bs arbitrary: l ch s)
  case (Cons b bs)
  obtain fs cur esc fs' cur' esc' where s: "s = (fs, cur, esc)" "hdlc_step s b = (fs', cur', esc')"
    by (metis prod_cases3)
  have "hdlc_fits (hdlc_step s b)"
    using Cons.prems(2) by (simp add: hdlc_fits_foldl)
  then obtain l1 ch1 where 1: "drain_step b l ch = Some (l1, ch1)" "rx_loop l1 ch1 (hdlc_step s b)"
    "rc_read_head ch1 = rc_read_head ch"
    using drain_step_refines [of l ch fs cur esc b fs' cur' esc'] Cons.prems(1) s by (auto simp: hdlc_fits_def)
  from Cons.IH [OF 1(2)] Cons.prems(2) 1 show ?case
    by simp
qed simp

lemma rx_abs_enter:
  assumes "rx_abs ch fs cur"
  shows "\<exists>l. drain_enter ch = Some l \<and> rx_loop l ch (fs, cur, False)"
proof (cases cur)
  case None
  with assms show ?thesis
    by (simp add: rx_abs_def rx_loop_def rx_heads_def drain_enter_def)
next
  case (Some c)
  then have h: "rx_heads ch (length fs) True" "rc_in_packet ch" "rx_frames ch fs" "c \<noteq> []"
    "buffer_holds (rc_buffers ch ! ring_index ch (length fs)) c"
    using assms by (simp_all add: rx_abs_def)
  then have b: "(CHANNEL_MAX_FRAMES + rc_write_head ch - 1) mod CHANNEL_MAX_FRAMES = ring_index ch (length fs)" "\<not> rc_last_esc ch"
    using ring_index_prev [of ch "length fs"] by (simp_all add: rx_heads_def)
  show ?thesis
    unfolding drain_enter_def b(1) using h b(2) rx_heads_buffer [OF h(1)] Some by (auto simp: rx_loop_def buffer_holds_def)
qed

lemma rx_abs_leave:
  assumes r: "rx_loop l ch (fs, cur, esc)"
  shows "\<exists>ch'. drain_leave l ch = Some ch' \<and> rx_abs ch' fs cur \<and> rc_read_head ch' = rc_read_head ch"
proof -
  let ?ch = "ch\<lparr>rc_in_packet := dl_in_packet l\<rparr>"
  have ri: "ring_index (ch\<lparr>rc_in_packet := x\<rparr>) = ring_index ch" for x
    by (simp add: ring_index_def fun_eq_iff)
  have h: "rx_heads ?ch (length fs) (cur \<noteq> None)" "rx_frames ?ch fs"
    using r by (simp_all add: rx_loop_def rx_heads_def rx_frames_def ri)
  show ?thesis
  proof (cases cur)
    case None
    with r h show ?thesis
      by (simp add: rx_loop_def rx_abs_def drain_leave_def)
  next
    case (Some c)
    let ?i = "ring_index ch (length fs)"
    let ?ch' = "put_buffer ?i ((rc_buffers ?ch ! ?i)\<lparr>buf_len := length c\<rparr>) ?ch"
    from Some r have c: "c \<noteq> []" "dl_buf l = ?i" "dl_bi l = length c" "dl_in_packet l"
      "take (length c) (buf_bytes (rc_buffers ch ! ?i)) = c"
      by (simp_all add: rx_loop_def)
    note hb = rx_heads_buffer [OF h(1), unfolded ri]
    have "set_buf_len ?i (length c) ?ch = Some ?ch'"
      using hb by (intro set_buf_len_eq) simp
    moreover have "rx_heads ?ch' (length fs) True" "rx_frames ?ch' fs"
      using rx_heads_put [OF h(1)] rx_frames_put [OF h(2), unfolded ri] hb Some by simp_all
    ultimately show ?thesis
      using c hb ri Some unfolding rx_abs_def drain_leave_def by (simp add: buffer_holds_def)
  qed
qed

lemma drain_uart_buffer_refines:
  assumes a: "rx_abs ch fs cur" and s: "foldl hdlc_step (fs, cur, False) bs = (fs', cur', esc')"
    and fits: "hdlc_fits (fs', cur', esc')"
  shows "\<exists>ch'. drain_uart_buffer bs ch = Some ch' \<and> rx_abs ch' fs' cur' \<and> rc_read_head ch' = rc_read_head ch"
proof -
  from rx_abs_enter [OF a] drain_loop_refines [of _ ch "(fs, cur, False)" bs] s fits
  obtain l l' ch1 where 1: "drain_enter ch = Some l" "drain_loop bs l ch = Some (l', ch1)" "rx_loop l' ch1 (fs', cur', esc')"
      "rc_read_head ch1 = rc_read_head ch"
    by metis
  from rx_abs_leave [OF 1(3)] 1 show ?thesis
    by (auto simp: drain_uart_buffer_def)
qed

end
