(* ===== verification/Ppp_Link.thy ===== *)
theory Ppp_Link
  imports Ppp_Channel
begin

text \<open>
  The serial link between two PPP peers, as \<open>phy.rs\<close> and the reading half of \<open>net.rs\<close> run it: what the
  transmit channel writes is what the receive channel stores, and the network task reads the frames in
  order. Also the inputs on which the receive channel loses frames or panics.
\<close>

section \<open>Reading the receive channel\<close>

text \<open>The frame that the network task takes from the head of the channel, \<open>&buf[..buf_len]\<close>.\<close>

definition read_frame :: "RecvChannel \<Rightarrow> u8 list option option" where
  "read_frame ch = do {
     head \<leftarrow> read_head_buf ch;
     case head of
       None \<Rightarrow> Some None
     | Some b \<Rightarrow> do { f \<leftarrow> subslice (buf_bytes b) 0 (buf_len b); Some (Some f) }
   }"

text \<open>At most \<open>n\<close> turns of the task's loop, each of which takes one frame and frees its buffer.\<close>

fun take_frames :: "nat \<Rightarrow> ('q \<Rightarrow> 'f option option) \<Rightarrow> ('q \<Rightarrow> 'q) \<Rightarrow> 'q \<Rightarrow> ('f list \<times> 'q) option" where
  "take_frames 0 head free q = Some ([], q)"
| "take_frames (Suc n) head free q = do {
     h \<leftarrow> head q;
     case h of
       None \<Rightarrow> Some ([], q)
     | Some f \<Rightarrow> do { (fs, q) \<leftarrow> take_frames n head free (free q); Some (f # fs, q) }
   }"

locale frame_queue =
  fixes holds :: "'q \<Rightarrow> 'f list \<Rightarrow> bool"
    and head :: "'q \<Rightarrow> 'f option option"
    and free :: "'q \<Rightarrow> 'q"
  assumes head_empty: "holds q [] \<Longrightarrow> head q = Some None"
    and head_frame: "holds q (f # fs) \<Longrightarrow> head q = Some (Some f)"
    and free_frame: "holds q (f # fs) \<Longrightarrow> holds (free q) fs"
begin

lemma take_frames_all:
  "holds q fs \<Longrightarrow> length fs < n \<Longrightarrow> \<exists>q'. take_frames n head free q = Some (fs, q') \<and> holds q' []"
proof (induction fs arbitrary: q n)
  case Nil
  then obtain m where "n = Suc m"
    by (cases n) auto
  with Nil head_empty show ?case
    by simp
next
  case (Cons f fs)
  then obtain m where m: "n = Suc m" "length fs < m"
    by (cases n) auto
  from Cons.IH [OF free_frame [OF Cons.prems(1)] m(2)] head_frame [OF Cons.prems(1)] m(1) show ?case
    by auto
qed

end

definition rx_queue :: "RecvChannel \<Rightarrow> u8 list list \<Rightarrow> bool" where
  "rx_queue ch fs \<longleftrightarrow> (\<exists>cur. rx_abs ch fs cur)"

lemma read_head_buf_empty:
  assumes "rx_abs ch [] cur"
  shows "read_head_buf ch = Some None"
  using assms by (simp add: rx_abs_def rx_heads_def read_head_buf_def ring_index_def)

lemma read_head_buf_frame:
  assumes "rx_abs ch (f # fs) cur"
  shows "\<exists>b. read_head_buf ch = Some (Some b) \<and> buffer_holds b f"
proof -
  have h: "rx_heads ch (length (f # fs)) (cur \<noteq> None)" "rx_frames ch (f # fs)"
    using assms unfolding rx_abs_def by auto
  have 0: "ring_index ch 0 = rc_read_head ch" "rc_read_head ch < length (rc_buffers ch)"
    using h(1) by (simp_all add: rx_heads_def ring_index_def)
  have "rc_finished_head ch \<noteq> rc_read_head ch"
    using h(1) ring_index_inj [of 0 "length (f # fs)" ch] 0 by (simp add: rx_heads_def)
  moreover have "rc_free_buffers ch \<noteq> CHANNEL_MAX_FRAMES"
    using h(1) by (simp add: rx_heads_def)
  ultimately have "read_head_buf ch = Some (Some (rc_buffers ch ! rc_read_head ch))"
    using 0 by (simp add: read_head_buf_def)
  moreover have "buffer_holds (rc_buffers ch ! rc_read_head ch) f"
    using h(2) 0 by (fastforce simp: rx_frames_def)
  ultimately show ?thesis
    by simp
qed

lemma buffer_holds_subslice: "buffer_holds b f \<Longrightarrow> subslice (buf_bytes b) 0 (buf_len b) = Some f"
  by (auto simp: buffer_holds_def subslice_def dest: arg_cong [of _ _ length])

lemma free_buffer_abs:
  assumes "rx_abs ch (f # fs) cur"
  shows "rx_abs (free_buffer ch) fs cur"
proof -
  have ri: "ring_index (free_buffer ch) k = ring_index ch (Suc k)" for k
    by (simp add: free_buffer_def ring_index_def mod_simps)
  show ?thesis
    using assms unfolding rx_abs_def rx_heads_def rx_frames_def
    by (auto simp: ri split: option.splits) (auto simp: free_buffer_def CHANNEL_MAX_FRAMES_def)
qed

interpretation rx: frame_queue rx_queue read_frame free_buffer
proof
  fix ch assume "rx_queue ch []"
  then show "read_frame ch = Some None"
    using read_head_buf_empty by (auto simp: rx_queue_def read_frame_def)
next
  fix ch f fs assume "rx_queue ch (f # fs)"
  then show "read_frame ch = Some (Some f)" and "rx_queue (free_buffer ch) fs"
    using read_head_buf_frame [of ch f fs] free_buffer_abs [of ch f fs] buffer_holds_subslice
    by (fastforce simp: rx_queue_def read_frame_def)+
qed

section \<open>A sequence of interrupts\<close>

text \<open>No interrupt ends between an escape and the byte it escapes.\<close>

fun unsplit :: "hdlc_state \<Rightarrow> u8 list list \<Rightarrow> bool" where
  "unsplit s [] = True"
| "unsplit s (bs # bss) = (let s = foldl hdlc_step s bs in \<not> snd (snd s) \<and> unsplit s bss)"

lemma receive_interrupts_refine:
  "rx_abs ch fs cur \<Longrightarrow> unsplit (fs, cur, False) bss \<Longrightarrow> foldl hdlc_step (fs, cur, False) (concat bss) = (fs', cur', esc')
    \<Longrightarrow> hdlc_fits (fs', cur', esc') \<Longrightarrow> \<exists>ch'. receive_interrupts bss ch = Some ch' \<and> rx_abs ch' fs' cur'"
proof (induction bss arbitrary: ch fs cur)
  case (Cons bs bss)
  obtain fs1 cur1 where s: "foldl hdlc_step (fs, cur, False) bs = (fs1, cur1, False)"
    using Cons.prems(2) by (cases "foldl hdlc_step (fs, cur, False) bs") (auto simp: Let_def)
  then have rest: "unsplit (fs1, cur1, False) bss" "foldl hdlc_step (fs1, cur1, False) (concat bss) = (fs', cur', esc')"
    using Cons.prems(2,3) by (simp_all add: Let_def)
  have "hdlc_fits (fs1, cur1, False)"
    using hdlc_fits_foldl [of "(fs1, cur1, False)" "concat bss"] rest(2) Cons.prems(4) by simp
  from drain_uart_buffer_refines [OF Cons.prems(1) s this] Cons.IH [OF _ rest Cons.prems(4)] show ?case
    by auto
qed simp

lemma rx_abs_new: "rx_abs recv_new [] None"
  by (simp add: rx_abs_def rx_heads_def rx_frames_def recv_new_def ring_index_def CHANNEL_MAX_FRAMES_def buffer_new_def)

section \<open>Byte stuffing\<close>

definition stuff_byte :: "(u8 \<Rightarrow> bool) \<Rightarrow> nat \<Rightarrow> nat \<Rightarrow> u8 \<Rightarrow> u8 list" where
  "stuff_byte esc n i b =
    (if esc b \<and> \<not> ((i = 0 \<or> i = n - 1) \<and> b = 0x7e) then [HDLC_ESC, HDLC_ESC_XOR XOR b] else [b])"

definition stuff_from :: "(u8 \<Rightarrow> bool) \<Rightarrow> u8 list \<Rightarrow> nat \<Rightarrow> u8 list" where
  "stuff_from esc bs i = concat (map (\<lambda>j. stuff_byte esc (length bs) j (bs ! j)) [i..<length bs])"

text \<open>What is still to be written of a buffer that holds \<open>bs\<close>.\<close>

definition tx_rest :: "(u8 \<Rightarrow> bool) \<Rightarrow> u8 list \<Rightarrow> nat \<Rightarrow> bool \<Rightarrow> u8 list" where
  "tx_rest esc bs i pending = (if pending then tl (stuff_from esc bs i) else stuff_from esc bs i)"

definition tx_at :: "(u8 \<Rightarrow> bool) \<Rightarrow> u8 list \<Rightarrow> nat \<Rightarrow> bool \<Rightarrow> bool" where
  "tx_at esc bs i pending \<longleftrightarrow> i < length bs \<and> (pending \<longrightarrow> length (stuff_byte esc (length bs) i (bs ! i)) = 2)"

lemma stuff_from_step: "i < length bs \<Longrightarrow> stuff_from esc bs i = stuff_byte esc (length bs) i (bs ! i) @ stuff_from esc bs (Suc i)"
  by (simp add: stuff_from_def upt_conv_Cons)

lemma stuff_from_end: "stuff_from esc bs (length bs) = []"
  by (simp add: stuff_from_def)

lemma tx_step:
  assumes "tx_at esc bs i pending"
    and "(out, i', pending') = (if pending then (HDLC_ESC_XOR XOR bs ! i, i + 1, False)
        else if esc (bs ! i) \<and> \<not> ((i = 0 \<or> i = length bs - 1) \<and> bs ! i = 0x7e) then (HDLC_ESC, i, True)
        else (bs ! i, i + 1, False))"
  shows "tx_rest esc bs i pending = out # tx_rest esc bs i' pending'"
    and "if i' = length bs then \<not> pending' else tx_at esc bs i' pending'"
  using assms stuff_from_step [of i bs esc] unfolding tx_at_def tx_rest_def
  by (auto simp: stuff_byte_def split: if_splits)

lemma write_inner_spec:
  "buffer_holds b bs \<Longrightarrow> tx_at esc bs i pending \<Longrightarrow>
    \<exists>out i' pending' finished. write_inner esc b room i pending = Some (out, i', pending', finished)
      \<and> (if finished then tx_rest esc bs i pending = out
         else tx_at esc bs i' pending' \<and> tx_rest esc bs i pending = out @ tx_rest esc bs i' pending' \<and> length out = room)"
proof (induction room arbitrary: i pending)
  case (Suc room)
  have b: "length bs \<le> length (buf_bytes b)" "buf_len b = length bs" "take (length bs) (buf_bytes b) = bs"
    using Suc.prems(1) by (auto simp: buffer_holds_def dest: arg_cong [of _ _ length])
  have i: "i < length bs"
    using Suc.prems(2) by (simp add: tx_at_def)
  then have byte: "idx (buf_bytes b) i = Some (bs ! i)"
    using b nth_take [of i "length bs" "buf_bytes b"] by simp
  obtain out i' pending' where t: "(out, i', pending') = (if pending then (HDLC_ESC_XOR XOR bs ! i, i + 1, False)
        else if esc (bs ! i) \<and> \<not> ((i = 0 \<or> i = length bs - 1) \<and> bs ! i = 0x7e) then (HDLC_ESC, i, True)
        else (bs ! i, i + 1, False))"
    by (metis (no_types, lifting) prod_cases3)
  have w: "write_inner esc b (Suc room) i pending =
      (if i' = length bs then Some ([out], i', pending', True)
       else do {
         (outs, i, pending, finished) \<leftarrow> write_inner esc b room i' pending';
         Some (out # outs, i, pending, finished)
       })"
    unfolding write_inner.simps byte b(2) Option.bind.simps t [symmetric] by simp
  show ?case
  proof (cases "i' = length bs")
    case True
    then have "\<not> pending'" "tx_rest esc bs (length bs) False = []"
      using tx_step(2) [OF Suc.prems(2) t] by (simp_all add: tx_rest_def stuff_from_end)
    with True w tx_step(1) [OF Suc.prems(2) t] show ?thesis
      by (auto simp del: write_inner.simps)
  next
    case False
    then have "tx_at esc bs i' pending'"
      using tx_step [OF Suc.prems(2) t] by simp
    from Suc.IH [OF Suc.prems(1) this] obtain outs i'' pending'' finished where
      o: "write_inner esc b room i' pending' = Some (outs, i'', pending'', finished)"
        "if finished then tx_rest esc bs i' pending' = outs
         else tx_at esc bs i'' pending'' \<and> tx_rest esc bs i' pending' = outs @ tx_rest esc bs i'' pending'' \<and> length outs = room"
      by blast
    have "write_inner esc b (Suc room) i pending = Some (out # outs, i'', pending'', finished)"
      unfolding w using o(1) False by simp
    moreover have "if finished then tx_rest esc bs i pending = out # outs
         else tx_at esc bs i'' pending'' \<and> tx_rest esc bs i pending = (out # outs) @ tx_rest esc bs i'' pending''
           \<and> length (out # outs) = Suc room"
      unfolding tx_step(1) [OF Suc.prems(2) t] using o(2) by (cases finished) simp_all
    ultimately show ?thesis
      by blast
  qed
qed auto

section \<open>The transmit channel\<close>

text \<open>The frames in the channel, and the bytes that are still to be written.\<close>

fun tx_holds :: "(u8 \<Rightarrow> bool) \<Rightarrow> TxBuffer \<Rightarrow> u8 list \<Rightarrow> bool" where
  "tx_holds esc t bs \<longleftrightarrow> buffer_holds (tb_buffer t) bs \<and> tx_at esc bs (tb_index t) (tb_pending_escape t)"

definition tx_abs :: "XmitChannel \<Rightarrow> u8 list \<Rightarrow> bool" where
  "tx_abs ch out \<longleftrightarrow> (\<exists>fs. list_all2 (tx_holds (xc_needs_escape ch)) (xc_buffers ch) fs
     \<and> out = concat (map2 (\<lambda>t f. tx_rest (xc_needs_escape ch) f (tb_index t) (tb_pending_escape t)) (xc_buffers ch) fs))"

lemma tx_rest_Nil: "tx_at esc bs i pending \<Longrightarrow> tx_rest esc bs i pending \<noteq> []"
  using stuff_from_step [of i bs esc] by (auto simp: tx_at_def tx_rest_def stuff_byte_def split: if_splits)

lemma tx_abs_empty: "tx_abs ch [] \<Longrightarrow> xc_buffers ch = []"
  by (cases "xc_buffers ch") (auto simp: tx_abs_def list_all2_Cons1 tx_rest_Nil)

lemma write_out_spec:
  assumes "tx_abs ch out"
  shows "\<exists>w ch' rest. write_out room ch = Some (w, ch', xc_buffers ch' = []) \<and> out = w @ rest \<and> tx_abs ch' rest
    \<and> xc_needs_escape ch' = xc_needs_escape ch \<and> (0 < room \<longrightarrow> out \<noteq> [] \<longrightarrow> w \<noteq> [])
    \<and> (xc_buffers ch' = [] \<longleftrightarrow> rest = [])"
proof -
  let ?esc = "xc_needs_escape ch"
  from assms obtain fs where fs: "list_all2 (tx_holds ?esc) (xc_buffers ch) fs"
    "out = concat (map2 (\<lambda>t f. tx_rest ?esc f (tb_index t) (tb_pending_escape t)) (xc_buffers ch) fs)"
    by (auto simp: tx_abs_def)
  show ?thesis
  proof (cases "xc_buffers ch")
    case Nil
    with fs show ?thesis
      by (simp add: write_out_def tx_abs_def)
  next
    case (Cons t ts)
    then obtain f gs where g: "fs = f # gs" "tx_holds ?esc t f" "list_all2 (tx_holds ?esc) ts gs"
      using fs(1) by (auto simp: list_all2_Cons1)
    let ?more = "concat (map2 (\<lambda>t f. tx_rest ?esc f (tb_index t) (tb_pending_escape t)) ts gs)"
    let ?t = "tx_rest ?esc f (tb_index t) (tb_pending_escape t)"
    have out: "out = ?t @ ?more" "?t \<noteq> []"
      using fs(2) g Cons tx_rest_Nil by auto
    have more: "?more = [] \<longleftrightarrow> ts = []"
      using g(3) by (cases ts) (auto simp: list_all2_Cons1 tx_rest_Nil)
    obtain w i p fin where w: "write_inner ?esc (tb_buffer t) room (tb_index t) (tb_pending_escape t) = Some (w, i, p, fin)"
      "if fin then ?t = w else tx_at ?esc f i p \<and> ?t = w @ tx_rest ?esc f i p \<and> length w = room"
      using write_inner_spec [of "tb_buffer t" f ?esc "tb_index t" "tb_pending_escape t" room] g(2) by auto
    show ?thesis
    proof (cases fin)
      case True
      then have "tx_abs (ch\<lparr>xc_buffers := ts\<rparr>) ?more"
        unfolding tx_abs_def using g(3) by auto
      with True w out more Cons show ?thesis
        by (simp add: write_out_def)
    next
      case False
      let ?t' = "t\<lparr>tb_index := i, tb_pending_escape := p\<rparr>"
      have "tx_abs (ch\<lparr>xc_buffers := ?t' # ts\<rparr>) (tx_rest ?esc f i p @ ?more)"
        unfolding tx_abs_def using g(2,3) w(2) False by (intro exI [of _ "f # gs"]) simp
      with False w out Cons tx_rest_Nil [of ?esc f i p] show ?thesis
        by (auto simp: write_out_def)
    qed
  qed
qed

lemma xmit_push_abs:
  assumes "tx_abs ch out" and "buffer_holds b f" and "f \<noteq> []"
  shows "\<exists>ch'. xmit_push room b ch etbei = Some ([], ch', etbei) \<and> tx_abs ch' (out @ stuff_from (xc_needs_escape ch) f 0)
    \<and> xc_needs_escape ch' = xc_needs_escape ch"
proof -
  let ?esc = "xc_needs_escape ch" and ?t = "\<lparr>tb_buffer = b, tb_index = 0, tb_pending_escape = False\<rparr>"
  from assms(1) obtain fs where fs: "list_all2 (tx_holds ?esc) (xc_buffers ch) fs"
    "out = concat (map2 (\<lambda>t f. tx_rest ?esc f (tb_index t) (tb_pending_escape t)) (xc_buffers ch) fs)"
    by (auto simp: tx_abs_def)
  have "tx_holds ?esc ?t f"
    using assms(2,3) by (simp add: tx_at_def)
  then have "tx_abs (ch\<lparr>xc_buffers := xc_buffers ch @ [?t]\<rparr>) (out @ stuff_from ?esc f 0)"
    unfolding tx_abs_def using fs list_all2_lengthD [OF fs(1)]
    by (intro exI [of _ "fs @ [f]"]) (simp add: list_all2_appendI tx_rest_def)
  then show ?thesis
    by (simp add: xmit_push_def)
qed

text \<open>Turns of the transmit interrupt, one \<open>room\<close> for each; the bytes written and the channel after them.\<close>

fun transmit_interrupts :: "nat list \<Rightarrow> XmitChannel \<Rightarrow> bool \<Rightarrow> (u8 list \<times> XmitChannel \<times> bool) option" where
  "transmit_interrupts [] ch etbei = Some ([], ch, etbei)"
| "transmit_interrupts (room # rooms) ch etbei = do {
     (w, ch, etbei) \<leftarrow> dump_uart_buffer room ch etbei;
     (ws, ch, etbei) \<leftarrow> transmit_interrupts rooms ch etbei;
     Some (w @ ws, ch, etbei)
   }"

lemma tx_abs_writing: "tx_abs (ch\<lparr>xc_writing := x\<rparr>) out = tx_abs ch out"
  by (simp add: tx_abs_def)

lemma dump_uart_buffer_spec:
  assumes "tx_abs ch out"
  shows "\<exists>w ch' etbei' rest. dump_uart_buffer room ch etbei = Some (w, ch', etbei') \<and> out = w @ rest \<and> tx_abs ch' rest
    \<and> (0 < room \<longrightarrow> out \<noteq> [] \<longrightarrow> w \<noteq> [])"
proof -
  obtain w ch' rest where w: "write_out room ch = Some (w, ch', xc_buffers ch' = [])" "out = w @ rest" "tx_abs ch' rest"
    "0 < room \<longrightarrow> out \<noteq> [] \<longrightarrow> w \<noteq> []"
    using write_out_spec [OF assms, of room] by blast
  then show ?thesis
    by (cases "xc_buffers ch' = []") (auto simp: dump_uart_buffer_def tx_abs_writing)
qed

lemma transmit_interrupts_prefix:
  "tx_abs ch out \<Longrightarrow> \<exists>ws ch' etbei' rest. transmit_interrupts rooms ch etbei = Some (ws, ch', etbei') \<and> out = ws @ rest \<and> tx_abs ch' rest"
proof (induction rooms arbitrary: ch out etbei)
  case (Cons room rooms)
  obtain w ch1 e1 rest where w: "dump_uart_buffer room ch etbei = Some (w, ch1, e1)" "out = w @ rest" "tx_abs ch1 rest"
    using dump_uart_buffer_spec [OF Cons.prems] by blast
  from Cons.IH [OF w(3), of e1] w(1,2) show ?case
    by auto
qed simp

lemma transmit_interrupts_all:
  "tx_abs ch out \<Longrightarrow> length out \<le> length rooms \<Longrightarrow> (\<forall>room \<in> set rooms. 0 < room) \<Longrightarrow>
    \<exists>ch' etbei'. transmit_interrupts rooms ch etbei = Some (out, ch', etbei') \<and> tx_abs ch' []"
proof (induction rooms arbitrary: ch out etbei)
  case (Cons room rooms)
  obtain w ch1 e1 rest where w: "dump_uart_buffer room ch etbei = Some (w, ch1, e1)" "out = w @ rest" "tx_abs ch1 rest"
    "out \<noteq> [] \<longrightarrow> w \<noteq> []"
    using dump_uart_buffer_spec [OF Cons.prems(1), of room etbei] Cons.prems(3) by auto
  have "length rest \<le> length rooms"
    using w(2,4) Cons.prems(2) by (cases w) auto
  from Cons.IH [OF w(3) this, of e1] Cons.prems(3) w(1,2) show ?case
    by auto
qed simp

section \<open>Stuffed frames at the receiver\<close>

definition link_escapes :: "u8 \<Rightarrow> bool" where
  "link_escapes b \<longleftrightarrow> b = HDLC_ESC \<or> b = HDLC_FLAG"

lemma link_init_escapes: "xc_needs_escape (link_init xmit_new) = link_escapes"
  by (auto simp: link_init_def needs_escape_def xmit_new_def link_escapes_def fun_eq_iff)

definition stuff :: "u8 \<Rightarrow> u8 list" where
  "stuff b = (if link_escapes b then [HDLC_ESC, HDLC_ESC_XOR XOR b] else [b])"

lemma stuff_frame:
  "stuff_from link_escapes ([HDLC_FLAG] @ body @ [HDLC_FLAG]) 0 = [HDLC_FLAG] @ concat (map stuff body) @ [HDLC_FLAG]"
proof -
  let ?f = "[HDLC_FLAG] @ body @ [HDLC_FLAG]"
  let ?s = "\<lambda>j. stuff_byte link_escapes (length ?f) j (?f ! j)"
  have ends: "?s 0 = [HDLC_FLAG]" "?s (Suc (length body)) = [HDLC_FLAG]"
    by (simp_all add: stuff_byte_def HDLC_FLAG_def)
  have mid: "map (\<lambda>j. ?s (Suc j)) [0..<length body] = map (\<lambda>j. stuff (body ! j)) [0..<length body]"
    by (rule map_cong) (auto simp: stuff_byte_def stuff_def nth_append HDLC_FLAG_def)
  have "[0..<length ?f] = 0 # map Suc [0..<length body] @ [Suc (length body)]"
    by (auto simp: map_Suc_upt upt_conv_Cons Suc_le_eq)
  then have "stuff_from link_escapes ?f 0 = ?s 0 @ concat (map (\<lambda>j. ?s (Suc j)) [0..<length body]) @ ?s (Suc (length body))"
    unfolding stuff_from_def by (simp only: list.map map_append map_map concat.simps concat_append comp_def append_Nil2)
  also have "\<dots> = [HDLC_FLAG] @ concat (map stuff (map ((!) body) [0..<length body])) @ [HDLC_FLAG]"
    unfolding ends mid by (simp add: comp_def)
  finally show ?thesis
    by (simp only: map_nth)
qed

lemma hdlc_stuff:
  "foldl hdlc_step (fs, Some c, False) (concat (map stuff body)) = (fs, Some (c @ body), False)"
proof (induction body arbitrary: c)
  case (Cons b body)
  have "foldl hdlc_step (fs, Some c, False) (stuff b) = (fs, Some (c @ [b]), False)"
    by (auto simp: stuff_def link_escapes_def HDLC_FLAG_def HDLC_ESC_def HDLC_ESC_XOR_def)
  with Cons.IH [of "c @ [b]"] show ?case
    by simp
qed simp

lemma hdlc_frame_received:
  assumes "cur = None \<or> cur = Some [HDLC_FLAG]" and "body \<noteq> []"
  shows "foldl hdlc_step (fs, cur, False) ([HDLC_FLAG] @ concat (map stuff body) @ [HDLC_FLAG]) =
    (fs @ [HDLC_FLAG # body], Some [HDLC_FLAG], False)"
proof -
  have "hdlc_step (fs, cur, False) HDLC_FLAG = (fs, Some [HDLC_FLAG], False)"
    using assms(1) by auto
  with hdlc_stuff [of fs "[HDLC_FLAG]" body] assms(2) show ?thesis
    by (simp add: foldl_append)
qed

lemma hdlc_frames_received:
  "cur = None \<or> cur = Some [HDLC_FLAG] \<Longrightarrow> (\<forall>body \<in> set bodies. body \<noteq> []) \<Longrightarrow>
    \<exists>cur'. foldl hdlc_step (fs, cur, False) (concat (map (\<lambda>body. [HDLC_FLAG] @ concat (map stuff body) @ [HDLC_FLAG]) bodies)) =
      (fs @ map (Cons HDLC_FLAG) bodies, cur', False) \<and> (cur' = None \<or> cur' = Some [HDLC_FLAG])"
proof (induction bodies arbitrary: fs cur)
  case (Cons body bodies)
  from Cons.IH [of "Some [HDLC_FLAG]" "fs @ [HDLC_FLAG # body]"] Cons.prems hdlc_frame_received [OF Cons.prems(1), of body fs]
  show ?case
    by (simp only: list.map concat.simps foldl_append) (simp add: Cons.prems)
qed auto

section \<open>Where a stream of frames may be cut\<close>

text \<open>In what the transmit channel writes, an escape is never followed by a flag, so the receiver is
  inside an escape exactly after an escape byte.\<close>

definition no_abort :: "u8 list \<Rightarrow> bool" where
  "no_abort w = successively (\<lambda>a b. \<not> (a = HDLC_ESC \<and> b = HDLC_FLAG)) w"

lemma hdlc_step_esc: "snd (snd (hdlc_step s b)) \<Longrightarrow> b = HDLC_ESC \<or> b = HDLC_FLAG \<and> snd (snd s) \<or> fst (snd s) = None \<and> snd (snd s)"
  by (cases s; cases "fst (snd s)") (auto split: if_splits)

lemma hdlc_step_closed: "fst (snd s) = None \<longrightarrow> \<not> snd (snd s) \<Longrightarrow> fst (snd (hdlc_step s b)) = None \<longrightarrow> \<not> snd (snd (hdlc_step s b))"
  by (cases s; cases "fst (snd s)") (auto split: if_splits)

lemma hdlc_esc_last:
  "no_abort w \<Longrightarrow> \<not> esc \<Longrightarrow>
    (fst (snd (foldl hdlc_step (fs, cur, esc) w)) = None \<longrightarrow> \<not> snd (snd (foldl hdlc_step (fs, cur, esc) w)))
    \<and> (snd (snd (foldl hdlc_step (fs, cur, esc) w)) \<longrightarrow> w \<noteq> [] \<and> last w = HDLC_ESC)"
proof (induction w rule: rev_induct)
  case (snoc b w)
  let ?s = "foldl hdlc_step (fs, cur, esc) w"
  have w: "no_abort w" "w \<noteq> [] \<Longrightarrow> \<not> (last w = HDLC_ESC \<and> b = HDLC_FLAG)"
    using snoc.prems(1) by (auto simp: no_abort_def successively_append_iff)
  note IH = snoc.IH [OF w(1) snoc.prems(2)]
  from IH hdlc_step_closed [of ?s b] hdlc_step_esc [of ?s b] w(2) show ?case
    by auto
qed simp

lemma unsplit_chunks:
  "no_abort (pre @ concat bss) \<Longrightarrow> (pre = [] \<or> last pre \<noteq> HDLC_ESC) \<Longrightarrow> (\<forall>bs \<in> set bss. bs = [] \<or> last bs \<noteq> HDLC_ESC) \<Longrightarrow>
    unsplit (foldl hdlc_step (fs, cur, False) pre) bss"
proof (induction bss arbitrary: pre)
  case (Cons bs bss)
  have pre: "no_abort (pre @ bs)" "pre @ bs = [] \<or> last (pre @ bs) \<noteq> HDLC_ESC"
    using Cons.prems successively_append_iff [of _ "pre @ bs" "concat bss"] unfolding no_abort_def
    by (simp, cases "bs = []") auto
  from Cons.IH [of "pre @ bs"] Cons.prems pre(2) hdlc_esc_last [OF pre(1), of False fs cur] show ?case
    by (auto simp: Let_def)
qed simp

lemma no_abort_stuff: "no_abort (concat (map stuff body) @ w) \<longleftrightarrow> no_abort w"
proof (induction body)
  case (Cons b body)
  have "no_abort (stuff b @ v) \<longleftrightarrow> no_abort v" for v
    by (cases v) (auto simp: no_abort_def stuff_def link_escapes_def HDLC_ESC_def HDLC_FLAG_def HDLC_ESC_XOR_def)
  with Cons.IH show ?case
    by simp
qed simp

lemma no_abort_frames:
  "no_abort (concat (map (\<lambda>body. [HDLC_FLAG] @ concat (map stuff body) @ [HDLC_FLAG]) bodies))"
proof (induction bodies)
  case (Cons body bodies)
  have flag: "no_abort (HDLC_FLAG # v) \<longleftrightarrow> no_abort v" for v
    by (cases v) (auto simp: no_abort_def HDLC_ESC_def HDLC_FLAG_def)
  with Cons.IH show ?case
    by (simp add: no_abort_stuff)
qed (simp add: no_abort_def)

section \<open>From the sender's packets to the receiver's\<close>

text \<open>Packets built and passed to \<open>send\<close> one after the other: protocol and the pieces of the payload.\<close>

fun send_packets :: "nat \<Rightarrow> (u16 \<times> u8 list list) list \<Rightarrow> XmitChannel \<Rightarrow> bool \<Rightarrow> (u8 list \<times> XmitChannel \<times> bool) option" where
  "send_packets room [] ch etbei = Some ([], ch, etbei)"
| "send_packets room (p # ps) ch etbei = do {
     buf \<leftarrow> build_ppp (fst p) (snd p);
     (w, ch, etbei) \<leftarrow> xmit_push room buf ch etbei;
     (ws, ch, etbei) \<leftarrow> send_packets room ps ch etbei;
     Some (w @ ws, ch, etbei)
   }"

text \<open>What is between the flags of a packet's frame, and the packet as the receiver hands it on.\<close>

definition packet_body :: "u16 \<times> u8 list list \<Rightarrow> u8 list" where
  "packet_body p = tl (hdlc_frame (u16_to_be_bytes (fst p) @ concat (snd p)))"

definition packet_payload :: "u16 \<times> u8 list list \<Rightarrow> u8 list" where
  "packet_payload p = u16_to_be_bytes (fst p) @ concat (snd p)"

lemma packet_body_frame: "HDLC_FLAG # packet_body p = hdlc_frame (packet_payload p)"
  "ppp_wire (fst p) (concat (snd p)) = [HDLC_FLAG] @ packet_body p @ [HDLC_FLAG]"
  "length (packet_body p) = length (concat (snd p)) + 6"
  by (simp_all add: packet_body_def packet_payload_def hdlc_frame_def ppp_wire_frame)

lemma packet_body_nonempty: "packet_body p \<noteq> []"
  using packet_body_frame(3) [of p] by auto

lemma send_packets_abs:
  "tx_abs ch out \<Longrightarrow> xc_needs_escape ch = link_escapes \<Longrightarrow> (\<forall>p \<in> set ps. length (concat (snd p)) < PPP_MRU) \<Longrightarrow>
    \<exists>ch' etbei'. send_packets room ps ch etbei = Some ([], ch', etbei')
      \<and> tx_abs ch' (out @ concat (map (\<lambda>body. [HDLC_FLAG] @ concat (map stuff body) @ [HDLC_FLAG]) (map packet_body ps)))"
proof (induction ps arbitrary: ch out etbei)
  case (Cons p ps)
  obtain b where b: "build_ppp (fst p) (snd p) = Some b" "buffer_holds b (ppp_wire (fst p) (concat (snd p)))"
    using build_ppp_holds [of "snd p" "fst p"] Cons.prems(3) by auto
  have wire: "stuff_from link_escapes (ppp_wire (fst p) (concat (snd p))) 0 =
      [HDLC_FLAG] @ concat (map stuff (packet_body p)) @ [HDLC_FLAG]"
    unfolding packet_body_frame(2) by (rule stuff_frame)
  have "ppp_wire (fst p) (concat (snd p)) \<noteq> []"
    by (simp add: packet_body_frame(2))
  from xmit_push_abs [OF Cons.prems(1) b(2) this, of room etbei] obtain ch1 where
    1: "xmit_push room b ch etbei = Some ([], ch1, etbei)" "xc_needs_escape ch1 = link_escapes"
      "tx_abs ch1 (out @ [HDLC_FLAG] @ concat (map stuff (packet_body p)) @ [HDLC_FLAG])"
    unfolding Cons.prems(2) wire by blast
  from Cons.IH [OF 1(3,2), of etbei] Cons.prems(3) b(1) 1(1) show ?case
    by auto
qed auto

lemma length_stuffed: "length (concat (map stuff body)) \<le> 2 * length body"
  by (induction body) (auto simp: stuff_def)

lemma length_stuffed_frames:
  "(\<forall>p \<in> set ps. length (concat (snd p)) < PPP_MRU) \<Longrightarrow>
    length (concat (map (\<lambda>body. [HDLC_FLAG] @ concat (map stuff body) @ [HDLC_FLAG]) (map packet_body ps))) \<le> 3012 * length ps"
proof (induction ps)
  case (Cons p ps)
  with length_stuffed [of "packet_body p"] packet_body_frame(3) [of p] show ?case
    by (simp add: PPP_MRU_def)
qed simp

lemma frames_are_taken:
  assumes "\<forall>p \<in> set ps. length (concat (snd p)) < PPP_MRU" and "length ps < CHANNEL_MAX_FRAMES"
    and w: "concat bss = concat (map (\<lambda>body. [HDLC_FLAG] @ concat (map stuff body) @ [HDLC_FLAG]) (map packet_body ps))"
    and cut: "\<forall>bs \<in> set bss. bs = [] \<or> last bs \<noteq> HDLC_ESC"
  shows "\<exists>rx rx'. receive_interrupts bss recv_new = Some rx
    \<and> take_frames CHANNEL_MAX_FRAMES read_frame free_buffer rx = Some (map (\<lambda>p. hdlc_frame (packet_payload p)) ps, rx')"
proof -
  have bodies: "\<forall>body \<in> set (map packet_body ps). body \<noteq> []"
    using packet_body_nonempty by auto
  from hdlc_frames_received [OF _ bodies, of None "[]"] obtain cur where
    s: "foldl hdlc_step ([], None, False) (concat bss) = (map (Cons HDLC_FLAG) (map packet_body ps), cur, False)"
      "cur = None \<or> cur = Some [HDLC_FLAG]"
    unfolding w by auto
  have fs: "map (Cons HDLC_FLAG) (map packet_body ps) = map (\<lambda>p. hdlc_frame (packet_payload p)) ps"
    by (simp add: packet_body_frame)
  have "length (hdlc_frame (packet_payload p)) \<le> MAX_FRAME" if "p \<in> set ps" for p
    using assms(1) that by (auto simp: hdlc_frame_def packet_payload_def MAX_FRAME_def dest!: bspec)
  then have fits: "hdlc_fits (map (\<lambda>p. hdlc_frame (packet_payload p)) ps, cur, False)"
    using s(2) assms(2) by (auto simp: hdlc_fits_def cur_fits_def MAX_FRAME_def)
  have "unsplit ([], None, False) bss"
    using unsplit_chunks [of "[]" bss "[]" None] no_abort_frames [of "map packet_body ps"] cut w by simp
  from receive_interrupts_refine [OF rx_abs_new this s(1) [unfolded fs] fits] obtain rx where
    rx: "receive_interrupts bss recv_new = Some rx" "rx_queue rx (map (\<lambda>p. hdlc_frame (packet_payload p)) ps)"
    by (auto simp: rx_queue_def)
  with rx.take_frames_all [OF rx(2), of CHANNEL_MAX_FRAMES] assms(2) show ?thesis
    by auto
qed



section \<open>What the channels do not handle\<close>

text \<open>
  The transmit channel tests whether its queue is empty after it has put the new frame into it: sending
  packets never writes a byte and never enables the transmit interrupt, although the comment there says
  that it starts to write when nothing is being written. Output waits until the next byte is received.\<close>

lemma send_never_starts_output:
  assumes "send_packets room ps ch etbei = Some (w, ch', etbei')"
  shows "w = [] \<and> etbei' = etbei \<and> xc_writing ch' = xc_writing ch \<and> length (xc_buffers ch') = length (xc_buffers ch) + length ps"
  using assms
proof (induction ps arbitrary: ch etbei w)
  case (Cons p ps)
  let ?t = "\<lambda>buf. \<lparr>tb_buffer = buf, tb_index = 0, tb_pending_escape = False\<rparr>"
  from Cons.prems obtain buf ws where
    "send_packets room ps (ch\<lparr>xc_buffers := xc_buffers ch @ [?t buf]\<rparr>) etbei = Some (ws, ch', etbei')" "w = ws"
    by (auto simp: xmit_push_def split: bind_splits)
  with Cons.IH [of "ch\<lparr>xc_buffers := xc_buffers ch @ [?t buf]\<rparr>" etbei ws] show ?case
    by simp
qed simp

theorem send_never_starts_output_witness:
  "\<exists>ch etbei. send_packets 64 [(PROTO_LCP, [[1, 0, 0, 4]])] (link_init xmit_new) False = Some ([], ch, False)
    \<and> \<not> xc_writing ch \<and> length (xc_buffers ch) = 1"
proof -
  have "tx_abs (link_init xmit_new) []"
    by (simp add: tx_abs_def link_init_def needs_escape_def xmit_new_def)
  from send_packets_abs [OF this link_init_escapes, of "[(PROTO_LCP, [[1, 0, 0, 4]])]" 64 False]
  obtain ch e where "send_packets 64 [(PROTO_LCP, [[1, 0, 0, 4]])] (link_init xmit_new) False = Some ([], ch, e)"
    by (auto simp: PPP_MRU_def)
  with send_never_starts_output [OF this] show ?thesis
    by (auto simp: link_init_def needs_escape_def xmit_new_def)
qed

lemma rx_abs_fits: "rx_abs ch fs cur \<Longrightarrow> hdlc_fits (fs, cur, esc)"
proof -
  assume a: "rx_abs ch fs cur"
  have holds: "length f \<le> MAX_FRAME" if "buffer_holds b f" for b f
    using that by (auto simp: buffer_holds_def dest: arg_cong [of _ _ length])
  from a have "length fs < CHANNEL_MAX_FRAMES" "cur_fits cur"
    by (auto simp: rx_abs_def rx_heads_def cur_fits_def holds split: option.splits)
  moreover have "length f \<le> MAX_FRAME" if "f \<in> set fs" for f
    using a that holds by (auto simp: rx_abs_def rx_frames_def in_set_conv_nth)
  ultimately show ?thesis
    by (simp add: hdlc_fits_def)
qed

text \<open>
  The receive interrupt keeps in a local variable that the last byte was an escape and does not store it in
  the channel: the same two bytes, an escape and the byte it escapes, add the original byte to the frame
  when one interrupt reads both, and the changed byte when the interrupt ends between them.\<close>

lemma escape_split_is_lost:
  assumes "rx_abs ch fs (Some c)" and "length c < MAX_FRAME" and "b \<noteq> HDLC_FLAG" and "b \<noteq> HDLC_ESC"
  shows "\<exists>ch1 ch2. receive_interrupts [[HDLC_ESC, b]] ch = Some ch1 \<and> rx_abs ch1 fs (Some (c @ [b XOR HDLC_ESC_XOR]))
    \<and> receive_interrupts [[HDLC_ESC], [b]] ch = Some ch2 \<and> rx_abs ch2 fs (Some (c @ [b]))"
proof -
  have fits: "hdlc_fits (fs, Some (c @ [x]), False)" "hdlc_fits (fs, Some c, True)" for x
    using rx_abs_fits [OF assms(1)] assms(2) by (auto simp: hdlc_fits_def cur_fits_def)
  have esc: "HDLC_ESC \<noteq> HDLC_FLAG"
    by (simp add: HDLC_ESC_def HDLC_FLAG_def)
  obtain ch1 where 1: "drain_uart_buffer [HDLC_ESC, b] ch = Some ch1" "rx_abs ch1 fs (Some (c @ [b XOR HDLC_ESC_XOR]))"
    using drain_uart_buffer_refines [OF assms(1) _ fits(1) [of "b XOR HDLC_ESC_XOR"], of "[HDLC_ESC, b]"] assms(3) esc by auto
  obtain ch2 where 2: "drain_uart_buffer [HDLC_ESC] ch = Some ch2" "rx_abs ch2 fs (Some c)"
    using drain_uart_buffer_refines [OF assms(1) _ fits(2), of "[HDLC_ESC]"] esc by auto
  obtain ch3 where 3: "drain_uart_buffer [b] ch2 = Some ch3" "rx_abs ch3 fs (Some (c @ [b]))"
    using drain_uart_buffer_refines [OF 2(2) _ fits(1) [of b], of "[b]"] assms(3,4) by auto
  from 1 2 3 show ?thesis
    by auto
qed

lemma rx_after_bytes:
  assumes "foldl hdlc_step ([], None, False) bs = (fs, cur, False)" and "hdlc_fits (fs, cur, False)"
  shows "\<exists>ch. receive_interrupts [bs] recv_new = Some ch \<and> rx_abs ch fs cur"
  using receive_interrupts_refine [OF rx_abs_new, of "[bs]" fs cur False] assms by simp

theorem escape_split_is_lost_witness:
  "\<exists>ch ch1 ch2. receive_interrupts [[HDLC_FLAG]] recv_new = Some ch
    \<and> receive_interrupts [[HDLC_ESC, 0x5e]] ch = Some ch1 \<and> rx_abs ch1 [] (Some [HDLC_FLAG, 0x7e])
    \<and> receive_interrupts [[HDLC_ESC], [0x5e]] ch = Some ch2 \<and> rx_abs ch2 [] (Some [HDLC_FLAG, 0x5e])"
proof -
  obtain ch where ch: "receive_interrupts [[HDLC_FLAG]] recv_new = Some ch" "rx_abs ch [] (Some [HDLC_FLAG])"
    using rx_after_bytes [of "[HDLC_FLAG]" "[]" "Some [HDLC_FLAG]"]
    by (auto simp: hdlc_fits_def cur_fits_def MAX_FRAME_def CHANNEL_MAX_FRAMES_def)
  from escape_split_is_lost [OF ch(2), of "0x5e"] ch(1) show ?thesis
    by (simp add: MAX_FRAME_def HDLC_FLAG_def HDLC_ESC_def HDLC_ESC_XOR_def)
qed

text \<open>
  A frame that is longer than a buffer is not cut off: the first byte beyond the buffer's end panics in the
  receive interrupt.\<close>

lemma oversized_frame_panics:
  assumes "rx_abs ch fs (Some c)" and "length c = MAX_FRAME" and "b \<noteq> HDLC_FLAG" and "b \<noteq> HDLC_ESC"
  shows "drain_uart_buffer (b # bs) ch = None"
proof -
  obtain l where l: "drain_enter ch = Some l" "rx_loop l ch (fs, Some c, False)"
    using rx_abs_enter [OF assms(1)] by blast
  then have "rx_heads ch (length fs) True"
    by (simp add: rx_loop_def)
  note hb = rx_heads_buffer [OF this]
  have "set_buf_byte (dl_buf l) (dl_bi l) b ch = None"
    using l(2) assms(2) hb by (simp add: rx_loop_def set_buf_byte_def)
  then have "drain_step b l ch = None"
    using l(2) assms(3,4) by (simp add: rx_loop_def drain_step_def)
  with l(1) show ?thesis
    by (simp add: drain_uart_buffer_def)
qed

theorem oversized_frame_panics_witness:
  "receive_interrupts [HDLC_FLAG # replicate 1506 1, [1]] recv_new = None"
proof -
  have "concat (map stuff (replicate n 1)) = replicate n 1" for n
    by (induction n) (simp_all add: stuff_def link_escapes_def HDLC_ESC_def HDLC_FLAG_def)
  then have "foldl hdlc_step ([], None, False) (HDLC_FLAG # replicate 1506 1) = ([], Some (HDLC_FLAG # replicate 1506 1), False)"
    using hdlc_stuff [of "[]" "[HDLC_FLAG]" "replicate 1506 1"] by simp
  from rx_after_bytes [OF this] obtain ch where
    ch: "receive_interrupts [HDLC_FLAG # replicate 1506 1] recv_new = Some ch" "rx_abs ch [] (Some (HDLC_FLAG # replicate 1506 1))"
    by (auto simp: hdlc_fits_def cur_fits_def MAX_FRAME_def PPP_MRU_def CHANNEL_MAX_FRAMES_def)
  have "drain_uart_buffer [1] ch = None"
    by (rule oversized_frame_panics [OF ch(2)]) (simp_all add: MAX_FRAME_def PPP_MRU_def HDLC_ESC_def HDLC_FLAG_def)
  with ch(1) show ?thesis
    by (auto split: bind_splits)
qed

text \<open>The ring is full of finished frames.\<close>

definition rx_full :: "RecvChannel \<Rightarrow> bool" where
  "rx_full ch \<longleftrightarrow> rc_free_buffers ch = 0 \<and> rc_finished_head ch = rc_read_head ch \<and> rc_in_packet ch
    \<and> length (rc_buffers ch) = CHANNEL_MAX_FRAMES
    \<and> buf_len (rc_buffers ch ! ((CHANNEL_MAX_FRAMES + rc_write_head ch - 1) mod CHANNEL_MAX_FRAMES)) = 0"

lemma drain_loop_denied: "dl_denied l \<Longrightarrow> drain_loop bs l ch = Some (l, ch)"
  by (induction bs) (simp_all add: drain_step_def)

lemma rx_full_reads_empty: "rx_full ch \<Longrightarrow> rc_free_buffers ch = 0 \<and> read_frame ch = Some None"
  by (simp add: rx_full_def read_frame_def read_head_buf_def)

lemma drain_full:
  assumes "rx_full ch"
  shows "\<exists>ch'. drain_uart_buffer (HDLC_FLAG # bs) ch = Some ch' \<and> rx_full ch'"
proof -
  let ?i = "(CHANNEL_MAX_FRAMES + rc_write_head ch - 1) mod CHANNEL_MAX_FRAMES"
  have i: "?i < length (rc_buffers ch)"
    using assms by (simp add: rx_full_def CHANNEL_MAX_FRAMES_def)
  define l where "l = \<lparr>dl_in_packet = True, dl_denied = False, dl_buf = ?i, dl_last_esc = rc_last_esc ch, dl_bi = 0\<rparr>"
  have "drain_enter ch = Some l"
    using assms i by (simp add: drain_enter_def rx_full_def l_def)
  moreover have "drain_step HDLC_FLAG l ch = Some (l\<lparr>dl_denied := True\<rparr>, ch)"
    using assms by (simp add: drain_step_def drain_flag_def l_def try_alloc_buffer_def rx_full_def)
  ultimately have "drain_uart_buffer (HDLC_FLAG # bs) ch =
      Some (put_buffer ?i ((rc_buffers ch ! ?i)\<lparr>buf_len := 0\<rparr>) (ch\<lparr>rc_in_packet := True\<rparr>))"
    using i by (simp add: drain_uart_buffer_def drain_loop_denied drain_leave_def set_buf_len_eq l_def)
  moreover have "rx_full (put_buffer ?i ((rc_buffers ch ! ?i)\<lparr>buf_len := 0\<rparr>) (ch\<lparr>rc_in_packet := True\<rparr>))"
    using assms i by (simp add: rx_full_def put_buffer_def)
  ultimately show ?thesis
    by blast
qed

lemma receive_interrupts_full:
  "rx_full ch \<Longrightarrow> (\<forall>bs \<in> set bss. bs \<noteq> [] \<and> hd bs = HDLC_FLAG) \<Longrightarrow> \<exists>ch'. receive_interrupts bss ch = Some ch' \<and> rx_full ch'"
proof (induction bss arbitrary: ch)
  case (Cons bs bss)
  then obtain bs' where "bs = HDLC_FLAG # bs'"
    by (cases bs) auto
  with drain_full [OF Cons.prems(1), of bs'] Cons show ?case
    by auto
qed simp

lemma last_buffer_fills_ring:
  assumes a: "rx_abs ch fs (Some c)" and n: "Suc (length fs) = CHANNEL_MAX_FRAMES" and c: "1 < length c"
  shows "\<exists>ch'. drain_uart_buffer (HDLC_FLAG # bs) ch = Some ch' \<and> rx_full ch'"
proof -
  obtain l where l: "drain_enter ch = Some l" "rx_loop l ch (fs, Some c, False)"
    using rx_abs_enter [OF a] by blast
  let ?i = "ring_index ch (length fs)"
  have h: "rx_heads ch (length fs) True" and loc: "dl_buf l = ?i" "dl_bi l = length c" "dl_in_packet l" "\<not> dl_denied l"
    using l(2) by (simp_all add: rx_loop_def)
  note hb = rx_heads_buffer [OF h]
  let ?ch1 = "put_buffer ?i ((rc_buffers ch ! ?i)\<lparr>buf_len := length c\<rparr>) ch"
  let ?ch2 = "?ch1\<lparr>rc_finished_head := (rc_finished_head ?ch1 + 1) mod CHANNEL_MAX_FRAMES\<rparr>"
  have free: "rc_free_buffers ch = 0" "rc_finished_head ch = ?i" "rc_write_head ch = ring_index ch (length fs + 1)"
    using h n by (simp_all add: rx_heads_def)
  have fin: "(?i + 1) mod CHANNEL_MAX_FRAMES = rc_read_head ch" "ring_index ch (length fs + 1) = rc_read_head ch"
    using n h ring_index_Suc [of ch "length fs"] by (simp_all add: ring_index_def rx_heads_def)
  have step: "drain_step HDLC_FLAG l ch = Some (l\<lparr>dl_bi := 0, dl_denied := True\<rparr>, ?ch2)"
    using c loc hb free by (simp add: drain_step_def drain_flag_def set_buf_len_eq try_alloc_buffer_def put_buffer_def Let_def)
  let ?ch3 = "?ch2\<lparr>rc_in_packet := True\<rparr>"
  let ?ch4 = "put_buffer ?i ((rc_buffers ?ch3 ! ?i)\<lparr>buf_len := 0\<rparr>) ?ch3"
  have "drain_uart_buffer (HDLC_FLAG # bs) ch = Some ?ch4"
    using l(1) step loc hb by (simp add: drain_uart_buffer_def drain_loop_denied drain_leave_def set_buf_len_eq)
  moreover have "rx_full ?ch4"
    using free fin hb ring_index_prev [of ch "length fs"] by (simp add: rx_full_def put_buffer_def)
  ultimately show ?thesis
    by blast
qed

text \<open>
  When the last free buffer of the ring is finished, the head of the finished frames meets the read head: the
  channel, with all its buffers in use, looks empty to the network task, the length of the last frame is
  overwritten with 0, and every later interrupt that begins with a flag is dropped, so no frame is ever read
  again while frames arrive whole.\<close>

lemma full_ring_reads_empty:
  assumes "rx_abs ch fs (Some c)" and "Suc (length fs) = CHANNEL_MAX_FRAMES" and "1 < length c"
    and "bss \<noteq> []" and "\<forall>bs \<in> set bss. bs \<noteq> [] \<and> hd bs = HDLC_FLAG"
  shows "\<exists>ch'. receive_interrupts bss ch = Some ch' \<and> rc_free_buffers ch' = 0 \<and> read_frame ch' = Some None"
proof -
  obtain bs bss' where bss: "bss = (HDLC_FLAG # bs) # bss'"
    using assms(4,5) by (cases bss; cases "hd bss") auto
  obtain ch1 where 1: "drain_uart_buffer (HDLC_FLAG # bs) ch = Some ch1" "rx_full ch1"
    using last_buffer_fills_ring [OF assms(1-3)] by blast
  obtain ch2 where 2: "receive_interrupts bss' ch1 = Some ch2" "rx_full ch2"
    using receive_interrupts_full [OF 1(2), of bss'] assms(5) bss by auto
  from 1(1) 2 bss rx_full_reads_empty [OF 2(2)] show ?thesis
    by simp
qed

theorem full_ring_reads_empty_witness:
  "\<exists>bs ch ch'. receive_interrupts [bs] recv_new = Some ch \<and> rx_queue ch (replicate 127 [HDLC_FLAG, 1])
    \<and> receive_interrupts [[HDLC_FLAG]] ch = Some ch' \<and> rc_free_buffers ch' = 0 \<and> read_frame ch' = Some None"
proof -
  let ?w = "concat (map (\<lambda>body. [HDLC_FLAG] @ concat (map stuff body) @ [HDLC_FLAG]) (replicate 127 [1])) @ [HDLC_FLAG, 1]"
  let ?fs = "replicate 127 [HDLC_FLAG, 1]"
  obtain cur where cur: "foldl hdlc_step ([], None, False)
      (concat (map (\<lambda>body. [HDLC_FLAG] @ concat (map stuff body) @ [HDLC_FLAG]) (replicate 127 [1]))) = (?fs, cur, False)"
    "cur = None \<or> cur = Some [HDLC_FLAG]"
    using hdlc_frames_received [of None "replicate 127 [1]" "[]"] by (auto simp: map_replicate)
  have "(1 :: u8) \<noteq> HDLC_FLAG" "(1 :: u8) \<noteq> HDLC_ESC"
    by (simp_all add: HDLC_FLAG_def HDLC_ESC_def)
  with cur have "foldl hdlc_step ([], None, False) ?w = (?fs, Some [HDLC_FLAG, 1], False)"
    by (auto simp: foldl_append simp del: concat_map_singleton)
  from rx_after_bytes [OF this] obtain ch where ch: "receive_interrupts [?w] recv_new = Some ch" "rx_abs ch ?fs (Some [HDLC_FLAG, 1])"
    by (auto simp: hdlc_fits_def cur_fits_def MAX_FRAME_def CHANNEL_MAX_FRAMES_def)
  from full_ring_reads_empty [OF ch(2), where bss = "[[HDLC_FLAG]]"] obtain ch' where
    "receive_interrupts [[HDLC_FLAG]] ch = Some ch'" "rc_free_buffers ch' = 0" "read_frame ch' = Some None"
    by (auto simp: CHANNEL_MAX_FRAMES_def)
  with ch show ?thesis
    unfolding rx_queue_def by blast
qed

end
