(* ===== verification/Ppp_Control.thy ===== *)
theory Ppp_Control
  imports Ppp_Frame
begin

text \<open>
  The control protocols of PPP (\<open>device/antimony/src/net/control.rs\<close>, \<open>lcp.rs\<close>, \<open>ipcp.rs\<close>): the option
  parser, the negotiation automaton, which is generic in the protocol, and the two protocols LCP and
  IPCP. The trait \<open>ControlProtocol\<close> is a record of its functions. A function returns the frames that it passes to
  \<open>send\<close>; console output is left out. \<open>None\<close> is a panic or a loop that does not end.
\<close>

section \<open>Packets, options, verdicts\<close>

datatype Code = ConfReq | ConfAck | ConfNak | ConfRej | TermReq | TermAck | CodeRej

fun code_u8 :: "Code \<Rightarrow> u8" where
  "code_u8 ConfReq = 1"
| "code_u8 ConfAck = 2"
| "code_u8 ConfNak = 3"
| "code_u8 ConfRej = 4"
| "code_u8 TermReq = 5"
| "code_u8 TermAck = 6"
| "code_u8 CodeRej = 7"

definition code_try_from :: "u8 \<Rightarrow> unit + Code" where
  "code_try_from value =
    (if value = 1 then Inr ConfReq else if value = 2 then Inr ConfAck else if value = 3 then Inr ConfNak
     else if value = 4 then Inr ConfRej else if value = 5 then Inr TermReq else if value = 6 then Inr TermAck
     else if value = 7 then Inr CodeRej else Inl ())"

record Packet =
  pk_code :: Code
  pk_id :: u8
  pk_data :: "u8 list"

definition packet_new :: "Code \<Rightarrow> u8 \<Rightarrow> u8 list \<Rightarrow> Packet" where
  "packet_new code ident data = \<lparr>pk_code = code, pk_id = ident, pk_data = data\<rparr>"

datatype Verdict = Ack | Nak "u8 list" | Rej "u8 list"

fun is_reject :: "Verdict \<Rightarrow> bool" where
  "is_reject (Rej _) = True"
| "is_reject _ = False"

fun as_reject :: "Verdict \<Rightarrow> u8 list option" where
  "as_reject (Rej v) = Some v"
| "as_reject _ = None"

fun is_nak :: "Verdict \<Rightarrow> bool" where
  "is_nak (Nak _) = True"
| "is_nak _ = False"

fun as_nak :: "Verdict \<Rightarrow> u8 list option" where
  "as_nak (Nak v) = Some v"
| "as_nak _ = None"

datatype S = Closed | ReqSent | AckReceived | AckSent | Opened

record ('cp, 'opt) ControlProtocol =
  cp_PROTOCOL :: u16
  cp_from_bytes :: "u8 \<Rightarrow> u8 list \<Rightarrow> 'opt option option"
  cp_received_nak_opt :: "'opt \<Rightarrow> 'cp \<Rightarrow> bool \<times> 'cp"
  cp_received_unknown_code :: "u8 \<Rightarrow> u8 \<Rightarrow> u8 list \<Rightarrow> S \<Rightarrow> 'cp \<Rightarrow> (Buffer list \<times> 'cp) option"
  cp_judge :: "'opt \<Rightarrow> u8 list \<Rightarrow> 'cp \<Rightarrow> (Verdict \<times> 'cp) option"
  cp_get_opts :: "'cp \<Rightarrow> (u8 list \<times> 'cp) option"

text \<open>The iterator \<open>Options\<close>: its next item, an option with its bytes or the bytes of a bad one, and the new index.\<close>

definition options_next ::
  "('cp, 'opt) ControlProtocol \<Rightarrow> u8 list \<Rightarrow> nat \<Rightarrow> ((u8 list + 'opt \<times> u8 list) option \<times> nat) option" where
  "options_next cp buf index =
    (if length buf \<le> index then Some (None, index)
     else do {
       ty \<leftarrow> idx buf index;
       len \<leftarrow> idx buf (index + 1);
       let len = unat len;
       if length buf < index + len then Some (Some (Inl []), index)
       else do {
         data \<leftarrow> subslice buf (index + 2) (index + len);
         opt_buf \<leftarrow> subslice buf index (index + len);
         res \<leftarrow> cp_from_bytes cp ty data;
         Some (Some (case res of Some opt \<Rightarrow> Inr (opt, opt_buf) | None \<Rightarrow> Inl opt_buf), index + len)
       }
     })"

section \<open>The automaton\<close>

record 'cp ControlAutomaton =
  ca_inner :: 'cp
  ca_state :: S
  ca_scr_id :: u8
  ca_last_req_id :: "u8 option"

type_synonym 'cp ctl_result = "(Buffer list \<times> 'cp ControlAutomaton) option"

definition automaton_new :: "'cp \<Rightarrow> 'cp ControlAutomaton" where
  "automaton_new np = \<lparr>ca_inner = np, ca_state = Closed, ca_scr_id = 0, ca_last_req_id = None\<rparr>"

definition is_layer_up :: "'cp ControlAutomaton \<Rightarrow> bool" where
  "is_layer_up self \<longleftrightarrow> ca_state self = Opened"

definition is_closed :: "'cp ControlAutomaton \<Rightarrow> bool" where
  "is_closed self \<longleftrightarrow> ca_state self = Closed"

definition ctl_set_state :: "S \<Rightarrow> 'cp ControlAutomaton \<Rightarrow> 'cp ControlAutomaton" where
  "ctl_set_state s self = self\<lparr>ca_state := s\<rparr>"

definition ctl_send :: "('cp, 'opt) ControlProtocol \<Rightarrow> Packet \<Rightarrow> Buffer option" where
  "ctl_send cp packet = do {
     frame \<leftarrow> begin_ppp (cp_PROTOCOL cp) buffer_new;
     frame \<leftarrow> buffer_write [code_u8 (pk_code packet), pk_id packet] frame;
     let pkt_len = (of_nat (4 + length (pk_data packet)) :: u16);
     frame \<leftarrow> buffer_write (u16_to_be_bytes pkt_len) frame;
     frame \<leftarrow> buffer_write (pk_data packet) frame;
     finish_ppp frame
   }"

definition scr_id :: "'cp ControlAutomaton \<Rightarrow> u8 \<times> 'cp ControlAutomaton" where
  "scr_id self = (ca_scr_id self, self\<lparr>ca_scr_id := ca_scr_id self + 1\<rparr>)"

definition send_configure_request :: "('cp, 'opt) ControlProtocol \<Rightarrow> 'cp ControlAutomaton \<Rightarrow> 'cp ctl_result" where
  "send_configure_request cp self = do {
     (opts, inner) \<leftarrow> cp_get_opts cp (ca_inner self);
     let (ident, self) = scr_id (self\<lparr>ca_inner := inner\<rparr>);
     frame \<leftarrow> ctl_send cp (packet_new ConfReq ident opts);
     Some ([frame], self)
   }"

definition send_terminate_ack :: "('cp, 'opt) ControlProtocol \<Rightarrow> u8 \<Rightarrow> Buffer option" where
  "send_terminate_ack cp ident = ctl_send cp (packet_new TermAck ident [])"

definition send_configure_ack :: "('cp, 'opt) ControlProtocol \<Rightarrow> Packet \<Rightarrow> Buffer option" where
  "send_configure_ack cp packet = ctl_send cp (packet\<lparr>pk_code := ConfAck\<rparr>)"

fun write_opts :: "u8 list list \<Rightarrow> Buffer \<Rightarrow> Buffer option" where
  "write_opts [] frame = Some frame"
| "write_opts (v # vs) frame = do { frame \<leftarrow> buffer_write v frame; write_opts vs frame }"

text \<open>The lengths are added as \<open>u16\<close>; \<open>None\<close> is the overflow.\<close>

fun sum_u16 :: "u16 \<Rightarrow> u8 list list \<Rightarrow> u16 option" where
  "sum_u16 acc [] = Some acc"
| "sum_u16 acc (v # vs) =
    (let n = (of_nat (length v) :: u16) in if unat acc + unat n < 2 ^ 16 then sum_u16 (acc + n) vs else None)"

definition send_configure_nak :: "('cp, 'opt) ControlProtocol \<Rightarrow> u8 \<Rightarrow> Verdict list \<Rightarrow> Buffer option" where
  "send_configure_nak cp ident verdicts = do {
     frame \<leftarrow> begin_ppp (cp_PROTOCOL cp) buffer_new;
     sum \<leftarrow> sum_u16 0 (List.map_filter as_nak verdicts);
     assertion (unat sum + 4 < 2 ^ 16);
     let packet_length = 4 + sum;
     frame \<leftarrow> buffer_write [code_u8 ConfNak, ident] frame;
     frame \<leftarrow> buffer_write (u16_to_be_bytes packet_length) frame;
     frame \<leftarrow> write_opts (List.map_filter as_nak verdicts) frame;
     finish_ppp frame
   }"

definition send_configure_reject :: "('cp, 'opt) ControlProtocol \<Rightarrow> u8 \<Rightarrow> Verdict list \<Rightarrow> Buffer option" where
  "send_configure_reject cp ident verdicts = do {
     frame \<leftarrow> begin_ppp (cp_PROTOCOL cp) buffer_new;
     sum \<leftarrow> sum_u16 0 (List.map_filter as_reject verdicts);
     assertion (unat sum + 4 < 2 ^ 16);
     let packet_length = 4 + sum;
     frame \<leftarrow> buffer_write [code_u8 ConfRej, ident] frame;
     frame \<leftarrow> buffer_write (u16_to_be_bytes packet_length) frame;
     frame \<leftarrow> write_opts (List.map_filter as_reject verdicts) frame;
     finish_ppp frame
   }"

lemma options_next_advances:
  "options_next cp buf index = Some (Some item, index') \<Longrightarrow> item \<noteq> Inl [] \<Longrightarrow> index + 2 \<le> index' \<and> index' \<le> length buf"
  by (auto simp: options_next_def Let_def subslice_def split: if_splits bind_splits)

text \<open>The verdicts on the options of a request; \<open>Inl\<close> is a malformed list. The options judged before
  the malformed one have had their effect on the protocol's state.\<close>

function judge_options :: "('cp, 'opt) ControlProtocol \<Rightarrow> u8 list \<Rightarrow> nat \<Rightarrow> 'cp \<Rightarrow> ((unit + Verdict list) \<times> 'cp) option" where
  "judge_options cp buf index inner = (case options_next cp buf index of
     None \<Rightarrow> None
   | Some (None, _) \<Rightarrow> Some (Inr [], inner)
   | Some (Some (Inl s), index') \<Rightarrow>
       if s = [] then Some (Inl (), inner)
       else do {
         (rest, inner) \<leftarrow> judge_options cp buf index' inner;
         Some (case rest of Inl e \<Rightarrow> Inl e | Inr vs \<Rightarrow> Inr (Rej s # vs), inner)
       }
   | Some (Some (Inr (opt, opt_buf)), index') \<Rightarrow> do {
       (v, inner) \<leftarrow> cp_judge cp opt opt_buf inner;
       (rest, inner) \<leftarrow> judge_options cp buf index' inner;
       Some (case rest of Inl e \<Rightarrow> Inl e | Inr vs \<Rightarrow> Inr (v # vs), inner)
     })"
  by pat_completeness auto
termination
  by (relation "measure (\<lambda>(cp, buf, index, inner). length buf - index)") (auto dest: options_next_advances)

declare judge_options.simps [simp del]

definition received_configure_request ::
  "('cp, 'opt) ControlProtocol \<Rightarrow> Packet \<Rightarrow> 'cp ControlAutomaton \<Rightarrow> (bool \<times> Buffer list \<times> 'cp ControlAutomaton) option" where
  "received_configure_request cp packet self = do {
     (verdicts, inner) \<leftarrow> judge_options cp (pk_data packet) 0 (ca_inner self);
     let self = self\<lparr>ca_inner := inner\<rparr>;
     case verdicts of
       Inl _ \<Rightarrow> Some (False, [], self)
     | Inr verdicts \<Rightarrow>
         if list_ex is_reject verdicts then do {
           frame \<leftarrow> send_configure_reject cp (pk_id packet) verdicts;
           Some (False, [frame], self)
         }
         else if list_ex is_nak verdicts then do {
           frame \<leftarrow> send_configure_nak cp (pk_id packet) verdicts;
           Some (False, [frame], self)
         }
         else do {
           frame \<leftarrow> send_configure_ack cp packet;
           Some (True, [frame], self)
         }
   }"

text \<open>The loop over the options of a Configure-Nak: an option that overflows the packet is ignored but not
  passed over, so the loop may not end.\<close>

partial_function (option) nak_loop ::
  "('cp, 'opt) ControlProtocol \<Rightarrow> u8 list \<Rightarrow> nat \<Rightarrow> bool \<Rightarrow> 'cp \<Rightarrow> (bool \<times> 'cp) option" where
  "nak_loop cp buf index all_ok inner = do {
     (item, index) \<leftarrow> options_next cp buf index;
     (case item of
       None \<Rightarrow> Some (all_ok, inner)
     | Some (Inl _) \<Rightarrow> nak_loop cp buf index all_ok inner
     | Some (Inr (opt, _)) \<Rightarrow>
         (case cp_received_nak_opt cp opt inner of (ok, inner) \<Rightarrow> nak_loop cp buf index (all_ok \<and> ok) inner))
   }"

definition decode_packet ::
  "('cp, 'opt) ControlProtocol \<Rightarrow> u8 list \<Rightarrow> 'cp ControlAutomaton \<Rightarrow> (Packet option \<times> Buffer list \<times> 'cp ControlAutomaton) option" where
  "decode_packet cp packet self =
    (if length packet < 4 then Some (None, [], self)
     else do {
       pkt_code \<leftarrow> idx packet 0;
       pkt_id \<leftarrow> idx packet 1;
       l0 \<leftarrow> idx packet 2;
       l1 \<leftarrow> idx packet 3;
       pkt_len \<leftarrow> u16_from_be_bytes [l0, l1];
       pkt_data \<leftarrow> subslice packet 4 (length packet);
       if unat pkt_len \<noteq> length packet then Some (None, [], self)
       else case code_try_from pkt_code of
         Inl _ \<Rightarrow> do {
           (frames, inner) \<leftarrow> cp_received_unknown_code cp pkt_code pkt_id pkt_data (ca_state self) (ca_inner self);
           Some (None, frames, self\<lparr>ca_inner := inner\<rparr>)
         }
       | Inr code \<Rightarrow> Some (Some \<lparr>pk_code = code, pk_id = pkt_id, pk_data = pkt_data\<rparr>, [], self)
     })"

definition received_conf_req :: "('cp, 'opt) ControlProtocol \<Rightarrow> Packet \<Rightarrow> 'cp ControlAutomaton \<Rightarrow> 'cp ctl_result" where
  "received_conf_req cp packet self = do {
     let state = ca_state self;
     (did_ack, frames, self) \<leftarrow> received_configure_request cp packet self;
     (frames, self) \<leftarrow>
       (if did_ack \<and> state = ReqSent then Some (frames, ctl_set_state AckSent self)
        else if did_ack \<and> state = AckReceived then Some (frames, ctl_set_state Opened self)
        else if \<not> did_ack \<and> state = AckSent then Some (frames, ctl_set_state ReqSent self)
        else if state = Opened then
          if ca_last_req_id self \<noteq> Some (pk_id packet) then do {
            (req, self) \<leftarrow> send_configure_request cp (ctl_set_state (if did_ack then AckSent else ReqSent) self);
            Some (frames @ req, self)
          } else Some (frames, self)
        else Some (frames, self));
     Some (frames, self\<lparr>ca_last_req_id := Some (pk_id packet)\<rparr>)
   }"

definition received_conf_ack :: "('cp, 'opt) ControlProtocol \<Rightarrow> 'cp ControlAutomaton \<Rightarrow> 'cp ctl_result" where
  "received_conf_ack cp self =
    (if ca_state self = ReqSent then Some ([], ctl_set_state AckReceived self)
     else if ca_state self = AckSent then Some ([], ctl_set_state Opened self)
     else send_configure_request cp (ctl_set_state ReqSent self))"

definition received_term_req :: "('cp, 'opt) ControlProtocol \<Rightarrow> Packet \<Rightarrow> 'cp ControlAutomaton \<Rightarrow> 'cp ctl_result" where
  "received_term_req cp packet self = do {
     frame \<leftarrow> send_terminate_ack cp (pk_id packet);
     Some ([frame], if ca_state self = Opened then (ctl_set_state Closed self)\<lparr>ca_last_req_id := None\<rparr>
       else ctl_set_state ReqSent self)
   }"

definition received_conf_nak :: "('cp, 'opt) ControlProtocol \<Rightarrow> Packet \<Rightarrow> 'cp ControlAutomaton \<Rightarrow> 'cp ctl_result" where
  "received_conf_nak cp packet self = do {
     (all_ok, inner) \<leftarrow> nak_loop cp (pk_data packet) 0 True (ca_inner self);
     let self = self\<lparr>ca_inner := inner\<rparr>;
     if all_ok then send_configure_request cp self else Some ([], self)
   }"

definition received_packet :: "('cp, 'opt) ControlProtocol \<Rightarrow> Packet \<Rightarrow> 'cp ControlAutomaton \<Rightarrow> 'cp ctl_result" where
  "received_packet cp packet self =
    (if ca_state self = Closed then do { frame \<leftarrow> send_terminate_ack cp (pk_id packet); Some ([frame], self) }
     else case pk_code packet of
       ConfReq \<Rightarrow> received_conf_req cp packet self
     | ConfAck \<Rightarrow> received_conf_ack cp self
     | TermReq \<Rightarrow> received_term_req cp packet self
     | TermAck \<Rightarrow> Some ([], self)
     | ConfNak \<Rightarrow> received_conf_nak cp packet self
     | ConfRej \<Rightarrow> Some ([], self)
     | CodeRej \<Rightarrow> Some ([], self))"

definition ctl_received :: "('cp, 'opt) ControlProtocol \<Rightarrow> u8 list \<Rightarrow> 'cp ControlAutomaton \<Rightarrow> 'cp ctl_result" where
  "ctl_received cp bytes self = do {
     (packet, frames, self) \<leftarrow> decode_packet cp bytes self;
     case packet of
       None \<Rightarrow> Some (frames, self)
     | Some packet \<Rightarrow> received_packet cp packet self
   }"

definition ctl_open :: "('cp, 'opt) ControlProtocol \<Rightarrow> 'cp ControlAutomaton \<Rightarrow> 'cp ctl_result" where
  "ctl_open cp self = do {
     assertion (ca_state self = Closed);
     send_configure_request cp (ctl_set_state ReqSent self)
   }"

definition ctl_close :: "'cp ControlAutomaton \<Rightarrow> 'cp ControlAutomaton" where
  "ctl_close self = ctl_set_state Closed self"

section \<open>The link control protocol\<close>

datatype LcpOpt = Mru u16 | Accm u32 | AuthProtocol u16 "u8 list" | QualProtocol u16 "u8 list" | Magic u32
  | PFCompression | ACFCompression

fun lcp_to_bytes :: "LcpOpt \<Rightarrow> u8 list option" where
  "lcp_to_bytes (Mru mru) = Some ([1, 4] @ u16_to_be_bytes mru)"
| "lcp_to_bytes (Accm accm) = Some ([2, 6] @ u32_to_be_bytes accm)"
| "lcp_to_bytes (AuthProtocol _ _) = None"
| "lcp_to_bytes (QualProtocol _ _) = None"
| "lcp_to_bytes (Magic magic) = Some ([5, 6] @ u32_to_be_bytes magic)"
| "lcp_to_bytes PFCompression = None"
| "lcp_to_bytes ACFCompression = None"

definition lcp_from_bytes :: "u8 \<Rightarrow> u8 list \<Rightarrow> LcpOpt option option" where
  "lcp_from_bytes ty data =
    (let opt_len = length data + 2 in
     if ty = 1 then
       if opt_len \<noteq> 4 then Some None
       else do { a \<leftarrow> idx data 0; b \<leftarrow> idx data 1; mru \<leftarrow> u16_from_be_bytes [a, b]; Some (Some (Mru mru)) }
     else if ty = 2 then
       if opt_len \<noteq> 6 then Some None else do { accm \<leftarrow> u32_from_be_bytes data; Some (Some (Accm accm)) }
     else if ty = 3 then
       if length data < 4 then Some None
       else do {
         a \<leftarrow> idx data 0; b \<leftarrow> idx data 1; proto \<leftarrow> u16_from_be_bytes [a, b];
         rest \<leftarrow> subslice data 2 (length data); Some (Some (AuthProtocol proto rest))
       }
     else if ty = 4 then
       if length data < 4 then Some None
       else do {
         a \<leftarrow> idx data 0; b \<leftarrow> idx data 1; proto \<leftarrow> u16_from_be_bytes [a, b];
         rest \<leftarrow> subslice data 2 (length data); Some (Some (QualProtocol proto rest))
       }
     else if ty = 5 then
       if opt_len \<noteq> 6 then Some None else do { magic \<leftarrow> u32_from_be_bytes data; Some (Some (Magic magic)) }
     else if ty = 7 then if opt_len \<noteq> 2 then Some None else Some (Some PFCompression)
     else if ty = 8 then if opt_len \<noteq> 2 then Some None else Some (Some ACFCompression)
     else Some None)"

definition lcp_received_nak_opt :: "LcpOpt \<Rightarrow> unit \<Rightarrow> bool \<times> unit" where
  "lcp_received_nak_opt opt self = (False, self)"

definition lcp_received_unknown_code :: "u8 \<Rightarrow> u8 \<Rightarrow> u8 list \<Rightarrow> S \<Rightarrow> unit \<Rightarrow> (Buffer list \<times> unit) option" where
  "lcp_received_unknown_code code ident data s self =
    (if code = 9 then do {
       frame \<leftarrow> begin_ppp PROTO_LCP buffer_new;
       frame \<leftarrow> buffer_write [10, ident] frame;
       let pkt_len = (of_nat (4 + length data) :: u16);
       frame \<leftarrow> buffer_write (u16_to_be_bytes pkt_len) frame;
       frame \<leftarrow> buffer_write data frame;
       frame \<leftarrow> finish_ppp frame;
       Some ([frame], self)
     }
     else Some ([], self))"

definition lcp_judge :: "LcpOpt \<Rightarrow> u8 list \<Rightarrow> unit \<Rightarrow> (Verdict \<times> unit) option" where
  "lcp_judge opt buf self = (case opt of
     Mru mru \<Rightarrow> if unat mru = PPP_MRU then Some (Ack, self)
       else do { v \<leftarrow> lcp_to_bytes (Mru (of_nat PPP_MRU)); Some (Nak v, self) }
   | Accm accm \<Rightarrow> if accm = 0 then Some (Ack, self)
       else do { v \<leftarrow> lcp_to_bytes (Mru (of_nat PPP_MRU)); Some (Nak v, self) }
   | AuthProtocol _ _ \<Rightarrow> Some (Rej buf, self)
   | QualProtocol _ _ \<Rightarrow> Some (Rej buf, self)
   | Magic _ \<Rightarrow> Some (Rej buf, self)
   | PFCompression \<Rightarrow> Some (Rej buf, self)
   | ACFCompression \<Rightarrow> Some (Rej buf, self))"

definition lcp_get_opts :: "unit \<Rightarrow> (u8 list \<times> unit) option" where
  "lcp_get_opts self = do {
     magic \<leftarrow> lcp_to_bytes (Magic 0);
     accm \<leftarrow> lcp_to_bytes (Accm 0);
     Some (concat [magic, accm], self)
   }"

definition Lcp :: "(unit, LcpOpt) ControlProtocol" where
  "Lcp = \<lparr>cp_PROTOCOL = PROTO_LCP, cp_from_bytes = lcp_from_bytes, cp_received_nak_opt = lcp_received_nak_opt,
     cp_received_unknown_code = lcp_received_unknown_code, cp_judge = lcp_judge, cp_get_opts = lcp_get_opts\<rparr>"

section \<open>The IP control protocol\<close>

text \<open>\<open>Ipv4Addr\<close>: its four octets.\<close>

type_synonym ipv4 = "u8 \<times> u8 \<times> u8 \<times> u8"

fun octets :: "ipv4 \<Rightarrow> u8 list" where
  "octets (a, b, c, d) = [a, b, c, d]"

datatype IpcpOpt = IpCompressionProtocol u16 "u8 list" | IpAddress ipv4

record IpcpState =
  ip_host_address :: "ipv4 option"
  ip_prev_host_address :: "ipv4 option option"
  ip_peer_address :: "ipv4 option"

definition ipcp_new :: IpcpState where
  "ipcp_new = \<lparr>ip_host_address = None, ip_prev_host_address = None, ip_peer_address = None\<rparr>"

definition set_host_ip :: "ipv4 \<Rightarrow> IpcpState \<Rightarrow> IpcpState" where
  "set_host_ip new_ip self = self\<lparr>ip_prev_host_address := Some (ip_host_address self), ip_host_address := Some new_ip\<rparr>"

definition get_host_addr_update :: "IpcpState \<Rightarrow> ((ipv4 option \<times> ipv4) option \<times> IpcpState) option" where
  "get_host_addr_update self = (case ip_prev_host_address self of
     Some addr \<Rightarrow> do { new \<leftarrow> ip_host_address self; Some (Some (addr, new), self\<lparr>ip_prev_host_address := None\<rparr>) }
   | None \<Rightarrow> Some (None, self))"

fun ipcp_to_bytes :: "IpcpOpt \<Rightarrow> u8 list option" where
  "ipcp_to_bytes (IpCompressionProtocol _ _) = None"
| "ipcp_to_bytes (IpAddress ip_addr) = Some ([3, 6] @ octets ip_addr)"

definition ipcp_from_bytes :: "u8 \<Rightarrow> u8 list \<Rightarrow> IpcpOpt option option" where
  "ipcp_from_bytes ty data =
    (let opt_len = length data + 2 in
     if ty = 1 then Some None
     else if ty = 2 then
       if opt_len < 4 then Some None
       else do {
         a \<leftarrow> idx data 0; b \<leftarrow> idx data 1; protocol \<leftarrow> u16_from_be_bytes [a, b];
         rest \<leftarrow> subslice data 4 (length data); Some (Some (IpCompressionProtocol protocol rest))
       }
     else if ty = 3 then
       if opt_len \<noteq> 6 then Some None
       else do {
         a \<leftarrow> idx data 0; b \<leftarrow> idx data 1; c \<leftarrow> idx data 2; d \<leftarrow> idx data 3;
         Some (Some (IpAddress (a, b, c, d)))
       }
     else Some None)"

fun ipcp_received_nak_opt :: "IpcpOpt \<Rightarrow> IpcpState \<Rightarrow> bool \<times> IpcpState" where
  "ipcp_received_nak_opt (IpCompressionProtocol _ _) self = (False, self)"
| "ipcp_received_nak_opt (IpAddress ip_addr) self = (True, set_host_ip ip_addr self)"

definition ipcp_received_unknown_code :: "u8 \<Rightarrow> u8 \<Rightarrow> u8 list \<Rightarrow> S \<Rightarrow> IpcpState \<Rightarrow> (Buffer list \<times> IpcpState) option" where
  "ipcp_received_unknown_code code ident data s self = Some ([], self)"

fun ipcp_judge :: "IpcpOpt \<Rightarrow> u8 list \<Rightarrow> IpcpState \<Rightarrow> (Verdict \<times> IpcpState) option" where
  "ipcp_judge (IpCompressionProtocol _ _) buf self = Some (Rej buf, self)"
| "ipcp_judge (IpAddress ip_addr) buf self = Some (Ack, self\<lparr>ip_peer_address := Some ip_addr\<rparr>)"

definition ipcp_get_opts :: "IpcpState \<Rightarrow> (u8 list \<times> IpcpState) option" where
  "ipcp_get_opts self = do {
     os \<leftarrow> ipcp_to_bytes (IpAddress (case ip_host_address self of Some a \<Rightarrow> a | None \<Rightarrow> (0, 0, 0, 0)));
     Some (os, self)
   }"

definition Ipcp :: "(IpcpState, IpcpOpt) ControlProtocol" where
  "Ipcp = \<lparr>cp_PROTOCOL = 0x8021, cp_from_bytes = ipcp_from_bytes, cp_received_nak_opt = ipcp_received_nak_opt,
     cp_received_unknown_code = ipcp_received_unknown_code, cp_judge = ipcp_judge, cp_get_opts = ipcp_get_opts\<rparr>"

end
