(* ===== verification/Ppp_Control_Correct.thy ===== *)
theory Ppp_Control_Correct
  imports Ppp_Control
begin

text \<open>
  What the control protocols do: answers to requests as a function of their options, that well-formed
  packets are handled without a panic, when the automaton is opened, how the two protocols
  negotiate, and the malformed packets that stop the kernel.
\<close>

section \<open>Frames of control packets\<close>

definition frame_carries :: "u16 \<Rightarrow> u8 list \<Rightarrow> Buffer \<Rightarrow> bool" where
  "frame_carries proto p b \<longleftrightarrow> buffer_holds b (ppp_wire proto p)"

definition raw_packet :: "u8 \<Rightarrow> u8 \<Rightarrow> u8 list \<Rightarrow> u8 list" where
  "raw_packet code ident data = [code, ident] @ u16_to_be_bytes (of_nat (4 + length data)) @ data"

abbreviation control_packet :: "Code \<Rightarrow> u8 \<Rightarrow> u8 list \<Rightarrow> u8 list" where
  "control_packet code \<equiv> raw_packet (code_u8 code)"

lemma length_raw_packet [simp]: "length (raw_packet code ident data) = 4 + length data"
  by (simp add: raw_packet_def)

lemma build_carries:
  "length (concat ps) < PPP_MRU \<Longrightarrow> \<exists>b. build_ppp proto ps = Some b \<and> frame_carries proto (concat ps) b"
  using build_ppp_holds [of ps proto] by (simp add: frame_carries_def)

lemma ctl_send_build:
  "ctl_send cp packet = build_ppp (cp_PROTOCOL cp)
    [[code_u8 (pk_code packet), pk_id packet], u16_to_be_bytes (of_nat (4 + length (pk_data packet))), pk_data packet]"
  by (simp add: ctl_send_def build_ppp_def Let_def)

lemma ctl_send_carries:
  assumes "4 + length (pk_data packet) < PPP_MRU"
  shows "\<exists>b. ctl_send cp packet = Some b
    \<and> frame_carries (cp_PROTOCOL cp) (control_packet (pk_code packet) (pk_id packet) (pk_data packet)) b"
  using assms build_carries [of "[[code_u8 (pk_code packet), pk_id packet],
      u16_to_be_bytes (of_nat (4 + length (pk_data packet))), pk_data packet]" "cp_PROTOCOL cp"]
  by (simp add: ctl_send_build raw_packet_def)

lemma write_opts_pieces: "write_opts = write_pieces"
proof
  fix vs show "write_opts vs = write_pieces vs"
    by (induction vs) (rule ext, simp, rule ext, simp)
qed

lemma sum_u16_total:
  "unat acc + length (concat vs) < 2 ^ 16 \<Longrightarrow> sum_u16 acc vs = Some (acc + of_nat (length (concat vs)))"
proof (induction vs arbitrary: acc)
  case (Cons v vs)
  have n: "unat (of_nat (length v) :: u16) = length v"
    using Cons.prems by (simp add: unat_of_nat)
  then have "unat (acc + of_nat (length v)) = unat acc + length v"
    using Cons.prems by (simp add: unat_word_ariths)
  with Cons.IH [of "acc + of_nat (length v)"] Cons.prems n show ?case
    by (simp add: add.assoc)
qed simp

lemma send_configure_nak_carries:
  assumes "4 + length (concat (List.map_filter as_nak vs)) < PPP_MRU"
  shows "\<exists>b. send_configure_nak cp ident vs = Some b
    \<and> frame_carries (cp_PROTOCOL cp) (control_packet ConfNak ident (concat (List.map_filter as_nak vs))) b"
proof -
  let ?d = "concat (List.map_filter as_nak vs)"
  have sum: "sum_u16 0 (List.map_filter as_nak vs) = Some (of_nat (length ?d))" "unat (of_nat (length ?d) :: u16) = length ?d"
    using assms sum_u16_total [of 0 "List.map_filter as_nak vs"] by (simp_all add: PPP_MRU_def unat_of_nat)
  have "send_configure_nak cp ident vs = build_ppp (cp_PROTOCOL cp)
      ([code_u8 ConfNak, ident] # u16_to_be_bytes (of_nat (4 + length ?d)) # List.map_filter as_nak vs)"
    unfolding send_configure_nak_def sum(1) using assms sum(2)
    by (simp add: build_ppp_def write_opts_pieces Let_def PPP_MRU_def)
  with assms build_carries [of "[code_u8 ConfNak, ident] # u16_to_be_bytes (of_nat (4 + length ?d)) # List.map_filter as_nak vs"]
  show ?thesis
    by (simp add: raw_packet_def)
qed

lemma send_configure_reject_carries:
  assumes "4 + length (concat (List.map_filter as_reject vs)) < PPP_MRU"
  shows "\<exists>b. send_configure_reject cp ident vs = Some b
    \<and> frame_carries (cp_PROTOCOL cp) (control_packet ConfRej ident (concat (List.map_filter as_reject vs))) b"
proof -
  let ?d = "concat (List.map_filter as_reject vs)"
  have sum: "sum_u16 0 (List.map_filter as_reject vs) = Some (of_nat (length ?d))" "unat (of_nat (length ?d) :: u16) = length ?d"
    using assms sum_u16_total [of 0 "List.map_filter as_reject vs"] by (simp_all add: PPP_MRU_def unat_of_nat)
  have "send_configure_reject cp ident vs = build_ppp (cp_PROTOCOL cp)
      ([code_u8 ConfRej, ident] # u16_to_be_bytes (of_nat (4 + length ?d)) # List.map_filter as_reject vs)"
    unfolding send_configure_reject_def sum(1) using assms sum(2)
    by (simp add: build_ppp_def write_opts_pieces Let_def PPP_MRU_def)
  with assms build_carries [of "[code_u8 ConfRej, ident] # u16_to_be_bytes (of_nat (4 + length ?d)) # List.map_filter as_reject vs"]
  show ?thesis
    by (simp add: raw_packet_def)
qed

lemma code_roundtrip: "code_try_from (code_u8 code) = Inr code"
  by (cases code) (simp_all add: code_try_from_def)

lemma decode_raw_packet:
  assumes "4 + length data < 2 ^ 16"
  shows "decode_packet cp (raw_packet code ident data) self = (case code_try_from code of
     Inl _ \<Rightarrow> do {
       (frames, inner) \<leftarrow> cp_received_unknown_code cp code ident data (ca_state self) (ca_inner self);
       Some (None, frames, self\<lparr>ca_inner := inner\<rparr>)
     }
   | Inr c \<Rightarrow> Some (Some \<lparr>pk_code = c, pk_id = ident, pk_data = data\<rparr>, [], self))"
proof -
  let ?n = "of_nat (4 + length data) :: u16"
  obtain l0 l1 where l: "u16_to_be_bytes ?n = [l0, l1]"
    by (simp add: u16_to_be_bytes_def)
  then have w: "u16_from_be_bytes [l0, l1] = Some ?n"
    by (metis u16_be_roundtrip)
  have n: "unat ?n = 4 + length data"
    using assms by (simp add: unat_of_nat del: of_nat_add)
  have p: "raw_packet code ident data = [code, ident, l0, l1] @ data"
    unfolding raw_packet_def l by simp
  show ?thesis
    unfolding decode_packet_def p using w n by (simp del: u16_from_be_bytes.simps of_nat_add add: numeral_eq_Suc)
qed

lemma ctl_received_control:
  "4 + length data < 2 ^ 16 \<Longrightarrow> ctl_received cp (control_packet code ident data) self =
    received_packet cp \<lparr>pk_code = code, pk_id = ident, pk_data = data\<rparr> self"
  by (simp add: ctl_received_def decode_raw_packet code_roundtrip)

section \<open>Options\<close>

text \<open>Options as type and data.\<close>

fun tlv :: "u8 \<times> u8 list \<Rightarrow> u8 list" where
  "tlv (ty, data) = ty # of_nat (length data + 2) # data"

declare tlv.simps [simp del]

lemma tlv_simps [simp]: "tlv o1 \<noteq> []" "length (tlv (ty, data)) = length data + 2"
  by (cases o1) (simp_all add: tlv.simps)

definition tlvs :: "(u8 \<times> u8 list) list \<Rightarrow> u8 list" where
  "tlvs os = concat (map tlv os)"

definition tlvs_ok :: "(u8 \<times> u8 list) list \<Rightarrow> bool" where
  "tlvs_ok os \<longleftrightarrow> (\<forall>(ty, data) \<in> set os. length data \<le> 253)"

lemma tlvs_Cons [simp]: "tlvs (o1 # os) = tlv o1 @ tlvs os" "tlvs [] = []"
  by (simp_all add: tlvs_def)

lemma tlvs_ok_Cons [simp]: "tlvs_ok ((ty, data) # os) \<longleftrightarrow> length data \<le> 253 \<and> tlvs_ok os"
  by (auto simp: tlvs_ok_def)

lemma options_next_tlv:
  assumes "length data \<le> 253"
  shows "options_next cp (pre @ tlv (ty, data) @ post) (length pre) = do {
     res \<leftarrow> cp_from_bytes cp ty data;
     Some (Some (case res of Some opt \<Rightarrow> Inr (opt, tlv (ty, data)) | None \<Rightarrow> Inl (tlv (ty, data))), length (pre @ tlv (ty, data)))
   }"
proof -
  define l where "l = (of_nat (length data + 2) :: u8)"
  have "unat (of_nat m :: u8) = m" if "m < 256" for m
    using that by (simp add: unat_of_nat)
  from this [of "length data + 2"] have l: "unat l = length data + 2"
    using assms by (simp add: l_def)
  have t: "tlv (ty, data) = ty # l # data"
    by (simp add: tlv.simps l_def)
  show ?thesis
    unfolding t using l by (simp add: options_next_def nth_append)
qed

lemma options_next_end: "options_next cp buf (length buf) = Some (None, length buf)"
  by (simp add: options_next_def)

text \<open>The verdicts as a function of the list of options.\<close>

fun judge_tlvs :: "('cp, 'opt) ControlProtocol \<Rightarrow> (u8 \<times> u8 list) list \<Rightarrow> 'cp \<Rightarrow> (Verdict list \<times> 'cp) option" where
  "judge_tlvs cp [] inner = Some ([], inner)"
| "judge_tlvs cp ((ty, data) # os) inner = do {
     res \<leftarrow> cp_from_bytes cp ty data;
     (v, inner) \<leftarrow> (case res of
         None \<Rightarrow> Some (Rej (tlv (ty, data)), inner)
       | Some opt \<Rightarrow> cp_judge cp opt (tlv (ty, data)) inner);
     (vs, inner) \<leftarrow> judge_tlvs cp os inner;
     Some (v # vs, inner)
   }"

lemma judge_options_tlvs:
  "tlvs_ok os \<Longrightarrow> judge_options cp (pre @ tlvs os) (length pre) inner = do { (vs, inner) \<leftarrow> judge_tlvs cp os inner; Some (Inr vs, inner) }"
proof (induction os arbitrary: pre inner)
  case Nil
  then show ?case
    using options_next_end [of cp pre] by (subst judge_options.simps) simp
next
  case (Cons o1 os)
  obtain ty data where o1: "o1 = (ty, data)"
    by (cases o1)
  have IH: "judge_options cp (pre @ tlv (ty, data) @ tlvs os) (length (pre @ tlv (ty, data))) inner =
      do { (vs, inner) \<leftarrow> judge_tlvs cp os inner; Some (Inr vs, inner) }" for inner
    using Cons.IH [of "pre @ tlv (ty, data)" inner] Cons.prems o1 by simp
  have nx: "options_next cp (pre @ tlv (ty, data) @ tlvs os) (length pre) = do {
     res \<leftarrow> cp_from_bytes cp ty data;
     Some (Some (case res of Some opt \<Rightarrow> Inr (opt, tlv (ty, data)) | None \<Rightarrow> Inl (tlv (ty, data))), length (pre @ tlv (ty, data)))
   }"
    using Cons.prems o1 by (intro options_next_tlv) simp
  show ?case
  proof (cases "cp_from_bytes cp ty data")
    case None
    with nx show ?thesis
      unfolding o1 tlvs_Cons by (subst judge_options.simps) simp
  next
    case (Some res)
    note nx = nx [unfolded Some Option.bind.simps]
    show ?thesis
    proof (cases res)
      case None
      with nx Some show ?thesis
        unfolding o1 tlvs_Cons by (subst judge_options.simps) (auto simp: IH [simplified] split: bind_split)
    next
      case opt: (Some opt)
      with nx Some show ?thesis
        unfolding o1 tlvs_Cons by (subst judge_options.simps) (auto simp: IH [simplified] split: bind_split)
    qed
  qed
qed

section \<open>Answers to requests\<close>

definition conf_answer :: "u8 \<Rightarrow> u8 list \<Rightarrow> Verdict list \<Rightarrow> u8 list" where
  "conf_answer ident data vs =
    (if list_ex is_reject vs then control_packet ConfRej ident (concat (List.map_filter as_reject vs))
     else if list_ex is_nak vs then control_packet ConfNak ident (concat (List.map_filter as_nak vs))
     else control_packet ConfAck ident data)"

definition all_ack :: "Verdict list \<Rightarrow> bool" where
  "all_ack vs \<longleftrightarrow> \<not> list_ex is_reject vs \<and> \<not> list_ex is_nak vs"

lemma received_configure_request_answer:
  assumes "tlvs_ok os" and "judge_tlvs cp os (ca_inner self) = Some (vs, inner)"
    and "4 + length (tlvs os) < PPP_MRU" and "4 + length (concat (List.map_filter as_nak vs)) < PPP_MRU"
    and "4 + length (concat (List.map_filter as_reject vs)) < PPP_MRU"
  shows "\<exists>b. received_configure_request cp \<lparr>pk_code = ConfReq, pk_id = ident, pk_data = tlvs os\<rparr> self =
      Some (all_ack vs, [b], self\<lparr>ca_inner := inner\<rparr>) \<and> frame_carries (cp_PROTOCOL cp) (conf_answer ident (tlvs os) vs) b"
proof -
  have j: "judge_options cp (tlvs os) 0 (ca_inner self) = Some (Inr vs, inner)"
    using judge_options_tlvs [OF assms(1), of cp "[]"] assms(2) by simp
  let ?p = "\<lparr>pk_code = ConfReq, pk_id = ident, pk_data = tlvs os\<rparr>"
  obtain b where b: "send_configure_ack cp ?p = Some b" "frame_carries (cp_PROTOCOL cp) (control_packet ConfAck ident (tlvs os)) b"
    using ctl_send_carries [of "?p\<lparr>pk_code := ConfAck\<rparr>" cp] assms(3) by (auto simp: send_configure_ack_def)
  from b j send_configure_nak_carries [OF assms(4), of cp ident] send_configure_reject_carries [OF assms(5), of cp ident]
  show ?thesis
    by (auto simp: received_configure_request_def Let_def conf_answer_def all_ack_def)
qed

section \<open>What the automaton relies on\<close>

fun verdict_len :: "Verdict \<Rightarrow> nat" where
  "verdict_len Ack = 0"
| "verdict_len (Nak v) = length v"
| "verdict_len (Rej v) = length v"

lemma verdict_lens:
  "length (concat (List.map_filter as_nak vs)) \<le> sum_list (map verdict_len vs)"
  "length (concat (List.map_filter as_reject vs)) \<le> sum_list (map verdict_len vs)"
proof (induction vs)
  case (Cons v vs)
  { case 1 from Cons show ?case by (cases v) (simp_all add: map_filter_simps) }
  { case 2 from Cons show ?case by (cases v) (simp_all add: map_filter_simps) }
qed (simp_all add: map_filter_simps)

definition opts_ok :: "(u8 \<Rightarrow> u8 list \<Rightarrow> bool) \<Rightarrow> (u8 \<times> u8 list) list \<Rightarrow> bool" where
  "opts_ok opt_ok os \<longleftrightarrow> (\<forall>(ty, data) \<in> set os. length data \<le> 253 \<and> opt_ok ty data)"

lemma opts_ok_tlvs: "opts_ok opt_ok os \<Longrightarrow> tlvs_ok os"
  by (auto simp: opts_ok_def tlvs_ok_def)

text \<open>The trait: what an implementation promises for the options that it can take.\<close>

locale control_protocol =
  fixes cp :: "('cp, 'opt) ControlProtocol"
    and opt_ok :: "u8 \<Rightarrow> u8 list \<Rightarrow> bool"
  assumes from_bytes_total: "opt_ok ty data \<Longrightarrow> \<exists>res. cp_from_bytes cp ty data = Some res"
    and judge_total: "cp_from_bytes cp ty data = Some (Some opt) \<Longrightarrow>
      \<exists>v inner'. cp_judge cp opt (tlv (ty, data)) inner = Some (v, inner') \<and> verdict_len v \<le> length data + 2"
    and get_opts_total: "\<exists>os inner'. cp_get_opts cp inner = Some (os, inner') \<and> 4 + length os < PPP_MRU"
    and unknown_total: "4 + length data < PPP_MRU \<Longrightarrow>
      \<exists>frames inner'. cp_received_unknown_code cp code ident data s inner = Some (frames, inner')"
begin

lemma judge_tlvs_total:
  "opts_ok opt_ok os \<Longrightarrow> \<exists>vs inner'. judge_tlvs cp os inner = Some (vs, inner') \<and> sum_list (map verdict_len vs) \<le> length (tlvs os)"
proof (induction os arbitrary: inner)
  case (Cons o1 os)
  obtain ty data where o1: "o1 = (ty, data)"
    by (cases o1)
  obtain res where res: "cp_from_bytes cp ty data = Some res"
    using from_bytes_total [of ty data] Cons.prems o1 by (auto simp: opts_ok_def)
  obtain v inner1 where v: "(case res of None \<Rightarrow> Some (Rej (tlv (ty, data)), inner)
      | Some opt \<Rightarrow> cp_judge cp opt (tlv (ty, data)) inner) = Some (v, inner1)" "verdict_len v \<le> length data + 2"
    using judge_total [of ty data _ inner] res by (cases res) auto
  have "opts_ok opt_ok os"
    using Cons.prems by (simp add: opts_ok_def)
  from Cons.IH [OF this, of inner1] v res o1 show ?case
    by auto
qed simp

lemma nak_loop_total:
  "opts_ok opt_ok os \<Longrightarrow> \<exists>r. nak_loop cp (pre @ tlvs os) (length pre) all_ok inner = Some r"
proof (induction os arbitrary: pre all_ok inner)
  case Nil
  then show ?case
    using options_next_end [of cp pre] by (subst nak_loop.simps) simp
next
  case (Cons o1 os)
  obtain ty data where o1: "o1 = (ty, data)"
    by (cases o1)
  obtain res where res: "cp_from_bytes cp ty data = Some res"
    using from_bytes_total [of ty data] Cons.prems o1 by (auto simp: opts_ok_def)
  have "opts_ok opt_ok os" "length data \<le> 253"
    using Cons.prems o1 by (auto simp: opts_ok_def)
  note IH = Cons.IH [OF this(1), of "pre @ tlv (ty, data)"] and nx = options_next_tlv [OF this(2), of cp pre ty "tlvs os"]
  show ?case
    unfolding o1 tlvs_Cons using nx res IH
    by (subst nak_loop.simps) (cases res; auto split: prod.splits)
qed

lemma send_configure_request_total: "\<exists>b self'. send_configure_request cp self = Some ([b], self')"
proof -
  obtain os inner where os: "cp_get_opts cp (ca_inner self) = Some (os, inner)" "4 + length os < PPP_MRU"
    using get_opts_total by blast
  then obtain b where "ctl_send cp (packet_new ConfReq (ca_scr_id self) os) = Some b"
    using ctl_send_carries [of "packet_new ConfReq (ca_scr_id self) os" cp] by (auto simp: packet_new_def)
  with os(1) show ?thesis
    by (simp add: send_configure_request_def scr_id_def)
qed

lemma received_configure_request_total:
  assumes "opts_ok opt_ok os" and "4 + length (tlvs os) < PPP_MRU"
  shows "\<exists>a b self'. received_configure_request cp \<lparr>pk_code = ConfReq, pk_id = ident, pk_data = tlvs os\<rparr> self = Some (a, [b], self')"
proof -
  obtain vs inner where vs: "judge_tlvs cp os (ca_inner self) = Some (vs, inner)" "sum_list (map verdict_len vs) \<le> length (tlvs os)"
    using judge_tlvs_total [OF assms(1)] by blast
  then have "4 + length (concat (List.map_filter as_nak vs)) < PPP_MRU" "4 + length (concat (List.map_filter as_reject vs)) < PPP_MRU"
    using verdict_lens [of vs] assms(2) by linarith+
  with received_configure_request_answer [OF opts_ok_tlvs [OF assms(1)] vs(1) assms(2), of ident] show ?thesis
    by blast
qed

lemma received_packet_total:
  assumes "pk_code packet = ConfReq \<or> pk_code packet = ConfNak \<Longrightarrow> \<exists>os. pk_data packet = tlvs os \<and> opts_ok opt_ok os"
    and "4 + length (pk_data packet) < PPP_MRU"
  shows "\<exists>frames self'. received_packet cp packet self = Some (frames, self')"
proof -
  have term_ack: "\<exists>b. send_terminate_ack cp (pk_id packet) = Some b"
    using ctl_send_carries [of "packet_new TermAck (pk_id packet) []" cp]
    by (auto simp: send_terminate_ack_def packet_new_def PPP_MRU_def)
  show ?thesis
  proof (cases "ca_state self = Closed")
    case True
    with term_ack show ?thesis
      by (auto simp: received_packet_def)
  next
    case opn: False
    show ?thesis
    proof (cases "pk_code packet")
      case ConfReq
      then obtain os where os: "packet = \<lparr>pk_code = ConfReq, pk_id = pk_id packet, pk_data = tlvs os\<rparr>" "opts_ok opt_ok os" "pk_data packet = tlvs os"
        using assms(1) by (metis Packet.surjective unit.exhaust)
      obtain a b self1 where 1: "received_configure_request cp packet self = Some (a, [b], self1)"
        using received_configure_request_total [OF os(2), of "pk_id packet" self] assms(2) os(1,3) by auto
      obtain c self2 where "send_configure_request cp (ctl_set_state (if a then AckSent else ReqSent) self1) = Some ([c], self2)"
        using send_configure_request_total by blast
      with 1 ConfReq opn show ?thesis
        by (cases "ca_state self"; cases a) (simp_all add: received_packet_def received_conf_req_def Let_def)
    next
      case ConfNak
      then obtain os where os: "pk_data packet = tlvs os" "opts_ok opt_ok os"
        using assms(1) by blast
      obtain ok inner where "nak_loop cp (tlvs os) 0 True (ca_inner self) = Some (ok, inner)"
        using nak_loop_total [OF os(2), of "[]" True "ca_inner self"] by auto
      with ConfNak opn os send_configure_request_total [of "self\<lparr>ca_inner := inner\<rparr>"] show ?thesis
        by (auto simp: received_packet_def received_conf_nak_def Let_def)
    next
      case ConfAck
      with opn send_configure_request_total [of "ctl_set_state ReqSent self"] show ?thesis
        by (auto simp: received_packet_def received_conf_ack_def)
    next
      case TermReq
      with opn term_ack show ?thesis
        by (auto simp: received_packet_def received_term_req_def)
    qed (use opn in \<open>simp_all add: received_packet_def\<close>)
  qed
qed

text \<open>Any packet whose options are well-formed, whatever its code, is handled.\<close>

lemma received_total:
  assumes "4 + length data < PPP_MRU" and "code = 1 \<or> code = 3 \<Longrightarrow> \<exists>os. data = tlvs os \<and> opts_ok opt_ok os"
  shows "\<exists>frames self'. ctl_received cp (raw_packet code ident data) self = Some (frames, self')"
proof -
  have "4 + length data < 2 ^ 16"
    using assms(1) by (simp add: PPP_MRU_def)
  note d = decode_raw_packet [OF this, of cp code ident self]
  show ?thesis
  proof (cases "code_try_from code")
    case (Inl u)
    with d unknown_total [OF assms(1), of code ident "ca_state self" "ca_inner self"] show ?thesis
      by (auto simp: ctl_received_def)
  next
    case (Inr c)
    then have "c = ConfReq \<Longrightarrow> code = 1" "c = ConfNak \<Longrightarrow> code = 3"
      by (auto simp: code_try_from_def split: if_splits)
    with received_packet_total [of "\<lparr>pk_code = c, pk_id = ident, pk_data = data\<rparr>" self] assms d Inr show ?thesis
      by (auto simp: ctl_received_def)
  qed
qed

end

section \<open>The two protocols\<close>

lemma u32_from_be_bytes_total: "length data = 4 \<Longrightarrow> \<exists>w. u32_from_be_bytes data = Some w"
  by (simp add: u32_from_be_bytes_def u32_from_le_bytes_Some_iff)

lemma lcp_from_bytes_total: "\<exists>res. lcp_from_bytes ty data = Some res"
  using u32_from_be_bytes_total [of data] by (auto simp: lcp_from_bytes_def Let_def)

lemma lcp_unknown_build:
  "lcp_received_unknown_code code ident data s self =
    (if code = 9 then do { b \<leftarrow> build_ppp PROTO_LCP [[10, ident], u16_to_be_bytes (of_nat (4 + length data)), data]; Some ([b], self) }
     else Some ([], self))"
  by (simp add: lcp_received_unknown_code_def build_ppp_def Let_def)

interpretation lcp: control_protocol Lcp "\<lambda>_ _. True"
proof
  fix ty data
  show "\<exists>res. cp_from_bytes Lcp ty data = Some res"
    by (simp add: Lcp_def lcp_from_bytes_total)
next
  fix ty data opt inner assume "cp_from_bytes Lcp ty data = Some (Some opt)"
  then have "lcp_from_bytes ty data = Some (Some opt)"
    by (simp add: Lcp_def)
  then have "(\<exists>m. opt = Mru m) \<or> (\<exists>m. opt = Accm m) \<Longrightarrow> 2 \<le> length data"
    by (auto simp: lcp_from_bytes_def Let_def split: if_splits bind_splits)
  then show "\<exists>v inner'. cp_judge Lcp opt (tlv (ty, data)) inner = Some (v, inner') \<and> verdict_len v \<le> length data + 2"
    by (cases opt) (auto simp: Lcp_def lcp_judge_def)
next
  fix inner
  show "\<exists>os inner'. cp_get_opts Lcp inner = Some (os, inner') \<and> 4 + length os < PPP_MRU"
    by (simp add: Lcp_def lcp_get_opts_def PPP_MRU_def u32_to_be_bytes_def)
next
  fix data :: "u8 list" and code ident s inner assume "4 + length data < PPP_MRU"
  then show "\<exists>frames inner'. cp_received_unknown_code Lcp code ident data s inner = Some (frames, inner')"
    using build_carries [of "[[10, ident], u16_to_be_bytes (of_nat (4 + length data)), data]" PROTO_LCP]
    by (auto simp: Lcp_def lcp_unknown_build)
qed

text \<open>The compression option of IPCP must have at least four bytes after its two-byte header, or fewer than two.\<close>

definition ipcp_opt_ok :: "u8 \<Rightarrow> u8 list \<Rightarrow> bool" where
  "ipcp_opt_ok ty data \<longleftrightarrow> \<not> (ty = 2 \<and> 2 \<le> length data \<and> length data < 4)"

lemma ipcp_from_bytes_total: "(\<exists>res. ipcp_from_bytes ty data = Some res) \<longleftrightarrow> ipcp_opt_ok ty data"
  by (cases data; cases "tl data") (auto simp: ipcp_from_bytes_def ipcp_opt_ok_def Let_def)

interpretation ipcp: control_protocol Ipcp ipcp_opt_ok
proof
  fix ty data assume "ipcp_opt_ok ty data"
  then show "\<exists>res. cp_from_bytes Ipcp ty data = Some res"
    by (simp add: Ipcp_def ipcp_from_bytes_total)
next
  fix ty data opt inner
  show "\<exists>v inner'. cp_judge Ipcp opt (tlv (ty, data)) inner = Some (v, inner') \<and> verdict_len v \<le> length data + 2"
    by (cases opt) (simp_all add: Ipcp_def)
next
  fix inner
  show "\<exists>os inner'. cp_get_opts Ipcp inner = Some (os, inner') \<and> 4 + length os < PPP_MRU"
    by (cases "case ip_host_address inner of Some a \<Rightarrow> a | None \<Rightarrow> (0, 0, 0, 0)") (simp add: Ipcp_def ipcp_get_opts_def PPP_MRU_def)
next
  fix data code ident s inner
  show "\<exists>frames inner'. cp_received_unknown_code Ipcp code ident data s inner = Some (frames, inner')"
    by (simp add: Ipcp_def ipcp_received_unknown_code_def)
qed

section \<open>When the automaton is opened\<close>

text \<open>What the network task does with an automaton, and a run of it: the frames sent at each event.\<close>

datatype ctl_event = EvOpen | EvClose | EvRecv "u8 list"

fun ctl_event_step :: "('cp, 'opt) ControlProtocol \<Rightarrow> ctl_event \<Rightarrow> 'cp ControlAutomaton \<Rightarrow> 'cp ctl_result" where
  "ctl_event_step cp EvOpen self = ctl_open cp self"
| "ctl_event_step cp EvClose self = Some ([], ctl_close self)"
| "ctl_event_step cp (EvRecv bytes) self = ctl_received cp bytes self"

fun ctl_run :: "('cp, 'opt) ControlProtocol \<Rightarrow> ctl_event list \<Rightarrow> 'cp ControlAutomaton \<Rightarrow> 'cp ctl_result" where
  "ctl_run cp [] self = Some ([], self)"
| "ctl_run cp (ev # evs) self = do {
     (frames, self) \<leftarrow> ctl_event_step cp ev self;
     (more, self) \<leftarrow> ctl_run cp evs self;
     Some (frames @ more, self)
   }"

lemma ctl_run_append:
  "ctl_run cp (evs1 @ evs2) self = do {
     (o1, self) \<leftarrow> ctl_run cp evs1 self; (o2, self) \<leftarrow> ctl_run cp evs2 self; Some (o1 @ o2, self) }"
  by (induction evs1 arbitrary: self) (auto split: bind_splits)

definition got_ack :: "ctl_event \<Rightarrow> bool" where
  "got_ack ev \<longleftrightarrow> (\<exists>ident rest. ev = EvRecv (code_u8 ConfAck # ident # rest))"

definition gave_ack :: "u16 \<Rightarrow> Buffer list \<Rightarrow> bool" where
  "gave_ack proto frames \<longleftrightarrow> (\<exists>b \<in> set frames. \<exists>ident data. frame_carries proto (control_packet ConfAck ident data) b)"

lemma ctl_send_Some:
  assumes "ctl_send cp packet = Some b"
  shows "frame_carries (cp_PROTOCOL cp) (control_packet (pk_code packet) (pk_id packet) (pk_data packet)) b"
  using assms build_ppp_holds [of "[[code_u8 (pk_code packet), pk_id packet],
      u16_to_be_bytes (of_nat (4 + length (pk_data packet))), pk_data packet]" "cp_PROTOCOL cp"]
  by (auto simp: ctl_send_build frame_carries_def raw_packet_def split: if_splits)

lemma did_ack_gave:
  assumes "received_configure_request cp packet self = Some (True, frames, self')"
  shows "gave_ack (cp_PROTOCOL cp) frames"
  using assms ctl_send_Some [of cp "packet\<lparr>pk_code := ConfAck\<rparr>"]
  by (fastforce simp: received_configure_request_def send_configure_ack_def gave_ack_def Let_def
      split: bind_splits sum.splits if_splits prod.splits)

lemma request_keeps_state:
  "received_configure_request cp packet self = Some (a, frames, self') \<Longrightarrow> ca_state self' = ca_state self"
  "send_configure_request cp self = Some (frames, self') \<Longrightarrow> ca_state self' = ca_state self"
  by (auto simp: received_configure_request_def send_configure_request_def scr_id_def Let_def
      split: bind_splits sum.splits if_splits prod.splits)

lemma gave_ack_append [simp]: "gave_ack proto (f @ g) \<longleftrightarrow> gave_ack proto f \<or> gave_ack proto g"
  by (auto simp: gave_ack_def)

lemma received_conf_req_state:
  assumes "received_conf_req cp packet self = Some (frames, self')" and "ca_state self \<noteq> Closed"
  shows "ca_state self' \<noteq> Closed \<and> (ca_state self' \<in> {AckReceived, Opened} \<longrightarrow> ca_state self \<in> {AckReceived, Opened})
    \<and> (ca_state self' \<in> {AckSent, Opened} \<longrightarrow> ca_state self \<in> {AckSent, Opened} \<or> gave_ack (cp_PROTOCOL cp) frames)"
proof -
  obtain a fs self1 where 1: "received_configure_request cp packet self = Some (a, fs, self1)"
    using assms(1) by (auto simp: received_conf_req_def Let_def split: bind_splits)
  note st = request_keeps_state(1) [OF 1]
  have gave: "gave_ack (cp_PROTOCOL cp) fs" if a
    using did_ack_gave 1 that by auto
  show ?thesis
  proof (cases "ca_state self = Opened")
    case True
    let ?s = "if a then AckSent else ReqSent"
    from assms(1) 1 st True have "ca_state self' = Opened \<or> ca_state self' = ?s"
      by (auto simp: received_conf_req_def Let_def ctl_set_state_def dest!: request_keeps_state(2) split: bind_splits if_splits)
    with True show ?thesis
      by (auto split: if_splits)
  next
    case False
    with assms 1 st gave show ?thesis
      by (cases "ca_state self"; cases a) (auto simp: received_conf_req_def Let_def ctl_set_state_def)
  qed
qed

lemma received_packet_state:
  assumes "received_packet cp packet self = Some (frames, self')"
  shows "(ca_state self = Closed \<longrightarrow> ca_state self' = Closed)
    \<and> (ca_state self' \<in> {AckReceived, Opened} \<longrightarrow> ca_state self \<in> {AckReceived, Opened} \<or> pk_code packet = ConfAck)
    \<and> (ca_state self' \<in> {AckSent, Opened} \<longrightarrow> ca_state self \<in> {AckSent, Opened} \<or> gave_ack (cp_PROTOCOL cp) frames)"
proof (cases "ca_state self = Closed")
  case True
  with assms show ?thesis
    by (auto simp: received_packet_def split: bind_splits)
next
  case opn: False
  show ?thesis
  proof (cases "pk_code packet")
    case ConfReq
    then have "received_conf_req cp packet self = Some (frames, self')"
      using assms opn by (simp add: received_packet_def)
    from received_conf_req_state [OF this opn] opn show ?thesis
      by blast
  next
    case ConfAck
    then have "received_conf_ack cp self = Some (frames, self')"
      using assms opn by (simp add: received_packet_def)
    then have "ca_state self' \<in> {AckSent, Opened} \<longrightarrow> ca_state self \<in> {AckSent, Opened}"
      by (auto simp: received_conf_ack_def ctl_set_state_def dest!: request_keeps_state(2) split: if_splits)
    with ConfAck opn show ?thesis
      by blast
  next
    case ConfNak
    then have "received_conf_nak cp packet self = Some (frames, self')"
      using assms opn by (simp add: received_packet_def)
    then have "ca_state self' = ca_state self"
      by (auto simp: received_conf_nak_def Let_def dest!: request_keeps_state(2) split: bind_splits if_splits)
    with opn show ?thesis
      by simp
  next
    case TermReq
    then have "received_term_req cp packet self = Some (frames, self')"
      using assms opn by (simp add: received_packet_def)
    then have "ca_state self' \<in> {Closed, ReqSent}"
      by (auto simp: received_term_req_def ctl_set_state_def split: bind_splits if_splits)
    with opn show ?thesis
      by auto
  qed (use assms opn in \<open>auto simp: received_packet_def\<close>)
qed

lemma decode_packet_keeps:
  assumes "decode_packet cp bytes self = Some (packet, frames, self')"
  shows "ca_state self' = ca_state self"
    "packet = Some p \<Longrightarrow> pk_code p = ConfAck \<Longrightarrow> got_ack (EvRecv bytes)"
proof -
  show "ca_state self' = ca_state self"
    using assms by (auto simp: decode_packet_def split: if_splits bind_splits sum.splits)
  assume p: "packet = Some p" "pk_code p = ConfAck"
  then have len: "\<not> length bytes < 4"
    using assms by (auto simp: decode_packet_def)
  then obtain c i rest where bytes: "bytes = c # i # rest"
    by (cases bytes; cases "tl bytes") auto
  have "code_try_from c = Inr ConfAck"
    using assms p len bytes by (auto simp: decode_packet_def split: if_splits bind_splits sum.splits)
  then have "c = code_u8 ConfAck"
    by (simp add: code_try_from_def split: if_splits)
  with bytes show "got_ack (EvRecv bytes)"
    by (simp add: got_ack_def)
qed

lemma ctl_received_state:
  assumes "ctl_received cp bytes self = Some (frames, self')"
  shows "(ca_state self = Closed \<longrightarrow> ca_state self' = Closed)
    \<and> (ca_state self' \<in> {AckReceived, Opened} \<longrightarrow> ca_state self \<in> {AckReceived, Opened} \<or> got_ack (EvRecv bytes))
    \<and> (ca_state self' \<in> {AckSent, Opened} \<longrightarrow> ca_state self \<in> {AckSent, Opened} \<or> gave_ack (cp_PROTOCOL cp) frames)"
proof -
  obtain packet fs self1 where d: "decode_packet cp bytes self = Some (packet, fs, self1)"
    using assms by (auto simp: ctl_received_def split: bind_splits)
  show ?thesis
  proof (cases packet)
    case None
    with d assms decode_packet_keeps(1) [OF d] show ?thesis
      by (simp add: ctl_received_def)
  next
    case (Some p)
    then have "received_packet cp p self1 = Some (frames, self')"
      using d assms by (simp add: ctl_received_def)
    from received_packet_state [OF this, unfolded decode_packet_keeps(1) [OF d]] decode_packet_keeps(2) [OF d Some] show ?thesis
      by blast
  qed
qed

text \<open>The part of a run since the last \<open>open\<close>, with what has been received and sent in it.\<close>

definition since_open :: "('cp, 'opt) ControlProtocol \<Rightarrow> ctl_event list \<Rightarrow> 'cp ControlAutomaton \<Rightarrow> 'cp ControlAutomaton \<Rightarrow> ctl_event list \<Rightarrow> Buffer list \<Rightarrow> bool" where
  "since_open cp evs self0 self evs2 frames2 \<longleftrightarrow> (\<exists>evs1 o1 self1. evs = evs1 @ EvOpen # evs2
     \<and> EvOpen \<notin> set evs2 \<and> EvClose \<notin> set evs2
     \<and> ctl_run cp evs1 self0 = Some (o1, self1) \<and> ctl_run cp (EvOpen # evs2) self1 = Some (frames2, self))"

lemma since_open_recv:
  assumes "since_open cp evs self0 self evs2 frames2" and "ctl_received cp bytes self = Some (frames, self')"
  shows "since_open cp (evs @ [EvRecv bytes]) self0 self' (evs2 @ [EvRecv bytes]) (frames2 @ frames)"
proof -
  obtain evs1 o1 self1 where s: "evs = evs1 @ EvOpen # evs2" "EvOpen \<notin> set evs2" "EvClose \<notin> set evs2"
    "ctl_run cp evs1 self0 = Some (o1, self1)" "ctl_run cp (EvOpen # evs2) self1 = Some (frames2, self)"
    using assms(1) unfolding since_open_def by blast
  have "ctl_run cp (EvOpen # evs2 @ [EvRecv bytes]) self1 = Some (frames2 @ frames, self')"
    using ctl_run_append [of cp "EvOpen # evs2" "[EvRecv bytes]" self1] assms(2) unfolding s(5) append_Cons by simp
  with s show ?thesis
    unfolding since_open_def by (intro exI [of _ evs1] exI [of _ o1] exI [of _ self1]) auto
qed

lemma open_history:
  "ctl_run cp evs (automaton_new inner) = Some (frames, self) \<Longrightarrow> ca_state self \<noteq> Closed \<Longrightarrow>
    \<exists>evs2 frames2. since_open cp evs (automaton_new inner) self evs2 frames2
      \<and> (ca_state self \<in> {AckReceived, Opened} \<longrightarrow> (\<exists>ev \<in> set evs2. got_ack ev))
      \<and> (ca_state self \<in> {AckSent, Opened} \<longrightarrow> gave_ack (cp_PROTOCOL cp) frames2)"
proof (induction evs arbitrary: frames self rule: rev_induct)
  case Nil
  then show ?case
    by (auto simp: automaton_new_def)
next
  case (snoc ev evs)
  then obtain o1 self1 o2 where run: "ctl_run cp evs (automaton_new inner) = Some (o1, self1)"
    "ctl_event_step cp ev self1 = Some (o2, self)"
    by (auto simp: ctl_run_append split: bind_splits)
  show ?case
  proof (cases ev)
    case EvOpen
    then have "ca_state self = ReqSent"
      using run(2) request_keeps_state(2) [of cp "ctl_set_state ReqSent self1" o2 self]
      by (auto simp: ctl_open_def ctl_set_state_def split: bind_splits)
    moreover have "since_open cp (evs @ [ev]) (automaton_new inner) self [] o2"
      unfolding since_open_def using run EvOpen by (intro exI [of _ evs] exI [of _ o1] exI [of _ self1]) simp
    ultimately show ?thesis
      by auto
  next
    case EvClose
    with run snoc.prems(2) show ?thesis
      by (auto simp: ctl_close_def ctl_set_state_def)
  next
    case (EvRecv bytes)
    then have r: "ctl_received cp bytes self1 = Some (o2, self)"
      using run(2) by simp
    note st = ctl_received_state [OF r]
    then have "ca_state self1 \<noteq> Closed"
      using snoc.prems(2) by auto
    from snoc.IH [OF run(1) this] obtain evs2 frames2 where
      h: "since_open cp evs (automaton_new inner) self1 evs2 frames2"
        "ca_state self1 \<in> {AckReceived, Opened} \<longrightarrow> (\<exists>ev \<in> set evs2. got_ack ev)"
        "ca_state self1 \<in> {AckSent, Opened} \<longrightarrow> gave_ack (cp_PROTOCOL cp) frames2"
      by blast
    have "ca_state self \<in> {AckReceived, Opened} \<longrightarrow> (\<exists>ev \<in> set (evs2 @ [EvRecv bytes]). got_ack ev)"
      using h(2) st by (metis UnCI list.set_intros(1) set_append)
    moreover have "ca_state self \<in> {AckSent, Opened} \<longrightarrow> gave_ack (cp_PROTOCOL cp) (frames2 @ o2)"
      using h(3) st by (metis gave_ack_append)
    ultimately show ?thesis
      using since_open_recv [OF h(1) r] EvRecv by blast
  qed
qed

end
