(* ===== verification/Ppp_Negotiation.thy ===== *)
theory Ppp_Negotiation
  imports Ppp_Control_Correct
begin

text \<open>
  Negotiations of LCP and IPCP from the first request to the opened layer, what an opened layer
  implies, which packets are handled without a panic, and which stop the kernel.
\<close>

declare code_u8.simps [simp del]

section \<open>Safety\<close>

text \<open>
  C13. A control protocol is up only after an exchange of acknowledgements in both directions: in every run of the
  automaton from its creation that ends with the layer up, there is a last \<open>open\<close>, since then the automaton has
  received a Configure-Ack, and since then it has sent a Configure-Ack of its own.\<close>

theorem opened_after_both_acks:
  assumes "ctl_run cp evs (automaton_new inner) = Some (frames, self)" and "is_layer_up self"
  shows "\<exists>evs1 evs2 o1 self1 o2. evs = evs1 @ EvOpen # evs2 \<and> EvOpen \<notin> set evs2 \<and> EvClose \<notin> set evs2
    \<and> ctl_run cp evs1 (automaton_new inner) = Some (o1, self1) \<and> ctl_run cp (EvOpen # evs2) self1 = Some (o2, self)
    \<and> (\<exists>ident rest. EvRecv (code_u8 ConfAck # ident # rest) \<in> set evs2)
    \<and> (\<exists>b \<in> set o2. \<exists>ident data. frame_carries (cp_PROTOCOL cp) (control_packet ConfAck ident data) b)"
proof -
  obtain evs2 o2 where "since_open cp evs (automaton_new inner) self evs2 o2" "\<exists>ev \<in> set evs2. got_ack ev"
    "gave_ack (cp_PROTOCOL cp) o2"
    using open_history [OF assms(1)] assms(2) by (auto simp: is_layer_up_def)
  then show ?thesis
    unfolding since_open_def got_ack_def gave_ack_def by blast
qed



section \<open>IPCP\<close>

definition addr_option :: "ipv4 \<Rightarrow> u8 list" where
  "addr_option a = [3, 6] @ octets a"

lemma length_octets [simp]: "length (octets a) = 4"
  by (cases a) simp

lemma length_addr_option [simp]: "length (addr_option a) = 6"
  by (simp add: addr_option_def)

lemma addr_option_tlv: "addr_option a = tlvs [(3, octets a)]"
  by (simp add: addr_option_def tlv.simps)

lemma ipcp_from_octets: "cp_from_bytes Ipcp 3 (octets a) = Some (Some (IpAddress a))"
  by (cases a) (simp add: Ipcp_def ipcp_from_bytes_def numeral_eq_Suc)

lemma ipcp_open:
  "\<exists>b. send_configure_request Ipcp self = Some ([b], self\<lparr>ca_scr_id := ca_scr_id self + 1\<rparr>)
    \<and> frame_carries PROTO_IPCP (control_packet ConfReq (ca_scr_id self)
        (addr_option (case ip_host_address (ca_inner self) of Some a \<Rightarrow> a | None \<Rightarrow> (0, 0, 0, 0)))) b"
proof -
  let ?d = "addr_option (case ip_host_address (ca_inner self) of Some a \<Rightarrow> a | None \<Rightarrow> (0, 0, 0, 0))"
  have "cp_get_opts Ipcp (ca_inner self) = Some (?d, ca_inner self)"
    by (simp add: Ipcp_def ipcp_get_opts_def addr_option_def)
  moreover obtain b where "ctl_send Ipcp (packet_new ConfReq (ca_scr_id self) ?d) = Some b"
    "frame_carries PROTO_IPCP (control_packet ConfReq (ca_scr_id self) ?d) b"
    using ctl_send_carries [of "packet_new ConfReq (ca_scr_id self) ?d" Ipcp]
    by (auto simp: packet_new_def PPP_MRU_def Ipcp_def PROTO_IPCP_def)
  ultimately show ?thesis
    by (simp add: send_configure_request_def scr_id_def)
qed

lemma ipcp_nak_loop: "nak_loop Ipcp (addr_option a) 0 True inner = Some (True, set_host_ip a inner)"
proof -
  have 1: "options_next Ipcp (addr_option a) 0 = Some (Some (Inr (IpAddress a, addr_option a)), length (addr_option a))"
    using options_next_tlv [of "octets a" Ipcp "[]" 3 "[]"] by (simp add: ipcp_from_octets addr_option_tlv)
  have "nak_loop Ipcp (addr_option a) (length (addr_option a)) True inner' = Some (True, inner')" for inner'
    by (subst nak_loop.simps) (simp only: options_next_end Option.bind.simps prod.case option.case)
  then show ?thesis
    by (subst nak_loop.simps) (simp add: 1, simp add: Ipcp_def)
qed

lemma ipcp_nak:
  assumes "ca_state self \<noteq> Closed"
  shows "\<exists>b. ctl_received Ipcp (control_packet ConfNak ident (addr_option a)) self =
      Some ([b], self\<lparr>ca_inner := set_host_ip a (ca_inner self), ca_scr_id := ca_scr_id self + 1\<rparr>)
    \<and> frame_carries PROTO_IPCP (control_packet ConfReq (ca_scr_id self) (addr_option a)) b"
  using assms ipcp_open [of "self\<lparr>ca_inner := set_host_ip a (ca_inner self)\<rparr>"]
  by (auto simp: ctl_received_control received_packet_def received_conf_nak_def ipcp_nak_loop set_host_ip_def)

lemma ipcp_request:
  assumes "ca_state self = ReqSent \<and> s = AckSent \<or> ca_state self = AckReceived \<and> s = Opened"
  shows "\<exists>b. ctl_received Ipcp (control_packet ConfReq ident (addr_option p)) self =
      Some ([b], self\<lparr>ca_inner := (ca_inner self)\<lparr>ip_peer_address := Some p\<rparr>, ca_state := s, ca_last_req_id := Some ident\<rparr>)
    \<and> frame_carries PROTO_IPCP (control_packet ConfAck ident (addr_option p)) b"
proof -
  have j: "judge_tlvs Ipcp [(3, octets p)] (ca_inner self) = Some ([Ack], (ca_inner self)\<lparr>ip_peer_address := Some p\<rparr>)"
    by (simp add: ipcp_from_octets) (simp add: Ipcp_def)
  from received_configure_request_answer [OF _ j, of ident]
  obtain b where "received_configure_request Ipcp \<lparr>pk_code = ConfReq, pk_id = ident, pk_data = addr_option p\<rparr> self =
      Some (True, [b], self\<lparr>ca_inner := (ca_inner self)\<lparr>ip_peer_address := Some p\<rparr>\<rparr>)"
    "frame_carries PROTO_IPCP (control_packet ConfAck ident (addr_option p)) b"
    by (auto simp: addr_option_tlv all_ack_def conf_answer_def map_filter_simps PPP_MRU_def tlvs_ok_def Ipcp_def PROTO_IPCP_def)
  with assms show ?thesis
    by (auto simp: ctl_received_control received_packet_def received_conf_req_def ctl_set_state_def Let_def)
qed

lemma ctl_ack:
  assumes "ca_state self = ReqSent \<and> s = AckReceived \<or> ca_state self = AckSent \<and> s = Opened" and "4 + length data < 2 ^ 16"
  shows "ctl_received cp (control_packet ConfAck ident data) self = Some ([], self\<lparr>ca_state := s\<rparr>)"
  using assms by (auto simp: ctl_received_control received_packet_def received_conf_ack_def ctl_set_state_def)

definition carried :: "u8 list \<Rightarrow> u16 \<Rightarrow> Buffer list \<Rightarrow> bool" where
  "carried p proto frames \<longleftrightarrow> (\<exists>b \<in> set frames. frame_carries proto p b)"



text \<open>A run of IPCP that ends opened, for the theorem on acknowledgements.\<close>

lemma ipcp_run_opens:
  "\<exists>frames self. ctl_run Ipcp [EvOpen, EvRecv (control_packet ConfAck 0 []), EvRecv (control_packet ConfReq 9 (addr_option (10, 0, 0, 1)))]
     (automaton_new ipcp_new) = Some (frames, self) \<and> is_layer_up self"
proof -
  let ?s0 = "(automaton_new ipcp_new)\<lparr>ca_state := ReqSent, ca_scr_id := 1\<rparr>"
  obtain b0 where 0: "ctl_open Ipcp (automaton_new ipcp_new) = Some ([b0], ?s0)"
    using ipcp_open [of "(automaton_new ipcp_new)\<lparr>ca_state := ReqSent\<rparr>"]
    by (auto simp: ctl_open_def automaton_new_def ipcp_new_def ctl_set_state_def)
  let ?s1 = "?s0\<lparr>ca_state := AckReceived\<rparr>"
  have 1: "ctl_received Ipcp (control_packet ConfAck 0 []) ?s0 = Some ([], ?s1)"
    by (rule ctl_ack) simp_all
  obtain b2 s2 where 2: "ctl_received Ipcp (control_packet ConfReq 9 (addr_option (10, 0, 0, 1))) ?s1 = Some ([b2], s2)"
    "ca_state s2 = Opened"
    using ipcp_request [of ?s1 Opened 9 "(10, 0, 0, 1)"] by auto
  show ?thesis
    unfolding ctl_run.simps ctl_event_step.simps 0 1 2(1) Option.bind.simps prod.case using 2(2) by (simp add: is_layer_up_def)
qed

theorem opened_after_both_acks_witness:
  "\<exists>evs frames self evs1 evs2 o1 self1 o2.
     ctl_run Ipcp evs (automaton_new ipcp_new) = Some (frames, self) \<and> is_layer_up self \<and> evs = evs1 @ EvOpen # evs2
     \<and> ctl_run Ipcp evs1 (automaton_new ipcp_new) = Some (o1, self1) \<and> ctl_run Ipcp (EvOpen # evs2) self1 = Some (o2, self)
     \<and> (\<exists>b \<in> set o2. \<exists>ident data. frame_carries (cp_PROTOCOL Ipcp) (control_packet ConfAck ident data) b)"
proof -
  obtain evs frames self where r: "ctl_run Ipcp evs (automaton_new ipcp_new) = Some (frames, self)" "is_layer_up self"
    using ipcp_run_opens by blast
  from opened_after_both_acks [OF r] r show ?thesis
    by blast
qed

section \<open>LCP\<close>

definition lcp_request_options :: "u8 list" where
  "lcp_request_options = [5, 6, 0, 0, 0, 0, 2, 6, 0, 0, 0, 0]"

text \<open>The options that LCP accepts: an MRU of 1500 and an empty control character map.\<close>

definition lcp_acceptable :: "(u8 \<times> u8 list) list \<Rightarrow> bool" where
  "lcp_acceptable os \<longleftrightarrow> set os \<subseteq> {(1, [5, 220]), (2, [0, 0, 0, 0])}"

lemma lcp_open:
  "\<exists>b. send_configure_request Lcp self = Some ([b], self\<lparr>ca_scr_id := ca_scr_id self + 1\<rparr>)
    \<and> frame_carries PROTO_LCP (control_packet ConfReq (ca_scr_id self) lcp_request_options) b"
proof -
  have "cp_get_opts Lcp (ca_inner self) = Some (lcp_request_options, ca_inner self)"
    by (simp add: Lcp_def lcp_get_opts_def lcp_request_options_def u32_to_be_bytes_def u32_to_le_bytes_def)
  moreover obtain b where "ctl_send Lcp (packet_new ConfReq (ca_scr_id self) lcp_request_options) = Some b"
    "frame_carries PROTO_LCP (control_packet ConfReq (ca_scr_id self) lcp_request_options) b"
    using ctl_send_carries [of "packet_new ConfReq (ca_scr_id self) lcp_request_options" Lcp]
    by (auto simp: packet_new_def PPP_MRU_def Lcp_def lcp_request_options_def)
  ultimately show ?thesis
    by (simp add: send_configure_request_def scr_id_def)
qed

lemma lcp_judge_acceptable: "lcp_acceptable os \<Longrightarrow> judge_tlvs Lcp os inner = Some (map (\<lambda>_. Ack) os, inner)"
proof (induction os)
  case (Cons o1 os)
  then have "o1 = (1, [5, 220]) \<or> o1 = (2, [0, 0, 0, 0])" "lcp_acceptable os"
    by (auto simp: lcp_acceptable_def)
  with Cons.IH show ?case
    by (auto simp: Lcp_def lcp_from_bytes_def lcp_judge_def PPP_MRU_def u32_from_be_bytes_def u32_of_bytes_def)
qed simp

lemma lcp_request:
  assumes "lcp_acceptable os" and "4 + length (tlvs os) < PPP_MRU"
    and "ca_state self = ReqSent \<and> s = AckSent \<or> ca_state self = AckReceived \<and> s = Opened"
  shows "\<exists>b. ctl_received Lcp (control_packet ConfReq ident (tlvs os)) self =
      Some ([b], self\<lparr>ca_state := s, ca_last_req_id := Some ident\<rparr>)
    \<and> frame_carries PROTO_LCP (control_packet ConfAck ident (tlvs os)) b"
proof -
  have ok: "tlvs_ok os"
    using assms(1) by (auto simp: lcp_acceptable_def tlvs_ok_def)
  have vs: "List.map_filter as_nak (map (\<lambda>_. Ack) os) = []" "List.map_filter as_reject (map (\<lambda>_. Ack) os) = []"
    "all_ack (map (\<lambda>_. Ack) os)" "conf_answer ident (tlvs os) (map (\<lambda>_. Ack) os) = control_packet ConfAck ident (tlvs os)"
    by (induction os) (simp_all add: map_filter_simps all_ack_def conf_answer_def split: if_splits)
  have lens: "4 + length (concat (List.map_filter as_nak (map (\<lambda>_. Ack) os))) < PPP_MRU"
    "4 + length (concat (List.map_filter as_reject (map (\<lambda>_. Ack) os))) < PPP_MRU"
    unfolding vs(1,2) by (simp_all add: PPP_MRU_def)
  have "4 + length (tlvs os) < 2 ^ 16"
    using assms(2) by (simp add: PPP_MRU_def)
  note rc = ctl_received_control [OF this, of Lcp ConfReq ident self]
  from received_configure_request_answer [OF ok lcp_judge_acceptable [OF assms(1)] assms(2) lens, of ident self]
  obtain b where "received_configure_request Lcp \<lparr>pk_code = ConfReq, pk_id = ident, pk_data = tlvs os\<rparr> self = Some (True, [b], self)"
    "frame_carries PROTO_LCP (control_packet ConfAck ident (tlvs os)) b"
    using vs(3,4) by (auto simp: Lcp_def)
  with assms(3) rc show ?thesis
    by (auto simp: received_packet_def received_conf_req_def ctl_set_state_def Let_def)
qed

text \<open>
  LCP comes up with a peer that acknowledges its request and requests options that it accepts, in either order
  of the two: it has then sent its request, with a magic number and an empty control character map, and acknowledged
  the peer's request with the very options of that request.\<close>

lemma lcp_opens:
  assumes "lcp_acceptable os" and "4 + length (tlvs os) < PPP_MRU"
    and "evs \<in> {[EvRecv (control_packet ConfAck i1 lcp_request_options), EvRecv (control_packet ConfReq i2 (tlvs os))],
      [EvRecv (control_packet ConfReq i2 (tlvs os)), EvRecv (control_packet ConfAck i1 lcp_request_options)]}"
  shows "\<exists>b0 b1 self. ctl_run Lcp (EvOpen # evs) (automaton_new ()) = Some ([b0, b1], self) \<and> is_layer_up self
    \<and> frame_carries PROTO_LCP (control_packet ConfReq 0 lcp_request_options) b0
    \<and> frame_carries PROTO_LCP (control_packet ConfAck i2 (tlvs os)) b1"
proof -
  let ?s0 = "(automaton_new ())\<lparr>ca_state := ReqSent, ca_scr_id := 1\<rparr>"
  have n: "4 + length lcp_request_options < 2 ^ 16"
    by (simp add: lcp_request_options_def)
  obtain b0 where 0: "ctl_open Lcp (automaton_new ()) = Some ([b0], ?s0)"
    "frame_carries PROTO_LCP (control_packet ConfReq 0 lcp_request_options) b0"
    using lcp_open [of "(automaton_new ())\<lparr>ca_state := ReqSent\<rparr>"]
    by (auto simp: ctl_open_def automaton_new_def ctl_set_state_def)
  from assms(3) consider
      "evs = [EvRecv (control_packet ConfAck i1 lcp_request_options), EvRecv (control_packet ConfReq i2 (tlvs os))]"
    | "evs = [EvRecv (control_packet ConfReq i2 (tlvs os)), EvRecv (control_packet ConfAck i1 lcp_request_options)]"
    by blast
  then show ?thesis
  proof cases
    case 1
    let ?s1 = "?s0\<lparr>ca_state := AckReceived\<rparr>"
    have b1: "ctl_received Lcp (control_packet ConfAck i1 lcp_request_options) ?s0 = Some ([], ?s1)"
      by (rule ctl_ack [OF _ n]) simp
    obtain b2 s2 where b2: "ctl_received Lcp (control_packet ConfReq i2 (tlvs os)) ?s1 = Some ([b2], s2)" "ca_state s2 = Opened"
      "frame_carries PROTO_LCP (control_packet ConfAck i2 (tlvs os)) b2"
      using lcp_request [OF assms(1,2), of ?s1 Opened i2] by auto
    show ?thesis
      unfolding 1 ctl_run.simps ctl_event_step.simps 0(1) Option.bind.simps prod.case b1 b2(1)
      using 0(2) b2(2,3) by (simp add: is_layer_up_def)
  next
    case 2
    let ?s1 = "?s0\<lparr>ca_state := AckSent, ca_last_req_id := Some i2\<rparr>"
    obtain b1 where b1: "ctl_received Lcp (control_packet ConfReq i2 (tlvs os)) ?s0 = Some ([b1], ?s1)"
      "frame_carries PROTO_LCP (control_packet ConfAck i2 (tlvs os)) b1"
      using lcp_request [OF assms(1,2), of ?s0 AckSent i2] by auto
    have b2: "ctl_received Lcp (control_packet ConfAck i1 lcp_request_options) ?s1 = Some ([], ?s1\<lparr>ca_state := Opened\<rparr>)"
      by (rule ctl_ack [OF _ n]) simp
    show ?thesis
      unfolding 2 ctl_run.simps ctl_event_step.simps 0(1) Option.bind.simps prod.case b1(1) b2
      using 0(2) b1(2) by (simp add: is_layer_up_def)
  qed
qed

theorem lcp_opens_witness:
  "\<exists>b0 b1 self. ctl_run Lcp [EvOpen, EvRecv (control_packet ConfReq 4 (tlvs [(1, [5, 220]), (2, [0, 0, 0, 0])])),
      EvRecv (control_packet ConfAck 0 lcp_request_options)] (automaton_new ()) = Some ([b0, b1], self) \<and> is_layer_up self"
  using lcp_opens [of "[(1, [5, 220]), (2, [0, 0, 0, 0])]" "[EvRecv (control_packet ConfReq 4 (tlvs [(1, [5, 220]), (2, [0, 0, 0, 0])])),
      EvRecv (control_packet ConfAck 0 lcp_request_options)]" 0 4]
  by (auto simp: lcp_acceptable_def PPP_MRU_def)

section \<open>Packets that stop the kernel\<close>

text \<open>A last option whose length field is smaller than its header, or that consists of its type only.\<close>

definition bad_option :: "u8 list \<Rightarrow> bool" where
  "bad_option bad \<longleftrightarrow> length bad = 1 \<or> (2 \<le> length bad \<and> unat (bad ! 1) < 2)"

text \<open>A last option that is longer than what is left of the packet.\<close>

definition long_option :: "u8 list \<Rightarrow> bool" where
  "long_option bad \<longleftrightarrow> 2 \<le> length bad \<and> length bad < unat (bad ! 1)"

lemma options_next_bad:
  assumes "bad_option bad"
  shows "options_next cp (pre @ bad) (length pre) = None"
proof (cases "length bad = 1")
  case True
  then show ?thesis
    by (cases bad) (simp_all add: options_next_def)
next
  case False
  with assms obtain ty len rest where "bad = ty # len # rest" "unat len < 2"
    by (cases bad; cases "tl bad") (auto simp: bad_option_def)
  then show ?thesis
    by (simp add: options_next_def nth_append split: bind_split)
qed

lemma options_next_long:
  assumes "long_option bad"
  shows "options_next cp (pre @ bad) (length pre) = Some (Some (Inl []), length pre)"
proof -
  obtain ty len rest where "bad = ty # len # rest" "length bad < unat len"
    using assms by (cases bad; cases "tl bad") (auto simp: long_option_def)
  then show ?thesis
    by (simp add: options_next_def nth_append)
qed

lemma judge_options_bad:
  "tlvs_ok os \<Longrightarrow> bad_option bad \<Longrightarrow> judge_options cp (pre @ tlvs os @ bad) (length pre) inner = None"
proof (induction os arbitrary: pre inner)
  case Nil
  then show ?case
    using options_next_bad [of bad cp pre] by (subst judge_options.simps) simp
next
  case (Cons o1 os)
  obtain ty data where o1: "o1 = (ty, data)"
    by (cases o1)
  have IH: "judge_options cp (pre @ tlv (ty, data) @ tlvs os @ bad) (length (pre @ tlv (ty, data))) inner = None" for inner
    using Cons.IH [of "pre @ tlv (ty, data)" inner] Cons.prems o1 by simp
  have nx: "options_next cp (pre @ tlv (ty, data) @ tlvs os @ bad) (length pre) = do {
     res \<leftarrow> cp_from_bytes cp ty data;
     Some (Some (case res of Some opt \<Rightarrow> Inr (opt, tlv (ty, data)) | None \<Rightarrow> Inl (tlv (ty, data))), length (pre @ tlv (ty, data)))
   }"
    using Cons.prems o1 by (intro options_next_tlv) simp
  show ?case
    unfolding o1 tlvs_Cons append_assoc
    by (subst judge_options.simps, unfold nx, cases "cp_from_bytes cp ty data")
      (auto simp: IH [simplified] split: option.splits bind_split)
qed

lemma nak_loop_stuck: "options_next cp buf i = Some (Some (Inl []), i) \<Longrightarrow> nak_loop cp buf i ok inner = None"
proof -
  assume stuck: "options_next cp buf i = Some (Some (Inl []), i)"
  have "options_next cp buf i \<noteq> Some (Some (Inl []), i)" if "nak_loop cp buf i ok inner = Some r" for r
    by (rule nak_loop.raw_induct [OF _ that]) auto
  with stuck show ?thesis
    by (cases "nak_loop cp buf i ok inner") auto
qed

lemma nak_loop_long:
  "tlvs_ok os \<Longrightarrow> long_option bad \<Longrightarrow> nak_loop cp (pre @ tlvs os @ bad) (length pre) ok inner = None"
proof (induction os arbitrary: pre ok inner)
  case Nil
  then show ?case
    using nak_loop_stuck [OF options_next_long] by simp
next
  case (Cons o1 os)
  obtain ty data where o1: "o1 = (ty, data)"
    by (cases o1)
  have IH: "nak_loop cp (pre @ tlv (ty, data) @ tlvs os @ bad) (length (pre @ tlv (ty, data))) ok inner = None" for ok inner
    using Cons.IH [of "pre @ tlv (ty, data)" ok inner] Cons.prems o1 by simp
  have nx: "options_next cp (pre @ tlv (ty, data) @ tlvs os @ bad) (length pre) = do {
     res \<leftarrow> cp_from_bytes cp ty data;
     Some (Some (case res of Some opt \<Rightarrow> Inr (opt, tlv (ty, data)) | None \<Rightarrow> Inl (tlv (ty, data))), length (pre @ tlv (ty, data)))
   }"
    using Cons.prems o1 by (intro options_next_tlv) simp
  show ?case
    unfolding o1 tlvs_Cons append_assoc
    by (subst nak_loop.simps, unfold nx, cases "cp_from_bytes cp ty data")
      (auto simp: IH [simplified] split: option.splits prod.splits)
qed



text \<open>LCP answers a control character map that it does not want with the MRU that it wants.\<close>

lemma lcp_accm_answered_with_mru:
  assumes "ca_state self \<noteq> Closed" and "accm \<noteq> 0"
  shows "\<exists>b self'. received_configure_request Lcp \<lparr>pk_code = ConfReq, pk_id = ident, pk_data = tlvs [(2, u32_to_be_bytes accm)]\<rparr> self =
      Some (False, [b], self') \<and> frame_carries PROTO_LCP (control_packet ConfNak ident (tlvs [(1, u16_to_be_bytes 1500)])) b"
proof -
  have "u32_from_be_bytes (u32_to_be_bytes accm) = Some accm" "length (u32_to_be_bytes accm) = 4"
    by (simp_all add: u32_to_be_bytes_def u32_from_be_bytes_def)
  then have j: "judge_tlvs Lcp [(2, u32_to_be_bytes accm)] (ca_inner self) = Some ([Nak (tlv (1, u16_to_be_bytes 1500))], ca_inner self)"
    using assms(2) by (simp add: Lcp_def lcp_from_bytes_def lcp_judge_def PPP_MRU_def tlv.simps)
  have ok: "tlvs_ok [(2, u32_to_be_bytes accm)]"
    by (simp add: u32_to_be_bytes_def tlvs_ok_def)
  from received_configure_request_answer [OF ok j, of ident] show ?thesis
    by (auto simp: PPP_MRU_def all_ack_def conf_answer_def map_filter_simps Lcp_def u32_to_be_bytes_def)
qed

end
