(* ===== verification/Ppp_Run.thy ===== *)
theory Ppp_Run
  imports Ppp_Link Ppp_Negotiation
begin

text \<open>
  The network task of the antimony kernel (\<open>device/antimony/src/net.rs\<close>): the state of PPP, one turn of
  the task's loop, and the machine external interrupt with the console output (\<open>net/phy.rs\<close>). The TCP/IP stack
  (smoltcp) and the HTTP parser are not part of the model: IP packets are exchanged with them through two queues, the
  address update is a function on the list of interface addresses, and the reply to a request a function
  of the parsed path. An addition of \<open>u8\<close> that overflows panics, as in a build with overflow checks.
\<close>

section \<open>The state of PPP\<close>

record PppInner =
  pi_lcp :: "unit ControlAutomaton"
  pi_ipcp :: "IpcpState ControlAutomaton"
  pi_ip_recv_queue :: "u8 list list"
  pi_ip_xmit_queue :: "u8 list list"

definition ppp_new :: PppInner where
  "ppp_new = \<lparr>pi_lcp = automaton_new (), pi_ipcp = automaton_new ipcp_new, pi_ip_recv_queue = [], pi_ip_xmit_queue = []\<rparr>"

text \<open>The frames of the queued IP packets.\<close>

fun xmit_ip :: "u8 list list \<Rightarrow> Buffer list option" where
  "xmit_ip [] = Some []"
| "xmit_ip (p # ps) = do {
     buffer \<leftarrow> begin_ppp PROTO_IP buffer_new;
     buffer \<leftarrow> buffer_write p buffer;
     buffer \<leftarrow> finish_ppp buffer;
     rest \<leftarrow> xmit_ip ps;
     Some (buffer # rest)
   }"

definition ppp_poll :: "PppInner \<Rightarrow> (Buffer list \<times> PppInner) option" where
  "ppp_poll self = do {
     (f1, self) \<leftarrow> (if is_closed (pi_lcp self)
       then do { (f, lcp) \<leftarrow> ctl_open Lcp (pi_lcp self); Some (f, self\<lparr>pi_lcp := lcp\<rparr>) }
       else Some ([], self));
     let self = (if \<not> is_layer_up (pi_lcp self) \<and> \<not> is_closed (pi_ipcp self)
       then self\<lparr>pi_ipcp := ctl_close (pi_ipcp self)\<rparr> else self);
     (f2, self) \<leftarrow> (if is_layer_up (pi_lcp self) \<and> is_closed (pi_ipcp self)
       then do { (f, ipcp) \<leftarrow> ctl_open Ipcp (pi_ipcp self); Some (f, self\<lparr>pi_ipcp := ipcp\<rparr>) }
       else Some ([], self));
     (f3, self) \<leftarrow> (if is_layer_up (pi_ipcp self)
       then do { f \<leftarrow> xmit_ip (pi_ip_xmit_queue self); Some (f, self\<lparr>pi_ip_xmit_queue := []\<rparr>) }
       else Some ([], self));
     Some (f1 @ f2 @ f3, self)
   }"

definition recv_lcp :: "u8 list \<Rightarrow> PppInner \<Rightarrow> (Buffer list \<times> PppInner) option" where
  "recv_lcp packet self = do { (f, lcp) \<leftarrow> ctl_received Lcp packet (pi_lcp self); Some (f, self\<lparr>pi_lcp := lcp\<rparr>) }"

definition recv_ipcp :: "u8 list \<Rightarrow> PppInner \<Rightarrow> (Buffer list \<times> PppInner) option" where
  "recv_ipcp packet self = do { (f, ipcp) \<leftarrow> ctl_received Ipcp packet (pi_ipcp self); Some (f, self\<lparr>pi_ipcp := ipcp\<rparr>) }"

definition recv_ip :: "u8 list \<Rightarrow> PppInner \<Rightarrow> PppInner" where
  "recv_ip packet self = self\<lparr>pi_ip_recv_queue := pi_ip_recv_queue self @ [packet]\<rparr>"

definition send_ip :: "u8 list \<Rightarrow> PppInner \<Rightarrow> PppInner" where
  "send_ip packet self = self\<lparr>pi_ip_xmit_queue := pi_ip_xmit_queue self @ [packet]\<rparr>"

definition poll_ip :: "PppInner \<Rightarrow> u8 list option \<times> PppInner" where
  "poll_ip self = (case pi_ip_recv_queue self of
     [] \<Rightarrow> (None, self)
   | p # ps \<Rightarrow> (Some p, self\<lparr>pi_ip_recv_queue := ps\<rparr>))"

text \<open>The transmit token of the device that smoltcp sees: \<open>fill\<close> is its closure on the buffer.\<close>

definition tx_consume :: "nat \<Rightarrow> (u8 list \<Rightarrow> 'r \<times> u8 list) \<Rightarrow> PppInner \<Rightarrow> 'r \<times> PppInner" where
  "tx_consume len fill self = (let (res, buf) = fill (replicate len 0) in (res, send_ip buf self))"

section \<open>One turn of the network task\<close>

definition ppp_reject :: "u8 \<Rightarrow> u16 \<Rightarrow> u8 list \<Rightarrow> Buffer option" where
  "ppp_reject lcp_rej_id protocol packet = do {
     buf \<leftarrow> begin_ppp PROTO_LCP buffer_new;
     buf \<leftarrow> buffer_write [8, lcp_rej_id] buf;
     assertion (unat lcp_rej_id + 1 < 2 ^ 8);
     assertion (6 + unat (of_nat (length packet) :: u16) < 2 ^ 16);
     let pkt_len = 6 + (of_nat (length packet) :: u16);
     buf \<leftarrow> buffer_write (u16_to_be_bytes pkt_len) buf;
     buf \<leftarrow> buffer_write (u16_to_be_bytes protocol) buf;
     buf \<leftarrow> buffer_write packet buf;
     finish_ppp buf
   }"

record Net =
  net_inner :: PppInner
  net_rej_id :: u8
  net_addrs :: "ipv4 list"

definition ppp_dispatch :: "u8 list \<Rightarrow> Net \<Rightarrow> (Buffer list \<times> Net) option" where
  "ppp_dispatch frame net = do {
     r \<leftarrow> try_from_hdlc_frame frame;
     case r of
       Inl _ \<Rightarrow> Some ([], net)
     | Inr ppp_frame \<Rightarrow> do {
         protocol_bytes \<leftarrow> subslice ppp_frame 0 2;
         packet \<leftarrow> subslice ppp_frame 2 (length ppp_frame);
         protocol \<leftarrow> u16_from_be_bytes protocol_bytes;
         let inner = net_inner net;
         if protocol = PROTO_LCP then do {
           (f, inner) \<leftarrow> recv_lcp packet inner;
           Some (f, net\<lparr>net_inner := inner\<rparr>)
         }
         else if protocol = PROTO_IPCP \<and> is_layer_up (pi_lcp inner) then do {
           (f, inner) \<leftarrow> recv_ipcp packet inner;
           Some (f, net\<lparr>net_inner := inner\<rparr>)
         }
         else if protocol = PROTO_IP \<and> is_layer_up (pi_ipcp inner) then Some ([], net\<lparr>net_inner := recv_ip packet inner\<rparr>)
         else if is_layer_up (pi_lcp inner) then do {
           buf \<leftarrow> ppp_reject (net_rej_id net) protocol packet;
           Some ([buf], net\<lparr>net_rej_id := net_rej_id net + 1\<rparr>)
         }
         else Some ([], net)
       }
   }"

text \<open>The closure given to \<open>update_ip_addrs\<close>: the addresses of the interface, at most \<open>cap\<close>, each with a full prefix.\<close>

fun position :: "'a \<Rightarrow> 'a list \<Rightarrow> nat option" where
  "position x [] = None"
| "position x (y # ys) = (if y = x then Some 0 else map_option Suc (position x ys))"

definition update_ip_addrs :: "nat \<Rightarrow> ipv4 option \<Rightarrow> ipv4 \<Rightarrow> ipv4 list \<Rightarrow> ipv4 list option" where
  "update_ip_addrs cap old new ip_addrs = (case old of
     Some old \<Rightarrow> do { i \<leftarrow> position old ip_addrs; upd ip_addrs i new }
   | None \<Rightarrow> if length ip_addrs < cap then Some (ip_addrs @ [new]) else None)"

text \<open>The turn when no frame is waiting, up to the call of the TCP/IP stack; the flag is whether that is called.\<close>

definition ppp_idle :: "nat \<Rightarrow> Net \<Rightarrow> (Buffer list \<times> Net \<times> bool) option" where
  "ppp_idle cap net = do {
     (f, inner) \<leftarrow> ppp_poll (net_inner net);
     let ip_up = is_layer_up (pi_ipcp inner);
     (ip_update, inner) \<leftarrow> (if ip_up
       then do { (u, st) \<leftarrow> get_host_addr_update (ca_inner (pi_ipcp inner));
                 Some (u, inner\<lparr>pi_ipcp := (pi_ipcp inner)\<lparr>ca_inner := st\<rparr>\<rparr>) }
       else Some (None, inner));
     addrs \<leftarrow> (case ip_update of
         Some (old, new) \<Rightarrow> update_ip_addrs cap old new (net_addrs net)
       | None \<Rightarrow> Some (net_addrs net));
     Some (f, net\<lparr>net_inner := inner, net_addrs := addrs\<rparr>, ip_up)
   }"

definition net_new :: Net where
  "net_new = \<lparr>net_inner = ppp_new, net_rej_id = 0, net_addrs = []\<rparr>"

definition ppp_turn :: "nat \<Rightarrow> RecvChannel \<Rightarrow> Net \<Rightarrow> (Buffer list \<times> RecvChannel \<times> Net) option" where
  "ppp_turn cap ch net = do {
     frame \<leftarrow> read_frame ch;
     case frame of
       None \<Rightarrow> do { (f, net, ip_up) \<leftarrow> ppp_idle cap net; Some (f, ch, net) }
     | Some frame \<Rightarrow> do { (f, net) \<leftarrow> ppp_dispatch frame net; Some (f, free_buffer ch, net) }
   }"

text \<open>The reply to an HTTP request: the parsed path, the bits of the GPIO port.\<close>

definition crlf :: string where
  "crlf = [CHR 0x0D, CHR 0x0A]"

definition http_reply :: "string option \<Rightarrow> u32 \<Rightarrow> string \<times> u32" where
  "http_reply path pd = (case path of
     None \<Rightarrow> (''HTTP/1.0 400 BAD REQUEST'' @ crlf @ crlf @ crlf, pd)
   | Some p \<Rightarrow>
       if p = ''/on'' then (''HTTP/1.0 200 OK'' @ crlf @ crlf @ crlf, pd OR 1)
       else if p = ''/off'' then (''HTTP/1.0 200 OK'' @ crlf @ crlf @ crlf, pd AND NOT 1)
       else (''HTTP/1.0 404 NOT FOUND'' @ crlf @ crlf @ crlf, pd))"

section \<open>Console output and the interrupt handler\<close>

record UartXmit =
  ux_strings :: "u8 list list"
  ux_index :: nat

definition uart_xmit_new :: UartXmit where
  "uart_xmit_new = \<lparr>ux_strings = [], ux_index = 0\<rparr>"

text \<open>The inner loop: the bytes written, the room left, the index, and whether the string is finished.\<close>

fun ux_inner :: "nat \<Rightarrow> u8 list \<Rightarrow> nat \<Rightarrow> u8 list \<times> nat \<times> nat \<times> bool" where
  "ux_inner 0 head index = ([], 0, index, \<not> index < length head)"
| "ux_inner (Suc room) head index =
    (if index < length head then
       let (w, r, i, fin) = ux_inner room head (index + 1) in (head ! index # w, r, i, fin)
     else ([], Suc room, index, True))"

fun ux_loop :: "nat \<Rightarrow> u8 list list \<Rightarrow> nat \<Rightarrow> u8 list \<times> u8 list list \<times> nat \<times> bool" where
  "ux_loop room [] index = ([], [], index, True)"
| "ux_loop room (head # strings) index =
    (let (w, r, i, fin) = ux_inner room head index
     in if fin then let (ws, ss, i, d) = ux_loop r strings 0 in (w @ ws, ss, i, d)
        else (w, head # strings, i, False))"

definition ux_write_out :: "nat \<Rightarrow> UartXmit \<Rightarrow> u8 list \<times> UartXmit \<times> bool" where
  "ux_write_out room self =
    (let (w, ss, i, d) = ux_loop room (ux_strings self) (ux_index self) in (w, \<lparr>ux_strings = ss, ux_index = i\<rparr>, d))"

definition write_string :: "nat \<Rightarrow> u8 list \<Rightarrow> UartXmit \<Rightarrow> bool \<Rightarrow> u8 list \<times> UartXmit \<times> bool" where
  "write_string room s xmit etbei =
    (let (w, xmit, d) = ux_write_out room (xmit\<lparr>ux_strings := ux_strings xmit @ [s]\<rparr>) in (w, xmit, etbei \<or> \<not> d))"

record Lines =
  ln_stdout :: UartXmit
  ln_etbei0 :: bool
  ln_rx :: RecvChannel
  ln_tx :: XmitChannel
  ln_etbei2 :: bool

text \<open>The interrupt: \<open>claim\<close> is read from the interrupt controller, \<open>rfne\<close> and \<open>tfnf\<close> from the status of UART2,
  \<open>bytes\<close> and \<open>room\<close> are what the UART gives and takes during the interrupt.\<close>

definition mei_uart :: "nat \<Rightarrow> bool \<Rightarrow> bool \<Rightarrow> u8 list \<Rightarrow> nat \<Rightarrow> Lines \<Rightarrow> (u8 list \<times> Lines) option" where
  "mei_uart claim rfne tfnf bytes room ln =
    (if claim = 18 then
       let (w, xmit, d) = ux_write_out room (ln_stdout ln)
       in Some (w, ln\<lparr>ln_stdout := xmit, ln_etbei0 := ln_etbei0 ln \<and> \<not> d\<rparr>)
     else if claim = 20 then do {
       rx \<leftarrow> (if rfne then drain_uart_buffer bytes (ln_rx ln) else Some (ln_rx ln));
       (w, tx, etbei) \<leftarrow> (if tfnf then dump_uart_buffer room (ln_tx ln) (ln_etbei2 ln) else Some ([], ln_tx ln, ln_etbei2 ln));
       Some (w, ln\<lparr>ln_rx := rx, ln_tx := tx, ln_etbei2 := etbei\<rparr>)
     }
     else Some ([], ln))"

end
