(* ===== verification/Ppp_Run_Correct.thy ===== *)
theory Ppp_Run_Correct
  imports Ppp_Run
begin

text \<open>
  The network task and the receive interrupt together: from the first turn over the negotiation of LCP and IPCP to the
  first IP packet; the packets on which the task panics; the order of the console output.
\<close>

section \<open>Sending IP packets\<close>

lemma xmit_ip_build: "xmit_ip (p # ps) = do { b \<leftarrow> build_ppp PROTO_IP [p]; bs \<leftarrow> xmit_ip ps; Some (b # bs) }"
  by (simp add: build_ppp_def)

lemma xmit_ip_spec:
  "if \<forall>p \<in> set ps. length p < PPP_MRU then \<exists>bs. xmit_ip ps = Some bs \<and> list_all2 (frame_carries PROTO_IP) ps bs
   else xmit_ip ps = None"
proof (induction ps)
  case (Cons p ps)
  show ?case
  proof (cases "length p < PPP_MRU")
    case True
    then obtain b where b: "build_ppp PROTO_IP [p] = Some b" "frame_carries PROTO_IP p b"
      using build_carries [of "[p]" PROTO_IP] by auto
    show ?thesis
      using Cons.IH True b by (auto simp: xmit_ip_build simp del: xmit_ip.simps split: if_splits)
  next
    case False
    then have "build_ppp PROTO_IP [p] = None"
      using build_ppp_holds [of "[p]" PROTO_IP] by simp
    with False show ?thesis
      by (simp add: xmit_ip_build del: xmit_ip.simps)
  qed
qed simp

definition links_up :: "PppInner \<Rightarrow> bool" where
  "links_up self \<longleftrightarrow> is_layer_up (pi_lcp self) \<and> is_layer_up (pi_ipcp self)"

lemma ppp_poll_up:
  "links_up self \<Longrightarrow> ppp_poll self = do { f \<leftarrow> xmit_ip (pi_ip_xmit_queue self); Some (f, self\<lparr>pi_ip_xmit_queue := []\<rparr>) }"
  by (simp add: ppp_poll_def links_up_def is_layer_up_def is_closed_def)

text \<open>The largest packet that the device announces to the TCP/IP stack.\<close>

definition max_transmission_unit :: nat where
  "max_transmission_unit = PPP_MRU"

text \<open>
  A packet of the largest size that the device announces does not fit into a frame buffer, which has no room for the
  closing flag: when the TCP/IP stack hands such a packet to the transmit token, the next poll of the opened link panics.\<close>

lemma full_mtu_packet_panics:
  assumes "links_up inner" and "\<And>buf. length (snd (fill buf)) = length buf"
    and "tx_consume max_transmission_unit fill inner = (res, inner')"
  shows "ppp_poll inner' = None"
proof -
  have inner': "inner' = send_ip (snd (fill (replicate max_transmission_unit 0))) inner"
    using assms(3) by (simp add: tx_consume_def split_beta)
  then have "links_up inner'" "snd (fill (replicate max_transmission_unit 0)) \<in> set (pi_ip_xmit_queue inner')"
    using assms(1) by (simp_all add: send_ip_def links_up_def)
  moreover have "length (snd (fill (replicate max_transmission_unit 0))) = PPP_MRU"
    using assms(2) by (simp add: max_transmission_unit_def)
  ultimately show ?thesis
    using xmit_ip_spec [of "pi_ip_xmit_queue inner'"] by (auto simp: ppp_poll_up split: if_splits)
qed

definition up_inner :: PppInner where
  "up_inner = ppp_new\<lparr>pi_lcp := (automaton_new ())\<lparr>ca_state := Opened\<rparr>, pi_ipcp := (automaton_new ipcp_new)\<lparr>ca_state := Opened\<rparr>\<rparr>"

theorem full_mtu_packet_panics_witness:
  "ppp_poll (snd (tx_consume max_transmission_unit (\<lambda>buf. ((), map (\<lambda>_. 7) buf)) up_inner)) = None"
  by (rule full_mtu_packet_panics [of up_inner "\<lambda>buf. ((), map (\<lambda>_. 7) buf)" "()"])
    (simp_all add: up_inner_def links_up_def is_layer_up_def tx_consume_def)

section \<open>Frames at the network task\<close>

lemma ppp_dispatch_frame:
  "ppp_dispatch (hdlc_frame (u16_to_be_bytes protocol @ packet)) net =
    (let inner = net_inner net in
     if protocol = PROTO_LCP then do { (f, inner) \<leftarrow> recv_lcp packet inner; Some (f, net\<lparr>net_inner := inner\<rparr>) }
     else if protocol = PROTO_IPCP \<and> is_layer_up (pi_lcp inner) then do {
       (f, inner) \<leftarrow> recv_ipcp packet inner; Some (f, net\<lparr>net_inner := inner\<rparr>) }
     else if protocol = PROTO_IP \<and> is_layer_up (pi_ipcp inner) then Some ([], net\<lparr>net_inner := recv_ip packet inner\<rparr>)
     else if is_layer_up (pi_lcp inner) then do {
       buf \<leftarrow> ppp_reject (net_rej_id net) protocol packet;
       Some ([buf], net\<lparr>net_rej_id := net_rej_id net + 1\<rparr>) }
     else Some ([], net))"
proof -
  have "try_from_hdlc_frame (hdlc_frame (u16_to_be_bytes protocol @ packet)) = Some (Inr (u16_to_be_bytes protocol @ packet))"
    by (rule try_from_hdlc_frame_intact) simp
  then show ?thesis
    by (simp add: ppp_dispatch_def Let_def)
qed

lemma ppp_reject_None:
  assumes "PPP_MRU \<le> 6 + length packet"
  shows "ppp_reject ident protocol packet = None"
proof -
  let ?ps = "[[8, ident], u16_to_be_bytes (6 + of_nat (length packet)), u16_to_be_bytes protocol, packet]"
  have "build_ppp PROTO_LCP ?ps = None"
    using build_ppp_holds [of ?ps PROTO_LCP] assms by simp
  then show ?thesis
    by (auto simp: ppp_reject_def build_ppp_def Let_def assertion_def split: bind_splits if_splits)
qed

text \<open>
  A frame of an unknown protocol that arrives on an opened link is sent back in a Protocol-Reject, which is six bytes
  longer than the packet: if the packet has 1494 bytes or more, which is within the size that the peer may send, the
  network task panics.\<close>

lemma long_unknown_protocol_panics:
  assumes "is_layer_up (pi_lcp (net_inner net))" and "protocol \<notin> {PROTO_LCP, PROTO_IPCP, PROTO_IP}"
    and "1494 \<le> length packet" and "rx_queue ch (hdlc_frame (u16_to_be_bytes protocol @ packet) # fs)"
  shows "ppp_turn cap ch net = None"
  using assms ppp_reject_None [of packet "net_rej_id net" protocol] rx.head_frame [OF assms(4)]
  by (simp add: ppp_turn_def ppp_dispatch_frame Let_def PPP_MRU_def)

section \<open>The receive interrupt between the turns\<close>

datatype net_event = Irq "u8 list" | Turn

fun net_run :: "nat \<Rightarrow> net_event list \<Rightarrow> RecvChannel \<Rightarrow> Net \<Rightarrow> (Buffer list \<times> RecvChannel \<times> Net) option" where
  "net_run cap [] ch net = Some ([], ch, net)"
| "net_run cap (Irq bytes # evs) ch net = do { ch \<leftarrow> drain_uart_buffer bytes ch; net_run cap evs ch net }"
| "net_run cap (Turn # evs) ch net = do {
     (f, ch, net) \<leftarrow> ppp_turn cap ch net;
     (fs, ch, net) \<leftarrow> net_run cap evs ch net;
     Some (f @ fs, ch, net)
   }"

text \<open>The bytes of packets on the line, and a channel between frames.\<close>

definition line :: "(u16 \<times> u8 list) list \<Rightarrow> u8 list" where
  "line ps = concat (map (\<lambda>p. [HDLC_FLAG] @ concat (map stuff (packet_body (fst p, [snd p]))) @ [HDLC_FLAG]) ps)"

definition waiting :: "RecvChannel \<Rightarrow> (u16 \<times> u8 list) list \<Rightarrow> bool" where
  "waiting ch ps \<longleftrightarrow> (\<exists>cur. (cur = None \<or> cur = Some [HDLC_FLAG])
     \<and> rx_abs ch (map (\<lambda>p. hdlc_frame (u16_to_be_bytes (fst p) @ snd p)) ps) cur)"

lemma waiting_irq:
  assumes "waiting ch qs" and "\<forall>p \<in> set ps. length (snd p) < PPP_MRU" and "length (qs @ ps) < CHANNEL_MAX_FRAMES"
  shows "\<exists>ch'. drain_uart_buffer (line ps) ch = Some ch' \<and> waiting ch' (qs @ ps)"
proof -
  let ?f = "\<lambda>p. hdlc_frame (u16_to_be_bytes (fst p) @ snd p)"
  let ?body = "\<lambda>p. packet_body (fst p, [snd p])"
  obtain cur where cur: "cur = None \<or> cur = Some [HDLC_FLAG]" "rx_abs ch (map ?f qs) cur"
    using assms(1) unfolding waiting_def by blast
  have "\<forall>body \<in> set (map ?body ps). body \<noteq> []"
    using packet_body_nonempty by auto
  from hdlc_frames_received [OF cur(1) this, of "map ?f qs"] obtain cur' where
    s: "foldl hdlc_step (map ?f qs, cur, False) (line ps) = (map ?f qs @ map (Cons HDLC_FLAG) (map ?body ps), cur', False)"
      "cur' = None \<or> cur' = Some [HDLC_FLAG]"
    by (auto simp: line_def comp_def)
  have fs: "map ?f qs @ map (Cons HDLC_FLAG) (map ?body ps) = map ?f (qs @ ps)"
    by (simp add: packet_body_frame packet_payload_def)
  have "length (?f p) \<le> MAX_FRAME" if "p \<in> set ps" for p
    using assms(2) that by (auto simp: hdlc_frame_def MAX_FRAME_def dest!: bspec)
  then have "hdlc_fits (map ?f (qs @ ps), cur', False)"
    using rx_abs_fits [OF cur(2), of False] assms(3) s(2) by (auto simp: hdlc_fits_def cur_fits_def MAX_FRAME_def)
  from drain_uart_buffer_refines [OF cur(2) s(1) [unfolded fs] this] s(2) show ?thesis
    unfolding waiting_def by blast
qed

lemma waiting_turn:
  assumes "waiting ch ((proto, p) # ps)"
  shows "read_frame ch = Some (Some (hdlc_frame (u16_to_be_bytes proto @ p)))" "waiting (free_buffer ch) ps"
proof -
  let ?f = "\<lambda>p. hdlc_frame (u16_to_be_bytes (fst p) @ snd p)"
  obtain cur where cur: "cur = None \<or> cur = Some [HDLC_FLAG]" "rx_abs ch (?f (proto, p) # map ?f ps) cur"
    using assms by (auto simp: waiting_def)
  show "read_frame ch = Some (Some (hdlc_frame (u16_to_be_bytes proto @ p)))"
    using rx.head_frame [of ch "?f (proto, p)" "map ?f ps"] cur(2) by (auto simp: rx_queue_def)
  show "waiting (free_buffer ch) ps"
    using free_buffer_abs [OF cur(2)] cur(1) unfolding waiting_def by blast
qed

lemma waiting_idle: "waiting ch [] \<Longrightarrow> read_frame ch = Some None"
  using rx.head_empty [of ch] by (auto simp: waiting_def rx_queue_def)

lemma waiting_new: "waiting recv_new []"
  using rx_abs_new by (auto simp: waiting_def)

text \<open>The turns, frame by frame.\<close>

lemma turn_packet:
  assumes "waiting ch ((proto, p) # ps)" and "ppp_dispatch (hdlc_frame (u16_to_be_bytes proto @ p)) net = Some (f, net')"
  shows "ppp_turn cap ch net = Some (f, free_buffer ch, net')"
  using waiting_turn(1) [OF assms(1)] assms(2) by (simp add: ppp_turn_def)

lemma turn_idle:
  assumes "waiting ch []" and "ppp_idle cap net = Some (f, net', up)"
  shows "ppp_turn cap ch net = Some (f, ch, net')"
  using waiting_idle [OF assms(1)] assms(2) by (simp add: ppp_turn_def)

section \<open>The link comes up\<close>

definition net_is :: "Net \<Rightarrow> S \<Rightarrow> S \<Rightarrow> IpcpState \<Rightarrow> u8 list list \<Rightarrow> ipv4 list \<Rightarrow> bool" where
  "net_is net l i st rq addrs \<longleftrightarrow> ca_state (pi_lcp (net_inner net)) = l \<and> ca_state (pi_ipcp (net_inner net)) = i
    \<and> ca_inner (pi_ipcp (net_inner net)) = st \<and> pi_ip_recv_queue (net_inner net) = rq
    \<and> pi_ip_xmit_queue (net_inner net) = [] \<and> net_addrs net = addrs"

lemma idle_opens_lcp:
  assumes "net_is net Closed Closed st rq addrs"
  shows "\<exists>b net'. ppp_idle cap net = Some ([b], net', False) \<and> net_is net' ReqSent Closed st rq addrs"
proof -
  obtain b where "send_configure_request Lcp ((pi_lcp (net_inner net))\<lparr>ca_state := ReqSent\<rparr>) =
      Some ([b], (pi_lcp (net_inner net))\<lparr>ca_state := ReqSent, ca_scr_id := ca_scr_id (pi_lcp (net_inner net)) + 1\<rparr>)"
    using lcp_open [of "(pi_lcp (net_inner net))\<lparr>ca_state := ReqSent\<rparr>"] by auto
  with assms show ?thesis
    by (simp add: ppp_idle_def ppp_poll_def ctl_open_def ctl_set_state_def net_is_def is_layer_up_def is_closed_def Let_def)
qed

lemma lcp_ack_turn:
  assumes "net_is net ReqSent i st rq addrs"
  shows "\<exists>net'. ppp_dispatch (hdlc_frame (u16_to_be_bytes PROTO_LCP @ control_packet ConfAck ident lcp_request_options)) net = Some ([], net')
    \<and> net_is net' AckReceived i st rq addrs"
  using assms ctl_ack [of "pi_lcp (net_inner net)" AckReceived lcp_request_options Lcp ident]
  by (simp add: ppp_dispatch_frame recv_lcp_def net_is_def Let_def lcp_request_options_def)

lemma lcp_req_turn:
  assumes "net_is net AckReceived i st rq addrs" and "lcp_acceptable os" and "4 + length (tlvs os) < PPP_MRU"
  shows "\<exists>b net'. ppp_dispatch (hdlc_frame (u16_to_be_bytes PROTO_LCP @ control_packet ConfReq ident (tlvs os))) net = Some ([b], net')
    \<and> net_is net' Opened i st rq addrs"
  using assms(1) lcp_request [OF assms(2,3), of "pi_lcp (net_inner net)" Opened ident]
  by (auto simp: ppp_dispatch_frame recv_lcp_def net_is_def Let_def)

lemma idle_opens_ipcp:
  assumes "net_is net Opened Closed st rq addrs"
  shows "\<exists>b net'. ppp_idle cap net = Some ([b], net', False) \<and> net_is net' Opened ReqSent st rq addrs"
proof -
  obtain b where "send_configure_request Ipcp ((pi_ipcp (net_inner net))\<lparr>ca_state := ReqSent\<rparr>) =
      Some ([b], (pi_ipcp (net_inner net))\<lparr>ca_state := ReqSent, ca_scr_id := ca_scr_id (pi_ipcp (net_inner net)) + 1\<rparr>)"
    using ipcp_open [of "(pi_ipcp (net_inner net))\<lparr>ca_state := ReqSent\<rparr>"] by auto
  with assms show ?thesis
    by (simp add: ppp_idle_def ppp_poll_def ctl_open_def ctl_set_state_def net_is_def is_layer_up_def is_closed_def Let_def)
qed

lemmas ipcp_turn_defs = ppp_dispatch_frame recv_ipcp_def net_is_def Let_def PROTO_LCP_def PROTO_IPCP_def is_layer_up_def

lemma ipcp_nak_turn:
  assumes "net_is net Opened ReqSent st rq addrs"
  shows "\<exists>b net'. ppp_dispatch (hdlc_frame (u16_to_be_bytes PROTO_IPCP @ control_packet ConfNak ident (addr_option a))) net = Some ([b], net')
    \<and> net_is net' Opened ReqSent (set_host_ip a st) rq addrs"
  using assms ipcp_nak [of "pi_ipcp (net_inner net)" ident a] by (auto simp: ipcp_turn_defs)

lemma ipcp_ack_turn:
  assumes "net_is net Opened ReqSent st rq addrs"
  shows "\<exists>net'. ppp_dispatch (hdlc_frame (u16_to_be_bytes PROTO_IPCP @ control_packet ConfAck ident (addr_option a))) net = Some ([], net')
    \<and> net_is net' Opened AckReceived st rq addrs"
  using assms ctl_ack [of "pi_ipcp (net_inner net)" AckReceived "addr_option a" Ipcp ident] by (auto simp: ipcp_turn_defs)

lemma ipcp_req_turn:
  assumes "net_is net Opened AckReceived st rq addrs"
  shows "\<exists>b net'. ppp_dispatch (hdlc_frame (u16_to_be_bytes PROTO_IPCP @ control_packet ConfReq ident (addr_option p))) net = Some ([b], net')
    \<and> net_is net' Opened Opened (st\<lparr>ip_peer_address := Some p\<rparr>) rq addrs"
  using assms ipcp_request [of "pi_ipcp (net_inner net)" Opened ident p] by (auto simp: ipcp_turn_defs)

lemma idle_takes_address:
  assumes "net_is net Opened Opened st rq []" and "ip_prev_host_address st = Some None" and "ip_host_address st = Some a" and "0 < cap"
  shows "\<exists>net'. ppp_idle cap net = Some ([], net', True) \<and> net_is net' Opened Opened (st\<lparr>ip_prev_host_address := None\<rparr>) rq [a]"
  using assms by (simp add: ppp_idle_def ppp_poll_up links_up_def is_layer_up_def net_is_def get_host_addr_update_def
      update_ip_addrs_def Let_def)

lemma ip_turn:
  assumes "net_is net Opened Opened st rq addrs"
  shows "\<exists>net'. ppp_dispatch (hdlc_frame (u16_to_be_bytes PROTO_IP @ data)) net = Some ([], net') \<and> net_is net' Opened Opened st (rq @ [data]) addrs"
  using assms by (simp add: ppp_dispatch_frame net_is_def Let_def PROTO_LCP_def PROTO_IPCP_def PROTO_IP_def is_layer_up_def recv_ip_def)



theorem long_unknown_protocol_panics_witness:
  "\<exists>ch net. ppp_turn 2 ch net = None \<and> rx_queue ch [hdlc_frame (u16_to_be_bytes 0x80fd @ replicate 1494 0)] \<and> is_layer_up (pi_lcp (net_inner net))"
proof -
  let ?p = "(0x80fd :: u16, replicate 1494 0 :: u8 list)" and ?net = "net_new\<lparr>net_inner := up_inner\<rparr>"
  obtain ch where "waiting ch [?p]"
    using waiting_irq [OF waiting_new, of "[?p]"] by (auto simp: PPP_MRU_def CHANNEL_MAX_FRAMES_def)
  then have q: "rx_queue ch [hdlc_frame (u16_to_be_bytes 0x80fd @ replicate 1494 0)]"
    by (auto simp: waiting_def rx_queue_def)
  have up: "is_layer_up (pi_lcp (net_inner ?net))"
    by (simp add: up_inner_def is_layer_up_def)
  have "ppp_turn 2 ch ?net = None"
    by (rule long_unknown_protocol_panics [OF up _ _ q]) (simp_all add: PROTO_LCP_def PROTO_IPCP_def PROTO_IP_def)
  with up q show ?thesis
    by blast
qed

section \<open>Console output\<close>

text \<open>What is still to be written.\<close>

definition ux_pending :: "UartXmit \<Rightarrow> u8 list" where
  "ux_pending self = (case ux_strings self of [] \<Rightarrow> [] | s # ss \<Rightarrow> drop (ux_index self) s @ concat ss)"

lemma ux_inner_spec:
  "ux_inner room head i = (w, r, i', fin) \<Longrightarrow> i \<le> length head \<Longrightarrow>
    w = take (i' - i) (drop i head) \<and> i \<le> i' \<and> i' \<le> length head \<and> r + (i' - i) = room \<and> fin = (i' = length head) \<and> (\<not> fin \<longrightarrow> r = 0)"
proof (induction room arbitrary: i w r i' fin)
  case (Suc room)
  show ?case
  proof (cases "i < length head")
    case True
    obtain w1 r1 i1 f1 where rec: "ux_inner room head (i + 1) = (w1, r1, i1, f1)"
      by (metis prod_cases4)
    then have eq: "w = head ! i # w1" "r = r1" "i' = i1" "fin = f1"
      using Suc.prems(1) True by simp_all
    from Suc.IH [OF rec] True have IH: "w1 = take (i1 - (i + 1)) (drop (i + 1) head)" "i + 1 \<le> i1" "i1 \<le> length head"
      "r1 + (i1 - (i + 1)) = room" "f1 = (i1 = length head)" "\<not> f1 \<longrightarrow> r1 = 0"
      by simp_all
    have "take (i1 - i) (drop i head) = head ! i # take (i1 - (i + 1)) (drop (i + 1) head)"
      using True IH(2) by (simp add: Cons_nth_drop_Suc [symmetric] take_Cons')
    with IH eq show ?thesis
      by simp
  next
    case False
    with Suc.prems show ?thesis
      by auto
  qed
qed auto

lemma ux_loop_spec:
  "ux_loop room ss i = (w, ss', i', d) \<Longrightarrow> (case ss of [] \<Rightarrow> i = 0 | s # _ \<Rightarrow> i \<le> length s) \<Longrightarrow>
    ux_pending \<lparr>ux_strings = ss, ux_index = i\<rparr> = w @ ux_pending \<lparr>ux_strings = ss', ux_index = i'\<rparr>
    \<and> d = (ss' = []) \<and> (case ss' of [] \<Rightarrow> i' = 0 | s # _ \<Rightarrow> i' \<le> length s) \<and> (\<not> d \<longrightarrow> length w = room)"
proof (induction ss arbitrary: room i w ss' i' d)
  case Nil
  then show ?case
    by (simp add: ux_pending_def)
next
  case (Cons s ss)
  obtain w1 r1 i1 f1 where inner: "ux_inner room s i = (w1, r1, i1, f1)"
    by (metis prod_cases4)
  note I = ux_inner_spec [OF inner]
  have i: "i \<le> length s"
    using Cons.prems(2) by simp
  show ?case
  proof (cases f1)
    case True
    obtain w2 s2 i2 d2 where rec: "ux_loop r1 ss 0 = (w2, s2, i2, d2)"
      by (metis prod_cases4)
    then have eq: "w = w1 @ w2" "ss' = s2" "i' = i2" "d = d2"
      using Cons.prems(1) inner True by simp_all
    have w1: "w1 = drop i s" "length w1 + r1 = room"
      using I i True by auto
    have "ux_pending \<lparr>ux_strings = ss, ux_index = 0\<rparr> = concat ss"
      by (cases ss) (simp_all add: ux_pending_def)
    with Cons.IH [OF rec] w1 eq show ?thesis
      by (auto simp: ux_pending_def split: list.splits)
  next
    case False
    then have eq: "w = w1" "ss' = s # ss" "i' = i1" "\<not> d"
      using Cons.prems(1) inner by simp_all
    have "drop i s = w1 @ drop i1 s" "length w1 = room"
      using I i False by (metis append_take_drop_id drop_drop le_add_diff_inverse2) (use I i False in auto)
    with I [THEN conjunct2] i False eq show ?thesis
      by (auto simp: ux_pending_def)
  qed
qed

definition ux_ok :: "UartXmit \<Rightarrow> bool" where
  "ux_ok self \<longleftrightarrow> (case ux_strings self of [] \<Rightarrow> ux_index self = 0 | s # _ \<Rightarrow> ux_index self \<le> length s)"

lemma write_string_pending:
  assumes "ux_ok xmit" and "write_string room s xmit etbei = (w, xmit', etbei')"
  shows "ux_pending xmit @ s = w @ ux_pending xmit'" "ux_ok xmit'" "ux_pending xmit' \<noteq> [] \<Longrightarrow> etbei'"
proof -
  obtain ss' i' d where l: "ux_loop room (ux_strings xmit @ [s]) (ux_index xmit) = (w, ss', i', d)"
    "xmit' = \<lparr>ux_strings = ss', ux_index = i'\<rparr>" "etbei' = (etbei \<or> \<not> d)"
    using assms(2) by (auto simp: write_string_def ux_write_out_def split: prod.splits)
  have "case ux_strings xmit @ [s] of [] \<Rightarrow> ux_index xmit = 0 | s # _ \<Rightarrow> ux_index xmit \<le> length s"
    using assms(1) by (auto simp: ux_ok_def split: list.splits)
  note spec = ux_loop_spec [OF l(1) this]
  have "ux_pending \<lparr>ux_strings = ux_strings xmit @ [s], ux_index = ux_index xmit\<rparr> = ux_pending xmit @ s"
    using assms(1) by (auto simp: ux_pending_def ux_ok_def split: list.splits)
  with spec l show "ux_pending xmit @ s = w @ ux_pending xmit'" "ux_ok xmit'" "ux_pending xmit' \<noteq> [] \<Longrightarrow> etbei'"
    by (auto simp: ux_ok_def ux_pending_def split: list.splits)
qed

end
