(* ===== verification/Ticket_Lock.thy ===== *)
theory Ticket_Lock
  imports Prelude
begin

text \<open>
  The ticket lock of quartz (\<open>device/quartz/src/arch/arm1176/sync/ticket.rs\<close>): one word, in its lower half the ticket that
  is served, in its upper half the next ticket. The exclusive load and store make one atomic step, a failed store repeats
  it; an interleaving of the threads is a schedule, a list of thread and action. Barriers and events are left out.
\<close>

section \<open>The word\<close>

definition NEXT_LSB :: u32 where "NEXT_LSB = push_bit 16 1"

definition tl_owner :: "u32 \<Rightarrow> u16" where "tl_owner raw = ucast raw"
definition tl_next :: "u32 \<Rightarrow> u16" where "tl_next raw = ucast (drop_bit 16 raw)"

text \<open>Where a thread is: outside, in the waiting loop with its copy of the word, or in the critical section.\<close>

datatype lock_pc = Outside | Spinning u16 u16 | Holding

definition lock_draw :: "u32 \<Rightarrow> u32 \<times> lock_pc" where
  "lock_draw raw = (raw + NEXT_LSB, Spinning (tl_owner raw) (tl_next raw))"

definition lock_spin :: "u32 \<Rightarrow> u16 \<Rightarrow> u16 \<Rightarrow> lock_pc" where
  "lock_spin raw own nxt = (if own \<noteq> nxt then Spinning (tl_owner raw) nxt else Holding)"

definition ror16 :: "u32 \<Rightarrow> u32" where
  "ror16 t = drop_bit 16 t OR push_bit 16 t"

definition lock_try :: "u32 \<Rightarrow> u32 \<times> bool" where
  "lock_try raw = (let contended = raw - ror16 raw in
     if contended = 0 then (raw + NEXT_LSB, True) else (raw, False))"

definition lock_unlock :: "u32 \<Rightarrow> u32" where
  "lock_unlock raw = raw + 1"

section \<open>Threads\<close>

datatype lock_action = Draw | Spin | Try | Unlock

record lock_sys =
  ls_raw :: u32
  ls_pc :: "nat \<Rightarrow> lock_pc"

definition lock_init :: lock_sys where
  "lock_init = \<lparr>ls_raw = 0, ls_pc = (\<lambda>_. Outside)\<rparr>"

fun lock_act :: "nat \<Rightarrow> lock_action \<Rightarrow> lock_sys \<Rightarrow> lock_sys option" where
  "lock_act i Draw s = (if ls_pc s i = Outside
     then let (raw, pc) = lock_draw (ls_raw s) in Some \<lparr>ls_raw = raw, ls_pc = (ls_pc s)(i := pc)\<rparr> else None)"
| "lock_act i Spin s = (case ls_pc s i of
     Spinning own nxt \<Rightarrow> Some (s\<lparr>ls_pc := (ls_pc s)(i := lock_spin (ls_raw s) own nxt)\<rparr>) | _ \<Rightarrow> None)"
| "lock_act i Try s = (if ls_pc s i = Outside
     then let (raw, ok) = lock_try (ls_raw s) in Some \<lparr>ls_raw = raw, ls_pc = (ls_pc s)(i := if ok then Holding else Outside)\<rparr>
     else None)"
| "lock_act i Unlock s = (if ls_pc s i = Holding
     then Some \<lparr>ls_raw = lock_unlock (ls_raw s), ls_pc = (ls_pc s)(i := Outside)\<rparr> else None)"

text \<open>A schedule of \<open>N\<close> threads.\<close>

fun lock_run :: "nat \<Rightarrow> (nat \<times> lock_action) list \<Rightarrow> lock_sys \<Rightarrow> lock_sys option" where
  "lock_run N [] s = Some s"
| "lock_run N ((i, a) # sched) s = (if i < N then do { s \<leftarrow> lock_act i a s; lock_run N sched s } else None)"

definition unlocks :: "(nat \<times> lock_action) list \<Rightarrow> nat" where
  "unlocks sched = length (filter (\<lambda>(i, a). a = Unlock) sched)"

section \<open>Tickets\<close>

text \<open>\<open>served\<close> and \<open>taken\<close> count the tickets without wrap-around, \<open>tk\<close> is each thread's ticket and \<open>sv\<close> the number that
  was served when the thread last looked.\<close>

definition lock_inv :: "nat \<Rightarrow> nat \<Rightarrow> nat \<Rightarrow> (nat \<Rightarrow> nat) \<Rightarrow> (nat \<Rightarrow> nat) \<Rightarrow> lock_sys \<Rightarrow> bool" where
  "lock_inv N served taken tk sv s \<longleftrightarrow> ls_raw s = of_nat (served + 65536 * taken) \<and> served \<le> taken
    \<and> (\<forall>i. N \<le> i \<longrightarrow> ls_pc s i = Outside)
    \<and> bij_betw tk {i. ls_pc s i \<noteq> Outside} {served..<taken}
    \<and> (\<forall>i. ls_pc s i = Holding \<longrightarrow> tk i = served)
    \<and> (\<forall>i own nxt. ls_pc s i = Spinning own nxt \<longrightarrow>
        nxt = of_nat (tk i) \<and> own = of_nat (sv i) \<and> sv i \<le> served \<and> tk i < sv i + 65536)"

lemma tl_owner_of_nat: "tl_owner (of_nat (served + 65536 * taken)) = of_nat served"
proof (rule word_unat_eq_iff [THEN iffD2])
  show "unat (tl_owner (of_nat (served + 65536 * taken))) = unat (of_nat served :: u16)"
    unfolding tl_owner_def unsigned_ucast_eq by (simp add: unat_of_nat take_bit_eq_mod mod_mod_cancel del: of_nat_add of_nat_mult)
qed

lemma tl_next_of_nat:
  assumes "served < 65536"
  shows "tl_next (of_nat (served + 65536 * taken)) = of_nat taken"
proof (rule word_unat_eq_iff [THEN iffD2])
  let ?n = "served + 65536 * taken"
  have "?n mod 4294967296 div 65536 = ?n div 65536 mod 65536"
    using mod_mult2_eq [of ?n 65536 65536] by simp
  also have "?n div 65536 = taken"
    using assms by simp
  finally show "unat (tl_next (of_nat ?n)) = unat (of_nat taken :: u16)"
    unfolding tl_next_def unsigned_ucast_eq unat_drop_bit_eq unat_of_nat by (simp add: drop_bit_eq_div take_bit_eq_mod)
qed

lemma u16_of_nat_eq:
  assumes "(of_nat a :: u16) = of_nat b" and "a \<le> b" and "b < a + 65536"
  shows "a = b"
proof -
  have "a mod 65536 = b mod 65536"
    using arg_cong [OF assms(1), of unat] by (simp add: unat_of_nat)
  then have "65536 dvd b - a"
    using assms(2) by (metis mod_eq_dvd_iff_nat)
  then show ?thesis
    using assms(2,3) dvd_imp_le [of 65536 "b - a"] by linarith
qed

lemma lock_inv_init: "lock_inv N 0 0 tk sv lock_init"
  by (simp add: lock_inv_def lock_init_def bij_betw_def)

lemma lock_invD:
  assumes "lock_inv N served taken tk sv s"
  shows "ls_raw s = of_nat (served + 65536 * taken)" "served \<le> taken" "N \<le> i \<Longrightarrow> ls_pc s i = Outside"
    "bij_betw tk {i. ls_pc s i \<noteq> Outside} {served..<taken}" "ls_pc s i = Holding \<Longrightarrow> tk i = served"
    "ls_pc s i = Spinning own nxt \<Longrightarrow> nxt = of_nat (tk i) \<and> own = of_nat (sv i) \<and> sv i \<le> served \<and> tk i < sv i + 65536"
  using assms unfolding lock_inv_def by blast+

text \<open>Fewer tickets are out than there are threads.\<close>

lemma lock_inv_out:
  assumes "lock_inv N served taken tk sv s"
  shows "taken \<le> served + N" "i < N \<Longrightarrow> ls_pc s i = Outside \<Longrightarrow> taken < served + N"
proof -
  let ?A = "{i. ls_pc s i \<noteq> Outside}"
  have sub: "?A \<subseteq> {..<N}"
    using assms by (auto simp: lock_inv_def not_less [symmetric])
  have card: "card ?A = taken - served"
    using assms bij_betw_same_card [of tk ?A "{served..<taken}"] by (simp add: lock_inv_def)
  have "served \<le> taken"
    using assms by (simp add: lock_inv_def)
  then show "taken \<le> served + N"
    using card card_mono [OF _ sub] by simp
  assume i: "i < N" "ls_pc s i = Outside"
  then have "?A \<subset> {..<N}"
    using sub by auto
  then have "card ?A < N"
    using psubset_card_mono [of "{..<N}" ?A] by simp
  with card \<open>served \<le> taken\<close> show "taken < served + N"
    by simp
qed

lemma bij_betw_insert_upd:
  assumes "bij_betw f A B" and "i \<notin> A" and "b \<notin> B"
  shows "bij_betw (f(i := b)) (insert i A) (insert b B)"
proof -
  have "bij_betw (f(i := b)) A B"
    using assms(1,2) by (subst bij_betw_cong [of _ _ f]) auto
  from notIn_Un_bij_betw [OF assms(2) _ this] assms(3) show ?thesis
    by simp
qed

lemma lock_inv_draw:
  assumes inv: "lock_inv N served taken tk sv s" and "i < N" and "N < 65536" and "served < 65536"
    and act: "lock_act i Draw s = Some s'"
  shows "lock_inv N served (Suc taken) (tk(i := taken)) (sv(i := served)) s'"
proof -
  have out: "ls_pc s i = Outside" and s': "s' = \<lparr>ls_raw = ls_raw s + NEXT_LSB, ls_pc = (ls_pc s)(i := Spinning (tl_owner (ls_raw s)) (tl_next (ls_raw s)))\<rparr>"
    using act by (auto simp: lock_draw_def split: if_splits)
  have raw: "ls_raw s = of_nat (served + 65536 * taken)" and le: "served \<le> taken"
    using inv by (simp_all add: lock_inv_def)
  have lsb: "ls_raw s + NEXT_LSB = of_nat (served + 65536 * Suc taken)"
    by (simp add: raw NEXT_LSB_def)
  have "bij_betw (tk(i := taken)) (insert i {j. ls_pc s j \<noteq> Outside}) (insert taken {served..<taken})"
    using inv out by (intro bij_betw_insert_upd) (simp_all add: lock_inv_def)
  moreover have "{j. ls_pc s' j \<noteq> Outside} = insert i {j. ls_pc s j \<noteq> Outside}" "insert taken {served..<taken} = {served..<Suc taken}"
    using le by (auto simp: s')
  ultimately have bij: "bij_betw (tk(i := taken)) {j. ls_pc s' j \<noteq> Outside} {served..<Suc taken}"
    by simp
  have "taken < served + 65536"
    using lock_inv_out(2) [OF inv assms(2) out] assms(3) by simp
  then show ?thesis
    using inv bij lsb assms(2,4) unfolding lock_inv_def
    by (auto simp: s' raw tl_owner_of_nat tl_next_of_nat simp del: of_nat_add of_nat_mult mult_Suc_right)
qed

lemma lock_inv_spin:
  assumes inv: "lock_inv N served taken tk sv s" and "N < 65536" and "served < 65536"
    and act: "lock_act i Spin s = Some s'"
  shows "lock_inv N served taken tk (sv(i := served)) s'"
proof -
  obtain own nxt where pc: "ls_pc s i = Spinning own nxt" and s': "s' = s\<lparr>ls_pc := (ls_pc s)(i := lock_spin (ls_raw s) own nxt)\<rparr>"
    using act by (auto split: lock_pc.splits)
  from inv pc have loc: "nxt = of_nat (tk i)" "own = of_nat (sv i)" "sv i \<le> served" "tk i < sv i + 65536"
    by (auto simp: lock_inv_def)
  have "tk i \<in> {served..<taken}"
    using inv pc bij_betwE [of tk "{i. ls_pc s i \<noteq> Outside}" "{served..<taken}"] by (auto simp: lock_inv_def)
  then have tk: "served \<le> tk i" "tk i < served + 65536"
    using lock_inv_out(1) [OF inv] assms(2) by auto
  have hold: "own = nxt \<Longrightarrow> tk i = served"
    using u16_of_nat_eq [of "sv i" "tk i"] loc tk by auto
  have act: "{j. ls_pc s' j \<noteq> Outside} = {j. ls_pc s j \<noteq> Outside}"
    using pc by (auto simp: s' lock_spin_def)
  have raw: "ls_raw s = of_nat (served + 65536 * taken)"
    using inv by (simp add: lock_inv_def)
  show ?thesis
    unfolding lock_inv_def
  proof (intro conjI allI impI)
    show "ls_raw s' = of_nat (served + 65536 * taken)"
      by (simp add: s' raw)
    show "served \<le> taken" "bij_betw tk {j. ls_pc s' j \<noteq> Outside} {served..<taken}"
      unfolding act by (rule lock_invD [OF inv])+
    show "ls_pc s' j = Outside" if "N \<le> j" for j
      using lock_invD(3) [OF inv that] pc by (auto simp: s')
    show "tk j = served" if "ls_pc s' j = Holding" for j
      using that hold lock_invD(5) [OF inv, of j] by (auto simp: s' lock_spin_def split: if_splits)
    fix j o1 n1 assume j: "ls_pc s' j = Spinning o1 n1"
    have "j = i \<Longrightarrow> o1 = of_nat served \<and> n1 = nxt"
      using j by (auto simp: s' lock_spin_def raw tl_owner_of_nat simp del: of_nat_add of_nat_mult split: if_splits)
    moreover have "j \<noteq> i \<Longrightarrow> ls_pc s j = Spinning o1 n1"
      using j by (simp add: s')
    ultimately show "n1 = of_nat (tk j)" "o1 = of_nat ((sv(i := served)) j)" "(sv(i := served)) j \<le> served"
      "tk j < (sv(i := served)) j + 65536"
      using loc(1) tk(2) lock_invD(6) [OF inv, of j o1 n1] by (cases "j = i"; simp)+
  qed
qed

lemma lock_try_free:
  assumes "served < 65536" and "served \<le> taken" and "taken < served + 65536"
  shows "(of_nat (served + 65536 * taken) :: u32) - ror16 (of_nat (served + 65536 * taken)) = 0 \<Longrightarrow> taken = served"
proof -
  let ?w = "of_nat (served + 65536 * taken) :: u32"
  assume "?w - ror16 ?w = 0"
  then have "tl_owner ?w = tl_owner (ror16 ?w)"
    by simp
  moreover have "tl_owner (ror16 w) = tl_next w" for w
    unfolding tl_owner_def tl_next_def ror16_def by (rule bit_word_eqI) (auto simp: bit_simps)
  ultimately have "(of_nat served :: u16) = of_nat taken"
    using assms(1) by (simp add: tl_owner_of_nat tl_next_of_nat del: of_nat_add of_nat_mult)
  then show "taken = served"
    using u16_of_nat_eq [of served taken] assms(2,3) by simp
qed

lemma lock_inv_try:
  assumes inv: "lock_inv N served taken tk sv s" and "i < N" and "N < 65536" and "served < 65536"
    and act: "lock_act i Try s = Some s'"
  shows "lock_inv N served (if ls_pc s' i = Holding then Suc taken else taken) (tk(i := taken)) sv s'"
proof (cases "snd (lock_try (ls_raw s))")
  case False
  then have "s' = s"
    using act by (cases s) (auto simp: lock_try_def Let_def fun_upd_idem split: if_splits)
  moreover have "ls_pc s i = Outside"
    using act by (auto split: if_splits)
  moreover have "bij_betw (tk(i := taken)) {j. ls_pc s j \<noteq> Outside} {served..<taken}"
    using inv \<open>ls_pc s i = Outside\<close> by (subst bij_betw_cong [of _ _ tk]) (auto simp: lock_inv_def)
  ultimately show ?thesis
    using inv unfolding lock_inv_def by auto
next
  case True
  have out: "ls_pc s i = Outside"
    using act by (auto split: if_splits)
  have s': "s' = \<lparr>ls_raw = ls_raw s + NEXT_LSB, ls_pc = (ls_pc s)(i := Holding)\<rparr>"
    using act True out by (auto simp: lock_try_def Let_def split: if_splits)
  have raw: "ls_raw s = of_nat (served + 65536 * taken)" and le: "served \<le> taken"
    using inv by (simp_all add: lock_inv_def)
  have "ls_raw s - ror16 (ls_raw s) = 0"
    using True by (simp add: lock_try_def Let_def split: if_splits)
  then have free: "taken = served"
    using lock_try_free [of served taken] lock_inv_out(1) [OF inv] assms(3,4) le unfolding raw by simp
  then have "bij_betw tk {j. ls_pc s j \<noteq> Outside} {}"
    using inv by (simp add: lock_inv_def)
  then have none: "ls_pc s j = Outside" for j
    by (auto simp: bij_betw_def)
  have "ls_raw s + NEXT_LSB = of_nat (served + 65536 * Suc taken)"
    by (simp add: raw NEXT_LSB_def)
  then show ?thesis
    using free none assms(2) unfolding lock_inv_def
    by (auto simp: s' bij_betw_def simp del: of_nat_add of_nat_mult mult_Suc_right)
qed

lemma lock_inv_unlock:
  assumes inv: "lock_inv N served taken tk sv s" and act: "lock_act i Unlock s = Some s'"
  shows "lock_inv N (Suc served) taken tk sv s'"
proof -
  have pc: "ls_pc s i = Holding" and s': "s' = \<lparr>ls_raw = ls_raw s + 1, ls_pc = (ls_pc s)(i := Outside)\<rparr>"
    using act by (auto simp: lock_unlock_def split: if_splits)
  let ?A = "{j. ls_pc s j \<noteq> Outside}"
  have bij: "bij_betw tk ?A {served..<taken}" and tk: "tk i = served"
    using inv pc by (auto simp: lock_inv_def)
  have "tk i \<in> {served..<taken}"
    using bij_betwE [OF bij] pc by auto
  then have lt: "served < taken"
    by simp
  have "bij_betw tk (?A - {i}) ({served..<taken} - {tk i})"
    using bij pc by (intro bij_betw_DiffI) (auto simp: bij_betw_def)
  moreover have "?A - {i} = {j. ls_pc s' j \<noteq> Outside}" "{served..<taken} - {tk i} = {Suc served..<taken}"
    using tk lt by (auto simp: s')
  ultimately have bij': "bij_betw tk {j. ls_pc s' j \<noteq> Outside} {Suc served..<taken}"
    by simp
  have others: "ls_pc s j \<noteq> Holding" if "j \<noteq> i" for j
  proof
    assume j: "ls_pc s j = Holding"
    then have "tk j = tk i"
      using lock_invD(5) [OF inv] tk by simp
    then show False
      using inj_onD [OF bij_betw_imp_inj_on [OF bij], of j i] j pc that by simp
  qed
  show ?thesis
    unfolding lock_inv_def
  proof (intro conjI allI impI)
    show "ls_raw s' = of_nat (Suc served + 65536 * taken)"
      using lock_invD(1) [OF inv] by (simp add: s')
    show "Suc served \<le> taken" "bij_betw tk {j. ls_pc s' j \<noteq> Outside} {Suc served..<taken}"
      using lt bij' by simp_all
    show "ls_pc s' j = Outside" if "N \<le> j" for j
      using lock_invD(3) [OF inv that] by (simp add: s')
    show "tk j = Suc served" if "ls_pc s' j = Holding" for j
      using that others [of j] by (simp add: s' split: if_splits)
    fix j o1 n1 assume "ls_pc s' j = Spinning o1 n1"
    then have "ls_pc s j = Spinning o1 n1"
      by (simp add: s' split: if_splits)
    from lock_invD(6) [OF inv this] show "n1 = of_nat (tk j)" "o1 = of_nat (sv j)" "sv j \<le> Suc served" "tk j < sv j + 65536"
      by simp_all
  qed
qed

lemma lock_run_inv:
  "lock_inv N served taken tk sv s \<Longrightarrow> lock_run N sched s = Some s' \<Longrightarrow> N < 65536 \<Longrightarrow> served + unlocks sched < 65536 \<Longrightarrow>
    \<exists>taken' tk' sv'. lock_inv N (served + unlocks sched) taken' tk' sv' s'"
proof (induction sched arbitrary: served taken tk sv s)
  case Nil
  then show ?case
    by (auto simp: unlocks_def)
next
  case (Cons ia sched)
  obtain i a where ia: "ia = (i, a)"
    by (cases ia)
  obtain s1 where s1: "i < N" "lock_act i a s = Some s1" "lock_run N sched s1 = Some s'"
    using Cons.prems(2) ia by (auto split: if_splits bind_splits)
  let ?d = "if a = Unlock then 1 else 0"
  have u: "unlocks (ia # sched) = ?d + unlocks sched"
    by (simp add: unlocks_def ia)
  have "\<exists>taken1 tk1 sv1. lock_inv N (served + ?d) taken1 tk1 sv1 s1"
    using Cons.prems lock_inv_draw [of N served taken tk sv s i s1] lock_inv_spin [of N served taken tk sv s i s1]
      lock_inv_try [of N served taken tk sv s i s1] lock_inv_unlock [of N served taken tk sv s i s1] s1
    by (cases a) (auto simp del: lock_act.simps)
  then obtain taken1 tk1 sv1 where "lock_inv N (served + ?d) taken1 tk1 sv1 s1"
    by blast
  from Cons.IH [OF this s1(3)] Cons.prems(3,4) u show ?case
    by (simp add: add.assoc)
qed

lemma lock_run_append: "lock_run N (sched1 @ sched2) s = do { s \<leftarrow> lock_run N sched1 s; lock_run N sched2 s }"
  by (induction sched1 arbitrary: s) (auto split: bind_splits if_splits)

section \<open>Mutual exclusion and progress\<close>

lemma lock_inv_exclusive:
  assumes "lock_inv N served taken tk sv s" and "ls_pc s i = Holding" and "ls_pc s j = Holding"
  shows "i = j"
  using inj_onD [OF bij_betw_imp_inj_on [OF lock_invD(4) [OF assms(1)]], of i j] lock_invD(5) [OF assms(1)] assms(2,3) by simp

text \<open>The waiting thread whose ticket is served enters after at most two turns of its loop.\<close>

lemma lock_inv_progress:
  assumes inv: "lock_inv N served taken tk sv s" and "served < 65536" and act: "ls_pc s j \<noteq> Outside"
  shows "\<exists>i s'. ls_pc s i = Holding \<or> (\<exists>own nxt. ls_pc s i = Spinning own nxt) \<and> lock_act i Spin s = Some s'
    \<and> (ls_pc s' i = Holding \<or> (\<exists>s''. lock_act i Spin s' = Some s'' \<and> ls_pc s'' i = Holding))"
proof -
  have "tk j \<in> {served..<taken}"
    using bij_betwE [OF lock_invD(4) [OF inv]] act by auto
  then have "served \<in> {served..<taken}"
    by simp
  then obtain i where i: "ls_pc s i \<noteq> Outside" "tk i = served"
    using bij_betw_imp_surj_on [OF lock_invD(4) [OF inv]] by (auto simp: image_def dest!: equalityD2 [THEN subsetD])
  show ?thesis
  proof (cases "ls_pc s i")
    case (Spinning own nxt)
    let ?s1 = "s\<lparr>ls_pc := (ls_pc s)(i := lock_spin (ls_raw s) own nxt)\<rparr>"
    have s1: "lock_act i Spin s = Some ?s1"
      using Spinning by simp
    have nxt: "nxt = tl_owner (ls_raw s)"
      using lock_invD(6) [OF inv Spinning] i(2) by (simp add: lock_invD(1) [OF inv] tl_owner_of_nat del: of_nat_add of_nat_mult)
    have "ls_pc ?s1 i = Holding \<or> ls_pc ?s1 i = Spinning nxt nxt"
      by (simp add: lock_spin_def nxt)
    moreover have "\<exists>s''. lock_act i Spin ?s1 = Some s'' \<and> ls_pc s'' i = Holding" if "ls_pc ?s1 i = Spinning nxt nxt"
      using that unfolding lock_act.simps by (simp only: lock_pc.case) (simp add: lock_spin_def)
    ultimately have "ls_pc ?s1 i = Holding \<or> (\<exists>s''. lock_act i Spin ?s1 = Some s'' \<and> ls_pc s'' i = Holding)"
      by blast
    with s1 Spinning show ?thesis
      by blast
  qed (use i in auto)
qed

text \<open>
  C17. The ticket lock excludes: in every interleaving of fewer than 65536 threads with fewer than 65536 unlocks, whether
  the threads take the lock by \<open>lock\<close> or by \<open>try_lock\<close>, at most one thread holds it. And it does not deadlock: when some
  thread is waiting and none holds the lock, one of the waiting threads gets it within two turns of its own loop.\<close>

theorem ticket_lock_excludes:
  assumes "lock_run N sched lock_init = Some s" and "N < 65536" and "unlocks sched < 65536"
  shows "(\<forall>i j. ls_pc s i = Holding \<longrightarrow> ls_pc s j = Holding \<longrightarrow> i = j)
    \<and> ((\<forall>i. ls_pc s i \<noteq> Holding) \<longrightarrow> (\<exists>j. ls_pc s j \<noteq> Outside) \<longrightarrow>
        (\<exists>i s'. lock_act i Spin s = Some s' \<and> (ls_pc s' i = Holding \<or> (\<exists>s''. lock_act i Spin s' = Some s'' \<and> ls_pc s'' i = Holding))))"
proof -
  obtain taken tk sv where inv: "lock_inv N (unlocks sched) taken tk sv s"
    using lock_run_inv [OF lock_inv_init assms(1,2)] assms(3) by auto
  from lock_inv_exclusive [OF inv] lock_inv_progress [OF inv assms(3)] show ?thesis
    by blast
qed

theorem ticket_lock_excludes_witness:
  "\<exists>s. lock_run 2 [(0, Draw), (1, Draw), (0, Spin), (1, Spin), (1, Try)] lock_init = None
    \<and> lock_run 2 [(0, Draw), (1, Draw), (0, Spin), (1, Spin)] lock_init = Some s \<and> ls_pc s 0 = Holding \<and> ls_pc s 1 \<noteq> Holding"
proof -
  obtain s where s: "lock_run 2 [(0, Draw), (1, Draw), (0, Spin), (1, Spin)] lock_init = Some s" "ls_pc s 0 = Holding"
    by (simp add: lock_init_def lock_draw_def lock_spin_def tl_owner_def tl_next_def)
  moreover have "ls_pc s 1 \<noteq> Holding"
    using ticket_lock_excludes [OF s(1)] s(2) by (auto simp: unlocks_def)
  moreover have "lock_run 2 [(0, Draw), (1, Draw), (0, Spin), (1, Spin), (1, Try)] lock_init = None"
    by (simp add: lock_init_def lock_draw_def lock_spin_def tl_owner_def tl_next_def NEXT_LSB_def)
  ultimately show ?thesis
    by blast
qed

section \<open>The carry\<close>

definition lock_round :: "(nat \<times> lock_action) list" where
  "lock_round = [(0, Draw), (0, Spin), (0, Unlock)]"

lemma lock_rounds:
  "n \<le> 65536 \<Longrightarrow> lock_run 1 (concat (replicate n lock_round)) lock_init = Some \<lparr>ls_raw = of_nat (n + 65536 * n), ls_pc = (\<lambda>_. Outside)\<rparr>"
proof (induction n)
  case 0
  then show ?case
    by (simp add: lock_init_def)
next
  case (Suc n)
  let ?w = "of_nat (n + 65536 * n) :: u32"
  have same: "tl_owner ?w = tl_next ?w"
    using Suc.prems by (metis Suc_le_lessD tl_owner_of_nat tl_next_of_nat)
  have add: "?w + NEXT_LSB + 1 = of_nat (Suc n + 65536 * Suc n)"
    by (simp add: NEXT_LSB_def algebra_simps)
  have round: "lock_run 1 lock_round \<lparr>ls_raw = ?w, ls_pc = (\<lambda>_. Outside)\<rparr> = Some \<lparr>ls_raw = ?w + NEXT_LSB + 1, ls_pc = (\<lambda>_. Outside)\<rparr>"
    using same by (simp add: lock_round_def lock_draw_def lock_spin_def lock_unlock_def fun_eq_iff del: of_nat_add of_nat_mult)
  have "concat (replicate (Suc n) lock_round) = concat (replicate n lock_round) @ lock_round"
    by (simp add: replicate_append_same [symmetric])
  then show ?case
    using Suc round add by (simp add: lock_run_append del: of_nat_add of_nat_mult replicate.simps)
qed

lemma lock_spin_stuck:
  assumes "tl_owner (ls_raw s) \<noteq> nxt" and "ls_pc s 0 = Spinning own nxt" and "own \<noteq> nxt"
  shows "\<exists>s' own'. lock_run 1 (replicate n (0, Spin)) s = Some s' \<and> ls_pc s' 0 = Spinning own' nxt"
  using assms
proof (induction n arbitrary: s own)
  case (Suc n)
  let ?s = "s\<lparr>ls_pc := (ls_pc s)(0 := Spinning (tl_owner (ls_raw s)) nxt)\<rparr>"
  have "lock_act 0 Spin s = Some ?s"
    using Suc.prems by (simp add: lock_spin_def)
  with Suc.IH [of ?s "tl_owner (ls_raw s)"] Suc.prems(1) show ?case
    by simp
qed simp

text \<open>
  C38. Unlocking adds one to the whole word instead of its lower half: when the served ticket wraps around, the carry goes
  into the next ticket. After 65536 uncontended pairs of lock and unlock the lock is free, but its word says that a ticket is
  out; \<open>try_lock\<close> fails, and the thread that calls \<open>lock\<close> next waits forever, however often it turns in its loop.\<close>

theorem ticket_lock_stuck_after_wrap:
  "\<exists>s s'. lock_run 1 (concat (replicate 65536 lock_round)) lock_init = Some s \<and> (\<forall>i. ls_pc s i = Outside)
    \<and> \<not> snd (lock_try (ls_raw s)) \<and> lock_act 0 Draw s = Some s'
    \<and> (\<forall>n. \<exists>s''. lock_run 1 (replicate n (0, Spin)) s' = Some s'' \<and> ls_pc s'' 0 \<noteq> Holding)"
proof -
  let ?s = "\<lparr>ls_raw = 65536, ls_pc = (\<lambda>_. Outside)\<rparr>"
  have "(of_nat (65536 + 65536 * 65536) :: u32) = 65536"
    by simp
  then have s: "lock_run 1 (concat (replicate 65536 lock_round)) lock_init = Some ?s"
    using lock_rounds [of 65536] by (simp only: order_refl)
  have fails: "\<not> snd (lock_try (ls_raw ?s))"
    by (simp add: lock_try_def ror16_def)
  let ?s' = "\<lparr>ls_raw = 131072, ls_pc = (\<lambda>_. Outside)(0 := Spinning 0 1)\<rparr>"
  have s': "lock_act 0 Draw ?s = Some ?s'"
    by (simp add: lock_draw_def NEXT_LSB_def tl_owner_def tl_next_def fun_eq_iff)
  have "\<exists>s''. lock_run 1 (replicate n (0, Spin)) ?s' = Some s'' \<and> ls_pc s'' 0 \<noteq> Holding" for n
    using lock_spin_stuck [of ?s' 1 0 n] by (auto simp: tl_owner_def)
  with s fails s' show ?thesis
    by (intro exI [of _ ?s] exI [of _ ?s']) simp
qed

end
