(* ===== verification/Once_Lock.thy ===== *)
theory Once_Lock
  imports Prelude
begin

text \<open>
  The cell that is initialised once (\<open>device/quartz/src/sync/once.rs\<close>, \<open>OnceLock\<close>): its operations on the atomic state, and
  threads that call \<open>get_or_init\<close> and \<open>set\<close> in any interleaving of their atomic steps. A schedule is a list of
  threads with their actions: to begin a call, or to take the next step of the call. Barriers and events are left out.
\<close>

definition ONCE_UNINIT :: u32 where "ONCE_UNINIT = 0"
definition ONCE_RUNNING :: u32 where "ONCE_RUNNING = 1"
definition ONCE_READY :: u32 where "ONCE_READY = 2"

text \<open>\<open>None\<close> in the cell is uninitialised memory.\<close>

record 'a OnceLock =
  ol_state :: u32
  ol_inner :: "'a option"

definition once_new :: "'a OnceLock" where
  "once_new = \<lparr>ol_state = ONCE_UNINIT, ol_inner = None\<rparr>"

definition once_is_set :: "'a OnceLock \<Rightarrow> bool" where
  "once_is_set self \<longleftrightarrow> ol_state self = ONCE_READY"

definition once_get :: "'a OnceLock \<Rightarrow> 'a option option" where
  "once_get self = (if ol_state self = ONCE_READY then Some (ol_inner self) else None)"

text \<open>\<open>compare_exchange\<close> on the state.\<close>

definition once_cas :: "u32 \<Rightarrow> u32 \<Rightarrow> 'a OnceLock \<Rightarrow> bool \<times> 'a OnceLock" where
  "once_cas old new self = (if ol_state self = old then (True, self\<lparr>ol_state := new\<rparr>) else (False, self))"

text \<open>Where a call is: before it, about to write the value, about to store the state, waiting for the state,
  returned with what is in the cell; and the same for \<open>set\<close>.\<close>

datatype 'a once_pc = OIdle | OWrite 'a | OStore | OWait | ODone "'a option" | OSetWrite 'a | OSetDone bool

datatype 'a once_action = GetOrInit 'a | Set 'a | Step

record 'a once_sys =
  os_cell :: "'a OnceLock"
  os_pc :: "nat \<Rightarrow> 'a once_pc"

definition once_init :: "'a once_sys" where
  "once_init = \<lparr>os_cell = once_new, os_pc = (\<lambda>_. OIdle)\<rparr>"

fun once_step :: "'a once_pc \<Rightarrow> 'a OnceLock \<Rightarrow> ('a once_pc \<times> 'a OnceLock) option" where
  "once_step (OWrite v) cell = Some (OStore, cell\<lparr>ol_inner := Some v\<rparr>)"
| "once_step OStore cell = Some (ODone (ol_inner cell), cell\<lparr>ol_state := ONCE_READY\<rparr>)"
| "once_step OWait cell = Some (if ol_state cell \<noteq> ONCE_READY then OWait else ODone (ol_inner cell), cell)"
| "once_step (OSetWrite v) cell = Some (OSetDone True, cell\<lparr>ol_inner := Some v\<rparr>)"
| "once_step _ cell = None"

fun once_act :: "nat \<Rightarrow> 'a once_action \<Rightarrow> 'a once_sys \<Rightarrow> 'a once_sys option" where
  "once_act i (GetOrInit v) s = (if os_pc s i = OIdle
     then let (ok, cell) = once_cas ONCE_UNINIT ONCE_RUNNING (os_cell s)
       in Some \<lparr>os_cell = cell, os_pc = (os_pc s)(i := if ok then OWrite v else OWait)\<rparr>
     else None)"
| "once_act i (Set v) s = (if os_pc s i = OIdle
     then let (ok, cell) = once_cas ONCE_UNINIT ONCE_RUNNING (os_cell s)
       in Some \<lparr>os_cell = cell, os_pc = (os_pc s)(i := if ok then OSetWrite v else OSetDone False)\<rparr>
     else None)"
| "once_act i Step s = do {
     (pc, cell) \<leftarrow> once_step (os_pc s i) (os_cell s);
     Some \<lparr>os_cell = cell, os_pc = (os_pc s)(i := pc)\<rparr>
   }"

fun once_run :: "(nat \<times> 'a once_action) list \<Rightarrow> 'a once_sys \<Rightarrow> 'a once_sys option" where
  "once_run [] s = Some s"
| "once_run ((i, a) # sched) s = do { s \<leftarrow> once_act i a s; once_run sched s }"

section \<open>Initialisation by \<open>get_or_init\<close>\<close>

lemmas once_states = ONCE_UNINIT_def ONCE_RUNNING_def ONCE_READY_def

text \<open>Thread \<open>k\<close> has won the cell with value \<open>v\<close> and is not done; the cell is ready with \<open>v\<close>.\<close>

definition once_running :: "nat \<Rightarrow> 'a \<Rightarrow> 'a once_sys \<Rightarrow> bool" where
  "once_running k v s \<longleftrightarrow> ol_state (os_cell s) = ONCE_RUNNING
    \<and> (os_pc s k = OWrite v \<or> os_pc s k = OStore \<and> ol_inner (os_cell s) = Some v)
    \<and> (\<forall>j. j \<noteq> k \<longrightarrow> os_pc s j = OIdle \<or> os_pc s j = OWait)"

definition once_ready :: "'a \<Rightarrow> 'a once_sys \<Rightarrow> bool" where
  "once_ready v s \<longleftrightarrow> ol_state (os_cell s) = ONCE_READY \<and> ol_inner (os_cell s) = Some v
    \<and> (\<forall>j. os_pc s j = OIdle \<or> os_pc s j = OWait \<or> os_pc s j = ODone (Some v))"

definition no_set :: "(nat \<times> 'a once_action) list \<Rightarrow> bool" where
  "no_set sched \<longleftrightarrow> (\<forall>(i, a) \<in> set sched. \<forall>v. a \<noteq> Set v)"

lemma once_first:
  assumes "once_act i a once_init = Some s'" and "\<And>v. a \<noteq> Set v"
  shows "\<exists>v. a = GetOrInit v \<and> once_running i v s'"
  using assms by (cases a) (auto simp: once_init_def once_new_def once_cas_def once_running_def)

lemma once_running_act:
  assumes r: "once_running k v s" and act: "once_act i a s = Some s'" and "\<And>v. a \<noteq> Set v"
  shows "once_running k v s' \<or> once_ready v s'"
proof (cases a)
  case (GetOrInit u)
  then have "os_pc s i = OIdle" "s' = \<lparr>os_cell = os_cell s, os_pc = (os_pc s)(i := OWait)\<rparr>"
    using act r by (auto simp: once_cas_def once_running_def once_states split: if_splits)
  with r show ?thesis
    by (auto simp: once_running_def)
next
  case Step
  then obtain pc cell where st: "once_step (os_pc s i) (os_cell s) = Some (pc, cell)" "s' = \<lparr>os_cell = cell, os_pc = (os_pc s)(i := pc)\<rparr>"
    using act by (auto split: bind_splits)
  show ?thesis
  proof (cases "i = k")
    case True
    from r have "os_pc s k = OWrite v \<or> os_pc s k = OStore \<and> ol_inner (os_cell s) = Some v"
      by (simp add: once_running_def)
    then show ?thesis
    proof
      assume "os_pc s k = OWrite v"
      with st True r show ?thesis
        by (auto simp: once_running_def)
    next
      assume "os_pc s k = OStore \<and> ol_inner (os_cell s) = Some v"
      with st True r show ?thesis
        by (auto simp: once_running_def once_ready_def)
    qed
  next
    case False
    then have "os_pc s i = OWait"
      using r st(1) by (auto simp: once_running_def)
    with st r have "s' = \<lparr>os_cell = os_cell s, os_pc = (os_pc s)(i := OWait)\<rparr>"
      by (auto simp: once_running_def once_states)
    with r False show ?thesis
      by (auto simp: once_running_def)
  qed
qed (use assms(3) in simp)

lemma once_ready_act:
  assumes r: "once_ready v s" and act: "once_act i a s = Some s'" and "\<And>v. a \<noteq> Set v"
  shows "once_ready v s'"
proof (cases a)
  case (GetOrInit u)
  then have "s' = \<lparr>os_cell = os_cell s, os_pc = (os_pc s)(i := OWait)\<rparr>"
    using act r by (auto simp: once_cas_def once_ready_def once_states split: if_splits)
  with r show ?thesis
    by (auto simp: once_ready_def)
next
  case Step
  then obtain pc cell where st: "once_step (os_pc s i) (os_cell s) = Some (pc, cell)" "s' = \<lparr>os_cell = cell, os_pc = (os_pc s)(i := pc)\<rparr>"
    using act by (auto split: bind_splits)
  have "os_pc s i = OIdle \<or> os_pc s i = OWait \<or> os_pc s i = ODone (Some v)"
    using r by (simp add: once_ready_def)
  with st(1) have "os_pc s i = OWait"
    by auto
  with st r have "s' = \<lparr>os_cell = os_cell s, os_pc = (os_pc s)(i := ODone (Some v))\<rparr>"
    by (auto simp: once_ready_def)
  with r show ?thesis
    by (auto simp: once_ready_def)
qed (use assms(3) in simp)

lemma once_run_keeps:
  "once_run sched s = Some s' \<Longrightarrow> no_set sched \<Longrightarrow> once_running k v s \<or> once_ready v s \<Longrightarrow> once_running k v s' \<or> once_ready v s'"
proof (induction sched arbitrary: s)
  case (Cons ia sched)
  obtain i a where ia: "ia = (i, a)"
    by (cases ia)
  obtain s1 where s1: "once_act i a s = Some s1" "once_run sched s1 = Some s'"
    using Cons.prems(1) ia by (auto split: bind_splits)
  have a: "\<And>u. a \<noteq> Set u" and rest: "no_set sched"
    using Cons.prems(2) ia by (auto simp: no_set_def)
  have "once_running k v s1 \<or> once_ready v s1"
    using Cons.prems(3) once_running_act [OF _ s1(1) a] once_ready_act [OF _ s1(1) a] by blast
  from Cons.IH [OF s1(2) rest this] show ?case .
qed simp

lemma once_run_from_first:
  assumes "once_run ((k, GetOrInit v) # sched) once_init = Some s" and "no_set sched"
  shows "once_running k v s \<or> once_ready v s"
proof -
  obtain s1 where s1: "once_act k (GetOrInit v) once_init = Some s1" "once_run sched s1 = Some s"
    using assms(1) by (auto split: bind_splits)
  have "once_running k v s1"
    using once_first [OF s1(1)] by auto
  with once_run_keeps [OF s1(2) assms(2)] show ?thesis
    by blast
qed

lemma once_returned:
  assumes "once_running k v s \<or> once_ready v s" and "os_pc s i = ODone r"
  shows "r = Some v"
proof -
  have "\<not> once_running k v s"
    using assms(2) by (cases "i = k") (auto simp: once_running_def)
  then show ?thesis
    using assms by (auto simp: once_ready_def dest!: spec [of _ i])
qed

text \<open>
  A cell that is used only through \<open>get_or_init\<close> is initialised by exactly one call: in every interleaving, every call
  that has returned has returned the value of the call that began first, never uninitialised memory; until then no call
  has returned, and \<open>get\<close> never shows anything else.\<close>

lemma once_initialised_by_first:
  assumes "once_run ((k, GetOrInit v) # sched) once_init = Some s" and "no_set sched"
  shows "(\<forall>i r. os_pc s i = ODone r \<longrightarrow> r = Some v) \<and> (once_get (os_cell s) = None \<or> once_get (os_cell s) = Some (Some v))
    \<and> (\<forall>i. os_pc s i = OWait \<longrightarrow> once_get (os_cell s) \<noteq> None \<longrightarrow> (\<exists>s'. once_act i Step s = Some s' \<and> os_pc s' i = ODone (Some v)))"
proof -
  from once_run_from_first [OF assms] show ?thesis
  proof
    assume r: "once_running k v s"
    with once_returned [of k v s] show ?thesis
      by (auto simp: once_running_def once_get_def once_states)
  next
    assume r: "once_ready v s"
    with once_returned [of k v s] show ?thesis
      by (auto simp: once_ready_def once_get_def)
  qed
qed

theorem once_initialised_by_first_witness:
  "\<exists>s. once_run [(0, GetOrInit (7 :: nat)), (1, GetOrInit 8), (0, Step), (1, Step), (0, Step), (1, Step)] once_init = Some s
    \<and> os_pc s 1 = ODone (Some 7)"
proof -
  let ?run = "[(0, GetOrInit (7 :: nat)), (1, GetOrInit 8), (0, Step), (1, Step), (0, Step), (1, Step)]"
  obtain s r where s: "once_run ?run once_init = Some s" "os_pc s 1 = ODone r"
    by (simp add: once_init_def once_new_def once_cas_def once_states)
  with once_initialised_by_first [OF s(1)] show ?thesis
    by (auto simp: no_set_def)
qed

section \<open>Initialisation by \<open>set\<close>\<close>

text \<open>The cell has been won by \<open>set\<close>, and no call is about to make it ready.\<close>

definition once_stuck :: "'a once_sys \<Rightarrow> bool" where
  "once_stuck s \<longleftrightarrow> ol_state (os_cell s) = ONCE_RUNNING
    \<and> (\<forall>i. os_pc s i \<in> {OIdle, OWait, OSetDone True, OSetDone False} \<or> (\<exists>v. os_pc s i = OSetWrite v))"

lemma once_stuck_act:
  assumes st: "once_stuck s" and act: "once_act i a s = Some s'"
  shows "once_stuck s'"
proof -
  have pc: "os_pc s i \<in> {OIdle, OWait, OSetDone True, OSetDone False} \<or> (\<exists>v. os_pc s i = OSetWrite v)"
    and run: "ol_state (os_cell s) = ONCE_RUNNING"
    using st by (simp_all add: once_stuck_def)
  have "ol_state (os_cell s') = ONCE_RUNNING \<and> (\<exists>pc. os_pc s' = (os_pc s)(i := pc)
      \<and> (pc \<in> {OIdle, OWait, OSetDone True, OSetDone False} \<or> (\<exists>v. pc = OSetWrite v)))"
    using act pc run by (cases a) (auto simp: once_cas_def once_states split: if_splits bind_splits)
  then obtain q where q: "ol_state (os_cell s') = ONCE_RUNNING" "os_pc s' = (os_pc s)(i := q)"
      "q \<in> {OIdle, OWait, OSetDone True, OSetDone False} \<or> (\<exists>v. q = OSetWrite v)"
    by blast
  have "os_pc s' j \<in> {OIdle, OWait, OSetDone True, OSetDone False} \<or> (\<exists>v. os_pc s' j = OSetWrite v)" for j
    using st q(3) unfolding once_stuck_def q(2) by (cases "j = i") simp_all
  with q(1) show ?thesis
    unfolding once_stuck_def by blast
qed

lemma once_stuck_run: "once_run sched s = Some s' \<Longrightarrow> once_stuck s \<Longrightarrow> once_stuck s'"
proof (induction sched arbitrary: s)
  case (Cons ia sched)
  then show ?case
    by (cases ia) (auto split: bind_splits dest: once_stuck_act)
qed simp

text \<open>
  C39. \<open>set\<close> never makes the cell ready: when the first call on a cell is a \<open>set\<close>, then in every continuation, with any calls
  by any threads, \<open>get\<close> returns nothing, \<open>is_set\<close> is false and no \<open>get_or_init\<close> ever returns, although \<open>set\<close> reports success.\<close>

theorem set_is_never_visible:
  assumes "once_run ((k, Set v) # sched) once_init = Some s"
  shows "once_get (os_cell s) = None \<and> \<not> once_is_set (os_cell s) \<and> (\<forall>i r. os_pc s i \<noteq> ODone r)"
proof -
  obtain s1 where s1: "once_act k (Set v) once_init = Some s1" "once_run sched s1 = Some s"
    using assms by (auto split: bind_splits)
  have "once_stuck s1"
    using s1(1) by (auto simp: once_stuck_def once_init_def once_new_def once_cas_def split: if_splits)
  from once_stuck_run [OF s1(2) this] have st: "once_stuck s" .
  have "os_pc s i \<noteq> ODone r" for i r
    using st by (auto simp: once_stuck_def dest!: conjunct2 spec [of _ i])
  with st show ?thesis
    by (simp add: once_stuck_def once_get_def once_is_set_def once_states)
qed

theorem set_is_never_visible_witness:
  "\<exists>s. once_run [(0, Set (7 :: nat)), (0, Step), (1, GetOrInit 8), (1, Step)] once_init = Some s
    \<and> os_pc s 0 = OSetDone True \<and> once_get (os_cell s) = None"
proof -
  let ?run = "[(0, Set (7 :: nat)), (0, Step), (1, GetOrInit 8), (1, Step)]"
  obtain s where s: "once_run ?run once_init = Some s" "os_pc s 0 = OSetDone True"
    by (simp add: once_init_def once_new_def once_cas_def once_states)
  with set_is_never_visible [OF s(1)] show ?thesis
    by auto
qed

section \<open>The cell with its initialiser\<close>

text \<open>\<open>OnceLockInit\<close> keeps the function that computes the value; \<open>None\<close> after it has been taken. The model has the function's
  result. \<open>LUndefined\<close> is the undefined behaviour of \<open>unwrap_unchecked\<close> on \<open>None\<close>.\<close>

record 'a OnceLockInit =
  oi_state :: u32
  oi_inner :: "'a option"
  oi_init :: "'a option"

definition lazy_new :: "'a \<Rightarrow> 'a OnceLockInit" where
  "lazy_new f = \<lparr>oi_state = ONCE_UNINIT, oi_inner = None, oi_init = Some f\<rparr>"

datatype 'a lazy_pc = LIdle | LTake | LStore | LWait | LDone "'a option" | LUndefined

datatype lazy_action = LazyGet | LazyStep

fun lazy_act :: "nat \<Rightarrow> lazy_action \<Rightarrow> 'a OnceLockInit \<times> (nat \<Rightarrow> 'a lazy_pc) \<Rightarrow> ('a OnceLockInit \<times> (nat \<Rightarrow> 'a lazy_pc)) option" where
  "lazy_act i LazyGet (self, pc) = (case pc i of
     LIdle \<Rightarrow> if oi_state self = ONCE_UNINIT then Some (self\<lparr>oi_state := ONCE_RUNNING\<rparr>, pc(i := LTake))
       else Some (self, pc(i := LWait))
   | _ \<Rightarrow> None)"
| "lazy_act i LazyStep (self, pc) = (case pc i of
     LTake \<Rightarrow> (case oi_init self of
         Some v \<Rightarrow> Some (self\<lparr>oi_init := None, oi_inner := Some v\<rparr>, pc(i := LStore))
       | None \<Rightarrow> Some (self, pc(i := LUndefined)))
   | LStore \<Rightarrow> Some (self\<lparr>oi_state := ONCE_READY\<rparr>, pc(i := LDone (oi_inner self)))
   | LWait \<Rightarrow> Some (self, pc(i := if oi_state self \<noteq> ONCE_READY then LWait else LDone (oi_inner self)))
   | _ \<Rightarrow> None)"

fun lazy_run :: "(nat \<times> lazy_action) list \<Rightarrow> 'a OnceLockInit \<times> (nat \<Rightarrow> 'a lazy_pc) \<Rightarrow> ('a OnceLockInit \<times> (nat \<Rightarrow> 'a lazy_pc)) option" where
  "lazy_run [] s = Some s"
| "lazy_run ((i, a) # sched) s = do { s \<leftarrow> lazy_act i a s; lazy_run sched s }"

text \<open>The plain cell that the lazy one implements, for a value \<open>v\<close>.\<close>

fun lazy_abs_pc :: "'a \<Rightarrow> 'a lazy_pc \<Rightarrow> 'a once_pc" where
  "lazy_abs_pc v LIdle = OIdle"
| "lazy_abs_pc v LTake = OWrite v"
| "lazy_abs_pc v LStore = OStore"
| "lazy_abs_pc v LWait = OWait"
| "lazy_abs_pc v (LDone r) = ODone r"
| "lazy_abs_pc v LUndefined = OSetDone True"

definition lazy_abs :: "'a \<Rightarrow> 'a OnceLockInit \<times> (nat \<Rightarrow> 'a lazy_pc) \<Rightarrow> 'a once_sys" where
  "lazy_abs v = (\<lambda>(self, pc). \<lparr>os_cell = \<lparr>ol_state = oi_state self, ol_inner = oi_inner self\<rparr>, os_pc = lazy_abs_pc v \<circ> pc\<rparr>)"

fun lazy_abs_action :: "'a \<Rightarrow> nat \<times> lazy_action \<Rightarrow> nat \<times> 'a once_action" where
  "lazy_abs_action v (i, LazyGet) = (i, GetOrInit v)"
| "lazy_abs_action v (i, LazyStep) = (i, Step)"

text \<open>As long as the cell is not won, or its winner has not taken the function, the function is there.\<close>

definition lazy_ok :: "'a \<Rightarrow> 'a OnceLockInit \<times> (nat \<Rightarrow> 'a lazy_pc) \<Rightarrow> bool" where
  "lazy_ok v = (\<lambda>(self, pc). (oi_state self = ONCE_UNINIT \<longrightarrow> oi_init self = Some v \<and> (\<forall>i. pc i \<noteq> LTake))
    \<and> (\<forall>i. pc i = LTake \<longrightarrow> oi_init self = Some v \<and> oi_state self = ONCE_RUNNING)
    \<and> (\<forall>i j. pc i = LTake \<longrightarrow> pc j = LTake \<longrightarrow> i = j)
    \<and> (\<forall>i. pc i = LStore \<longrightarrow> oi_init self = None) \<and> (\<forall>i. pc i \<noteq> LUndefined))"

lemma lazy_abs_pc_upd: "lazy_abs_pc v \<circ> pc(i := q) = (lazy_abs_pc v \<circ> pc)(i := lazy_abs_pc v q)"
  by (simp add: fun_eq_iff)

lemma lazy_states: "ONCE_RUNNING \<noteq> ONCE_UNINIT" "ONCE_READY \<noteq> ONCE_UNINIT"
  by (simp_all add: once_states)

lemma lazy_okD:
  assumes "lazy_ok v (self, pc)"
  shows "pc i = LTake \<Longrightarrow> oi_init self = Some v" "pc i = LTake \<Longrightarrow> oi_state self = ONCE_RUNNING"
    "pc i = LTake \<Longrightarrow> pc j = LTake \<Longrightarrow> j = i" "pc i = LStore \<Longrightarrow> oi_init self = None" "pc i \<noteq> LUndefined"
    "oi_state self = ONCE_UNINIT \<Longrightarrow> oi_init self = Some v" "oi_state self = ONCE_UNINIT \<Longrightarrow> pc i \<noteq> LTake"
  using assms unfolding lazy_ok_def prod.case by iprover+

lemma lazy_get_sim:
  assumes ok: "lazy_ok v (self, pc)" and act: "lazy_act i LazyGet (self, pc) = Some s'"
  shows "lazy_ok v s' \<and> once_act i (GetOrInit v) (lazy_abs v (self, pc)) = Some (lazy_abs v s')"
proof (cases "oi_state self = ONCE_UNINIT")
  case True
  have "pc i = LIdle" "s' = (self\<lparr>oi_state := ONCE_RUNNING\<rparr>, pc(i := LTake))"
    using act True by (auto split: lazy_pc.splits)
  with ok True show ?thesis
    by (auto simp: lazy_ok_def lazy_abs_def lazy_abs_pc_upd once_cas_def lazy_states)
next
  case False
  have "pc i = LIdle" "s' = (self, pc(i := LWait))"
    using act False by (auto split: lazy_pc.splits)
  with ok False show ?thesis
    by (auto simp: lazy_ok_def lazy_abs_def lazy_abs_pc_upd once_cas_def)
qed

lemma lazy_step_sim:
  assumes ok: "lazy_ok v (self, pc)" and act: "lazy_act i LazyStep (self, pc) = Some s'"
  shows "lazy_ok v s' \<and> once_act i Step (lazy_abs v (self, pc)) = Some (lazy_abs v s')"
proof (cases "pc i")
  case LTake
  note only = lazy_okD(3) [OF ok LTake]
  from LTake have "oi_init self = Some v" "oi_state self = ONCE_RUNNING"
    by (rule lazy_okD [OF ok])+
  moreover from this LTake have s': "s' = (self\<lparr>oi_init := None, oi_inner := Some v\<rparr>, pc(i := LStore))"
    using act by simp
  moreover have "(pc(i := LStore)) j \<noteq> LTake" for j
    unfolding fun_upd_apply using only [of j] by (metis lazy_pc.distinct)
  moreover have "(pc(i := LStore)) j \<noteq> LUndefined" for j
    using lazy_okD(5) [OF ok, of j] by simp
  ultimately have "lazy_ok v s'"
    by (simp add: lazy_ok_def lazy_states del: fun_upd_apply)
  with LTake s' show ?thesis
    by (simp add: lazy_abs_def lazy_abs_pc_upd)
next
  case LStore
  then have s': "s' = (self\<lparr>oi_state := ONCE_READY\<rparr>, pc(i := LDone (oi_inner self)))"
    using act by simp
  have none: "oi_init self = None"
    by (rule lazy_okD(4) [OF ok LStore])
  then have "pc j \<noteq> LTake" for j
    using lazy_okD(1) [OF ok, of j] by auto
  then have "lazy_ok v s'"
    using lazy_okD(5) [OF ok] none by (simp add: lazy_ok_def lazy_states s')
  with LStore s' show ?thesis
    by (simp add: lazy_abs_def lazy_abs_pc_upd)
next
  case LWait
  then have "s' = (self, pc(i := if oi_state self \<noteq> ONCE_READY then LWait else LDone (oi_inner self)))"
    using act by simp
  with ok LWait show ?thesis
    by (auto simp: lazy_ok_def lazy_abs_def lazy_abs_pc_upd)
qed (use act in simp_all)

lemma lazy_act_sim:
  assumes "lazy_ok v s" and "lazy_act i a s = Some s'"
  shows "lazy_ok v s' \<and> once_act i (snd (lazy_abs_action v (i, a))) (lazy_abs v s) = Some (lazy_abs v s')"
  using assms lazy_get_sim [of v "fst s" "snd s" i s'] lazy_step_sim [of v "fst s" "snd s" i s'] by (cases a) simp_all

lemma lazy_run_sim:
  "lazy_run sched s = Some s' \<Longrightarrow> lazy_ok v s \<Longrightarrow>
    lazy_ok v s' \<and> once_run (map (lazy_abs_action v) sched) (lazy_abs v s) = Some (lazy_abs v s')"
proof (induction sched arbitrary: s)
  case (Cons ia sched)
  obtain i a where ia: "ia = (i, a)"
    by (cases ia)
  obtain s1 where s1: "lazy_act i a s = Some s1" "lazy_run sched s1 = Some s'"
    using Cons.prems(1) ia by (auto split: bind_splits)
  from lazy_act_sim [OF Cons.prems(2) s1(1)] Cons.IH [OF s1(2)] show ?case
    by (cases a) (auto simp: ia)
qed simp

text \<open>
  C20. The cell with its initialiser refines the plain one: every interleaving of calls of \<open>OnceLockInit::get\<close> is, step for
  step, one of calls of \<open>get_or_init\<close> with the initialiser's value on a \<open>OnceLock\<close>; the function is taken at most
  once, so \<open>unwrap_unchecked\<close> never meets \<open>None\<close>, and whatever a call returns is the function's value.\<close>

theorem lazy_cell_refines_once:
  assumes "lazy_run sched (lazy_new v, \<lambda>_. LIdle) = Some (self, pc)"
  shows "once_run (map (lazy_abs_action v) sched) once_init = Some (lazy_abs v (self, pc))
    \<and> (\<forall>i. pc i \<noteq> LUndefined) \<and> (\<forall>i r. pc i = LDone r \<longrightarrow> r = Some v)"
proof -
  have "lazy_ok v (lazy_new v, \<lambda>_. LIdle)"
    by (simp add: lazy_ok_def lazy_new_def once_states)
  from lazy_run_sim [OF assms this] have ok: "lazy_ok v (self, pc)"
    and sim: "once_run (map (lazy_abs_action v) sched) (lazy_abs v (lazy_new v, \<lambda>_. LIdle)) = Some (lazy_abs v (self, pc))"
    by auto
  have init: "lazy_abs v (lazy_new v, \<lambda>_. LIdle) = once_init"
    by (simp add: lazy_abs_def lazy_new_def once_init_def once_new_def fun_eq_iff)
  have ns: "no_set (map (lazy_abs_action v) xs)" for xs
    by (auto simp: no_set_def elim!: lazy_abs_action.elims)
  have "r = Some v" if r: "pc i = LDone r" for i r
  proof -
    have "sched \<noteq> []"
      using assms r by auto
    then obtain x xs where sched: "sched = x # xs"
      by (cases sched) auto
    then obtain k where k: "map (lazy_abs_action v) sched = (k, GetOrInit v) # map (lazy_abs_action v) xs"
      using sim init by (cases "(v, x)" rule: lazy_abs_action.cases) (auto simp: once_init_def)
    have "once_ready v (lazy_abs v (self, pc)) \<or> once_running k v (lazy_abs v (self, pc))"
      using once_run_from_first [OF _ ns] sim unfolding init k by blast
    then show ?thesis
      using once_returned [of k v "lazy_abs v (self, pc)" i r] r by (auto simp: lazy_abs_def)
  qed
  with sim ok show ?thesis
    by (simp add: init lazy_ok_def)
qed

theorem lazy_cell_refines_once_witness:
  "\<exists>self pc. lazy_run [(0, LazyGet), (1, LazyGet), (0, LazyStep), (1, LazyStep), (0, LazyStep), (1, LazyStep)] (lazy_new (7 :: nat), \<lambda>_. LIdle)
    = Some (self, pc) \<and> pc 1 = LDone (Some 7)"
proof -
  let ?run = "[(0, LazyGet), (1, LazyGet), (0, LazyStep), (1, LazyStep), (0, LazyStep), (1, LazyStep)]"
  obtain self pc r where s: "lazy_run ?run (lazy_new (7 :: nat), \<lambda>_. LIdle) = Some (self, pc)" "pc 1 = LDone r"
    by (simp add: lazy_new_def once_states)
  with lazy_cell_refines_once [OF s(1)] show ?thesis
    by auto
qed

end
