(* ===== verification/Pmm.thy ===== *)
theory Pmm
  imports Prelude
begin

text \<open>
  The physical memory manager of quartz (\<open>device/quartz/src/arch/arm1176/pmm.rs\<close>): 512 MiB as a tree of 32 supersections
  of 16 sections of 16 large pages of 16 small pages. Every inner node has a bitmap of its children, with 1 for a child
  none of whose descendants is in use; a node that is neither free nor full is on the floating list of its level, linked
  by indices. Addresses and indices are natural numbers; the counters too, as they cannot reach \<open>2^32\<close> (a counter
  that goes below zero panics, as in a build with overflow checks). The pointer a call returns is its value.
\<close>

section \<open>Data\<close>

datatype RegionKind = SmallPage | LargePage | Section | Supersection

fun next_smallest :: "RegionKind \<Rightarrow> RegionKind option" where
  "next_smallest SmallPage = Some LargePage"
| "next_smallest LargePage = Some Section"
| "next_smallest Section = Some Supersection"
| "next_smallest Supersection = None"

fun region_size :: "RegionKind \<Rightarrow> nat" where
  "region_size SmallPage = 4 * 1024"
| "region_size LargePage = 64 * 1024"
| "region_size Section = 1 * (1024 * 1024)"
| "region_size Supersection = 16 * (1024 * 1024)"

datatype PMMAllocError = OutOfMemory

record RegionInfo =
  ri_bitmap :: u16
  ri_next :: u16
  ri_prev :: u16

definition CHAIN_END :: u16 where "CHAIN_END = 0xffff"

record PMM =
  floating_lists :: "nat option list"
  regions :: "RegionInfo list"
  supersection_mask :: u32
  floating_counts :: "nat list"
  allocated_counts :: "nat list"

definition pmm_init_at :: PMM where
  "pmm_init_at = \<lparr>floating_lists = replicate 3 None,
     regions = replicate 0x2220 \<lparr>ri_bitmap = 0xffff, ri_next = CHAIN_END, ri_prev = CHAIN_END\<rparr>,
     supersection_mask = 0xffffffff, floating_counts = replicate 3 0, allocated_counts = replicate 4 0\<rparr>"

definition ss_ptr :: "nat \<Rightarrow> nat option" where
  "ss_ptr ss_no = do { assertion (ss_no < 0x20); Some (ss_no * (16 * (1024 * 1024))) }"

definition s_ptr :: "nat \<Rightarrow> nat option" where
  "s_ptr s_no = do { assertion (s_no < 0x200); Some (s_no * (1 * (1024 * 1024))) }"

definition lp_ptr :: "nat \<Rightarrow> nat option" where
  "lp_ptr lp_no = do { assertion (lp_no < 0x2000); Some (lp_no * (64 * 1024)) }"

definition sp_ptr :: "nat \<Rightarrow> nat option" where
  "sp_ptr sp_no = do { assertion (sp_no < 0x20000); Some (sp_no * (4 * 1024)) }"

definition ss_idx :: "nat \<Rightarrow> nat option" where
  "ss_idx ss_no = do { assertion (ss_no < 0x20); Some (ss_no + 0x2200) }"

definition s_idx :: "nat \<Rightarrow> nat option" where
  "s_idx s_no = do { assertion (s_no < 0x200); Some (s_no + 0x2000) }"

definition lp_idx :: "nat \<Rightarrow> nat option" where
  "lp_idx lp_no = do { assertion (lp_no < 0x2000); Some (lp_no + 0) }"

section \<open>Fields\<close>

text \<open>Assignments to an element of a field, counters, and \<open>leading_zeros\<close>.\<close>

definition mod_region :: "nat \<Rightarrow> (RegionInfo \<Rightarrow> RegionInfo) \<Rightarrow> PMM \<Rightarrow> PMM option" where
  "mod_region k f self = do { r \<leftarrow> idx (regions self) k; rs \<leftarrow> upd (regions self) k (f r); Some (self\<lparr>regions := rs\<rparr>) }"

definition count_allocated :: "nat \<Rightarrow> PMM \<Rightarrow> PMM option" where
  "count_allocated i self = do { n \<leftarrow> idx (allocated_counts self) i;
     ns \<leftarrow> upd (allocated_counts self) i (n + 1); Some (self\<lparr>allocated_counts := ns\<rparr>) }"

definition uncount_allocated :: "nat \<Rightarrow> PMM \<Rightarrow> PMM option" where
  "uncount_allocated i self = do { n \<leftarrow> idx (allocated_counts self) i; assertion (0 < n);
     ns \<leftarrow> upd (allocated_counts self) i (n - 1); Some (self\<lparr>allocated_counts := ns\<rparr>) }"

fun kind_no :: "RegionKind \<Rightarrow> nat" where
  "kind_no SmallPage = 0"
| "kind_no LargePage = 1"
| "kind_no Section = 2"
| "kind_no Supersection = 3"

definition leading_zeros :: "'a::len word \<Rightarrow> nat" where
  "leading_zeros w = length (takeWhile (\<lambda>i. \<not> bit w i) (rev [0..<LENGTH('a)]))"

fun mfold :: "('a \<Rightarrow> 's \<Rightarrow> 's option) \<Rightarrow> 'a list \<Rightarrow> 's \<Rightarrow> 's option" where
  "mfold f [] s = Some s"
| "mfold f (x # xs) s = do { s \<leftarrow> f x s; mfold f xs s }"

section \<open>The floating lists\<close>

fun float_no :: "RegionKind \<Rightarrow> nat option" where
  "float_no SmallPage = None"
| "float_no LargePage = Some 0"
| "float_no Section = Some 1"
| "float_no Supersection = Some 2"

definition float :: "nat \<Rightarrow> RegionKind \<Rightarrow> PMM \<Rightarrow> PMM option" where
  "float k kind self = (case float_no kind of None \<Rightarrow> Some self | Some i \<Rightarrow> do {
     n \<leftarrow> idx (floating_counts self) i;
     fc \<leftarrow> upd (floating_counts self) i (n + 1);
     self \<leftarrow> mod_region k (\<lambda>r. r\<lparr>ri_prev := CHAIN_END\<rparr>) (self\<lparr>floating_counts := fc\<rparr>);
     fl \<leftarrow> idx (floating_lists self) i;
     self \<leftarrow> mod_region k (\<lambda>r. r\<lparr>ri_next := (case fl of Some x \<Rightarrow> of_nat x | None \<Rightarrow> CHAIN_END)\<rparr>) self;
     fls \<leftarrow> upd (floating_lists self) i (Some k);
     Some (self\<lparr>floating_lists := fls\<rparr>) })"

definition unfloat :: "nat \<Rightarrow> RegionKind \<Rightarrow> PMM \<Rightarrow> PMM option" where
  "unfloat k kind self = (case float_no kind of None \<Rightarrow> Some self | Some i \<Rightarrow> do {
     n \<leftarrow> idx (floating_counts self) i;
     assertion (0 < n);
     fc \<leftarrow> upd (floating_counts self) i (n - 1);
     let self = self\<lparr>floating_counts := fc\<rparr>;
     r \<leftarrow> idx (regions self) k;
     let nxt = ri_next r;
     self \<leftarrow> (if nxt \<noteq> CHAIN_END then mod_region (unat nxt) (\<lambda>r. r\<lparr>ri_prev := CHAIN_END\<rparr>) self else Some self);
     r \<leftarrow> idx (regions self) k;
     let prev = ri_prev r;
     if prev \<noteq> CHAIN_END then mod_region (unat prev) (\<lambda>r. r\<lparr>ri_next := nxt\<rparr>) self
     else do {
       fls \<leftarrow> upd (floating_lists self) i (if nxt = CHAIN_END then None else Some (unat nxt));
       Some (self\<lparr>floating_lists := fls\<rparr>)
     } })"

definition floating_list :: "RegionKind \<Rightarrow> PMM \<Rightarrow> nat option option" where
  "floating_list kind self = do { i \<leftarrow> float_no kind; idx (floating_lists self) i }"

section \<open>Initialisation\<close>

text \<open>The used regions that end on the current page are skipped; the loop over the pages ends after the last one.\<close>

function skip_ended :: "(nat \<times> nat) list \<Rightarrow> nat \<Rightarrow> nat \<Rightarrow> nat" where
  "skip_ended used i e = (if i < length used \<and> snd (used ! i) \<le> e then skip_ended used (Suc i) e else i)"
  by auto
termination
  by (relation "measure (\<lambda>(used, i, e). length used - i)") auto

declare skip_ended.simps [simp del]

fun reserve_pages :: "(nat \<times> nat) list \<Rightarrow> nat list \<Rightarrow> nat \<Rightarrow> PMM \<Rightarrow> PMM option" where
  "reserve_pages used [] i self = Some self"
| "reserve_pages used (j # js) i self = do {
     r0 \<leftarrow> sp_ptr j;
     r1 \<leftarrow> sp_ptr (j + 1);
     u \<leftarrow> idx used i;
     if r1 \<le> fst u then reserve_pages used js i self
     else do {
       self \<leftarrow> count_allocated 0 self;
       lp \<leftarrow> lp_idx (j div 16);
       self \<leftarrow> mod_region lp (\<lambda>r. r\<lparr>ri_bitmap := ri_bitmap r AND NOT (push_bit (j mod 16) 1)\<rparr>) self;
       let i = skip_ended used i r1;
       if i \<ge> length used then Some self else reserve_pages used js i self
     }
   }"

text \<open>One child \<open>j\<close> of a parent \<open>i\<close>: when it is not free, it is counted, its bit is cleared, and it floats if it is not full.\<close>

definition mark_child :: "nat \<Rightarrow> RegionKind \<Rightarrow> (nat \<Rightarrow> nat option) \<Rightarrow> (nat \<Rightarrow> nat option) \<Rightarrow> nat \<times> nat \<Rightarrow> PMM \<Rightarrow> PMM option" where
  "mark_child c kind child_idx parent_idx = (\<lambda>(i, j) self. do {
     k \<leftarrow> child_idx j;
     r \<leftarrow> idx (regions self) k;
     if ri_bitmap r \<noteq> 0xffff then do {
       self \<leftarrow> count_allocated c self;
       p \<leftarrow> parent_idx i;
       self \<leftarrow> mod_region p (\<lambda>r. r\<lparr>ri_bitmap := ri_bitmap r AND NOT (push_bit (j mod 16) 1)\<rparr>) self;
       r \<leftarrow> idx (regions self) k;
       if ri_bitmap r \<noteq> 0 then float k kind self else Some self
     } else Some self
   })"

definition children :: "nat \<Rightarrow> (nat \<times> nat) list" where
  "children n = concat (map (\<lambda>i. map (Pair i) [i * 16..<i * 16 + 16]) [0..<n])"

definition mark_supersection :: "nat \<Rightarrow> PMM \<Rightarrow> PMM option" where
  "mark_supersection i self = do {
     k \<leftarrow> ss_idx i;
     r \<leftarrow> idx (regions self) k;
     if ri_bitmap r \<noteq> 0xffff then do {
       self \<leftarrow> count_allocated 3 self;
       let self = self\<lparr>supersection_mask := supersection_mask self AND NOT (push_bit i 1)\<rparr>;
       if ri_bitmap r \<noteq> 0 then float k Supersection self else Some self
     } else Some self
   }"

definition initialize_once :: "(nat \<times> nat) list \<Rightarrow> PMM \<Rightarrow> PMM option" where
  "initialize_once used self = do {
     let self = self\<lparr>supersection_mask := 0xffffffff,
       regions := map (\<lambda>r. r\<lparr>ri_bitmap := 0xffff, ri_prev := CHAIN_END, ri_next := CHAIN_END\<rparr>) (regions self)\<rparr>;
     self \<leftarrow> reserve_pages used [0..<0x20000] 0 self;
     self \<leftarrow> mfold (mark_child 1 LargePage lp_idx s_idx) (children 0x200) self;
     self \<leftarrow> mfold (mark_child 2 Section s_idx ss_idx) (children 0x20) self;
     mfold mark_supersection [0..<32] self
   }"

section \<open>Allocation\<close>

function commit :: "nat \<Rightarrow> RegionKind \<Rightarrow> RegionKind \<Rightarrow> PMM \<Rightarrow> (PMM \<times> nat) option" where
  "commit pred pred_kind alloc_kind self = do {
     r \<leftarrow> idx (regions self) pred;
     let lz = leading_zeros (ri_bitmap r);
     assertion (lz < 16);
     let bitmap = ri_bitmap r AND NOT (drop_bit lz 0x8000);
     self \<leftarrow> mod_region pred (\<lambda>r. r\<lparr>ri_bitmap := bitmap\<rparr>) self;
     self \<leftarrow> (if bitmap = 0 then unfloat pred pred_kind self else Some self);
     let child_no = 16 - lz;
     case pred_kind of
       LargePage \<Rightarrow> do {
         let lp_no = pred;
         assertion (lp_no < 0x2000);
         let sp_no = child_no + lp_no * 16;
         if alloc_kind = SmallPage then do { p \<leftarrow> sp_ptr sp_no; Some (self, p) } else None
       }
     | Section \<Rightarrow> do {
         assertion (0x2000 \<le> pred);
         let s_no = pred - 0x2000;
         assertion (s_no < 0x200);
         let lp_no = child_no + s_no * 16;
         if alloc_kind = LargePage then do { p \<leftarrow> lp_ptr lp_no; Some (self, p) }
         else do { k \<leftarrow> lp_idx lp_no; commit k LargePage alloc_kind self }
       }
     | Supersection \<Rightarrow> do {
         assertion (0x2200 \<le> pred);
         let ss_no = pred - 0x2200;
         assertion (ss_no < 0x20);
         let s_no = child_no + ss_no * 16;
         if alloc_kind = Section then do { p \<leftarrow> s_ptr s_no; Some (self, p) }
         else do { k \<leftarrow> s_idx s_no; commit k Section alloc_kind self }
       }
     | SmallPage \<Rightarrow> None
   }"
  by auto
termination
  by (relation "measure (\<lambda>(_, kind, _, _). kind_no kind)") auto

declare commit.simps [simp del]

text \<open>The loop of \<open>allocate_region\<close>: the first level above the kind whose floating list is not empty.\<close>

function find_floating :: "RegionKind \<Rightarrow> PMM \<Rightarrow> (nat \<times> RegionKind) option option" where
  "find_floating kind self = (case next_smallest kind of
     None \<Rightarrow> Some None
   | Some kind \<Rightarrow> do {
       fl \<leftarrow> floating_list kind self;
       case fl of Some k \<Rightarrow> Some (Some (k, kind)) | None \<Rightarrow> find_floating kind self
     })"
  by auto
termination
proof (relation "measure (\<lambda>(kind, _). 3 - kind_no kind)")
  fix kind kind' self x
  assume "next_smallest kind = Some kind'"
  then show "((kind', self), kind, self) \<in> measure (\<lambda>(kind, _). 3 - kind_no kind)"
    by (cases kind) auto
qed simp

declare find_floating.simps [simp del]

definition allocate_region :: "RegionKind \<Rightarrow> PMM \<Rightarrow> (PMM \<times> (PMMAllocError + nat)) option" where
  "allocate_region kind self = do {
     found \<leftarrow> find_floating kind self;
     case found of
       Some (k, curr_kind) \<Rightarrow> do {
         (self, p) \<leftarrow> commit k curr_kind kind self;
         self \<leftarrow> count_allocated (kind_no kind) self;
         Some (self, Inr p)
       }
     | None \<Rightarrow>
         if supersection_mask self \<noteq> 0 then do {
           let lz = leading_zeros (supersection_mask self);
           let self = self\<lparr>supersection_mask := supersection_mask self AND NOT (drop_bit lz 0x80000000)\<rparr>;
           let ss_no = 31 - lz;
           if kind = Supersection then do {
             self \<leftarrow> count_allocated 3 self;
             p \<leftarrow> ss_ptr ss_no;
             Some (self, Inr p)
           } else do {
             k \<leftarrow> ss_idx ss_no;
             self \<leftarrow> float k Supersection self;
             (self, p) \<leftarrow> commit k Supersection kind self;
             self \<leftarrow> count_allocated (kind_no kind) self;
             Some (self, Inr p)
           }
         } else Some (self, Inl OutOfMemory)
   }"

section \<open>Release\<close>

fun parent_of :: "nat \<Rightarrow> RegionKind \<Rightarrow> (nat \<times> RegionKind) option" where
  "parent_of no SmallPage = do { k \<leftarrow> lp_idx no; Some (k, LargePage) }"
| "parent_of no LargePage = do { k \<leftarrow> s_idx no; Some (k, Section) }"
| "parent_of no Section = do { k \<leftarrow> ss_idx no; Some (k, Supersection) }"
| "parent_of no Supersection = None"

function mark_free_recursive :: "nat \<Rightarrow> RegionKind \<Rightarrow> PMM \<Rightarrow> PMM option" where
  "mark_free_recursive region_no kind self = (if kind = Supersection
     then do { assertion (region_no < 32); Some (self\<lparr>supersection_mask := supersection_mask self OR push_bit region_no 1\<rparr>) }
     else do {
       let parent_no = region_no div 16;
       (parent_idx, parent_kind) \<leftarrow> parent_of parent_no kind;
       r \<leftarrow> idx (regions self) parent_idx;
       let bitmap_init = ri_bitmap r;
       let bitmap_new = bitmap_init OR push_bit (region_no mod 16) 1;
       self \<leftarrow> mod_region parent_idx (\<lambda>r. r\<lparr>ri_bitmap := bitmap_new\<rparr>) self;
       if bitmap_new = 0xffff then do {
         self \<leftarrow> unfloat parent_idx parent_kind self;
         mark_free_recursive parent_no parent_kind self
       } else if bitmap_init = 0 then float parent_idx parent_kind self
       else Some self
     })"
  by auto
termination
proof (relation "measure (\<lambda>(_, kind, _). 3 - kind_no kind)")
  fix no kind and self :: PMM and x y pidx pkind and s1 s2 :: PMM and r
  assume "kind \<noteq> Supersection" "parent_of x kind = Some y" "(pidx, pkind) = y"
  then show "((x, pkind, s2), no, kind, self) \<in> measure (\<lambda>(_, kind, _). 3 - kind_no kind)"
    by (cases kind) (auto split: bind_splits)
qed simp

declare mark_free_recursive.simps [simp del]

definition deallocate_region :: "nat \<Rightarrow> RegionKind \<Rightarrow> PMM \<Rightarrow> PMM option" where
  "deallocate_region region kind self = do {
     assertion (region mod region_size kind = 0);
     self \<leftarrow> mark_free_recursive (region div region_size kind) kind self;
     uncount_allocated (kind_no kind) self
   }"

end
