(* ===== verification/Pmm_Correct.thy ===== *)
theory Pmm_Correct
  imports Pmm
begin

text \<open>
  What the memory manager does: initialisation reserves exactly the regions in use, at every level; supersections are
  handed out and taken back correctly; smaller regions are not.
\<close>

section \<open>Shape and effects of the operations\<close>

definition pmm_wf :: "PMM \<Rightarrow> bool" where
  "pmm_wf self \<longleftrightarrow> length (regions self) = 0x2220 \<and> length (floating_lists self) = 3
    \<and> length (floating_counts self) = 3 \<and> length (allocated_counts self) = 4"

abbreviation bm :: "PMM \<Rightarrow> nat \<Rightarrow> u16" where
  "bm self k \<equiv> ri_bitmap (regions self ! k)"

lemma mod_region_Some: "k < length (regions self) \<Longrightarrow>
    mod_region k f self = Some (self\<lparr>regions := (regions self)[k := f (regions self ! k)]\<rparr>)"
  by (simp add: mod_region_def)

lemma count_allocated_Some: "i < length (allocated_counts self) \<Longrightarrow>
    count_allocated i self = Some (self\<lparr>allocated_counts := (allocated_counts self)[i := allocated_counts self ! i + 1]\<rparr>)"
  by (simp add: count_allocated_def)

lemma float_no_lt: "float_no kind = Some i \<Longrightarrow> i < 3"
  by (cases kind) auto

lemma float_Some:
  assumes "pmm_wf self" and "k < 0x2220" and "float_no kind = Some i"
  shows "float k kind self = Some (self\<lparr>floating_counts := (floating_counts self)[i := floating_counts self ! i + 1],
     regions := (regions self)[k := (regions self ! k)\<lparr>ri_prev := CHAIN_END,
       ri_next := (case floating_lists self ! i of Some x \<Rightarrow> of_nat x | None \<Rightarrow> CHAIN_END)\<rparr>],
     floating_lists := (floating_lists self)[i := Some k]\<rparr>)"
  using assms float_no_lt [OF assms(3)] by (simp add: float_def pmm_wf_def mod_region_Some)

text \<open>A list linked through \<open>next\<close>.\<close>

definition link :: "u16 \<Rightarrow> nat option" where
  "link n = (if n = CHAIN_END then None else Some (unat n))"

primrec chain :: "RegionInfo list \<Rightarrow> nat option \<Rightarrow> nat list \<Rightarrow> bool" where
  "chain rs h [] \<longleftrightarrow> h = None"
| "chain rs h (x # xs) \<longleftrightarrow> h = Some x \<and> x < length rs \<and> chain rs (link (ri_next (rs ! x))) xs"

definition floats :: "PMM \<Rightarrow> nat \<Rightarrow> nat list \<Rightarrow> bool" where
  "floats self i xs \<longleftrightarrow> chain (regions self) (floating_lists self ! i) xs \<and> floating_counts self ! i = length xs"

lemma chain_cong:
  "length rs = length rs' \<Longrightarrow> (\<And>x. x \<in> set xs \<Longrightarrow> ri_next (rs ! x) = ri_next (rs' ! x)) \<Longrightarrow> chain rs h xs = chain rs' h xs"
  by (induction xs arbitrary: h) auto

lemma chain_upd: "k \<notin> set xs \<Longrightarrow> chain (rs[k := r]) h xs = chain rs h xs"
  by (intro chain_cong length_list_update) (metis nth_list_update_neq)

lemma chain_same_next: "ri_next r = ri_next (rs ! k) \<Longrightarrow> chain (rs[k := r]) h xs = chain rs h xs"
  by (cases "k < length rs") (auto intro!: chain_cong simp: nth_list_update list_update_beyond)

lemma link_of_head: "length rs = 0x2220 \<Longrightarrow> chain rs h xs \<Longrightarrow> link (case h of Some x \<Rightarrow> of_nat x | None \<Rightarrow> CHAIN_END) = h"
proof (cases xs)
  case (Cons x xs')
  assume "length rs = 0x2220" "chain rs h xs"
  with Cons have h: "h = Some x" "x < 0x2220"
    by auto
  then have "unat (of_nat x :: u16) = x"
    by (simp add: unat_of_nat)
  moreover from this h have "(of_nat x :: u16) \<noteq> CHAIN_END"
    by (auto simp: CHAIN_END_def dest!: arg_cong [of _ _ unat])
  ultimately show ?thesis
    by (simp add: link_def h)
qed (simp add: link_def)

text \<open>\<open>float\<close> puts a region at the head of its list and leaves the bitmaps and the other lists alone.\<close>

lemma float_pushes:
  assumes "pmm_wf self" and "k < 0x2220" and "float_no kind = Some i"
  obtains self' where "float k kind self = Some self'" "pmm_wf self'" "\<And>n. bm self' n = bm self n"
    "\<And>xs. floats self i xs \<Longrightarrow> k \<notin> set xs \<Longrightarrow> floats self' i (k # xs)"
    "\<And>i' ys. i' \<noteq> i \<Longrightarrow> k \<notin> set ys \<Longrightarrow> floats self' i' ys = floats self i' ys"
    "supersection_mask self' = supersection_mask self" "allocated_counts self' = allocated_counts self"
proof -
  note [simp] = float_no_lt [OF assms(3)]
  let ?r = "(regions self ! k)\<lparr>ri_prev := CHAIN_END,
       ri_next := (case floating_lists self ! i of Some x \<Rightarrow> of_nat x | None \<Rightarrow> CHAIN_END)\<rparr>"
  let ?self = "self\<lparr>floating_counts := (floating_counts self)[i := floating_counts self ! i + 1],
     regions := (regions self)[k := ?r], floating_lists := (floating_lists self)[i := Some k]\<rparr>"
  have len: "length (regions self) = 0x2220"
    using assms(1) by (simp add: pmm_wf_def)
  have "floats ?self i (k # xs)" if "floats self i xs" "k \<notin> set xs" for xs
  proof -
    have "link (ri_next ?r) = floating_lists self ! i"
      using link_of_head [OF len, of "floating_lists self ! i" xs] that(1) by (simp add: floats_def)
    with that show ?thesis
      using assms by (simp add: floats_def pmm_wf_def chain_upd)
  qed
  moreover have "bm ?self n = bm self n" for n
    using assms(2) len by (cases "n = k") simp_all
  moreover have "floats ?self i' ys = floats self i' ys" if "i' \<noteq> i" "k \<notin> set ys" for i' ys
    using that by (simp add: floats_def chain_upd)
  ultimately show ?thesis
    using that [of ?self] float_Some [OF assms(1-3)] assms(1) by (simp add: pmm_wf_def)
qed

section \<open>Reserving pages\<close>

definition regions_ok :: "(nat \<times> nat) list \<Rightarrow> bool" where
  "regions_ok used \<longleftrightarrow> used \<noteq> [] \<and> sorted_wrt (\<lambda>u v. snd u \<le> fst v) used \<and> (\<forall>u \<in> set used. fst u < snd u)"

definition region_used :: "(nat \<times> nat) list \<Rightarrow> nat \<Rightarrow> nat \<Rightarrow> bool" where
  "region_used used sz n \<longleftrightarrow> (\<exists>u \<in> set used. fst u < Suc n * sz \<and> n * sz < snd u)"

lemma skip_ended_spec:
  "i \<le> skip_ended used i e" "i \<le> k \<Longrightarrow> k < skip_ended used i e \<Longrightarrow> snd (used ! k) \<le> e"
  "skip_ended used i e < length used \<Longrightarrow> e < snd (used ! skip_ended used i e)"
proof (induction used i e rule: skip_ended.induct)
  case (1 used i e)
  { case 1
    then show ?case
      using "1.IH"(1) by (subst skip_ended.simps) auto
  next
    case 2
    then show ?case
      using "1.IH"(2) by (subst (asm) skip_ended.simps) (auto split: if_splits simp: Suc_le_eq le_less [of i])
  next
    case 3
    then show ?case
      using "1.IH"(3) by (subst skip_ended.simps, subst (asm) skip_ended.simps) (auto split: if_splits)
  }
qed

text \<open>No page from the end of the last region on is used; no page before the start of the current one.\<close>

lemma region_used_nth: "region_used used sz n \<longleftrightarrow> (\<exists>k < length used. fst (used ! k) < Suc n * sz \<and> n * sz < snd (used ! k))"
  unfolding region_used_def by (metis in_set_conv_nth)

lemma regions_ok_later: "regions_ok used \<Longrightarrow> i < k \<Longrightarrow> k < length used \<Longrightarrow> snd (used ! i) \<le> fst (used ! k)"
  by (auto simp: regions_ok_def sorted_wrt_iff_nth_less)

lemma regions_ok_nth: "regions_ok used \<Longrightarrow> i < length used \<Longrightarrow> fst (used ! i) < snd (used ! i)"
  by (auto simp: regions_ok_def)

definition reserved :: "(nat \<times> nat) list \<Rightarrow> nat \<Rightarrow> PMM \<Rightarrow> PMM \<Rightarrow> bool" where
  "reserved used j self self' \<longleftrightarrow> pmm_wf self' \<and> floating_lists self' = floating_lists self
    \<and> floating_counts self' = floating_counts self \<and> supersection_mask self' = supersection_mask self
    \<and> (\<forall>k b. b < 16 \<longrightarrow> bit (bm self' k) b = (bit (bm self k) b \<and> \<not> (j \<le> k * 16 + b \<and> k * 16 + b < 0x20000 \<and> region_used used 4096 (k * 16 + b))))"

lemma reserve_pages_ok:
  assumes "regions_ok used" and "\<forall>u \<in> set used. snd u \<le> 0x1ffff000" and "pmm_wf self" and "i < length used"
    and "\<forall>k < i. snd (used ! k) \<le> j * 4096" and "j * 4096 < snd (used ! i)"
  shows "\<exists>self'. reserve_pages used [j..<0x20000] i self = Some self' \<and> reserved used j self self'"
  using assms(3-6)
proof (induction "0x20000 - j" arbitrary: j i self)
  case 0
  then have "0x1ffff000 < snd (used ! i)"
    by simp
  then show ?case
    using assms(2) \<open>i < length used\<close> by (auto simp: not_le dest!: bspec [of _ _ "used ! i"])
next
  case (Suc d)
  have "snd (used ! i) \<le> 0x1ffff000"
    using assms(2) Suc.prems(2) by simp
  then have j: "j < 0x1ffff"
    using Suc.prems(4) by simp
  then have upt: "[j..<0x20000] = j # [Suc j..<0x20000]"
    by (simp add: upt_conv_Cons)
  have ptrs: "sp_ptr j = Some (j * 4096)" "sp_ptr (j + 1) = Some (Suc j * 4096)"
    using j by (simp_all add: sp_ptr_def)
  show ?case
  proof (cases "Suc j * 4096 \<le> fst (used ! i)")
    case True
    have "\<not> region_used used 4096 j"
    proof
      assume "region_used used 4096 j"
      then obtain k where k: "k < length used" "fst (used ! k) < Suc j * 4096" "j * 4096 < snd (used ! k)"
        by (auto simp: region_used_nth)
      then have "i \<le> k"
        using Suc.prems(3) by (meson not_le)
      with k True regions_ok_nth [OF assms(1) Suc.prems(2)] regions_ok_later [OF assms(1), of i k] show False
        by (cases "i = k") auto
    qed
    moreover obtain self' where self': "reserve_pages used [Suc j..<0x20000] i self = Some self'" "reserved used (Suc j) self self'"
      using Suc.hyps(1) [of "Suc j" self i] Suc.hyps(2) Suc.prems True regions_ok_nth [OF assms(1) Suc.prems(2)] by fastforce
    ultimately have "reserved used j self self'"
      by (auto simp: reserved_def Suc_le_eq le_less)
    moreover have "reserve_pages used [j..<0x20000] i self = reserve_pages used [Suc j..<0x20000] i self"
      using True by (simp only: upt reserve_pages.simps ptrs idx_Some [OF Suc.prems(2)] bind.bind_lunit if_True)
    ultimately show ?thesis
      using self'(1) by auto
  next
    case False
    let ?clear = "\<lambda>r. r\<lparr>ri_bitmap := ri_bitmap r AND NOT (push_bit (j mod 16) 1)\<rparr>"
    let ?i = "skip_ended used i (Suc j * 4096)"
    define s1 where "s1 = self\<lparr>allocated_counts := (allocated_counts self)[0 := allocated_counts self ! 0 + 1],
      regions := (regions self)[j div 16 := ?clear (regions self ! (j div 16))]\<rparr>"
    have k: "j div 16 < 0x2000" "j div 16 < length (regions self)"
      using j Suc.prems(1) by (auto simp: pmm_wf_def)
    have wf: "pmm_wf s1"
      using Suc.prems(1) by (simp add: pmm_wf_def s1_def)
    have same: "floating_lists s1 = floating_lists self" "floating_counts s1 = floating_counts self"
      "supersection_mask s1 = supersection_mask self"
      by (simp_all add: s1_def)
    have step: "reserve_pages used [j..<0x20000] i self = (if length used \<le> ?i then Some s1 else reserve_pages used [Suc j..<0x20000] ?i s1)"
    proof -
      have "count_allocated 0 self = Some (self\<lparr>allocated_counts := (allocated_counts self)[0 := allocated_counts self ! 0 + 1]\<rparr>)"
        using Suc.prems(1) by (intro count_allocated_Some) (simp add: pmm_wf_def)
      moreover have "lp_idx (j div 16) = Some (j div 16)"
        using k(1) by (simp add: lp_idx_def)
      moreover have "mod_region (j div 16) ?clear (self\<lparr>allocated_counts := (allocated_counts self)[0 := allocated_counts self ! 0 + 1]\<rparr>) = Some s1"
        using k(2) by (simp add: mod_region_Some s1_def)
      ultimately show ?thesis
        using False by (simp only: upt reserve_pages.simps ptrs idx_Some [OF Suc.prems(2)] bind.bind_lunit if_False Let_def)
    qed
    have bits: "bit (bm s1 n) b = (bit (bm self n) b \<and> n * 16 + b \<noteq> j)" if "b < 16" for n b
    proof (cases "n = j div 16")
      case True
      have pos: "j div 16 * 16 + b = j \<longleftrightarrow> b = j mod 16"
        using that by presburger
      then show ?thesis
        using that k pos True by (simp add: bit_simps s1_def)
    next
      case False
      then show ?thesis
        using that by (auto simp: s1_def)
    qed
    have used: "region_used used 4096 j"
      using False Suc.prems by (auto simp: region_used_nth)
    show ?thesis
    proof (cases "length used \<le> ?i")
      case True
      have "\<not> region_used used 4096 p" if "j < p" for p
      proof
        assume "region_used used 4096 p"
        then obtain k where k: "k < length used" "p * 4096 < snd (used ! k)"
          by (auto simp: region_used_nth)
        have "snd (used ! k) \<le> Suc j * 4096"
        proof (cases "k < i")
          case True
          then show ?thesis
            using Suc.prems(3) by (meson le_SucI le_trans mult_le_mono1 order_refl)
        next
          case False
          then show ?thesis
            using skip_ended_spec(2) [of i k used] k(1) \<open>length used \<le> ?i\<close> by simp
        qed
        with k that show False
          by simp
      qed
      then have "reserved used j self s1"
        using wf used j same unfolding reserved_def by (auto simp: bits le_less)
      with step True show ?thesis
        by auto
    next
      case i: False
      have "\<forall>k < ?i. snd (used ! k) \<le> Suc j * 4096"
        using Suc.prems(3) skip_ended_spec(2) [of i _ used "Suc j * 4096"]
        by (meson le_SucI le_trans mult_le_mono1 not_le order_refl)
      moreover have "Suc j * 4096 < snd (used ! ?i)"
        using skip_ended_spec(3) i by simp
      ultimately obtain self' where self': "reserve_pages used [Suc j..<0x20000] ?i s1 = Some self'" "reserved used (Suc j) s1 self'"
        using Suc.hyps(1) [of "Suc j" s1 ?i] Suc.hyps(2) wf i by fastforce
      have "reserved used j self self'"
        using self'(2) used j same unfolding reserved_def by (auto simp: bits Suc_le_eq le_less)
      with step i self'(1) show ?thesis
        by auto
    qed
  qed
qed

section \<open>Marking parents\<close>

definition partly :: "u16 \<Rightarrow> bool" where
  "partly w \<longleftrightarrow> w \<noteq> 0 \<and> w \<noteq> 0xffff"

lemma u16_full_iff: "(w :: u16) = 0xffff \<longleftrightarrow> (\<forall>b < 16. bit w b)"
proof -
  have "(0xffff :: u16) = mask 16"
    by (simp add: mask_eq_exp_minus_1)
  then show ?thesis
    by (simp add: bit_eq_iff bit_mask_iff)
qed

text \<open>What marking the children \<open>ps\<close> does, as far as bitmaps, lists and mask go.\<close>

definition marked :: "nat \<Rightarrow> nat \<Rightarrow> nat \<Rightarrow> (nat \<times> nat) list \<Rightarrow> PMM \<Rightarrow> PMM \<Rightarrow> bool" where
  "marked cb pb fi ps self self' \<longleftrightarrow> pmm_wf self' \<and> supersection_mask self' = supersection_mask self
    \<and> (\<forall>k b. b < 16 \<longrightarrow> bit (bm self' k) b = (bit (bm self k) b
          \<and> \<not> (\<exists>p \<in> set ps. k = pb + fst p \<and> b = snd p mod 16 \<and> bm self (cb + snd p) \<noteq> 0xffff)))
    \<and> (\<forall>xs. floats self fi xs \<longrightarrow> set xs \<inter> (\<lambda>p. cb + snd p) ` set ps = {} \<longrightarrow>
          floats self' fi (rev (map (\<lambda>p. cb + snd p) (filter (\<lambda>p. partly (bm self (cb + snd p))) ps)) @ xs))
    \<and> (\<forall>fi' xs. fi' \<noteq> fi \<longrightarrow> floats self fi' xs \<longrightarrow> set xs \<inter> (\<lambda>p. cb + snd p) ` set ps = {} \<longrightarrow> floats self' fi' xs)"

lemma marked_Nil: "pmm_wf self \<Longrightarrow> marked cb pb fi [] self self"
  by (auto simp: marked_def)

lemma mark_child_ok:
  assumes "pmm_wf self" and "cidx j = Some (cb + j)" and "pidx i = Some (pb + i)" and "cb + j < 0x2220" and "pb + i < 0x2220"
    and "pb + i \<noteq> cb + j" and "float_no kind = Some fi" and "c < 4"
  shows "\<exists>self'. mark_child c kind cidx pidx (i, j) self = Some self' \<and> marked cb pb fi [(i, j)] self self'"
proof (cases "bm self (cb + j) = 0xffff")
  case True
  then have "mark_child c kind cidx pidx (i, j) self = Some self"
    using assms by (simp add: mark_child_def pmm_wf_def)
  moreover have "marked cb pb fi [(i, j)] self self"
    using True assms(1) by (simp add: marked_def partly_def)
  ultimately show ?thesis
    by blast
next
  case False
  let ?clear = "\<lambda>r. r\<lparr>ri_bitmap := ri_bitmap r AND NOT (push_bit (j mod 16) 1)\<rparr>"
  let ?s0 = "self\<lparr>allocated_counts := (allocated_counts self)[c := allocated_counts self ! c + 1]\<rparr>"
  define s1 where "s1 = ?s0\<lparr>regions := (regions self)[pb + i := ?clear (regions self ! (pb + i))]\<rparr>"
  have wf: "pmm_wf s1" and len: "length (regions self) = 0x2220"
    using assms(1) by (auto simp: pmm_wf_def s1_def)
  have step: "mark_child c kind cidx pidx (i, j) self = (if bm self (cb + j) \<noteq> 0 then float (cb + j) kind s1 else Some s1)"
    using assms False by (simp add: mark_child_def pmm_wf_def count_allocated_Some mod_region_Some s1_def)
  have bits: "bit (bm s1 k) b = (bit (bm self k) b \<and> \<not> (k = pb + i \<and> b = j mod 16))" if "b < 16" for k b
    using that assms(5) len by (cases "k = pb + i") (auto simp: bit_simps s1_def)
  have mask: "supersection_mask s1 = supersection_mask self"
    by (simp add: s1_def)
  have fl: "floats s1 n xs = floats self n xs" for n xs
    by (simp add: floats_def chain_same_next s1_def)
  show ?thesis
  proof (cases "bm self (cb + j) = 0")
    case True
    have "marked cb pb fi [(i, j)] self s1"
      using True False wf fl mask by (simp add: marked_def bits partly_def)
    with step True show ?thesis
      by auto
  next
    case nz: False
    obtain s2 where s2: "float (cb + j) kind s1 = Some s2" "pmm_wf s2" "\<And>n. bm s2 n = bm s1 n"
      "\<And>xs. floats s1 fi xs \<Longrightarrow> cb + j \<notin> set xs \<Longrightarrow> floats s2 fi ((cb + j) # xs)"
      "\<And>i' ys. i' \<noteq> fi \<Longrightarrow> cb + j \<notin> set ys \<Longrightarrow> floats s2 i' ys = floats s1 i' ys"
      "supersection_mask s2 = supersection_mask s1"
      using float_pushes [OF wf assms(4,7)] by metis
    have "marked cb pb fi [(i, j)] self s2"
      using False nz s2 fl mask by (simp add: marked_def bits partly_def)
    with step nz s2(1) show ?thesis
      by auto
  qed
qed

text \<open>Composition, when no parent marked by the first part is a child of the second part.\<close>

lemma marked_append:
  assumes "marked cb pb fi ps self s1" and "marked cb pb fi qs s1 s2" and "\<forall>p \<in> set ps. \<forall>q \<in> set qs. pb + fst p \<noteq> cb + snd q"
    and "snd ` set ps \<inter> snd ` set qs = {}"
  shows "marked cb pb fi (ps @ qs) self s2"
proof -
  have same: "bm s1 (cb + snd q) = bm self (cb + snd q)" if "q \<in> set qs" for q
  proof (rule bit_word_eqI)
    fix b assume "b < LENGTH(16)"
    then show "bit (bm s1 (cb + snd q)) b = bit (bm self (cb + snd q)) b"
      using assms(1,3) that unfolding marked_def by fastforce
  qed
  have filt: "filter (\<lambda>p. partly (bm s1 (cb + snd p))) qs = filter (\<lambda>p. partly (bm self (cb + snd p))) qs"
    using same by (intro filter_cong) auto
  have bits: "bit (bm s2 k) b = (bit (bm self k) b \<and> \<not> (\<exists>p \<in> set (ps @ qs). k = pb + fst p \<and> b = snd p mod 16 \<and> bm self (cb + snd p) \<noteq> 0xffff))"
    if "b < 16" for k b
    using assms(1,2) that same unfolding marked_def by (fastforce simp: ball_Un)
  have disj: "(\<lambda>p. cb + snd p) ` set ps \<inter> (\<lambda>p. cb + snd p) ` set qs = {}"
    using assms(4) by (force simp: image_def)
  show ?thesis
    unfolding marked_def
  proof (intro conjI allI impI)
    fix xs assume xs: "floats self fi xs" "set xs \<inter> (\<lambda>p. cb + snd p) ` set (ps @ qs) = {}"
    let ?ys = "rev (map (\<lambda>p. cb + snd p) (filter (\<lambda>p. partly (bm self (cb + snd p))) ps)) @ xs"
    have "floats s1 fi ?ys"
      using assms(1) xs unfolding marked_def set_append image_Un by blast
    moreover have "set ?ys \<inter> (\<lambda>p. cb + snd p) ` set qs = {}"
      using disj xs(2) by auto
    ultimately have "floats s2 fi (rev (map (\<lambda>p. cb + snd p) (filter (\<lambda>p. partly (bm s1 (cb + snd p))) qs)) @ ?ys)"
      using assms(2) unfolding marked_def by blast
    then show "floats s2 fi (rev (map (\<lambda>p. cb + snd p) (filter (\<lambda>p. partly (bm self (cb + snd p))) (ps @ qs))) @ xs)"
      by (simp add: filt)
  next
    fix fi' xs assume "fi' \<noteq> fi" "floats self fi' xs" "set xs \<inter> (\<lambda>p. cb + snd p) ` set (ps @ qs) = {}"
    then show "floats s2 fi' xs"
      using assms(1,2) unfolding marked_def by (simp add: image_Un Int_Un_distrib)
  qed (use assms(1,2) bits in \<open>auto simp: marked_def\<close>)
qed

lemma mark_children_ok:
  assumes "\<forall>(i, j) \<in> set ps. cidx j = Some (cb + j) \<and> pidx i = Some (pb + i) \<and> cb + j < 0x2220 \<and> pb + i < 0x2220"
    and "\<forall>p \<in> set ps. \<forall>q \<in> set ps. pb + fst p \<noteq> cb + snd q" and "distinct (map snd ps)" and "pmm_wf self"
    and "float_no kind = Some fi" and "c < 4"
  shows "\<exists>self'. mfold (mark_child c kind cidx pidx) ps self = Some self' \<and> marked cb pb fi ps self self'"
  using assms(1-4)
proof (induction ps arbitrary: self)
  case Nil
  then show ?case
    by (simp add: marked_Nil)
next
  case (Cons p ps)
  obtain i j where p: "p = (i, j)"
    by (cases p)
  obtain s1 where s1: "mark_child c kind cidx pidx (i, j) self = Some s1" "marked cb pb fi [(i, j)] self s1"
    using mark_child_ok [of self cidx j cb pidx i pb kind fi c] Cons.prems assms(5,6) p by auto
  then have "pmm_wf s1"
    by (simp add: marked_def)
  with Cons.IH [of s1] Cons.prems p obtain s2 where s2: "mfold (mark_child c kind cidx pidx) ps s1 = Some s2" "marked cb pb fi ps s1 s2"
    by auto
  have "marked cb pb fi ([(i, j)] @ ps) self s2"
    using Cons.prems(2,3) p by (intro marked_append [OF s1(2) s2(2)]) (auto simp: image_iff)
  with s1(1) s2(1) show ?case
    by (simp add: p)
qed

lemma children_eq: "children n = map (\<lambda>j. (j div 16, j)) [0..<n * 16]"
proof (induction n)
  case (Suc n)
  have "[0..<Suc n * 16] = [0..<n * 16] @ [n * 16..<n * 16 + 16]"
    using upt_add_eq_append [of 0 "n * 16" 16] by (simp only: mult_Suc add.commute le0)
  moreover have "map (\<lambda>j. (j div 16, j)) [n * 16..<n * 16 + 16] = map (Pair n) [n * 16..<n * 16 + 16]"
    by (rule map_cong) auto
  ultimately show ?case
    using Suc by (simp add: children_def)
qed (simp add: children_def)

lemma mark_level_ok:
  assumes "\<forall>j < n * 16. cidx j = Some (cb + j) \<and> cb + j < 0x2220" and "\<forall>i < n. pidx i = Some (pb + i) \<and> pb + i < 0x2220"
    and "cb + n * 16 \<le> pb" and "pmm_wf self" and "float_no kind = Some fi" and "c < 4"
  shows "\<exists>self'. mfold (mark_child c kind cidx pidx) (children n) self = Some self' \<and> marked cb pb fi (children n) self self'"
  using assms by (intro mark_children_ok) (auto simp: children_eq comp_def div_less_iff_less_mult)

text \<open>The same for the mask of the supersections.\<close>

lemma mark_supersection_ok:
  assumes "pmm_wf self" and "i < 32"
  shows "\<exists>self'. mark_supersection i self = Some self' \<and> pmm_wf self' \<and> (\<forall>k. bm self' k = bm self k)
    \<and> (\<forall>b < 32. bit (supersection_mask self') b = (bit (supersection_mask self) b \<and> \<not> (b = i \<and> bm self (0x2200 + i) \<noteq> 0xffff)))
    \<and> (\<forall>xs. floats self 2 xs \<longrightarrow> 0x2200 + i \<notin> set xs \<longrightarrow> floats self' 2 (if partly (bm self (0x2200 + i)) then (0x2200 + i) # xs else xs))
    \<and> (\<forall>n xs. n \<noteq> 2 \<longrightarrow> floats self n xs \<longrightarrow> 0x2200 + i \<notin> set xs \<longrightarrow> floats self' n xs)"
proof (cases "bm self (0x2200 + i) = 0xffff")
  case True
  then have "mark_supersection i self = Some self"
    using assms by (simp add: mark_supersection_def ss_idx_def pmm_wf_def add.commute)
  then show ?thesis
    using True assms(1) by (simp add: partly_def)
next
  case False
  define s1 where "s1 = self\<lparr>allocated_counts := (allocated_counts self)[3 := allocated_counts self ! 3 + 1],
    supersection_mask := supersection_mask self AND NOT (push_bit i 1)\<rparr>"
  have wf: "pmm_wf s1"
    using assms(1) by (simp add: pmm_wf_def s1_def)
  have step: "mark_supersection i self = (if bm self (0x2200 + i) \<noteq> 0 then float (0x2200 + i) Supersection s1 else Some s1)"
    using assms False by (simp add: mark_supersection_def ss_idx_def pmm_wf_def count_allocated_Some add.commute s1_def)
  have bits: "bit (supersection_mask s1) b = (bit (supersection_mask self) b \<and> b \<noteq> i)" if "b < 32" for b
    using that by (auto simp: s1_def bit_simps)
  have fl: "floats s1 n xs = floats self n xs" "bm s1 k = bm self k" for n xs k
    by (simp_all add: floats_def s1_def)
  show ?thesis
  proof (cases "bm self (0x2200 + i) = 0")
    case True
    then show ?thesis
      using step wf False bits fl by (auto simp: partly_def)
  next
    case nz: False
    have k: "0x2200 + i < 0x2220" "float_no Supersection = Some 2"
      using assms(2) by simp_all
    obtain s2 where s2: "float (0x2200 + i) Supersection s1 = Some s2" "pmm_wf s2" "\<And>n. bm s2 n = bm s1 n"
      "\<And>xs. floats s1 2 xs \<Longrightarrow> 0x2200 + i \<notin> set xs \<Longrightarrow> floats s2 2 ((0x2200 + i) # xs)"
      "\<And>i' ys. i' \<noteq> 2 \<Longrightarrow> 0x2200 + i \<notin> set ys \<Longrightarrow> floats s2 i' ys = floats s1 i' ys"
      "supersection_mask s2 = supersection_mask s1"
      using float_pushes [OF wf k] by metis
    then show ?thesis
      using step False nz bits fl by (intro exI [of _ s2]) (simp add: partly_def)
  qed
qed

lemma mark_supersections_ok:
  assumes "pmm_wf self" and "set is \<subseteq> {..<32}" and "distinct is"
  shows "\<exists>self'. mfold mark_supersection is self = Some self' \<and> pmm_wf self' \<and> (\<forall>k. bm self' k = bm self k)
    \<and> (\<forall>b < 32. bit (supersection_mask self') b = (bit (supersection_mask self) b \<and> \<not> (b \<in> set is \<and> bm self (0x2200 + b) \<noteq> 0xffff)))
    \<and> (\<forall>xs. floats self 2 xs \<longrightarrow> set xs \<inter> (+) 0x2200 ` set is = {} \<longrightarrow>
        floats self' 2 (rev (map ((+) 0x2200) (filter (\<lambda>i. partly (bm self (0x2200 + i))) is)) @ xs))
    \<and> (\<forall>n xs. n \<noteq> 2 \<longrightarrow> floats self n xs \<longrightarrow> set xs \<inter> (+) 0x2200 ` set is = {} \<longrightarrow> floats self' n xs)"
  using assms
proof (induction "is" arbitrary: self)
  case (Cons i "is")
  obtain s1 where s1: "mark_supersection i self = Some s1" "pmm_wf s1" "\<And>k. bm s1 k = bm self k"
    "\<forall>b < 32. bit (supersection_mask s1) b = (bit (supersection_mask self) b \<and> \<not> (b = i \<and> bm self (0x2200 + i) \<noteq> 0xffff))"
    "\<And>xs. floats self 2 xs \<Longrightarrow> 0x2200 + i \<notin> set xs \<Longrightarrow> floats s1 2 (if partly (bm self (0x2200 + i)) then (0x2200 + i) # xs else xs)"
    "\<And>n xs. n \<noteq> 2 \<Longrightarrow> floats self n xs \<Longrightarrow> 0x2200 + i \<notin> set xs \<Longrightarrow> floats s1 n xs"
    using mark_supersection_ok [of self i] Cons.prems by auto
  obtain s2 where s2: "mfold mark_supersection is s1 = Some s2" "pmm_wf s2" "\<And>k. bm s2 k = bm s1 k"
    "\<forall>b < 32. bit (supersection_mask s2) b = (bit (supersection_mask s1) b \<and> \<not> (b \<in> set is \<and> bm s1 (0x2200 + b) \<noteq> 0xffff))"
    "\<And>xs. floats s1 2 xs \<Longrightarrow> set xs \<inter> (+) 0x2200 ` set is = {} \<Longrightarrow>
        floats s2 2 (rev (map ((+) 0x2200) (filter (\<lambda>i. partly (bm s1 (0x2200 + i))) is)) @ xs)"
    "\<And>n xs. n \<noteq> 2 \<Longrightarrow> floats s1 n xs \<Longrightarrow> set xs \<inter> (+) 0x2200 ` set is = {} \<Longrightarrow> floats s2 n xs"
    using Cons.IH [of s1] s1(2) Cons.prems by auto
  have "floats s2 2 (rev (map ((+) 0x2200) (filter (\<lambda>i. partly (bm self (0x2200 + i))) (i # is))) @ xs)"
    if "floats self 2 xs" "set xs \<inter> (+) 0x2200 ` set (i # is) = {}" for xs
    using s2(5) [OF s1(5) [OF that(1)]] that(2) Cons.prems(3) s1(3) by (auto simp: image_iff)
  moreover have "floats s2 n xs" if "n \<noteq> 2" "floats self n xs" "set xs \<inter> (+) 0x2200 ` set (i # is) = {}" for n xs
    using s2(6) [OF that(1) s1(6) [OF that(1,2)]] that(3) by auto
  moreover have "\<forall>b < 32. bit (supersection_mask s2) b = (bit (supersection_mask self) b \<and> \<not> (b \<in> set (i # is) \<and> bm self (0x2200 + b) \<noteq> 0xffff))"
    using s1(3,4) s2(4) by auto
  ultimately show ?case
    using s1(1,3) s2(1-3) by (intro exI [of _ s2]) simp
qed simp

section \<open>Initialisation\<close>

text \<open>Region \<open>n\<close> of a kind is free when its bit in its parent's bitmap is set.\<close>

fun region_free :: "PMM \<Rightarrow> RegionKind \<Rightarrow> nat \<Rightarrow> bool" where
  "region_free self SmallPage n \<longleftrightarrow> bit (bm self (n div 16)) (n mod 16)"
| "region_free self LargePage n \<longleftrightarrow> bit (bm self (0x2000 + n div 16)) (n mod 16)"
| "region_free self Section n \<longleftrightarrow> bit (bm self (0x2200 + n div 16)) (n mod 16)"
| "region_free self Supersection n \<longleftrightarrow> bit (supersection_mask self) n"

lemma region_used_parts:
  assumes "regions_ok used" and "0 < sz"
  shows "region_used used (16 * sz) n \<longleftrightarrow> (\<exists>b < 16. region_used used sz (n * 16 + b))"
proof
  assume "region_used used (16 * sz) n"
  then obtain u where u: "u \<in> set used" "fst u < Suc n * (16 * sz)" "n * (16 * sz) < snd u"
    by (auto simp: region_used_def)
  have nonempty: "fst u < snd u"
    using assms(1) u(1) by (auto simp: regions_ok_def)
  define p where "p = max (fst u div sz) (n * 16)"
  have "fst u div sz < Suc n * 16"
    using u(2) assms(2) by (simp add: div_less_iff_less_mult algebra_simps)
  then have range: "n * 16 \<le> p" "p < Suc n * 16"
    by (auto simp: p_def)
  have "fst u < Suc (fst u div sz) * sz"
    using assms(2) by (simp add: dividend_less_div_times)
  moreover have "Suc (fst u div sz) * sz \<le> Suc p * sz"
    by (simp add: p_def)
  moreover have "p * sz < snd u"
  proof (cases "n * 16 \<le> fst u div sz")
    case True
    then show ?thesis
      using nonempty le_less_trans [OF div_times_less_eq_dividend [of "fst u" sz]] by (simp only: p_def max_absorb1)
  next
    case False
    then show ?thesis
      using u(3) by (simp add: p_def max_absorb2 mult.assoc)
  qed
  ultimately have "region_used used sz p"
    using u(1) unfolding region_used_def by (meson less_le_trans)
  with range show "\<exists>b < 16. region_used used sz (n * 16 + b)"
    by (intro exI [of _ "p - n * 16"]) auto
next
  assume "\<exists>b < 16. region_used used sz (n * 16 + b)"
  then obtain b u where b: "b < 16" "u \<in> set used" "fst u < Suc (n * 16 + b) * sz" "(n * 16 + b) * sz < snd u"
    by (auto simp: region_used_def)
  have "Suc (n * 16 + b) * sz \<le> (Suc n * 16) * sz" "(n * 16) * sz \<le> (n * 16 + b) * sz"
    using b(1) by (intro mult_le_mono1; simp)+
  with b have "fst u < (Suc n * 16) * sz" "(n * 16) * sz < snd u"
    by linarith+
  with b(2) show "region_used used (16 * sz) n"
    unfolding region_used_def mult.assoc [symmetric] by blast
qed

lemma div_mod_16: "k < n * 16 \<longleftrightarrow> (\<exists>i b. i < n \<and> b < 16 \<and> k = i * 16 + b)" for k n :: nat
proof
  assume "k < n * 16"
  then show "\<exists>i b. i < n \<and> b < 16 \<and> k = i * 16 + b"
    by (intro exI [of _ "k div 16"] exI [of _ "k mod 16"]) (simp add: div_less_iff_less_mult)
qed auto

text \<open>Clearing a parent's bits leaves exactly the free children.\<close>

lemma marked_children:
  assumes "marked cb pb fi (children n) self self'"
  shows "k < pb \<or> pb + n \<le> k \<Longrightarrow> bm self' k = bm self k"
    and "i < n \<Longrightarrow> b < 16 \<Longrightarrow> bm self (pb + i) = 0xffff \<Longrightarrow> bit (bm self' (pb + i)) b \<longleftrightarrow> bm self (cb + (i * 16 + b)) = 0xffff"
proof -
  have bits: "b < 16 \<Longrightarrow> bit (bm self' k) b = (bit (bm self k) b
      \<and> \<not> (\<exists>j < n * 16. k = pb + j div 16 \<and> b = j mod 16 \<and> bm self (cb + j) \<noteq> 0xffff))" for k b
  proof -
    assume "b < 16"
    then have "bit (bm self' k) b = (bit (bm self k) b
      \<and> \<not> (\<exists>p \<in> set (children n). k = pb + fst p \<and> b = snd p mod 16 \<and> bm self (cb + snd p) \<noteq> 0xffff))"
      using assms unfolding marked_def by iprover
    moreover have "(\<exists>p \<in> set (children n). k = pb + fst p \<and> b = snd p mod 16 \<and> bm self (cb + snd p) \<noteq> 0xffff)
      \<longleftrightarrow> (\<exists>j < n * 16. k = pb + j div 16 \<and> b = j mod 16 \<and> bm self (cb + j) \<noteq> 0xffff)"
      by (auto simp: children_eq)
    ultimately show ?thesis
      by simp
  qed
  { assume "k < pb \<or> pb + n \<le> k"
    then show "bm self' k = bm self k"
      using bits by (intro bit_word_eqI) (auto simp: div_less_iff_less_mult [symmetric])
  next
    assume i: "i < n" "b < 16" "bm self (pb + i) = 0xffff"
    have "(\<exists>j < n * 16. pb + i = pb + j div 16 \<and> b = j mod 16 \<and> bm self (cb + j) \<noteq> 0xffff) \<longleftrightarrow> bm self (cb + (i * 16 + b)) \<noteq> 0xffff"
    proof
      assume "\<exists>j < n * 16. pb + i = pb + j div 16 \<and> b = j mod 16 \<and> bm self (cb + j) \<noteq> 0xffff"
      then show "bm self (cb + (i * 16 + b)) \<noteq> 0xffff"
        by auto
    next
      assume "bm self (cb + (i * 16 + b)) \<noteq> 0xffff"
      then show "\<exists>j < n * 16. pb + i = pb + j div 16 \<and> b = j mod 16 \<and> bm self (cb + j) \<noteq> 0xffff"
        using i(1,2) by (intro exI [of _ "i * 16 + b"]) auto
    qed
    then show "bit (bm self' (pb + i)) b \<longleftrightarrow> bm self (cb + (i * 16 + b)) = 0xffff"
      using bits [OF i(2), of "pb + i"] i(2,3) u16_full_iff [of "bm self (pb + i)"] by auto
  }
qed

text \<open>The children that marking floats, last first.\<close>

definition floated :: "nat \<Rightarrow> nat \<Rightarrow> PMM \<Rightarrow> nat list" where
  "floated cb n self = rev (map (\<lambda>p. cb + snd p) (filter (\<lambda>p. partly (bm self (cb + snd p))) (children n)))"

lemma set_floated: "set (floated cb n self) = {k \<in> {cb..<cb + n * 16}. partly (bm self k)}"
proof (intro set_eqI iffI)
  fix k assume "k \<in> {k \<in> {cb..<cb + n * 16}. partly (bm self k)}"
  then have "k - cb < n * 16" "partly (bm self (cb + (k - cb)))" "k = cb + (k - cb)"
    by auto
  then show "k \<in> set (floated cb n self)"
    unfolding floated_def children_eq by (auto simp: image_iff simp del: add_diff_inverse_nat)
qed (auto simp: floated_def children_eq)

lemma distinct_floated: "distinct (floated cb n self)"
  by (simp add: floated_def children_eq filter_map comp_def distinct_map inj_on_def)

definition floats_partly :: "PMM \<Rightarrow> nat \<Rightarrow> nat set \<Rightarrow> bool" where
  "floats_partly self i ks \<longleftrightarrow> (\<exists>xs. floats self i xs \<and> distinct xs \<and> set xs = {k \<in> ks. partly (bm self k)})"

lemma floats_partly_keep:
  assumes "floats_partly self i ks" and "\<And>xs. floats self i xs \<Longrightarrow> set xs \<subseteq> ks \<Longrightarrow> floats self' i xs" and "\<And>k. k \<in> ks \<Longrightarrow> bm self' k = bm self k"
  shows "floats_partly self' i ks"
  using assms unfolding floats_partly_def by (metis (mono_tags, lifting) Collect_cong mem_Collect_eq subsetI)

lemma marked_floats:
  assumes "marked cb pb fi (children n) self self'" and "floats self fi []" and "cb + n * 16 \<le> pb"
  shows "floats_partly self' fi {cb..<cb + n * 16}"
proof -
  have "\<forall>xs. floats self fi xs \<longrightarrow> set xs \<inter> (\<lambda>p. cb + snd p) ` set (children n) = {} \<longrightarrow> floats self' fi (floated cb n self @ xs)"
    using assms(1) unfolding marked_def floated_def by iprover
  from spec [OF this, of "[]"] assms(2) have "floats self' fi (floated cb n self)"
    by simp
  moreover have "{k \<in> {cb..<cb + n * 16}. partly (bm self k)} = {k \<in> {cb..<cb + n * 16}. partly (bm self' k)}"
    using marked_children(1) [OF assms(1)] assms(3) by auto
  ultimately show ?thesis
    unfolding floats_partly_def using set_floated [of cb n self] distinct_floated [of cb n self] by (intro exI [of _ "floated cb n self"]) simp
qed

lemma marked_other:
  assumes "marked cb pb fi (children n) self self'" and "i \<noteq> fi" and "floats self i xs" and "set xs \<inter> {cb..<cb + n * 16} = {}"
  shows "floats self' i xs"
proof -
  have "set xs \<inter> (\<lambda>p. cb + snd p) ` set (children n) = {}"
    using assms(4) by (auto simp: children_eq)
  then show ?thesis
    using assms(1-3) unfolding marked_def by iprover
qed

lemma initialize_stages:
  assumes "regions_ok used" and "\<forall>u \<in> set used. snd u \<le> 0x1ffff000"
  obtains s1 s2 s3 s4 where "initialize_once used pmm_init_at = Some s4" "reserved used 0 pmm_init_at s1"
    "marked 0 0x2000 0 (children 0x200) s1 s2" "marked 0x2000 0x2200 1 (children 0x20) s2 s3" "mfold mark_supersection [0..<32] s3 = Some s4"
proof -
  let ?s0 = "pmm_init_at\<lparr>supersection_mask := 0xffffffff,
       regions := map (\<lambda>r. r\<lparr>ri_bitmap := 0xffff, ri_prev := CHAIN_END, ri_next := CHAIN_END\<rparr>) (regions pmm_init_at)\<rparr>"
  have s0: "?s0 = pmm_init_at"
    by (simp add: pmm_init_at_def)
  have "pmm_wf pmm_init_at"
    by (simp add: pmm_wf_def pmm_init_at_def)
  moreover have "used \<noteq> []"
    using assms(1) by (simp add: regions_ok_def)
  moreover have "0 < snd (used ! 0)"
    using regions_ok_nth [OF assms(1), of 0] \<open>used \<noteq> []\<close> by simp
  ultimately obtain s1 where s1: "reserve_pages used [0..<0x20000] 0 pmm_init_at = Some s1" "reserved used 0 pmm_init_at s1"
    using reserve_pages_ok [OF assms, of pmm_init_at 0 0] by auto
  obtain s2 where s2: "mfold (mark_child 1 LargePage lp_idx s_idx) (children 0x200) s1 = Some s2" "marked 0 0x2000 0 (children 0x200) s1 s2"
    using mark_level_ok [where n = "0x200" and cidx = lp_idx and cb = 0 and pidx = s_idx and pb = "0x2000" and self = s1 and kind = LargePage and fi = 0 and c = 1] s1(2)
    by (auto simp: lp_idx_def s_idx_def reserved_def)
  obtain s3 where s3: "mfold (mark_child 2 Section s_idx ss_idx) (children 0x20) s2 = Some s3" "marked 0x2000 0x2200 1 (children 0x20) s2 s3"
    using mark_level_ok [where n = "0x20" and cidx = s_idx and cb = "0x2000" and pidx = ss_idx and pb = "0x2200" and self = s2 and kind = Section and fi = 1 and c = 2] s2(2)
    by (auto simp: s_idx_def ss_idx_def marked_def)
  have "pmm_wf s3"
    using s3(2) by (simp add: marked_def)
  then obtain s4 where s4: "mfold mark_supersection [0..<32] s3 = Some s4"
    using mark_supersections_ok [of s3 "[0..<32]"] by fastforce
  have "initialize_once used pmm_init_at = Some s4"
    unfolding initialize_once_def s0 Let_def s1(1) s2(1) s3(1) s4 bind.bind_lunit ..
  from that [OF this s1(2) s2(2) s3(2) s4] show ?thesis .
qed

text \<open>A node's bitmap is full exactly when no used region overlaps the node.\<close>

lemma full_iff_unused:
  assumes "regions_ok used" and "0 < sz" and "\<And>b. b < 16 \<Longrightarrow> bit (w :: u16) b \<longleftrightarrow> \<not> region_used used sz (n * 16 + b)"
  shows "w = 0xffff \<longleftrightarrow> \<not> region_used used (16 * sz) n"
  using assms(3) by (auto simp: u16_full_iff region_used_parts [OF assms(1,2)])

lemma initialize_bits:
  assumes ok: "regions_ok used" and r: "reserved used 0 pmm_init_at s1" and m2: "marked 0 0x2000 0 (children 0x200) s1 s2"
    and m3: "marked 0x2000 0x2200 1 (children 0x20) s2 s3"
  shows "i < 0x2000 \<Longrightarrow> b < 16 \<Longrightarrow> bit (bm s3 i) b \<longleftrightarrow> \<not> region_used used 4096 (i * 16 + b)"
    and "i < 0x200 \<Longrightarrow> b < 16 \<Longrightarrow> bit (bm s3 (0x2000 + i)) b \<longleftrightarrow> \<not> region_used used (16 * 4096) (i * 16 + b)"
    and "i < 0x20 \<Longrightarrow> b < 16 \<Longrightarrow> bit (bm s3 (0x2200 + i)) b \<longleftrightarrow> \<not> region_used used (16 * (16 * 4096)) (i * 16 + b)"
    and "i < 0x20 \<Longrightarrow> bm s3 (0x2200 + i) = 0xffff \<longleftrightarrow> \<not> region_used used (16 * (16 * (16 * 4096))) i"
proof -
  have init: "bit (bm pmm_init_at k) b" if "k < 0x2220" "b < 16" for k b
    using that u16_full_iff [of "0xffff"] by (simp add: pmm_init_at_def)
  have l0: "bit (bm s1 k) b \<longleftrightarrow> \<not> region_used used 4096 (k * 16 + b)" if "k < 0x2000" "b < 16" for k b
    using r that init [of k b] by (simp add: reserved_def)
  have high: "bm s1 k = 0xffff" if "0x2000 \<le> k" "k < 0x2220" for k
    using r that init [of k] by (simp add: reserved_def u16_full_iff)
  have same2: "bm s2 k = bm s1 k" if "k < 0x2000 \<or> 0x2200 \<le> k" for k
    using marked_children(1) [OF m2, of k] that by simp
  have same3: "bm s3 k = bm s2 k" if "k < 0x2200" for k
    using marked_children(1) [OF m3, of k] that by simp
  have f0: "bm s1 k = 0xffff \<longleftrightarrow> \<not> region_used used (16 * 4096) k" if "k < 0x2000" for k
    using that l0 by (intro full_iff_unused [OF ok]) auto
  have l1: "bit (bm s2 (0x2000 + i)) b \<longleftrightarrow> \<not> region_used used (16 * 4096) (i * 16 + b)" if "i < 0x200" "b < 16" for i b
    using marked_children(2) [OF m2 that] high [of "0x2000 + i"] f0 [of "i * 16 + b"] that by simp
  have f1: "bm s2 (0x2000 + k) = 0xffff \<longleftrightarrow> \<not> region_used used (16 * (16 * 4096)) k" if "k < 0x200" for k
    using that l1 by (intro full_iff_unused [OF ok]) auto
  have l2: "bit (bm s3 (0x2200 + i)) b \<longleftrightarrow> \<not> region_used used (16 * (16 * 4096)) (i * 16 + b)" if "i < 0x20" "b < 16" for i b
    using marked_children(2) [OF m3 that] high [of "0x2200 + i"] same2 [of "0x2200 + i"] f1 [of "i * 16 + b"] that by simp
  show "i < 0x2000 \<Longrightarrow> b < 16 \<Longrightarrow> bit (bm s3 i) b \<longleftrightarrow> \<not> region_used used 4096 (i * 16 + b)"
    using l0 same2 same3 by simp
  show "i < 0x200 \<Longrightarrow> b < 16 \<Longrightarrow> bit (bm s3 (0x2000 + i)) b \<longleftrightarrow> \<not> region_used used (16 * 4096) (i * 16 + b)"
    using l1 same3 by simp
  show "i < 0x20 \<Longrightarrow> b < 16 \<Longrightarrow> bit (bm s3 (0x2200 + i)) b \<longleftrightarrow> \<not> region_used used (16 * (16 * 4096)) (i * 16 + b)"
    by (rule l2)
  show "i < 0x20 \<Longrightarrow> bm s3 (0x2200 + i) = 0xffff \<longleftrightarrow> \<not> region_used used (16 * (16 * (16 * 4096))) i"
    using l2 by (intro full_iff_unused [OF ok]) auto
qed

lemma initialize_floats:
  assumes "reserved used 0 pmm_init_at s1" and m2: "marked 0 0x2000 0 (children 0x200) s1 s2"
    and m3: "marked 0x2000 0x2200 1 (children 0x20) s2 s3"
  shows "floats_partly s3 0 {0..<0x2000}" "floats_partly s3 1 {0x2000..<0x2200}" "floats s3 2 []"
proof -
  have n1: "floats s1 i []" if "i < 3" for i
    using that assms(1) by (simp add: floats_def reserved_def pmm_init_at_def)
  have n2: "floats s2 i []" if "i < 3" "i \<noteq> 0" for i
    using marked_other [OF m2 that(2) n1] that(1) by simp
  show "floats s3 2 []"
    using marked_other [OF m3 _ n2] by simp
  show "floats_partly s3 1 {0x2000..<0x2200}"
    using marked_floats [OF m3 n2] by simp
  have "floats_partly s2 0 {0..<0x2000}"
    using marked_floats [OF m2 n1] by simp
  then show "floats_partly s3 0 {0..<0x2000}"
  proof (rule floats_partly_keep)
    show "floats s3 0 xs" if "floats s2 0 xs" "set xs \<subseteq> {0..<0x2000}" for xs
      using that by (intro marked_other [OF m3]) auto
    show "bm s3 k = bm s2 k" if "k \<in> {0..<0x2000}" for k
      using that by (intro marked_children(1) [OF m3]) simp
  qed
qed

lemma initialize_mask:
  assumes "pmm_wf s3" and "mfold mark_supersection [0..<32] s3 = Some s4" and "floats s3 2 []"
  shows "bm s4 k = bm s3 k" "b < 32 \<Longrightarrow> bit (supersection_mask s4) b = (bit (supersection_mask s3) b \<and> bm s3 (0x2200 + b) = 0xffff)"
    "floats_partly s4 2 {0x2200..<0x2220}" "i \<noteq> 2 \<Longrightarrow> floats s3 i xs \<Longrightarrow> set xs \<subseteq> {0..<0x2200} \<Longrightarrow> floats s4 i xs" "pmm_wf s4"
proof -
  have sub: "set [0..<32] \<subseteq> {..<32 :: nat}" "distinct [0..<32]"
    by auto
  from mark_supersections_ok [OF assms(1) sub] obtain s where s: "mfold mark_supersection [0..<32] s3 = Some s" "\<forall>k. bm s k = bm s3 k"
    "pmm_wf s"
    "\<forall>b < 32. bit (supersection_mask s) b = (bit (supersection_mask s3) b \<and> \<not> (b \<in> set [0..<32] \<and> bm s3 (0x2200 + b) \<noteq> 0xffff))"
    "\<forall>xs. floats s3 2 xs \<longrightarrow> set xs \<inter> (+) 0x2200 ` set [0..<32] = {} \<longrightarrow>
        floats s 2 (rev (map ((+) 0x2200) (filter (\<lambda>i. partly (bm s3 (0x2200 + i))) [0..<32])) @ xs)"
    "\<forall>n xs. n \<noteq> 2 \<longrightarrow> floats s3 n xs \<longrightarrow> set xs \<inter> (+) 0x2200 ` set [0..<32] = {} \<longrightarrow> floats s n xs"
    by iprover
  then have "s = s4"
    using assms(2) by simp
  note bms = s(2) [unfolded this, THEN spec] and wf = s(3) [unfolded this] and mask = s(4) [unfolded this] and fl = s(5) [unfolded this] and other = s(6) [unfolded this]
  show "pmm_wf s4"
    by (rule wf)
  show "bm s4 k = bm s3 k"
    by (rule bms)
  show "b < 32 \<Longrightarrow> bit (supersection_mask s4) b = (bit (supersection_mask s3) b \<and> bm s3 (0x2200 + b) = 0xffff)"
    using mask by simp
  show "i \<noteq> 2 \<Longrightarrow> floats s3 i xs \<Longrightarrow> set xs \<subseteq> {0..<0x2200} \<Longrightarrow> floats s4 i xs"
    using other by fastforce
  let ?xs = "rev (map ((+) 0x2200) (filter (\<lambda>i. partly (bm s3 (0x2200 + i))) [0..<32]))"
  have "floats s4 2 ?xs"
    using fl assms(3) by (metis append_Nil2 Int_empty_left list.set(1))
  moreover have "set ?xs = {k \<in> {0x2200..<0x2220}. partly (bm s4 k)}"
  proof (intro set_eqI iffI)
    fix k assume "k \<in> {k \<in> {0x2200..<0x2220}. partly (bm s4 k)}"
    then have "k - 0x2200 < 32" "partly (bm s3 (0x2200 + (k - 0x2200)))" "k = 0x2200 + (k - 0x2200)"
      using bms by auto
    then show "k \<in> set ?xs"
      by (simp del: add_diff_inverse_nat)
  qed (auto simp: bms)
  ultimately show "floats_partly s4 2 {0x2200..<0x2220}"
    unfolding floats_partly_def by (intro exI [of _ ?xs]) (simp add: distinct_map)
qed

lemma initialize_ok:
  assumes "regions_ok used" and "\<forall>u \<in> set used. snd u \<le> 0x1ffff000"
  shows "\<exists>self. initialize_once used pmm_init_at = Some self \<and> pmm_wf self
    \<and> (\<forall>kind n. n < 0x20000000 div region_size kind \<longrightarrow> region_free self kind n = (\<not> region_used used (region_size kind) n))
    \<and> floats_partly self 0 {0..<0x2000} \<and> floats_partly self 1 {0x2000..<0x2200} \<and> floats_partly self 2 {0x2200..<0x2220}"
proof -
  obtain s1 s2 s3 s4 where init: "initialize_once used pmm_init_at = Some s4" and r: "reserved used 0 pmm_init_at s1"
    and m2: "marked 0 0x2000 0 (children 0x200) s1 s2" and m3: "marked 0x2000 0x2200 1 (children 0x20) s2 s3"
    and m4: "mfold mark_supersection [0..<32] s3 = Some s4"
    using initialize_stages [OF assms] .
  have wf: "pmm_wf s3" "supersection_mask s3 = 0xffffffff"
    using r m2 m3 by (auto simp: marked_def reserved_def pmm_init_at_def)
  note fl = initialize_floats [OF r m2 m3]
  note mask = initialize_mask [OF wf(1) m4 fl(3)]
  note bits = initialize_bits [OF assms(1) r m2 m3]
  have "floats_partly s4 0 {0..<0x2000}" "floats_partly s4 1 {0x2000..<0x2200}"
    by (rule floats_partly_keep [OF fl(1)] floats_partly_keep [OF fl(2)]; fastforce intro: mask(1) mask(4))+
  moreover have "region_free s4 kind n = (\<not> region_used used (region_size kind) n)" if "n < 0x20000000 div region_size kind" for kind n
  proof (cases kind)
    case Supersection
    have m: "(0xffffffff :: u32) = mask 32"
      by (simp add: mask_eq_exp_minus_1)
    have "bit (0xffffffff :: u32) n" if "n < 32"
      unfolding m bit_mask_iff using that by simp
    with Supersection show ?thesis
      using that mask(2) [of n] bits(4) [of n] wf(2) by simp
  qed (use that mask(1) bits(1-3) [of "n div 16" "n mod 16"] in simp_all)
  ultimately show ?thesis
    using init mask(3) mask(5) by blast
qed



lemma reserve_pages_panics:
  assumes "0x1ffff000 < snd (last used)" and "i < length used"
  shows "reserve_pages used [j..<0x20000] i self = None \<or> 0x20000 \<le> j"
  using assms(2)
proof (induction "0x20000 - j" arbitrary: j i self)
  case (Suc d)
  then have j: "j < 0x20000"
    by simp
  then have upt: "[j..<0x20000] = j # [Suc j..<0x20000]"
    by (simp add: upt_conv_Cons)
  show ?case
  proof (cases "j = 0x1ffff")
    case True
    then show ?thesis
      by (simp add: upt sp_ptr_def)
  next
    case False
    with j have le: "Suc j * 4096 \<le> 0x1ffff000"
      by simp
    have IH: "i < length used \<Longrightarrow> reserve_pages used [Suc j..<0x20000] i self = None" for i self
      using Suc.hyps(1) [of "Suc j" i self] Suc.hyps(2) False j by auto
    have "skip_ended used i (Suc j * 4096) < length used"
    proof (rule ccontr)
      assume "\<not> skip_ended used i (Suc j * 4096) < length used"
      then have "snd (used ! (length used - 1)) \<le> Suc j * 4096"
        using Suc.prems by (intro skip_ended_spec(2) [of i]) auto
      moreover have "last used = used ! (length used - 1)"
        using Suc.prems by (intro last_conv_nth) auto
      ultimately show False
        using le assms(1) by (metis leD le_trans)
    qed
    with IH show ?thesis
      using False j Suc.prems by (auto simp: upt sp_ptr_def Let_def split: bind_splits)
  qed
qed simp

text \<open>
  Initialisation cannot reserve up to the end of memory: the loop computes the end of every page as the address of the
  next page, which for the last page fails its assertion. So it panics whenever the last used region reaches into the
  last page or beyond, as the peripherals do, and likewise when no region is in use.\<close>

lemma initialize_panics_at_end:
  assumes "used = [] \<or> 0x1ffff000 < snd (last used)"
  shows "initialize_once used self = None"
proof -
  have "reserve_pages used [0..<0x20000] 0 self' = None" for self'
  proof (cases "used = []")
    case True
    have "[0..<0x20000 :: nat] = 0 # [Suc 0..<0x20000]"
      by (rule upt_conv_Cons) simp
    then show ?thesis
      using True by (simp only: reserve_pages.simps) (simp add: sp_ptr_def del: upt_rec_numeral)
  next
    case False
    with assms show ?thesis
      using reserve_pages_panics [of used 0 0 self'] by simp
  qed
  then show ?thesis
    by (simp add: initialize_once_def Let_def)
qed

theorem initialize_panics_at_end_witness:
  "initialize_once [(0x8000, 0x20000), (0x20000000, 0x21000000)] pmm_init_at = None"
  by (rule initialize_panics_at_end) simp

end
