(* ===== verification/Pmm_Alloc.thy ===== *)
theory Pmm_Alloc
  imports Pmm_Correct
begin

text \<open>
  Allocation and release: an interface of allocators of slots with the guarantee its clients rely on, interpreted on
  the supersections of the memory manager; and what allocation does on the levels below.
\<close>

section \<open>Leading zeros\<close>

lemma leading_zeros_eq:
  fixes w :: "'a::len word"
  assumes "bit w h" and "\<And>n. h < n \<Longrightarrow> \<not> bit w n"
  shows "leading_zeros w = LENGTH('a) - Suc h"
proof -
  have h: "h < LENGTH('a)"
    using assms(1) by (rule bit_imp_le_length)
  have "[0..<LENGTH('a)] = [0..<h] @ h # [Suc h..<LENGTH('a)]"
    using h upt_add_eq_append [of 0 h "LENGTH('a) - h"] by (simp add: upt_conv_Cons)
  then have "rev [0..<LENGTH('a)] = rev [Suc h..<LENGTH('a)] @ h # rev [0..<h]"
    by simp
  then show ?thesis
    using assms by (simp add: leading_zeros_def takeWhile_append)
qed

lemma highest_bit:
  fixes w :: "'a::len word"
  assumes "w \<noteq> 0"
  obtains h where "bit w h" "\<And>n. h < n \<Longrightarrow> \<not> bit w n" "h < LENGTH('a)"
proof -
  let ?B = "{n. bit w n}"
  have "finite ?B"
    by (rule finite_subset [of _ "{..<LENGTH('a)}"]) (auto dest: bit_imp_le_length)
  moreover have "?B \<noteq> {}"
    using assms by (auto simp: bit_eq_iff)
  ultimately have "bit w (Max ?B)" "\<And>n. Max ?B < n \<Longrightarrow> \<not> bit w n"
    using Max_in [of ?B] by (auto simp: not_less [symmetric])
  then show ?thesis
    using that bit_imp_le_length by blast
qed

section \<open>Allocators\<close>

text \<open>A client of an allocator takes slots and gives back some it holds. \<open>None\<close> is a panic; taking may return no slot.\<close>

datatype client_op = Take | Give nat

fun client_run :: "('s \<Rightarrow> ('s \<times> 'a option) option) \<Rightarrow> ('a \<Rightarrow> 's \<Rightarrow> 's option) \<Rightarrow> client_op list \<Rightarrow> 's \<times> 'a list \<Rightarrow> ('s \<times> 'a list) option" where
  "client_run take_op give_op [] (s, held) = Some (s, held)"
| "client_run take_op give_op (Take # ops) (s, held) = do {
     (s, r) \<leftarrow> take_op s;
     client_run take_op give_op ops (s, case r of Some x \<Rightarrow> x # held | None \<Rightarrow> held)
   }"
| "client_run take_op give_op (Give k # ops) (s, held) = (if k < length held
     then do { s \<leftarrow> give_op (held ! k) s; client_run take_op give_op ops (s, take k held @ drop (Suc k) held) }
     else client_run take_op give_op ops (s, held))"

locale slot_allocator =
  fixes take_op :: "'s \<Rightarrow> ('s \<times> 'a option) option"
    and give_op :: "'a \<Rightarrow> 's \<Rightarrow> 's option"
    and slots :: "'s \<Rightarrow> 'a set"
    and valid :: "'a set"
    and inv :: "'s \<Rightarrow> nat \<Rightarrow> bool"
  assumes take_slot: "inv s n \<Longrightarrow> \<exists>s' r. take_op s = Some (s', r) \<and> (case r of
      Some x \<Rightarrow> x \<in> slots s \<and> slots s' = slots s - {x} \<and> inv s' (Suc n)
    | None \<Rightarrow> slots s = {} \<and> s' = s)"
    and give_slot: "inv s (Suc n) \<Longrightarrow> x \<in> valid \<Longrightarrow> \<exists>s'. give_op x s = Some s' \<and> slots s' = insert x (slots s) \<and> inv s' n"
    and slots_valid: "slots s \<subseteq> valid"
begin

definition client_ok :: "'a set \<Rightarrow> 's \<times> 'a list \<Rightarrow> bool" where
  "client_ok all = (\<lambda>(s, held). inv s (length held) \<and> distinct held \<and> set held \<inter> slots s = {} \<and> set held \<union> slots s = all)"

lemma client_ok_take:
  assumes "client_ok all (s, held)"
  shows "\<exists>s' r. take_op s = Some (s', r) \<and> client_ok all (s', case r of Some x \<Rightarrow> x # held | None \<Rightarrow> held)"
proof -
  obtain s' r where "take_op s = Some (s', r)" "case r of
      Some x \<Rightarrow> x \<in> slots s \<and> slots s' = slots s - {x} \<and> inv s' (Suc (length held)) | None \<Rightarrow> slots s = {} \<and> s' = s"
    using take_slot [of s "length held"] assms by (auto simp: client_ok_def)
  with assms show ?thesis
    by (cases r) (auto simp: client_ok_def)
qed

lemma client_ok_give:
  assumes "client_ok all (s, held)" and "k < length held" and "all \<subseteq> valid"
  shows "\<exists>s'. give_op (held ! k) s = Some s' \<and> client_ok all (s', take k held @ drop (Suc k) held)"
proof -
  define x xs ys where "x = held ! k" and "xs = take k held" and "ys = drop (Suc k) held"
  have held: "held = xs @ x # ys"
    using assms(2) by (simp add: x_def xs_def ys_def id_take_nth_drop)
  have "x \<in> valid"
    using assms(1,3) by (auto simp: held client_ok_def)
  then obtain s' where "give_op x s = Some s'" "slots s' = insert x (slots s)" "inv s' (length (xs @ ys))"
    using give_slot [of s "length (xs @ ys)" x] assms(1) by (auto simp: held client_ok_def)
  moreover from this assms(1) have "client_ok all (s', xs @ ys)"
    by (auto simp: held client_ok_def)
  ultimately show ?thesis
    by (auto simp: x_def [symmetric] xs_def [symmetric] ys_def [symmetric])
qed

text \<open>Whatever the client does, nothing panics, no slot is held twice or both held and free, and none is lost.\<close>

lemma client_run_ok:
  assumes "client_ok all (s, held)" and "all \<subseteq> valid"
  shows "\<exists>s' held'. client_run take_op give_op ops (s, held) = Some (s', held') \<and> client_ok all (s', held')"
  using assms(1)
proof (induction ops arbitrary: s held)
  case (Cons p ops)
  show ?case
  proof (cases p)
    case Take
    then show ?thesis
      using client_ok_take [OF Cons.prems] Cons.IH by fastforce
  next
    case (Give k)
    then show ?thesis
      using client_ok_give [OF Cons.prems _ assms(2)] Cons.IH Cons.prems by (cases "k < length held") fastforce+
  qed
qed simp

end

section \<open>Supersections\<close>

definition ss_take :: "PMM \<Rightarrow> (PMM \<times> nat option) option" where
  "ss_take self = do { (self, r) \<leftarrow> allocate_region Supersection self; Some (self, case r of Inr p \<Rightarrow> Some p | Inl OutOfMemory \<Rightarrow> None) }"

definition ss_give :: "nat \<Rightarrow> PMM \<Rightarrow> PMM option" where
  "ss_give p self = deallocate_region p Supersection self"

definition ss_slots :: "PMM \<Rightarrow> nat set" where
  "ss_slots self = {n * 0x1000000 | n. n < 32 \<and> bit (supersection_mask self) n}"

definition ss_inv :: "PMM \<Rightarrow> nat \<Rightarrow> bool" where
  "ss_inv self n \<longleftrightarrow> pmm_wf self \<and> n \<le> allocated_counts self ! 3"

lemma ss_slots_mem: "n * 0x1000000 \<in> ss_slots self \<longleftrightarrow> n < 32 \<and> bit (supersection_mask self) n"
  by (auto simp: ss_slots_def)

lemma highest_mask: "h < 32 \<Longrightarrow> drop_bit (31 - h) (0x80000000 :: u32) = push_bit h 1"
proof -
  assume "h < 32"
  then have "drop_bit (31 - h) (push_bit 31 1 :: u32) = push_bit h 1"
    by (intro bit_word_eqI) (simp only: bit_drop_bit_eq bit_push_bit_iff bit_1_iff comp_apply possible_bit_word, auto)
  then show ?thesis
    by simp
qed

lemma allocate_supersection:
  assumes "pmm_wf self" and "bit (supersection_mask self) h" and "\<And>n. h < n \<Longrightarrow> \<not> bit (supersection_mask self) n"
  shows "allocate_region Supersection self = Some (self\<lparr>supersection_mask := supersection_mask self AND NOT (push_bit h 1),
    allocated_counts := (allocated_counts self)[3 := allocated_counts self ! 3 + 1]\<rparr>, Inr (h * 0x1000000))"
proof -
  have h: "h < 32"
    using bit_imp_le_length [OF assms(2)] by simp
  have "leading_zeros (supersection_mask self) = 31 - h"
    using leading_zeros_eq [OF assms(2,3)] by simp
  moreover have "supersection_mask self \<noteq> 0"
    using assms(2) by auto
  moreover have "find_floating Supersection self = Some None"
    by (simp add: find_floating.simps)
  ultimately show ?thesis
    using assms(1) h by (simp add: allocate_region_def highest_mask Let_def count_allocated_Some pmm_wf_def ss_ptr_def)
qed

interpretation ss: slot_allocator ss_take ss_give ss_slots "{n * 0x1000000 | n. n < 32}" ss_inv
proof
  fix self n assume inv: "ss_inv self n"
  show "\<exists>self' r. ss_take self = Some (self', r) \<and> (case r of
      Some x \<Rightarrow> x \<in> ss_slots self \<and> ss_slots self' = ss_slots self - {x} \<and> ss_inv self' (Suc n)
    | None \<Rightarrow> ss_slots self = {} \<and> self' = self)"
  proof (cases "supersection_mask self = 0")
    case True
    then have "ss_take self = Some (self, None)"
      by (simp add: ss_take_def allocate_region_def find_floating.simps)
    with True show ?thesis
      by (simp add: ss_slots_def)
  next
    case False
    then obtain h where h: "bit (supersection_mask self) h" "\<And>n. h < n \<Longrightarrow> \<not> bit (supersection_mask self) n" "h < LENGTH(32)"
      using highest_bit [OF False] by metis
    let ?self = "self\<lparr>supersection_mask := supersection_mask self AND NOT (push_bit h 1),
      allocated_counts := (allocated_counts self)[3 := allocated_counts self ! 3 + 1]\<rparr>"
    have wf: "pmm_wf self" "n \<le> allocated_counts self ! 3"
      using inv by (auto simp: ss_inv_def)
    have "ss_take self = Some (?self, Some (h * 0x1000000))"
      using allocate_supersection [OF wf(1) h(1,2)] by (simp add: ss_take_def)
    moreover have "ss_slots ?self = ss_slots self - {h * 0x1000000}"
      by (auto simp: ss_slots_def bit_simps)
    moreover have "ss_inv ?self (Suc n)"
      using wf by (simp add: ss_inv_def pmm_wf_def)
    moreover have "h * 0x1000000 \<in> ss_slots self"
      using h(1,3) by (simp add: ss_slots_mem)
    ultimately show ?thesis
      by auto
  qed
next
  fix self n x assume inv: "ss_inv self (Suc n)" and x: "x \<in> {n * 0x1000000 | n. n < (32 :: nat)}"
  then obtain m where m: "x = m * 0x1000000" "m < 32"
    by auto
  let ?self = "self\<lparr>supersection_mask := supersection_mask self OR push_bit m 1,
      allocated_counts := (allocated_counts self)[3 := allocated_counts self ! 3 - 1]\<rparr>"
  have "ss_give x self = Some ?self"
    using inv m by (simp add: ss_give_def deallocate_region_def mark_free_recursive.simps uncount_allocated_def ss_inv_def pmm_wf_def)
  moreover have "ss_slots ?self = insert x (ss_slots self)"
    using m by (auto simp: ss_slots_def bit_simps)
  moreover have "ss_inv ?self n"
    using inv by (auto simp: ss_inv_def pmm_wf_def)
  ultimately show "\<exists>self'. ss_give x self = Some self' \<and> ss_slots self' = insert x (ss_slots self) \<and> ss_inv self' n"
    by blast
qed (auto simp: ss_slots_def)

text \<open>
  C19. The supersections are managed correctly: from any well-formed state, in every sequence of allocations and releases
  of supersections by a client that releases what it holds, nothing panics, no supersection is handed out while it is
  held, none is both held and free, and none is lost. Allocation reports that memory is exhausted only when none is free.\<close>

theorem supersections_never_shared:
  assumes "pmm_wf self"
  shows "\<exists>self' held. client_run ss_take ss_give ops (self, []) = Some (self', held) \<and> distinct held
    \<and> set held \<inter> ss_slots self' = {} \<and> set held \<union> ss_slots self' = ss_slots self
    \<and> (\<forall>self''. allocate_region Supersection self' = Some (self'', Inl OutOfMemory) \<longrightarrow> set held = ss_slots self)"
proof -
  have "ss.client_ok (ss_slots self) (self, [])"
    using assms by (simp add: ss.client_ok_def ss_inv_def)
  from ss.client_run_ok [OF this ss.slots_valid] obtain self' held where
    run: "client_run ss_take ss_give ops (self, []) = Some (self', held)" and ok: "ss.client_ok (ss_slots self) (self', held)"
    by blast
  have "set held = ss_slots self" if "allocate_region Supersection self' = Some (self'', Inl OutOfMemory)" for self''
    using ss.take_slot [of self' "length held"] ok that by (auto simp: ss.client_ok_def ss_take_def)
  with run ok show ?thesis
    by (auto simp: ss.client_ok_def)
qed

theorem supersections_never_shared_witness:
  "\<exists>self' held. client_run ss_take ss_give [Take, Take, Give 0, Take] (pmm_init_at, []) = Some (self', held) \<and> distinct held"
proof -
  have "pmm_wf pmm_init_at"
    by (simp add: pmm_wf_def pmm_init_at_def)
  from supersections_never_shared [OF this, of "[Take, Take, Give 0, Take]"] show ?thesis
    by blast
qed

section \<open>Small pages\<close>

lemma highest_mask16: "h < 16 \<Longrightarrow> drop_bit (15 - h) (0x8000 :: u16) = push_bit h 1"
proof -
  assume "h < 16"
  then have "drop_bit (15 - h) (push_bit 15 1 :: u16) = push_bit h 1"
    by (intro bit_word_eqI) (simp only: bit_drop_bit_eq bit_push_bit_iff bit_1_iff comp_apply possible_bit_word, auto)
  then show ?thesis
    by simp
qed

lemma only_bit:
  fixes w :: "'a::len word"
  assumes "bit w h"
  shows "w AND NOT (push_bit h 1) = 0 \<longleftrightarrow> w = push_bit h 1"
proof
  assume z: "w AND NOT (push_bit h 1) = 0"
  show "w = push_bit h 1"
  proof (rule bit_word_eqI)
    fix n assume n: "n < LENGTH('a)"
    have "\<not> bit (w AND NOT (push_bit h 1)) n"
      by (simp only: z bit_0_eq bot_apply bot_bool_def not_False_eq_True)
    with assms n show "bit w n = bit (push_bit h 1 :: 'a word) n"
      by (cases "n = h") (simp_all add: bit_simps)
  qed
qed simp

text \<open>\<open>unfloat\<close> of a region without \<open>prev\<close> makes the list what follows the region.\<close>

lemma unfloat_unlinked:
  assumes "pmm_wf self" and "float_no kind = Some i" and "chain (regions self) (Some k) (k # xs)" and "0 < floating_counts self ! i"
    and "ri_prev (regions self ! k) = CHAIN_END" and "k \<notin> set xs"
  shows "\<exists>self'. unfloat k kind self = Some self' \<and> pmm_wf self' \<and> chain (regions self') (floating_lists self' ! i) xs
    \<and> floating_counts self' ! i = floating_counts self ! i - 1 \<and> (\<forall>n. bm self' n = bm self n)"
proof -
  note i = float_no_lt [OF assms(2)]
  let ?nxt = "ri_next (regions self ! k)"
  have k: "k < length (regions self)" and ch: "chain (regions self) (link ?nxt) xs"
    using assms(3) by auto
  let ?fc = "(floating_counts self)[i := floating_counts self ! i - 1]"
  show ?thesis
  proof (cases "?nxt = CHAIN_END")
    case True
    then have "xs = []"
      using ch by (cases xs) (auto simp: link_def)
    let ?self = "self\<lparr>floating_counts := ?fc, floating_lists := (floating_lists self)[i := None]\<rparr>"
    have "unfloat k kind self = Some ?self"
      using assms True i k by (simp add: unfloat_def pmm_wf_def Let_def)
    then show ?thesis
      using assms(1) i \<open>xs = []\<close> by (intro exI [of _ ?self]) (simp add: pmm_wf_def)
  next
    case False
    then obtain y ys where xs: "xs = y # ys" "y = unat ?nxt" "y < length (regions self)"
      using ch by (cases xs) (auto simp: link_def)
    let ?rs = "(regions self)[y := (regions self ! y)\<lparr>ri_prev := CHAIN_END\<rparr>]"
    let ?self = "self\<lparr>floating_counts := ?fc, regions := ?rs, floating_lists := (floating_lists self)[i := Some y]\<rparr>"
    have "unfloat k kind self = Some ?self"
      using assms False i k xs by (simp add: unfloat_def pmm_wf_def Let_def mod_region_Some nth_list_update)
    moreover have "chain ?rs (Some y) xs"
      using ch False xs by (simp add: link_def chain_same_next)
    moreover have "bm ?self n = bm self n" for n
      using xs(3) by (cases "n = y") simp_all
    ultimately show ?thesis
      using assms(1) i by (intro exI [of _ ?self]) (simp add: pmm_wf_def)
  qed
qed

lemma unfloat_head:
  assumes "pmm_wf self" and "float_no kind = Some i" and "floats self i (k # xs)" and "ri_prev (regions self ! k) = CHAIN_END" and "k \<notin> set xs"
  shows "\<exists>self'. unfloat k kind self = Some self' \<and> pmm_wf self' \<and> floats self' i xs \<and> (\<forall>n. bm self' n = bm self n)"
  using unfloat_unlinked [OF assms(1,2) _ _ assms(4,5)] assms(3) by (auto simp: floats_def)

lemma allocate_small_page:
  assumes "pmm_wf self" and "floats self 0 (k # xs)" and "k < 0x2000" and prev: "bm self k = push_bit h 1 \<Longrightarrow> ri_prev (regions self ! k) = CHAIN_END" and "k \<notin> set xs"
    and "bit (bm self k) h" and "\<forall>n. h < n \<longrightarrow> \<not> bit (bm self k) n" and "k * 16 + h + 1 < 0x20000"
  shows "\<exists>self'. allocate_region SmallPage self = Some (self', Inr ((k * 16 + h + 1) * 4096))
    \<and> (\<forall>n. bm self' n = (if n = k then bm self k AND NOT (push_bit h 1) else bm self n))
    \<and> floats self' 0 (if bm self k = push_bit h 1 then xs else k # xs)"
proof -
  have h: "h < 16"
    using bit_imp_le_length [OF assms(6)] by simp
  have lz: "leading_zeros (bm self k) = 15 - h"
    using leading_zeros_eq [OF assms(6)] assms(7) by simp
  let ?w = "bm self k AND NOT (push_bit h 1)"
  define s1 where "s1 = self\<lparr>regions := (regions self)[k := (regions self ! k)\<lparr>ri_bitmap := ?w\<rparr>]\<rparr>"
  have k: "k < length (regions self)"
    using assms(1,3) by (simp add: pmm_wf_def)
  have s1: "pmm_wf s1" "floats s1 0 (k # xs)" "ri_prev (regions s1 ! k) = ri_prev (regions self ! k)" "\<And>n. bm s1 n = (if n = k then ?w else bm self n)"
    using assms(1,2) k by (simp_all add: s1_def pmm_wf_def floats_def chain_same_next)
  have w: "?w = 0 \<longleftrightarrow> bm self k = push_bit h 1"
    by (rule only_bit) (rule assms(6))
  have fl: "floating_list LargePage self = Some (Some k)"
    using assms(1,2) by (simp add: floating_list_def floats_def pmm_wf_def)
  have "\<exists>s2. (if ?w = 0 then unfloat k LargePage s1 else Some s1) = Some s2 \<and> pmm_wf s2 \<and> (\<forall>n. bm s2 n = bm s1 n)
      \<and> floats s2 0 (if ?w = 0 then xs else k # xs)"
  proof (cases "?w = 0")
    case True
    with prev w s1(3) have "ri_prev (regions s1 ! k) = CHAIN_END"
      by simp
    from unfloat_head [OF s1(1) _ s1(2) this assms(5), of LargePage] True show ?thesis
      by auto
  next
    case False
    with s1(1,2) show ?thesis
      by (intro exI [of _ s1]) simp
  qed
  then obtain s2 where s2: "(if ?w = 0 then unfloat k LargePage s1 else Some s1) = Some s2" "pmm_wf s2" "\<And>n. bm s2 n = bm s1 n"
      "floats s2 0 (if bm self k = push_bit h 1 then xs else k # xs)"
    unfolding w by blast
  have "commit k LargePage SmallPage self = Some (s2, (k * 16 + h + 1) * 4096)"
  proof -
    have "mod_region k (\<lambda>r. r\<lparr>ri_bitmap := ?w\<rparr>) self = Some s1"
      using k by (simp add: mod_region_Some s1_def)
    moreover have "sp_ptr (16 - (15 - h) + k * 16) = Some ((k * 16 + h + 1) * 4096)"
      using h assms(8) by (simp add: sp_ptr_def algebra_simps)
    moreover have "assertion (15 - h < 16) = Some ()" "assertion (k < 0x2000) = Some ()"
      using assms(3) by (simp_all add: assertion_def)
    ultimately show ?thesis
      by (subst commit.simps) (simp only: idx_Some [OF k] bind.bind_lunit Let_def lz highest_mask16 [OF h] s2(1) RegionKind.case simp_thms if_True)
  qed
  then have "allocate_region SmallPage self = Some (s2\<lparr>allocated_counts := (allocated_counts s2)[0 := allocated_counts s2 ! 0 + 1]\<rparr>, Inr ((k * 16 + h + 1) * 4096))"
    using fl s2(2) by (simp add: allocate_region_def find_floating.simps count_allocated_Some pmm_wf_def)
  then show ?thesis
    using s2(3,4) s1(4) by (simp add: floats_def)
qed

text \<open>
  C37. Allocating a small page from a large page that is partly free marks one page and hands out the next: when the large
  page \<open>k\<close> is at the head of its list and \<open>h\<close> is its highest free page, page \<open>h\<close> is marked as used but the address of page \<open>h + 1\<close>
  is returned. Nothing else is marked, and the large page leaves its list exactly when it is full.\<close>

theorem small_page_is_off_by_one:
  assumes "pmm_wf self" and "floats self 0 (k # xs)" and "k < 0x2000" and "ri_prev (regions self ! k) = CHAIN_END" and "k \<notin> set xs"
    and "bit (bm self k) h" and "\<forall>n. h < n \<longrightarrow> \<not> bit (bm self k) n" and "k * 16 + h + 1 < 0x20000"
  shows "\<exists>self'. allocate_region SmallPage self = Some (self', Inr ((k * 16 + h + 1) * 4096))
    \<and> (\<forall>n. bm self' n = (if n = k then bm self k AND NOT (push_bit h 1) else bm self n))
    \<and> floats self' 0 (if bm self k = push_bit h 1 then xs else k # xs)"
  using assms by (intro allocate_small_page) auto

definition one_page_left :: PMM where
  "one_page_left = \<lparr>floating_lists = [Some 0, None, None],
     regions = \<lparr>ri_bitmap = 1, ri_next = CHAIN_END, ri_prev = CHAIN_END\<rparr> # replicate 0x221f \<lparr>ri_bitmap = 0xffff, ri_next = CHAIN_END, ri_prev = CHAIN_END\<rparr>,
     supersection_mask = 0xfffffffe, floating_counts = [1, 0, 0], allocated_counts = [15, 1, 1, 1]\<rparr>"

theorem small_page_is_off_by_one_witness:
  "\<exists>self'. allocate_region SmallPage one_page_left = Some (self', Inr 0x1000)"
proof -
  have "pmm_wf one_page_left" "floats one_page_left 0 [0]" "ri_prev (regions one_page_left ! 0) = CHAIN_END" "bm one_page_left 0 = 1"
    by (simp_all add: one_page_left_def pmm_wf_def floats_def link_def)
  then show ?thesis
    using small_page_is_off_by_one [of one_page_left 0 "[]" 0] by (auto simp: bit_1_iff)
qed

text \<open>
  So the manager hands out memory that is in use: on a machine where everything but the first two pages of the first
  64 KiB is in use, the first small page that is allocated is the third page, which is used.\<close>

lemma allocation_hands_out_used_page:
  "\<exists>self self'. initialize_once [(0x2000, 0x10000)] pmm_init_at = Some self
    \<and> allocate_region SmallPage self = Some (self', Inr 0x2000) \<and> region_used [(0x2000, 0x10000)] 4096 2"
proof -
  have "regions_ok [(0x2000, 0x10000)]"
    by (simp add: regions_ok_def)
  from initialize_ok [OF this] obtain self where self: "initialize_once [(0x2000, 0x10000)] pmm_init_at = Some self"
    and free: "\<And>kind n. n < 0x20000000 div region_size kind \<Longrightarrow> region_free self kind n = (\<not> region_used [(0x2000, 0x10000)] (region_size kind) n)"
    and fl: "floats_partly self 0 {0..<0x2000}" and wf: "pmm_wf self"
    by auto
  have used: "region_used [(0x2000, 0x10000)] 4096 n \<longleftrightarrow> 2 \<le> n \<and> n < 16" for n
    by (auto simp: region_used_def)
  have bits: "bit (bm self k) b \<longleftrightarrow> \<not> (k = 0 \<and> 2 \<le> b)" if "k < 0x2000" "b < 16" for k b
    using free [of "k * 16 + b" SmallPage] that used [of "k * 16 + b"] by (cases "k = 0") simp_all
  have "partly (bm self k) \<longleftrightarrow> k = 0" if "k < 0x2000" for k
  proof -
    have "bm self k \<noteq> 0"
      using bits [OF that, of 0] by auto
    moreover have "bm self k = 0xffff \<longleftrightarrow> k \<noteq> 0"
      using bits [OF that] unfolding u16_full_iff by (auto dest: spec [of _ 2])
    ultimately show ?thesis
      by (simp add: partly_def)
  qed
  then have "{k \<in> {0..<0x2000}. partly (bm self k)} = {0}"
    by auto
  then obtain xs where "floats self 0 xs" "distinct xs" "set xs = {0}"
    using fl by (auto simp: floats_partly_def)
  then have fl0: "floats self 0 [0]"
    by (cases xs; cases "tl xs") auto
  have bm0: "bit (bm self 0) b \<longleftrightarrow> b < 2" for b
    using bits [of 0 b] bit_imp_le_length [of "bm self 0" b] by (cases "b < 16") auto
  have "bm self 0 \<noteq> push_bit 1 1"
    using bm0 [of 0] by (auto simp: bit_simps)
  moreover note wf
  ultimately show ?thesis
    using allocate_small_page [of self 0 "[]" 1] fl0 bm0 self by (auto simp: region_used_def)
qed

section \<open>Splitting a supersection\<close>

text \<open>
  A free supersection cannot be split: when no region floats, the highest supersection is taken for a smaller region;
  its first section is then the sixteenth, one too far, and for the last supersection of the memory the assertion on the
  section's number fails. So on a manager that has only free and full regions and whose last supersection is free,
  every allocation of a section, large page or small page panics.\<close>

lemma split_of_last_supersection_panics:
  assumes "pmm_wf self" and "floating_lists self = [None, None, None]" and "bit (supersection_mask self) 31"
    and "bm self 0x221f = 0xffff" and "kind \<noteq> Supersection"
  shows "allocate_region kind self = None"
proof -
  have lz: "leading_zeros (supersection_mask self) = 0"
  proof -
    have "\<not> bit (supersection_mask self) n" if "31 < n" for n
      using that bit_imp_le_length [of "supersection_mask self" n] by auto
    then show ?thesis
      using leading_zeros_eq [OF assms(3)] by simp
  qed
  have none: "find_floating kind self = Some None"
    using assms(2,5) by (cases kind) (simp_all add: find_floating.simps floating_list_def)
  have nz: "supersection_mask self \<noteq> 0"
    using assms(3) by auto
  define s1 where "s1 = self\<lparr>supersection_mask := supersection_mask self AND NOT (drop_bit 0 0x80000000)\<rparr>"
  have wf: "pmm_wf s1" and k: "0x221f < (0x2220 :: nat)" "float_no Supersection = Some 2"
    using assms(1) by (simp_all add: pmm_wf_def s1_def)
  obtain s2 where s2: "float 0x221f Supersection s1 = Some s2" "pmm_wf s2" "\<And>n. bm s2 n = bm s1 n"
    using float_pushes [OF wf k] by metis
  have full: "bm s2 0x221f = 0xffff" and k: "0x221f < length (regions s2)"
    using s2(2,3) assms(4) by (simp_all add: pmm_wf_def s1_def)
  have lz16: "leading_zeros (bm s2 0x221f) = 0"
  proof -
    have "bit (bm s2 0x221f) 15" "\<not> bit (bm s2 0x221f) n" if "15 < n" for n
      using full u16_full_iff [of "bm s2 0x221f"] that bit_imp_le_length [of "bm s2 0x221f" n] by auto
    from leading_zeros_eq [of "bm s2 0x221f" 15] this show ?thesis
      by (auto simp: less_Suc_eq)
  qed
  have "commit 0x221f Supersection kind s2 = None"
    using lz16 full k by (subst commit.simps) (simp add: Let_def mod_region_Some s_ptr_def s_idx_def)
  moreover have "ss_idx (31 - 0) = Some 0x221f"
    by (simp add: ss_idx_def)
  ultimately show ?thesis
    unfolding allocate_region_def none bind.bind_lunit option.case using nz assms(5) s2(1) [unfolded s1_def]
    by (simp only: if_True if_False Let_def lz bind.bind_lunit simp_thms) simp
qed

theorem split_of_last_supersection_panics_witness:
  "allocate_region SmallPage pmm_init_at = None"
proof (rule split_of_last_supersection_panics)
  show "bit (supersection_mask pmm_init_at) 31"
    by (simp add: pmm_init_at_def)
qed (simp_all add: pmm_init_at_def pmm_wf_def numeral_3_eq_3)

section \<open>Leaving a list\<close>

text \<open>
  A region that leaves the middle of its floating list takes everything before it along: as \<open>float\<close> never sets the
  \<open>prev\<close> of the old head, \<open>unfloat\<close> treats every region as the head, and the list becomes what followed the region. The
  regions before it, although neither free nor full, are never found again by an allocation.\<close>

lemma unfloat_forgets_predecessors:
  assumes "pmm_wf self" and "float_no kind = Some i" and "floats self i (xs @ k # ys)" and "distinct (xs @ k # ys)"
    and "\<forall>n < 0x2220. ri_prev (regions self ! n) = CHAIN_END"
  shows "\<exists>self'. unfloat k kind self = Some self' \<and> chain (regions self') (floating_lists self' ! i) ys"
proof -
  have "chain (regions self) h (xs @ k # ys) \<Longrightarrow> chain (regions self) (Some k) (k # ys)" for h
    by (induction xs arbitrary: h) auto
  moreover have "chain (regions self) (floating_lists self ! i) (xs @ k # ys)" "0 < floating_counts self ! i"
    using assms(3) by (simp_all add: floats_def)
  ultimately have ch: "chain (regions self) (Some k) (k # ys)" and cnt: "0 < floating_counts self ! i"
    by blast+
  moreover have "ri_prev (regions self ! k) = CHAIN_END"
    using assms(1,5) ch by (simp add: pmm_wf_def)
  ultimately show ?thesis
    using unfloat_unlinked [OF assms(1,2), of k ys] assms(4) by auto
qed

theorem unfloat_forgets_predecessors_witness:
  "\<exists>s1 s2 s3. float 0 LargePage pmm_init_at = Some s1 \<and> float 1 LargePage s1 = Some s2 \<and> floating_lists s2 ! 0 = Some 1
    \<and> unfloat 0 LargePage s2 = Some s3 \<and> floating_lists s3 ! 0 = None"
proof -
  have "pmm_wf pmm_init_at" "floats pmm_init_at 0 []" "\<forall>n < 0x2220. ri_prev (regions pmm_init_at ! n) = CHAIN_END"
    by (simp_all add: pmm_wf_def floats_def pmm_init_at_def)
  moreover define s1 where "s1 = the (float 0 LargePage pmm_init_at)"
  moreover define s2 where "s2 = the (float 1 LargePage s1)"
  ultimately have s2: "float 0 LargePage pmm_init_at = Some s1" "float 1 LargePage s1 = Some s2" "pmm_wf s2" "floats s2 0 [1, 0]"
      "\<forall>n < 0x2220. ri_prev (regions s2 ! n) = CHAIN_END"
    by (simp_all add: float_Some pmm_wf_def floats_def nth_list_update link_def CHAIN_END_def)
  from unfloat_forgets_predecessors [OF s2(3) _ _ _ s2(5), of LargePage 0 "[1]" 0 "[]"] s2(4) obtain s3 where
    "unfloat 0 LargePage s2 = Some s3" "floating_lists s3 ! 0 = None"
    by auto
  with s2 show ?thesis
    by (auto simp: floats_def)
qed

end
