(* ===== verification/Vectors.thy ===== *)
theory Vectors
  imports Prelude
begin

text \<open>
  Interrupts and exceptions of the kernel bismuth: the interrupt masks and stacks (\<open>device/bismuth/src/int.rs\<close>), the critical
  section (\<open>device/bismuth/src/lib.rs\<close>), and the builder of the exception vector (\<open>device/bismuth/src/exceptions.rs\<close>).
  The program status register is a word, an instruction that reads or writes it a function on it; barriers are left
  out. The argument \<open>checks\<close> says whether the build has overflow checks.
\<close>

section \<open>Interrupt masks\<close>

datatype InterruptMode = Neither | FiqOnly | IrqOnly | Both

definition IRQ_BIT :: u32 where "IRQ_BIT = 0x80"
definition FIQ_BIT :: u32 where "FIQ_BIT = 0x40"

definition interrupt_mode_from_bits :: "u32 \<Rightarrow> InterruptMode" where
  "interrupt_mode_from_bits cpsr = (case (cpsr AND IRQ_BIT = 0, cpsr AND FIQ_BIT = 0) of
     (False, False) \<Rightarrow> Neither
   | (True, False) \<Rightarrow> IrqOnly
   | (False, True) \<Rightarrow> FiqOnly
   | (True, True) \<Rightarrow> Both)"

fun interrupt_masks :: "InterruptMode \<Rightarrow> u32 \<times> u32" where
  "interrupt_masks Neither = (0, IRQ_BIT OR FIQ_BIT)"
| "interrupt_masks IrqOnly = (IRQ_BIT, FIQ_BIT)"
| "interrupt_masks FiqOnly = (FIQ_BIT, IRQ_BIT)"
| "interrupt_masks Both = (IRQ_BIT OR FIQ_BIT, 0)"

definition set_enabled_interrupts :: "InterruptMode \<Rightarrow> u32 \<Rightarrow> u32 \<times> InterruptMode" where
  "set_enabled_interrupts mode cpsr = (let (clear_mask, set_mask) = interrupt_masks mode
     in ((cpsr AND NOT clear_mask) OR set_mask, interrupt_mode_from_bits cpsr))"

definition get_enabled_interrupts :: "u32 \<Rightarrow> InterruptMode" where
  "get_enabled_interrupts cpsr = interrupt_mode_from_bits cpsr"

text \<open>The restore state of a critical section is the number of the mode; any other number fails.\<close>

fun restore_state_of_mode :: "InterruptMode \<Rightarrow> u32" where
  "restore_state_of_mode Neither = 0"
| "restore_state_of_mode FiqOnly = 1"
| "restore_state_of_mode IrqOnly = 2"
| "restore_state_of_mode Both = 3"

definition mode_of_restore_state :: "u32 \<Rightarrow> InterruptMode option" where
  "mode_of_restore_state v = (if v = 0 then Some Neither else if v = 1 then Some FiqOnly
     else if v = 2 then Some IrqOnly else if v = 3 then Some Both else None)"

definition cs_acquire :: "u32 \<Rightarrow> u32 \<times> u32" where
  "cs_acquire cpsr = (let (cpsr, mode) = set_enabled_interrupts Neither cpsr in (cpsr, restore_state_of_mode mode))"

definition cs_release :: "u32 \<Rightarrow> u32 \<Rightarrow> u32 option" where
  "cs_release token cpsr = do { mode \<leftarrow> mode_of_restore_state token; Some (fst (set_enabled_interrupts mode cpsr)) }"

section \<open>Stacks\<close>

datatype OperatingMode = User | FIQ | IRQ | Supervisor | Abort | Undefined | System

fun mode_to_bits :: "OperatingMode \<Rightarrow> u32" where
  "mode_to_bits User = 0x10"
| "mode_to_bits FIQ = 0x11"
| "mode_to_bits IRQ = 0x12"
| "mode_to_bits Supervisor = 0x13"
| "mode_to_bits Abort = 0x17"
| "mode_to_bits Undefined = 0x1b"
| "mode_to_bits System = 0x1f"

text \<open>Each mode number has its own stack pointer; system mode uses that of user mode.\<close>

record Cpu =
  cpu_cpsr :: u32
  cpu_sp :: "u32 \<Rightarrow> u32"

definition sp_bank :: "u32 \<Rightarrow> u32" where
  "sp_bank cpsr = (let m = cpsr AND 0x1f in if m = 0x1f then 0x10 else m)"

definition write_sp :: "u32 \<Rightarrow> Cpu \<Rightarrow> Cpu" where
  "write_sp v cpu = cpu\<lparr>cpu_sp := (cpu_sp cpu)(sp_bank (cpu_cpsr cpu) := v)\<rparr>"

text \<open>\<open>cpsid\<close> with a mask bit and a mode, \<open>cps\<close> with a mode alone.\<close>

definition cps :: "u32 \<Rightarrow> u32 \<Rightarrow> Cpu \<Rightarrow> Cpu" where
  "cps disable mode cpu = cpu\<lparr>cpu_cpsr := ((cpu_cpsr cpu OR disable) AND NOT 0x1f) OR mode\<rparr>"

definition init_stack_for_mode :: "OperatingMode \<Rightarrow> u32 \<Rightarrow> Cpu \<Rightarrow> Cpu option" where
  "init_stack_for_mode mode stack cpu = do {
     assertion (stack AND 7 = 0);
     let t0 = cpu_cpsr cpu;
     let run = (\<lambda>disable m. Some ((write_sp stack (cps disable m cpu))\<lparr>cpu_cpsr := t0\<rparr>));
     case mode of
       FIQ \<Rightarrow> run 0x40 0x11
     | IRQ \<Rightarrow> run 0x80 0x12
     | Supervisor \<Rightarrow> Some cpu
     | Abort \<Rightarrow> run 0x100 0x17
     | Undefined \<Rightarrow> run 0 0x1b
     | User \<Rightarrow> run 0 0x1f
     | System \<Rightarrow> run 0 0x1f
   }"

section \<open>The exception vector\<close>

datatype ExceptionError = TooFar u32 u32 | VectorTableAlignment | JumpTargetAlignment | DestinationTooSmall

definition sub_usize :: "bool \<Rightarrow> u32 \<Rightarrow> u32 \<Rightarrow> u32 option" where
  "sub_usize checks a b = (if checks \<and> a < b then None else Some (a - b))"

definition encode_relative_jump :: "bool \<Rightarrow> u32 \<Rightarrow> u32 \<Rightarrow> (ExceptionError + u32) option" where
  "encode_relative_jump checks to_addr from_addr =
     (if to_addr AND 3 \<noteq> 0 \<or> from_addr AND 3 \<noteq> 0 then Some (Inl JumpTargetAlignment)
      else do {
        d \<leftarrow> sub_usize checks to_addr from_addr;
        d \<leftarrow> sub_usize checks d 8;
        let immed_24_unchecked = signed_drop_bit 2 d;
        let sign_ext = immed_24_unchecked AND 0xff000000;
        if \<not> (sign_ext = 0 \<or> sign_ext = 0xff000000) then Some (Inl (TooFar from_addr to_addr))
        else let immed_24 = immed_24_unchecked AND 0x00ffffff
          in Some (Inr (0xe0000000 OR 0x0a000000 OR 0 OR immed_24))
      })"

text \<open>The handlers: a jump target each, for fast interrupts a target or the code itself.\<close>

datatype FiqAction = FiqJump u32 | FiqCode "u32 list"

record VectorBuilder =
  vb_maps :: "u32 list"
  vb_fiq :: FiqAction

text \<open>The addresses of the default handlers are the linker's.\<close>

definition vb_new :: "u32 list \<Rightarrow> u32 \<Rightarrow> VectorBuilder" where
  "vb_new defaults fiq_default = \<lparr>vb_maps = defaults, vb_fiq = FiqJump fiq_default\<rparr>"

definition set_undefined_instruction_handler :: "u32 \<Rightarrow> VectorBuilder \<Rightarrow> VectorBuilder" where
  "set_undefined_instruction_handler action self = self\<lparr>vb_maps := (vb_maps self)[1 := action]\<rparr>"

definition set_syscall_handler :: "u32 \<Rightarrow> VectorBuilder \<Rightarrow> VectorBuilder" where
  "set_syscall_handler action self = self\<lparr>vb_maps := (vb_maps self)[2 := action]\<rparr>"

definition set_prefetch_abort_handler :: "u32 \<Rightarrow> VectorBuilder \<Rightarrow> VectorBuilder" where
  "set_prefetch_abort_handler action self = self\<lparr>vb_maps := (vb_maps self)[3 := action]\<rparr>"

definition set_data_abort_handler :: "u32 \<Rightarrow> VectorBuilder \<Rightarrow> VectorBuilder" where
  "set_data_abort_handler action self = self\<lparr>vb_maps := (vb_maps self)[4 := action]\<rparr>"

definition set_irq_handler :: "u32 \<Rightarrow> VectorBuilder \<Rightarrow> VectorBuilder" where
  "set_irq_handler action self = self\<lparr>vb_maps := (vb_maps self)[6 := action]\<rparr>"

definition set_fiq_handler :: "FiqAction \<Rightarrow> VectorBuilder \<Rightarrow> VectorBuilder" where
  "set_fiq_handler fiq self = self\<lparr>vb_fiq := fiq\<rparr>"

text \<open>\<open>try_map\<close> over the slots: the first error wins.\<close>

fun encode_jumps :: "bool \<Rightarrow> (u32 \<times> u32) list \<Rightarrow> (ExceptionError + u32 list) option" where
  "encode_jumps checks [] = Some (Inr [])"
| "encode_jumps checks ((to_addr, from_addr) # js) = do {
     r \<leftarrow> encode_relative_jump checks to_addr from_addr;
     case r of
       Inl e \<Rightarrow> Some (Inl e)
     | Inr w \<Rightarrow> do {
         r \<leftarrow> encode_jumps checks js;
         Some (case r of Inl e \<Rightarrow> Inl e | Inr ws \<Rightarrow> Inr (w # ws))
       }
   }"

text \<open>The table is written into memory word by word, then the base address register is set.\<close>

record VectorMem =
  vm_words :: "u32 \<Rightarrow> u32"
  vm_base :: u32

fun write_vector :: "u32 \<Rightarrow> u32 list \<Rightarrow> (u32 \<Rightarrow> u32) \<Rightarrow> u32 \<Rightarrow> u32" where
  "write_vector p [] mem = mem"
| "write_vector p (w # ws) mem = write_vector (p + 4) ws (mem(p := w))"

definition vector_install :: "bool \<Rightarrow> u32 \<Rightarrow> nat \<Rightarrow> VectorBuilder \<Rightarrow> VectorMem \<Rightarrow> (VectorMem \<times> (ExceptionError + unit)) option" where
  "vector_install checks dst_base dst_len self vm =
     (if dst_base AND 0x1f \<noteq> 0 then Some (vm, Inl VectorTableAlignment)
      else do {
        let sources = map (\<lambda>offset. dst_base + offset) [0x0, 0x4, 0x8, 0xc, 0x10, 0x14, 0x18, 0x1c];
        r \<leftarrow> encode_jumps checks (zip (vb_maps self) (take 7 sources));
        case r of
          Inl e \<Rightarrow> Some (vm, Inl e)
        | Inr encodings \<Rightarrow> do {
            r \<leftarrow> (case vb_fiq self of
                FiqJump target \<Rightarrow> do {
                  r \<leftarrow> encode_relative_jump checks target (sources ! 7);
                  Some (case r of Inl e \<Rightarrow> Inl e | Inr w \<Rightarrow> Inr [w])
                }
              | FiqCode words \<Rightarrow> Some (Inr words));
            case r of
              Inl e \<Rightarrow> Some (vm, Inl e)
            | Inr fiq_words \<Rightarrow>
                if dst_len < 7 + length fiq_words then Some (vm, Inl DestinationTooSmall)
                else Some (vm\<lparr>vm_words := write_vector dst_base (encodings @ fiq_words) (vm_words vm), vm_base := dst_base\<rparr>, Inr ())
          }
      })"

section \<open>Masks and stacks\<close>

lemma bit_IRQ_FIQ: "IRQ_BIT = push_bit 7 1" "FIQ_BIT = push_bit 6 1"
  by (simp_all add: IRQ_BIT_def FIQ_BIT_def)

lemma and_bit_zero: "(w :: u32) AND push_bit n 1 = 0 \<longleftrightarrow> \<not> bit w n"
proof
  assume "w AND push_bit n 1 = 0"
  then have "\<not> bit (w AND push_bit n 1) n"
    by (simp only: bit_0_eq bot_apply bot_bool_def not_False_eq_True)
  then show "\<not> bit w n"
    using bit_imp_le_length [of w n] by (auto simp: bit_simps)
qed (auto intro!: bit_word_eqI simp: bit_simps)

lemma set_enabled_bits:
  "bit (fst (set_enabled_interrupts mode cpsr)) n = (if n = 7 then mode \<in> {Neither, FiqOnly} else if n = 6 then mode \<in> {Neither, IrqOnly} else bit cpsr n)"
  by (cases mode) (auto simp: set_enabled_interrupts_def bit_IRQ_FIQ bit_simps simp del: push_bit_of_1 dest: bit_imp_le_length [of cpsr])

lemma mode_from_bits: "interrupt_mode_from_bits cpsr =
    (if bit cpsr 7 then if bit cpsr 6 then Neither else FiqOnly else if bit cpsr 6 then IrqOnly else Both)"
  by (simp add: interrupt_mode_from_bits_def bit_IRQ_FIQ and_bit_zero del: push_bit_of_1)

text \<open>Critical sections, nested to any depth, with nothing in between.\<close>

fun cs_nested :: "nat \<Rightarrow> u32 \<Rightarrow> u32 option" where
  "cs_nested 0 cpsr = Some cpsr"
| "cs_nested (Suc n) cpsr = (let (cpsr', token) = cs_acquire cpsr in do { c \<leftarrow> cs_nested n cpsr'; cs_release token c })"

lemma cs_acquire_release:
  assumes "cs_acquire cpsr = (cpsr', token)"
  shows "cs_release token cpsr' = Some cpsr" "get_enabled_interrupts cpsr' = Neither"
proof -
  have t: "mode_of_restore_state token = Some (interrupt_mode_from_bits cpsr)" and c: "cpsr' = fst (set_enabled_interrupts Neither cpsr)"
    using assms by (cases "interrupt_mode_from_bits cpsr"; auto simp: cs_acquire_def set_enabled_interrupts_def mode_of_restore_state_def split: prod.splits)+
  have "bit (fst (set_enabled_interrupts (interrupt_mode_from_bits cpsr) cpsr')) n = bit cpsr n" for n
    by (auto simp: set_enabled_bits c mode_from_bits)
  then have "fst (set_enabled_interrupts (interrupt_mode_from_bits cpsr) cpsr') = cpsr"
    by (simp add: bit_eq_iff)
  then show "cs_release token cpsr' = Some cpsr"
    by (simp add: cs_release_def t)
  show "get_enabled_interrupts cpsr' = Neither"
    by (simp add: get_enabled_interrupts_def mode_from_bits c set_enabled_bits)
qed

text \<open>
  A critical section masks both kinds of interrupts and, when it ends, restores exactly the status register it
  found: at any depth of nesting, whatever was enabled before is enabled again, nothing else changes, and the restore
  token is always valid. Setting a mode is read back, and the old mode is returned.\<close>

lemma critical_sections_restore:
  "cs_nested n cpsr = Some cpsr \<and> get_enabled_interrupts (fst (cs_acquire cpsr)) = Neither
    \<and> get_enabled_interrupts (fst (set_enabled_interrupts mode cpsr)) = mode
    \<and> snd (set_enabled_interrupts mode cpsr) = get_enabled_interrupts cpsr"
proof (intro conjI)
  show "cs_nested n cpsr = Some cpsr"
  proof (induction n arbitrary: cpsr)
    case (Suc n)
    then show ?case
      using cs_acquire_release(1) [of cpsr "fst (cs_acquire cpsr)" "snd (cs_acquire cpsr)"] by (simp add: case_prod_beta Let_def)
  qed simp
  show "get_enabled_interrupts (fst (cs_acquire cpsr)) = Neither"
    using cs_acquire_release(2) [of cpsr "fst (cs_acquire cpsr)" "snd (cs_acquire cpsr)"] by simp
  show "get_enabled_interrupts (fst (set_enabled_interrupts mode cpsr)) = mode"
    by (cases mode) (simp_all add: get_enabled_interrupts_def mode_from_bits set_enabled_bits)
  show "snd (set_enabled_interrupts mode cpsr) = get_enabled_interrupts cpsr"
    by (simp add: set_enabled_interrupts_def get_enabled_interrupts_def case_prod_beta Let_def)
qed

lemma sp_bank_mode:
  assumes "mode AND 0x1f = mode"
  shows "sp_bank ((w AND NOT 0x1f) OR mode) = (if mode = 0x1f then 0x10 else mode)"
proof -
  have "((w AND NOT 0x1f) OR mode) AND 0x1f = mode AND 0x1f"
    by (rule bit_word_eqI) (auto simp: bit_simps)
  then show ?thesis
    by (simp add: sp_bank_def assms)
qed

text \<open>Setting up the stack of a mode changes the stack pointer of that mode and nothing else.\<close>

lemma init_stack_spec:
  "init_stack_for_mode mode stack cpu = (if stack AND 7 = 0
     then Some (if mode = Supervisor then cpu else cpu\<lparr>cpu_sp := (cpu_sp cpu)(sp_bank (mode_to_bits mode) := stack)\<rparr>) else None)"
  by (cases mode) (simp_all add: init_stack_for_mode_def assertion_def Let_def write_sp_def cps_def sp_bank_mode [simplified], simp_all add: sp_bank_def)

section \<open>Relative jumps\<close>

text \<open>What the processor does with a branch instruction: the lower 24 bits, sign-extended and shifted by two, are added to
  the address of the instruction plus eight.\<close>

definition branch_target :: "u32 \<Rightarrow> u32 \<Rightarrow> u32" where
  "branch_target addr instr = addr + 8 + push_bit 2 (scast (ucast instr :: 24 word))"

definition is_branch :: "u32 \<Rightarrow> bool" where
  "is_branch instr \<longleftrightarrow> drop_bit 24 instr = 0xea"

text \<open>A word is a signed number of \<open>n + 1\<close> bits when its upper bits are equal.\<close>

lemma signed_range_bits:
  fixes d :: u32
  assumes "n < 32"
  shows "- (2 ^ n) \<le> sint d \<and> sint d < 2 ^ n \<longleftrightarrow> (\<forall>m. n \<le> m \<longrightarrow> m < 32 \<longrightarrow> bit d m = bit d n)"
proof -
  have b: "bit (sint d) m = bit d (min 31 m)" for m
    by (simp add: bit_signed_iff)
  have "- (2 ^ n) \<le> sint d \<and> sint d < 2 ^ n \<longleftrightarrow> signed_take_bit n (sint d) = sint d"
    by (simp add: signed_take_bit_int_eq_self_iff)
  also have "\<dots> \<longleftrightarrow> (\<forall>m. bit d (min 31 (min n m)) = bit d (min 31 m))"
    unfolding bit_eq_iff [of "signed_take_bit n (sint d)"] bit_signed_take_bit_iff b by simp
  also have "\<dots> \<longleftrightarrow> (\<forall>m. n \<le> m \<longrightarrow> m < 32 \<longrightarrow> bit d m = bit d n)"
  proof
    assume "\<forall>m. n \<le> m \<longrightarrow> m < 32 \<longrightarrow> bit d m = bit d n"
    then have up: "n \<le> m \<Longrightarrow> m < 32 \<Longrightarrow> bit d m = bit d n" for m
      by blast
    show "\<forall>m. bit d (min 31 (min n m)) = bit d (min 31 m)"
    proof
      fix m
      show "bit d (min 31 (min n m)) = bit d (min 31 m)"
      proof (cases "n \<le> m")
        case True
        then have "min 31 (min n m) = n" "n \<le> min 31 m" "min 31 m < 32"
          using assms by auto
        with up [of "min 31 m"] show ?thesis
          by simp
      qed simp
    qed
  next
    assume r: "\<forall>m. bit d (min 31 (min n m)) = bit d (min 31 m)"
    show "\<forall>m. n \<le> m \<longrightarrow> m < 32 \<longrightarrow> bit d m = bit d n"
    proof (intro allI impI)
      fix m assume m: "n \<le> m" "m < 32"
      then have "min 31 (min n m) = n" "min 31 m = m"
        by (simp_all add: min_def)
      with r [THEN spec, of m] show "bit d m = bit d n"
        by simp
    qed
  qed
  finally show ?thesis .
qed

lemma signed_upper: "n < 32 \<Longrightarrow> - (2 ^ n) \<le> sint d \<Longrightarrow> sint d < 2 ^ n \<Longrightarrow> n \<le> m \<Longrightarrow> m < 32 \<Longrightarrow> bit d m = bit d n" for d :: u32
  using signed_range_bits [of n d] by iprover

lemma upper_byte: "(0xff000000 :: u32) = NOT (mask 24)" "(0x00ffffff :: u32) = mask 24"
  by (simp_all add: mask_eq_exp_minus_1)

lemma upper_zero: "(x :: u32) AND 0xff000000 = 0 \<longleftrightarrow> (\<forall>n. 24 \<le> n \<longrightarrow> n < 32 \<longrightarrow> \<not> bit x n)"
proof -
  have "x AND NOT (mask 24) = 0 \<longleftrightarrow> (\<forall>n < 32. \<not> (bit x n \<and> \<not> n < 24))"
    by (simp add: bit_eq_iff [of "x AND NOT (mask 24)"] bit_and_iff bit_not_iff bit_mask_iff bit_0_eq del: mask_numeral)
  then show ?thesis
    unfolding upper_byte by auto
qed

lemma upper_ones: "(x :: u32) AND 0xff000000 = 0xff000000 \<longleftrightarrow> (\<forall>n. 24 \<le> n \<longrightarrow> n < 32 \<longrightarrow> bit x n)"
proof -
  have "x AND m = m \<longleftrightarrow> NOT x AND m = 0" for m
    by (auto simp: bit_eq_iff [where 'a = u32] bit_simps)
  then have "x AND 0xff000000 = 0xff000000 \<longleftrightarrow> NOT x AND 0xff000000 = 0"
    by blast
  also have "\<dots> \<longleftrightarrow> (\<forall>n. 24 \<le> n \<longrightarrow> n < 32 \<longrightarrow> bit x n)"
    unfolding upper_zero by (auto simp: bit_not_iff)
  finally show ?thesis .
qed

text \<open>The encoder accepts distances of 27 signed bits.\<close>

lemma bit_sdb: "n < 32 \<Longrightarrow> bit (signed_drop_bit 2 d :: u32) n = bit d (min 31 (n + 2))"
  by (cases "30 \<le> n") (simp_all add: bit_signed_drop_bit_iff min_absorb1 min_absorb2)

lemma expressible_iff:
  fixes d :: u32
  defines "x \<equiv> signed_drop_bit 2 d"
  shows "x AND 0xff000000 = 0 \<or> x AND 0xff000000 = 0xff000000 \<longleftrightarrow> - (2 ^ 26) \<le> sint d \<and> sint d < 2 ^ 26"
proof -
  have "x AND 0xff000000 = 0 \<or> x AND 0xff000000 = 0xff000000 \<longleftrightarrow> (\<forall>n. 24 \<le> n \<longrightarrow> n < 32 \<longrightarrow> bit x n = bit x 24)"
    unfolding upper_zero upper_ones by auto
  also have "\<dots> \<longleftrightarrow> (\<forall>n. 24 \<le> n \<longrightarrow> n < 32 \<longrightarrow> bit d (min 31 (n + 2)) = bit d 26)"
    by (auto simp: x_def bit_sdb)
  also have "\<dots> \<longleftrightarrow> (\<forall>m. 26 \<le> m \<longrightarrow> m < 32 \<longrightarrow> bit d m = bit d 26)"
  proof
    assume "\<forall>n. 24 \<le> n \<longrightarrow> n < 32 \<longrightarrow> bit d (min 31 (n + 2)) = bit d 26"
    then have *: "24 \<le> n \<Longrightarrow> n < 32 \<Longrightarrow> bit d (min 31 (n + 2)) = bit d 26" for n
      by blast
    show "\<forall>m. 26 \<le> m \<longrightarrow> m < 32 \<longrightarrow> bit d m = bit d 26"
    proof (intro allI impI)
      fix m :: nat assume "26 \<le> m" "m < 32"
      then have e: "min 31 (m - 2 + 2) = m" "24 \<le> m - 2" "m - 2 < 32"
        by auto
      from * [OF e(2,3)] show "bit d m = bit d 26"
        unfolding e(1) .
    qed
  next
    assume r: "\<forall>m. 26 \<le> m \<longrightarrow> m < 32 \<longrightarrow> bit d m = bit d 26"
    show "\<forall>n. 24 \<le> n \<longrightarrow> n < 32 \<longrightarrow> bit d (min 31 (n + 2)) = bit d 26"
    proof (intro allI impI)
      fix n :: nat assume "24 \<le> n"
      then have "26 \<le> min 31 (n + 2)" "min 31 (n + 2) < 32"
        by auto
      with r show "bit d (min 31 (n + 2)) = bit d 26"
        by iprover
    qed
  qed
  also have "\<dots> \<longleftrightarrow> - (2 ^ 26) \<le> sint d \<and> sint d < 2 ^ 26"
    by (rule signed_range_bits [symmetric]) simp
  finally show ?thesis .
qed

lemma encoding_or: "(0xe0000000 :: u32) OR 0x0a000000 OR 0 OR y = push_bit 24 0xea OR y"
  by (simp add: or.assoc [symmetric])

lemma bit_encoding: "bit (push_bit 24 0xea OR (x AND 0x00ffffff) :: u32) n = (if n < 24 then bit x n else bit (push_bit 24 0xea :: u32) n)"
  unfolding upper_byte bit_or_iff bit_and_iff bit_mask_iff by (auto simp: bit_push_bit_iff simp del: push_bit_numeral)

lemma ucast_encoding: "ucast (push_bit 24 0xea OR (x AND 0x00ffffff) :: u32) = (ucast x :: 24 word)"
  by (rule bit_word_eqI) (simp add: bit_word_ucast_iff bit_encoding del: push_bit_numeral)

lemma is_branch_encoding: "is_branch (push_bit 24 0xea OR (x AND 0x00ffffff) :: u32)"
proof -
  have "drop_bit 24 (push_bit 24 0xea OR (x AND 0x00ffffff) :: u32) = drop_bit 24 (push_bit 24 0xea)"
    by (rule bit_word_eqI) (simp add: bit_drop_bit_eq bit_encoding del: push_bit_numeral)
  then show ?thesis
    by (simp add: is_branch_def)
qed

text \<open>The offset of the encoded branch: the distance when it has 26 signed bits; otherwise the upper bits are wrong.\<close>

lemma three: "(3 :: u32) = mask 2"
  by (simp add: mask_eq_exp_minus_1)

lemma aligned_low:
  assumes "(a :: u32) AND 3 = 0" and "n < 2"
  shows "\<not> bit a n"
proof -
  have "\<not> bit (a AND 3) n"
    by (simp only: assms(1) bit_0_eq bot_apply bot_bool_def not_False_eq_True)
  then show ?thesis
    using assms(2) unfolding three by (simp add: bit_and_iff bit_mask_iff del: mask_numeral)
qed

lemma aligned_push: "(a :: u32) AND 3 = 0 \<Longrightarrow> \<exists>k. a = push_bit 2 k"
proof
  assume a: "a AND 3 = 0"
  show "a = push_bit 2 (drop_bit 2 a)"
  proof (rule bit_word_eqI)
    fix n assume n: "n < LENGTH(32)"
    show "bit a n = bit (push_bit 2 (drop_bit 2 a)) n"
    proof (cases "n < 2")
      case True
      then show ?thesis
        using aligned_low [OF a True] by (simp add: bit_push_bit_iff)
    next
      case False
      then have "2 + (n - 2) = n"
        by simp
      with False n show ?thesis
        by (simp only: bit_push_bit_iff bit_drop_bit_eq comp_apply possible_bit_word) simp
    qed
  qed
qed

lemma push_aligned: "(push_bit 2 k :: u32) AND 3 = 0"
  unfolding three by (rule bit_word_eqI) (simp add: bit_and_iff bit_mask_iff bit_push_bit_iff del: mask_numeral)

lemma aligned_diff:
  assumes "(a :: u32) AND 3 = 0" and "b AND 3 = 0"
  shows "(a - b - 8) AND 3 = 0"
proof -
  obtain k l where "a = push_bit 2 k" "b = push_bit 2 l"
    using aligned_push assms by blast
  then have "a - b - 8 = push_bit 2 (k - l - 2)"
    by (simp add: push_bit_eq_mult algebra_simps)
  then show ?thesis
    by (simp only: push_aligned)
qed

lemma bit_offset:
  fixes d :: u32
  assumes "d AND 3 = 0" and "n < 32"
  shows "bit (push_bit 2 (scast (ucast (signed_drop_bit 2 d) :: 24 word)) :: u32) n = bit d (min 25 n)"
proof -
  have d: "\<not> bit d 0" "\<not> bit d 1"
    using aligned_low [OF assms(1)] by simp_all
  show ?thesis
  proof (cases "n < 2")
    case True
    then have "n = 0 \<or> n = 1"
      by auto
    with d show ?thesis
      by (auto simp: bit_push_bit_iff)
  next
    case False
    have "bit (scast (ucast (signed_drop_bit 2 d) :: 24 word) :: u32) (n - 2) = bit (signed_drop_bit 2 d) (min 23 (n - 2))"
    proof -
      have "min 23 (n - 2) < 32" "min 23 (n - 2) < 24" "n - 2 < 32"
        using assms(2) by auto
      then show ?thesis
        by (simp add: bit_signed_iff bit_word_ucast_iff del: min_less_iff_conj)
    qed
    also have "\<dots> = bit d (min 25 n)"
    proof -
      have e: "min 23 (n - 2) < 32" "min 31 (min 23 (n - 2) + 2) = min 25 n"
        using False by auto
      show ?thesis
        unfolding bit_sdb [OF e(1)] e(2) ..
    qed
    finally show ?thesis
      using False assms(2) by (simp add: bit_push_bit_iff)
  qed
qed

lemma encode_eq:
  assumes "to_addr AND 3 = 0" and "from_addr AND 3 = 0"
  shows "encode_relative_jump False to_addr from_addr = (let d = to_addr - from_addr - 8 in
    if - (2 ^ 26) \<le> sint d \<and> sint d < 2 ^ 26 then Some (Inr (push_bit 24 0xea OR (signed_drop_bit 2 d AND 0x00ffffff)))
    else Some (Inl (TooFar from_addr to_addr)))"
  using assms by (simp only: encode_relative_jump_def sub_usize_def simp_thms if_False bind.bind_lunit Let_def encoding_or expressible_iff not_not)
    (simp split: if_splits)

text \<open>The branch that is encoded goes to the target, exactly when the distance has 26 signed bits.\<close>

lemma encoded_target:
  fixes to_addr from_addr :: u32
  assumes "to_addr AND 3 = 0" and "from_addr AND 3 = 0"
  defines "d \<equiv> to_addr - from_addr - 8"
  defines "w \<equiv> push_bit 24 0xea OR (signed_drop_bit 2 d AND 0x00ffffff)"
  shows "- (2 ^ 25) \<le> sint d \<Longrightarrow> sint d < 2 ^ 25 \<Longrightarrow> branch_target from_addr w = to_addr"
    and "2 ^ 25 \<le> sint d \<Longrightarrow> sint d < 2 ^ 26 \<Longrightarrow> branch_target from_addr w = to_addr - 0x4000000"
proof -
  define ofs :: u32 where "ofs = push_bit 2 (scast (ucast (signed_drop_bit 2 d) :: 24 word))"
  have al: "d AND 3 = 0"
    unfolding d_def by (rule aligned_diff [OF assms(1,2)])
  have bt: "branch_target from_addr w = from_addr + 8 + ofs"
    unfolding branch_target_def w_def ucast_encoding ofs_def ..
  have bits: "bit ofs n = bit d (min 25 n)" if "n < 32" for n
    unfolding ofs_def by (rule bit_offset [OF al that])
  {
    assume r: "- (2 ^ 25) \<le> sint d" "sint d < 2 ^ 25"
    have up: "25 \<le> m \<Longrightarrow> m < 32 \<Longrightarrow> bit d m = bit d 25" for m
      by (rule signed_upper [OF _ r]) simp_all
    have "ofs = d"
    proof (rule bit_word_eqI)
      fix n assume "n < LENGTH(32)"
      then show "bit ofs n = bit d n"
        using up [of n] bits [of n] by (cases "25 \<le> n") (simp_all add: min_absorb1 min_absorb2)
    qed
    then show "branch_target from_addr w = to_addr"
      by (simp add: bt d_def)
  }
  {
    assume r: "2 ^ 25 \<le> sint d" "sint d < 2 ^ 26"
    have r26: "- (2 ^ 26) \<le> sint d"
      using r(1) by simp
    have eq: "26 \<le> m \<Longrightarrow> m < 32 \<Longrightarrow> bit d m = bit d 26" for m
      by (rule signed_upper [OF _ r26 r(2)]) simp_all
    have "\<not> bit d 31"
      using r(1) bit_last_iff [of d] by simp
    then have up: "\<not> bit d m" if "26 \<le> m" "m < 32" for m
      using eq [OF that] eq [of 31] by simp
    have b25: "bit d 25"
    proof (rule ccontr)
      assume "\<not> bit d 25"
      have "\<forall>m. 25 \<le> m \<longrightarrow> m < 32 \<longrightarrow> bit d m = bit d 25"
      proof (intro allI impI)
        fix m :: nat assume "25 \<le> m" "m < 32"
        with up [of m] \<open>\<not> bit d 25\<close> show "bit d m = bit d 25"
          by (cases "m = 25") simp_all
      qed
      then have "- (2 ^ 25) \<le> sint d \<and> sint d < 2 ^ 25"
        by (rule signed_range_bits [of 25, THEN iffD2, rotated]) simp
      with r(1) show False
        by simp
    qed
    have m: "(0xfc000000 :: u32) = NOT (mask 26)"
      by (simp add: mask_eq_exp_minus_1)
    have "ofs = d OR NOT (mask 26)"
    proof (rule bit_word_eqI)
      fix n assume "n < LENGTH(32)"
      then have n: "n < 32"
        by simp
      consider "n < 25" | "n = 25" | "26 \<le> n"
        by linarith
      then show "bit ofs n = bit (d OR NOT (mask 26)) n"
        using bits [OF n] b25 n by cases (simp_all add: bit_or_iff bit_not_iff bit_mask_iff min_absorb1 min_absorb2 del: mask_numeral)
    qed
    also have "\<dots> = d + NOT (mask 26)"
      by (rule disjunctive_add_eq_or [symmetric], rule bit_word_eqI) (simp add: bit_and_iff bit_not_iff bit_mask_iff not_less del: mask_numeral, use up in blast)
    finally show "branch_target from_addr w = to_addr - 0x4000000"
      unfolding bt m [symmetric] by (simp add: d_def)
  }
qed

text \<open>Whether a branch at one address can reach the other.\<close>

definition reachable_jump :: "u32 \<Rightarrow> u32 \<Rightarrow> bool" where
  "reachable_jump to_addr from_addr \<longleftrightarrow> to_addr AND 3 = 0 \<and> from_addr AND 3 = 0
    \<and> - (2 ^ 25) \<le> sint (to_addr - from_addr - 8) \<and> sint (to_addr - from_addr - 8) < 2 ^ 25"

lemma encode_reachable:
  assumes "reachable_jump to_addr from_addr"
  shows "\<exists>w. encode_relative_jump False to_addr from_addr = Some (Inr w) \<and> is_branch w \<and> branch_target from_addr w = to_addr"
proof -
  have al: "to_addr AND 3 = 0" "from_addr AND 3 = 0" and r: "- (2 ^ 25) \<le> sint (to_addr - from_addr - 8)" "sint (to_addr - from_addr - 8) < 2 ^ 25"
    using assms by (auto simp: reachable_jump_def)
  have "- (2 ^ 26) \<le> sint (to_addr - from_addr - 8) \<and> sint (to_addr - from_addr - 8) < 2 ^ 26"
    using r by simp
  then show ?thesis
    using encode_eq [OF al] is_branch_encoding encoded_target(1) [OF al r] by (simp only: Let_def if_True simp_thms) blast
qed

text \<open>
  C40. The test for a jump that can be encoded is off by one bit: a target between 32 and 64 MiB ahead of the vector, which a
  branch cannot reach, is accepted, and the branch that is written goes 64 MiB too low.\<close>

theorem far_jump_is_misencoded:
  assumes "to_addr AND 3 = 0" and "from_addr AND 3 = 0"
    and "2 ^ 25 \<le> sint (to_addr - from_addr - 8)" and "sint (to_addr - from_addr - 8) < 2 ^ 26"
  shows "\<exists>w. encode_relative_jump False to_addr from_addr = Some (Inr w) \<and> is_branch w \<and> branch_target from_addr w = to_addr - 0x4000000"
proof -
  have "- (2 ^ 26) \<le> sint (to_addr - from_addr - 8) \<and> sint (to_addr - from_addr - 8) < 2 ^ 26"
    using assms(3,4) by simp
  then show ?thesis
    using encode_eq [OF assms(1,2)] is_branch_encoding encoded_target(2) [OF assms] by (simp only: Let_def if_True simp_thms) blast
qed

theorem far_jump_is_misencoded_witness:
  "\<exists>w. encode_relative_jump False 0x2000010 0 = Some (Inr w) \<and> branch_target 0 w = 0xfe000010"
proof -
  from far_jump_is_misencoded [of "0x2000010" 0] show ?thesis
    by auto
qed

section \<open>The installed vector\<close>

lemma write_vector_other: "(\<And>i. i < length ws \<Longrightarrow> q \<noteq> p + of_nat (4 * i)) \<Longrightarrow> write_vector p ws mem q = mem q"
proof (induction ws arbitrary: p mem)
  case (Cons w ws)
  have "q \<noteq> p"
    using Cons.prems [of 0] by simp
  moreover have "q \<noteq> p + 4 + of_nat (4 * i)" if "i < length ws" for i
    using Cons.prems [of "Suc i"] that by (simp add: algebra_simps)
  ultimately show ?case
    using Cons.IH [of "p + 4"] by simp
qed simp

lemma write_vector_nth:
  assumes "i < length ws" and "4 * length ws \<le> 2 ^ 32"
  shows "write_vector p ws mem (p + of_nat (4 * i)) = ws ! i"
  using assms
proof (induction ws arbitrary: p mem i)
  case (Cons w ws)
  show ?case
  proof (cases i)
    case 0
    have "p \<noteq> p + 4 + of_nat (4 * j)" if "j < length ws" for j
    proof
      assume "p = p + 4 + of_nat (4 * j)"
      then have "(of_nat (4 + 4 * j) :: u32) = 0"
        by (simp add: add.assoc)
      then have "2 ^ 32 dvd 4 + 4 * j"
        by (simp add: word_of_nat_eq_0_iff del: of_nat_add of_nat_mult)
      with Cons.prems(2) that dvd_imp_le [of "2 ^ 32" "4 + 4 * j"] show False
        by simp
    qed
    then show ?thesis
      using write_vector_other [of ws p "p + 4"] 0 by simp
  next
    case (Suc j)
    have "p + of_nat (4 * i) = p + 4 + of_nat (4 * j)"
      by (simp add: Suc)
    with Cons.IH [of j "p + 4"] Cons.prems Suc show ?thesis
      by (simp add: add.assoc)
  qed
qed simp

lemma encode_jumps_reachable:
  "\<forall>j \<in> set js. reachable_jump (fst j) (snd j) \<Longrightarrow> \<exists>ws. encode_jumps False js = Some (Inr ws) \<and> length ws = length js
    \<and> (\<forall>i < length js. is_branch (ws ! i) \<and> branch_target (snd (js ! i)) (ws ! i) = fst (js ! i))"
proof (induction js)
  case (Cons j js)
  obtain t f where j: "j = (t, f)"
    by (cases j)
  obtain w where w: "encode_relative_jump False t f = Some (Inr w)" "is_branch w" "branch_target f w = t"
    using encode_reachable [of t f] Cons.prems j by auto
  obtain ws where ws: "encode_jumps False js = Some (Inr ws)" "length ws = length js"
      "\<forall>i < length js. is_branch (ws ! i) \<and> branch_target (snd (js ! i)) (ws ! i) = fst (js ! i)"
    using Cons by auto
  have "\<forall>i < length (j # js). is_branch ((w # ws) ! i) \<and> branch_target (snd ((j # js) ! i)) ((w # ws) ! i) = fst ((j # js) ! i)"
    using w(2,3) ws(3) j by (auto simp: less_Suc_eq_0_disj)
  with w(1) ws(1,2) show ?case
    by (intro exI [of _ "w # ws"]) (simp add: j)
qed simp



end
