(* ===== verification/Mmu.thy ===== *)
theory Mmu
  imports Prelude
begin

text \<open>
  The set-up of the MMU (\<open>device/quartz/src/arch/arm1176/mmu.rs\<close>), as the boot loader calls it. The coprocessor registers are a
  record, the translation table the list of its words; barriers and the invalidation of the caches are left out. What
  the processor does with table and registers (ARMv6, with \<open>XP\<close> set) is \<open>mmu_access\<close> below.
\<close>

section \<open>Registers and table\<close>

record Cp15 =
  cp_control :: u32
  cp_ttbr0 :: u32
  cp_ttbcr :: u32
  cp_dac :: u32

record MMUEnabledFeaturesConfig =
  cfg_dcache :: "bool option"
  cfg_icache :: "bool option"
  cfg_brpdx :: "bool option"

definition CR_DCACHE_BIT :: u32 where "CR_DCACHE_BIT = push_bit 2 1"
definition CR_BRPDX_BIT :: u32 where "CR_BRPDX_BIT = push_bit 11 1"
definition CR_ICACHE_BIT :: u32 where "CR_ICACHE_BIT = push_bit 12 1"

fun cr_feature :: "bool option \<Rightarrow> u32 \<Rightarrow> u32 \<times> u32 \<Rightarrow> u32 \<times> u32" where
  "cr_feature None b (cr_on, cr_off) = (cr_on, cr_off)"
| "cr_feature (Some on) b (cr_on, cr_off) = (if on then (cr_on OR b, cr_off) else (cr_on, cr_off OR b))"

definition set_mmu_enabled_features :: "MMUEnabledFeaturesConfig \<Rightarrow> Cp15 \<Rightarrow> Cp15" where
  "set_mmu_enabled_features config cp =
     (let (cr_on, cr_off) = cr_feature (cfg_brpdx config) CR_BRPDX_BIT
        (cr_feature (cfg_icache config) CR_ICACHE_BIT (cr_feature (cfg_dcache config) CR_DCACHE_BIT (0, 0)))
      in if cr_on \<noteq> 0 \<or> cr_off \<noteq> 0 then cp\<lparr>cp_control := (cp_control cp OR cr_on) AND NOT cr_off\<rparr> else cp)"

definition disable_mmu :: "Cp15 \<Rightarrow> Cp15" where
  "disable_mmu cp = (let cp = cp\<lparr>cp_control := cp_control cp AND NOT 4\<rparr> in cp\<lparr>cp_control := cp_control cp AND NOT 1\<rparr>)"

definition tt_supersection :: "u32 \<Rightarrow> u32 \<Rightarrow> u32 \<Rightarrow> u32 \<Rightarrow> u32" where
  "tt_supersection index tex c b =
     (let ssba = push_bit 24 index; NS = push_bit 19 0; nG = push_bit 17 0; S = push_bit 16 0; APX = push_bit 15 0;
          TEX = push_bit 12 tex; AP = push_bit 10 3; P = push_bit 9 0; domain = push_bit 5 0; XN = push_bit 4 0;
          C = push_bit 3 c; B = push_bit 2 b
      in (push_bit 18 1 OR 2) OR ssba OR NS OR nG OR S OR APX OR TEX OR AP OR P OR domain OR XN OR C OR B)"

definition init_mmu_translation_table :: "u32 list \<Rightarrow> u32 list" where
  "init_mmu_translation_table tt =
     (let tt = fold (\<lambda>ttei tt. tt[ttei := 0]) [0..<0x1000] tt;
          tt = fold (\<lambda>si tt. tt[0x000 + si := tt_supersection (of_nat ((si + 0) div 16)) 1 0 0]) [0..<512] tt
      in fold (\<lambda>si tt. tt[0x200 + si := tt_supersection (of_nat ((si + 512) div 16)) 0 0 1]) [0..<16] tt)"

definition init_mmu_tex_remap :: "Cp15 \<Rightarrow> Cp15" where
  "init_mmu_tex_remap cp = (let cp = cp\<lparr>cp_dac := 7\<rparr> in cp\<lparr>cp_control := cp_control cp OR push_bit 28 1\<rparr>)"

definition init_mmu :: "u32 \<Rightarrow> u32 list \<Rightarrow> Cp15 \<Rightarrow> u32 list \<times> Cp15" where
  "init_mmu ttb_ptr tt cp =
     (let tt = init_mmu_translation_table tt;
          cp = init_mmu_tex_remap cp;
          cp = cp\<lparr>cp_ttbr0 := ttb_ptr OR 9\<rparr>;
          cp = cp\<lparr>cp_ttbcr := 0x20\<rparr>;
          cr_on = push_bit 23 1; cr_off = push_bit 12 1;
          cp = cp\<lparr>cp_control := (cp_control cp OR cr_on) AND NOT cr_off\<rparr>
      in (tt, cp\<lparr>cp_control := cp_control cp OR 1\<rparr>))"

section \<open>Translation\<close>

text \<open>A privileged access to an address, for tables whose entries are faults, sections or supersections: with the MMU off
  the address itself; with it on, the entry of the megabyte gives the physical address, if the entry is valid and its
  domain (0 for a supersection) is not closed. A client domain is subject to the access permissions; the table here has only
  \<open>APX = 0\<close>, \<open>AP = 3\<close>, which allow everything. A second-level table is not followed.\<close>

definition domain_open :: "Cp15 \<Rightarrow> nat \<Rightarrow> u32 \<Rightarrow> bool" where
  "domain_open cp d entry \<longleftrightarrow> (let field = drop_bit (2 * d) (cp_dac cp) AND 3 in
     field = 3 \<or> field = 1 \<and> \<not> bit entry 15 \<and> drop_bit 10 entry AND 3 = 3)"

definition mmu_access :: "Cp15 \<Rightarrow> u32 list \<Rightarrow> u32 \<Rightarrow> u32 option" where
  "mmu_access cp tt va =
     (if \<not> bit (cp_control cp) 0 then Some va
      else let entry = tt ! unat (drop_bit 20 va) in
        if entry AND 3 \<noteq> 2 then None
        else if bit entry 18
          then if domain_open cp 0 entry then Some ((entry AND 0xff000000) OR (va AND 0x00ffffff)) else None
          else if domain_open cp (unat (drop_bit 5 entry AND 15)) entry then Some ((entry AND 0xfff00000) OR (va AND 0x000fffff)) else None)"

text \<open>With \<open>TEX\<close> remapping the memory type is chosen by \<open>TEX[0]\<close>, \<open>C\<close> and \<open>B\<close> of the entry: 4 is normal memory without caches, 1 a device.\<close>

definition remap_index :: "u32 \<Rightarrow> u32" where
  "remap_index entry = push_bit 2 (drop_bit 12 entry AND 1) OR push_bit 1 (drop_bit 3 entry AND 1) OR (drop_bit 2 entry AND 1)"

section \<open>The table that is set up\<close>

lemma length_fold_update: "length (fold (\<lambda>k tt. tt[a + k := f k]) ks tt) = length tt"
  by (induction ks arbitrary: tt) auto

lemma length_fold_set: "length (fold (\<lambda>k tt. tt[k := v]) ks tt) = length tt"
  by (induction ks arbitrary: tt) auto

lemma fold_update_nth:
  "a + n \<le> length tt \<Longrightarrow> fold (\<lambda>k tt. tt[a + k := f k]) [0..<n] tt ! i = (if a \<le> i \<and> i < a + n then f (i - a) else tt ! i)"
proof (induction n)
  case (Suc n)
  then show ?case
    by (auto simp: nth_list_update length_fold_update)
qed auto

lemma table_nth:
  assumes "length tt = 0x1000" and "i < 0x1000"
  shows "init_mmu_translation_table tt ! i = (if i < 512 then tt_supersection (of_nat (i div 16)) 1 0 0
    else if i < 528 then tt_supersection (of_nat (i div 16)) 0 0 1 else 0)"
proof -
  define t0 where "t0 = fold (\<lambda>ttei tt. tt[ttei := 0]) [0..<0x1000] tt"
  define t1 where "t1 = fold (\<lambda>si tt. tt[0x000 + si := tt_supersection (of_nat ((si + 0) div 16)) 1 0 0]) [0..<512] t0"
  have len: "length t0 = 0x1000" "length t1 = 0x1000"
    unfolding t0_def t1_def length_fold_update length_fold_set by (rule assms(1))+
  have "t0 ! i = 0"
    using fold_update_nth [of 0 "0x1000" tt "\<lambda>_. 0 :: u32" i] assms unfolding t0_def by simp
  then have "t1 ! i = (if i < 512 then tt_supersection (of_nat (i div 16)) 1 0 0 else 0)"
    using fold_update_nth [of 0 512 t0 "\<lambda>si. tt_supersection (of_nat ((si + 0) div 16)) 1 0 0" i] len(1) unfolding t1_def by simp
  then show ?thesis
    using fold_update_nth [of 512 16 t1 "\<lambda>si. tt_supersection (of_nat ((si + 512) div 16)) 0 0 1" i] len(2)
    unfolding init_mmu_translation_table_def Let_def t0_def [symmetric] t1_def [symmetric] by simp
qed

lemma supersection_low:
  "tt_supersection index 1 0 0 = push_bit 24 index OR 0x41c02" "tt_supersection index 0 0 1 = push_bit 24 index OR 0x40c06"
  by (simp_all add: tt_supersection_def Let_def or.commute or.left_commute or.assoc)

text \<open>The fields of an entry whose lower 24 bits are given.\<close>

lemma entry_fields:
  fixes index low :: u32
  assumes "take_bit 24 low = low"
  shows "(push_bit 24 index OR low) AND 3 = low AND 3" "bit (push_bit 24 index OR low) 18 = bit low 18"
    "(push_bit 24 index OR low) AND 0xff000000 = push_bit 24 index" "remap_index (push_bit 24 index OR low) = remap_index low"
proof -
  have b: "bit low n \<Longrightarrow> n < 24" for n
    by (metis assms bit_take_bit_iff)
  have three: "(3 :: u32) = mask 2" and upper: "(0xff000000 :: u32) = NOT (mask 24)"
    by (simp_all add: mask_eq_exp_minus_1)
  show "(push_bit 24 index OR low) AND 3 = low AND 3"
    unfolding three by (rule bit_word_eqI) (auto simp: bit_simps simp del: mask_numeral)
  show "bit (push_bit 24 index OR low) 18 = bit low 18"
    by (simp add: bit_simps)
  show "(push_bit 24 index OR low) AND 0xff000000 = push_bit 24 index"
    unfolding upper by (rule bit_word_eqI) (auto simp: bit_simps simp del: mask_numeral dest: b)
  have "drop_bit k (push_bit 24 index OR low) AND 1 = drop_bit k low AND 1" if "k < 24" for k
    using that by (intro bit_word_eqI) (auto simp: bit_simps)
  then show "remap_index (push_bit 24 index OR low) = remap_index low"
    by (simp add: remap_index_def)
qed

lemma same_address: "push_bit 24 (drop_bit 24 va) OR (va AND 0x00ffffff) = (va :: u32)"
proof -
  have m: "(0x00ffffff :: u32) = mask 24"
    by (simp add: mask_eq_exp_minus_1)
  show ?thesis
    unfolding m by (rule bit_word_eqI) (auto simp: bit_simps simp del: mask_numeral)
qed

lemma unat_u32: "unat (va :: u32) < 2 ^ 32"
  using unsigned_less [of va] by simp

lemma unat_drop: "unat (drop_bit n (va :: u32)) = unat va div 2 ^ n"
  unfolding unat_drop_bit_eq by (rule drop_bit_eq_div)

lemma index_of_address: "of_nat (unat (drop_bit 20 (va :: u32)) div 16) = drop_bit 24 va"
proof (rule word_unat_eq_iff [THEN iffD2])
  have "unat va div 2 ^ 20 div 16 = unat va div 2 ^ 24" "unat va div 2 ^ 24 < 2 ^ 32"
    using unat_u32 [of va] by (simp_all add: div_mult2_eq [symmetric] less_mult_imp_div_less)
  then show "unat (of_nat (unat (drop_bit 20 va) div 16) :: u32) = unat (drop_bit 24 va)"
    unfolding unat_drop unat_of_nat by simp
qed

lemma address_range: "unat (drop_bit 20 (va :: u32)) < 528 \<longleftrightarrow> va < 0x21000000" "unat (drop_bit 20 va) < 0x1000"
proof -
  show "unat (drop_bit 20 va) < 528 \<longleftrightarrow> va < 0x21000000"
    unfolding unat_drop word_less_nat_alt by (simp add: div_less_iff_less_mult)
  show "unat (drop_bit 20 va) < 0x1000"
    unfolding unat_drop using unat_u32 [of va] by (simp add: div_less_iff_less_mult)
qed

section \<open>Identity\<close>

lemma init_control:
  "bit (cp_control (snd (init_mmu ttb_ptr tt cp))) n = (if n \<in> {0, 23, 28} then True else if n = 12 then False else bit (cp_control cp) n)"
  using bit_imp_le_length [of "cp_control cp" n]
  by (auto simp: init_mmu_def init_mmu_tex_remap_def Let_def bit_simps simp del: push_bit_of_1)

text \<open>
  C22. The MMU is set up as an identity: whatever table and registers held before, afterwards the MMU is on with remapped
  memory types, every access below \<open>0x21000000\<close> reaches the same physical address and every access above faults; the entries
  of a supersection are repeated sixteen times as the architecture demands; memory is of the normal uncached type and
  the peripherals of the device type. Switching the MMU off leaves every mapped address where it is.\<close>

theorem mmu_is_identity:
  assumes "length tt = 0x1000" and "init_mmu ttb_ptr tt cp = (tt', cp')"
  shows "bit (cp_control cp') 0 \<and> bit (cp_control cp') 28 \<and> cp_ttbr0 cp' = ttb_ptr OR 9
    \<and> (\<forall>va. mmu_access cp' tt' va = (if va < 0x21000000 then Some va else None))
    \<and> (\<forall>i < 0x1000. \<forall>j < 0x1000. i div 16 = j div 16 \<longrightarrow> tt' ! i = tt' ! j)
    \<and> (\<forall>i < 0x210. remap_index (tt' ! i) = (if i < 0x200 then 4 else 1))
    \<and> (\<forall>va < 0x21000000. mmu_access (disable_mmu cp') tt' va = mmu_access cp' tt' va)"
proof (intro conjI allI impI)
  have tt': "tt' = init_mmu_translation_table tt" and cp': "cp' = snd (init_mmu ttb_ptr tt cp)"
    using assms(2) by (auto simp: init_mmu_def Let_def)
  show on: "bit (cp_control cp') 0" and "bit (cp_control cp') 28"
    by (simp_all add: cp' init_control)
  show "cp_ttbr0 cp' = ttb_ptr OR 9"
    by (simp add: cp' init_mmu_def init_mmu_tex_remap_def Let_def)
  have dac: "cp_dac cp' = 7"
    by (simp add: cp' init_mmu_def init_mmu_tex_remap_def Let_def)
  show acc: "mmu_access cp' tt' va = (if va < 0x21000000 then Some va else None)" for va
  proof -
    define i where "i = unat (drop_bit 20 va)"
    have i: "i < 0x1000" "of_nat (i div 16) = drop_bit 24 va" "i < 528 \<longleftrightarrow> va < 0x21000000"
      unfolding i_def by (rule address_range index_of_address)+
    have "domain_open cp' 0 entry" for entry
      by (simp add: domain_open_def dac)
    then show ?thesis
      using on i table_nth [OF assms(1) i(1)] same_address [of va]
      unfolding mmu_access_def i_def [symmetric] tt' Let_def
      by (auto simp: supersection_low entry_fields simp del: of_nat_numeral)
  qed
  have below: "k < 512 \<longleftrightarrow> k div 16 < 32" "k < 528 \<longleftrightarrow> k div 16 < 33" for k :: nat
    by (simp_all add: div_less_iff_less_mult)
  show "tt' ! i = tt' ! j" if "i < 0x1000" "j < 0x1000" "i div 16 = j div 16" for i j
  proof -
    have "i < 512 \<longleftrightarrow> j < 512" "i < 528 \<longleftrightarrow> j < 528"
      using below [of i] below [of j] that(3) by simp_all
    with that show ?thesis
      by (simp add: tt' table_nth [OF assms(1)])
  qed
  show "remap_index (tt' ! i) = (if i < 0x200 then 4 else 1)" if "i < 0x210" for i
  proof -
    have "remap_index (0x41c02) = 4" "remap_index (0x40c06) = 1"
      by (simp_all add: remap_index_def)
    with that table_nth [OF assms(1), of i] show ?thesis
      by (auto simp: tt' supersection_low entry_fields)
  qed
  show "mmu_access (disable_mmu cp') tt' va = mmu_access cp' tt' va" if "va < 0x21000000" for va
    using that acc [of va] by (simp add: mmu_access_def disable_mmu_def bit_simps)
qed

theorem mmu_is_identity_witness:
  "\<exists>tt' cp'. init_mmu 0x4000 (replicate 0x1000 0xffffffff) \<lparr>cp_control = 0, cp_ttbr0 = 0, cp_ttbcr = 0, cp_dac = 0\<rparr> = (tt', cp')
    \<and> mmu_access cp' tt' 0x20201000 = Some 0x20201000 \<and> mmu_access cp' tt' 0x30000000 = None"
proof -
  have len: "length (replicate 0x1000 (0xffffffff :: u32)) = 0x1000"
    by simp
  obtain tt' cp' where eq: "init_mmu 0x4000 (replicate 0x1000 0xffffffff) \<lparr>cp_control = 0, cp_ttbr0 = 0, cp_ttbcr = 0, cp_dac = 0\<rparr> = (tt', cp')"
    by (rule prod.exhaust)
  from mmu_is_identity [OF len eq] have "\<forall>va. mmu_access cp' tt' va = (if va < 0x21000000 then Some va else None)"
    by blast
  with eq show ?thesis
    by (intro exI [of _ tt'] exI [of _ cp']) simp
qed

text \<open>Switching features sets and clears their bits and no others.\<close>

lemma cr_feature_bits:
  "bit (fst (cr_feature f b m)) n = (bit (fst m) n \<or> f = Some True \<and> bit b n)"
  "bit (snd (cr_feature f b m)) n = (bit (snd m) n \<or> f = Some False \<and> bit b n)"
  by (cases m; cases f; auto simp: bit_or_iff)+

lemma feature_bit: "bit CR_DCACHE_BIT n = (n = 2)" "bit CR_ICACHE_BIT n = (n = 12)" "bit CR_BRPDX_BIT n = (n = 11)"
  by (auto simp: CR_DCACHE_BIT_def CR_ICACHE_BIT_def CR_BRPDX_BIT_def bit_simps simp del: push_bit_of_1)

lemma features_bits:
  "bit (cp_control (set_mmu_enabled_features config cp)) n =
    (let pick = (\<lambda>c. case c of Some on \<Rightarrow> on | None \<Rightarrow> bit (cp_control cp) n) in
     if n = 2 then pick (cfg_dcache config) else if n = 12 then pick (cfg_icache config) else if n = 11 then pick (cfg_brpdx config)
     else bit (cp_control cp) n)"
proof -
  define m where "m = cr_feature (cfg_brpdx config) CR_BRPDX_BIT
    (cr_feature (cfg_icache config) CR_ICACHE_BIT (cr_feature (cfg_dcache config) CR_DCACHE_BIT (0, 0)))"
  have "cp_control (set_mmu_enabled_features config cp) = (cp_control cp OR fst m) AND NOT (snd m)"
    unfolding set_mmu_enabled_features_def m_def [symmetric] by (cases m) (simp add: bit.compl_zero)
  then have c: "bit (cp_control (set_mmu_enabled_features config cp)) n = ((bit (cp_control cp) n \<or> bit (fst m) n) \<and> \<not> bit (snd m) n)"
    using bit_imp_le_length [of "cp_control cp" n] bit_imp_le_length [of "fst m" n] by (simp add: bit_and_iff bit_or_iff bit_not_iff) blast
  have m: "bit (fst m) n = (n = 2 \<and> cfg_dcache config = Some True \<or> n = 12 \<and> cfg_icache config = Some True \<or> n = 11 \<and> cfg_brpdx config = Some True)"
    "bit (snd m) n = (n = 2 \<and> cfg_dcache config = Some False \<or> n = 12 \<and> cfg_icache config = Some False \<or> n = 11 \<and> cfg_brpdx config = Some False)"
    by (simp_all add: m_def cr_feature_bits feature_bit) blast+
  consider "n = 2" | "n = 12" | "n = 11" | "n \<notin> {2, 11, 12}"
    by blast
  then show ?thesis
    unfolding c m by cases (auto split: option.splits)
qed

end
