(* ===== verification/Interleave.thy ===== *)
theory Interleave
  imports Prelude
begin

text \<open>
  The interleaving checker of the kernel bismuth (\<open>device/bismuth/src/app/debug.rs\<close>): two functions run as threads in user mode; a
  breakpoint that matches every other address aborts after each instruction, and the abort handler saves the thread,
  asks a policy for the next one, and resumes that. The registers the processor has at an abort are a record; the
  hasher (crc32fast) and the policy are parameters, the policy of the kernel is \<open>LabPolicyAba\<close>.
\<close>

section \<open>Threads and scheduler\<close>

record 'h ThreadState =
  ts_registers :: "u32 list"
  ts_spsr :: u32
  did_stop :: bool
  ts_hash :: "'h option"

definition ts_empty :: "'h ThreadState" where
  "ts_empty = \<lparr>ts_registers = replicate 16 0, ts_spsr = 0, did_stop = False, ts_hash = None\<rparr>"

record ('h, 'p) InterleaveScheduler =
  sch_policy :: "'p option"
  current_thread :: nat
  sch_threads :: "'h ThreadState list"

definition scheduler_new :: "('h, 'p) InterleaveScheduler" where
  "scheduler_new = \<lparr>sch_policy = None, current_thread = 0, sch_threads = [ts_empty, ts_empty]\<rparr>"

text \<open>What the processor has when the abort handler is entered: \<open>r0\<close> to \<open>r12\<close> on the stack, \<open>r13\<close> and \<open>r14\<close> of user mode, the saved
  status, and the address of the next instruction.\<close>

record UserCtx =
  uc_regs :: "u32 list"
  uc_r13 :: u32
  uc_r14 :: u32
  uc_spsr :: u32
  uc_pc :: u32

text \<open>The part of \<open>run\<close> before the first thread is entered: \<open>a\<close> and \<open>b\<close> are the addresses of the functions, \<open>wrap\<close> that of
  \<open>_interleave_wrap\<close>, \<open>back\<close> the address after the call.\<close>

definition run_setup :: "'h \<Rightarrow> u32 \<Rightarrow> u32 \<Rightarrow> u32 \<Rightarrow> u32 \<Rightarrow> u32 \<Rightarrow> 'p \<Rightarrow> ('h, 'p) InterleaveScheduler" where
  "run_setup hasher_new a b wrap back cpsr p =
     (let as_user_mode = (cpsr AND NOT 0x1f) OR 0x10;
          regs0 = (replicate 16 0)[0 := a, 13 := 0x0f600000, 15 := wrap];
          regs0 = regs0[14 := back, 1 := cpsr];
          regs1 = (replicate 16 0)[0 := b, 13 := 0x0f700000, 15 := wrap];
          t = ts_empty\<lparr>ts_hash := Some hasher_new, ts_spsr := as_user_mode\<rparr>
      in \<lparr>sch_policy = Some p, current_thread = 0, sch_threads = [t\<lparr>ts_registers := regs0\<rparr>, t\<lparr>ts_registers := regs1\<rparr>]\<rparr>)"

text \<open>The registers that are loaded for a thread.\<close>

definition load_ctx :: "'h ThreadState \<Rightarrow> UserCtx" where
  "load_ctx t = \<lparr>uc_regs = take 13 (ts_registers t), uc_r13 = ts_registers t ! 13, uc_r14 = ts_registers t ! 14,
     uc_spsr = ts_spsr t, uc_pc = ts_registers t ! 15\<rparr>"

text \<open>One abort: \<open>next_thread\<close> and \<open>check\<close> are the policy, \<open>hash_upd\<close> the hasher, \<open>stop\<close> the address of \<open>_interleave_stop\<close>. The result has
  the value of the breakpoint register.\<close>

definition next_instruction :: "('p \<Rightarrow> nat \<Rightarrow> 'h ThreadState list \<Rightarrow> nat option \<times> 'p) \<Rightarrow> ('p \<Rightarrow> 'p) \<Rightarrow> ('h \<Rightarrow> u8 list \<Rightarrow> 'h) \<Rightarrow> u32
    \<Rightarrow> UserCtx \<Rightarrow> ('h, 'p) InterleaveScheduler \<Rightarrow> (('h, 'p) InterleaveScheduler \<times> UserCtx \<times> u32) option" where
  "next_instruction next_thread check hash_upd stop cpu self = do {
     t \<leftarrow> idx (sch_threads self) (current_thread self);
     regs \<leftarrow> copy_into (ts_registers t) 0 (uc_regs cpu);
     regs \<leftarrow> upd regs 13 (uc_r13 cpu);
     regs \<leftarrow> upd regs 14 (uc_r14 cpu);
     regs \<leftarrow> upd regs 15 (uc_pc cpu);
     let t = t\<lparr>ts_registers := regs, ts_spsr := uc_spsr cpu\<rparr>;
     h \<leftarrow> ts_hash t;
     let h = hash_upd h (concat (map u32_to_le_bytes (ts_registers t)));
     let h = hash_upd h (u32_to_le_bytes (ts_spsr t));
     let t = t\<lparr>ts_hash := Some h\<rparr>;
     let t = (if uc_pc cpu = stop then t\<lparr>did_stop := True\<rparr> else t);
     let ts = (sch_threads self)[current_thread self := t];
     p \<leftarrow> sch_policy self;
     let (r, p) = next_thread p (current_thread self) ts;
     let next = (case r of Some j \<Rightarrow> j | None \<Rightarrow> 0);
     let p = check p;
     t' \<leftarrow> idx ts next;
     let cpu = load_ctx t';
     Some (\<lparr>sch_policy = Some p, current_thread = next, sch_threads = ts\<rparr>, cpu, uc_pc cpu)
   }"

section \<open>The abort handler\<close>

datatype DebugEntryMethod = HaltDBGTAP | Breakpoint | Watchpoint | BKPTInstr | EDBGRQSignal | VectorCatch

definition entry_method_of :: "u32 \<Rightarrow> DebugEntryMethod option" where
  "entry_method_of v = (if v = 0 then Some HaltDBGTAP else if v = 1 then Some Breakpoint else if v = 2 then Some Watchpoint
     else if v = 3 then Some BKPTInstr else if v = 4 then Some EDBGRQSignal else if v = 5 then Some VectorCatch else None)"

definition debug_entry :: "u32 \<Rightarrow> u32" where
  "debug_entry dscr = drop_bit 2 dscr AND 15"

definition prefetch_abort :: "('p \<Rightarrow> nat \<Rightarrow> 'h ThreadState list \<Rightarrow> nat option \<times> 'p) \<Rightarrow> ('p \<Rightarrow> 'p) \<Rightarrow> ('h \<Rightarrow> u8 list \<Rightarrow> 'h) \<Rightarrow> u32
    \<Rightarrow> u32 \<Rightarrow> UserCtx \<Rightarrow> ('h, 'p) InterleaveScheduler \<Rightarrow> (('h, 'p) InterleaveScheduler \<times> UserCtx) option" where
  "prefetch_abort next_thread check hash_upd stop dscr cpu self = do {
     m \<leftarrow> entry_method_of (debug_entry dscr);
     if m = BKPTInstr then Some (self, cpu\<lparr>uc_pc := uc_pc cpu + 4\<rparr>)
     else do { (self, cpu, bvr) \<leftarrow> next_instruction next_thread check hash_upd stop cpu self; Some (self, cpu) }
   }"

section \<open>The policy of the kernel\<close>

record LabPolicyAba =
  instruction_counter :: nat
  instruction_count_param :: nat
  is_ok :: bool

definition aba_new :: "nat \<Rightarrow> LabPolicyAba" where
  "aba_new n = \<lparr>instruction_counter = 0, instruction_count_param = n, is_ok = True\<rparr>"

definition aba_next_thread :: "LabPolicyAba \<Rightarrow> nat \<Rightarrow> 'h ThreadState list \<Rightarrow> nat option \<times> LabPolicyAba" where
  "aba_next_thread self last_thread threads =
     (let done0 = did_stop (threads ! 0); done1 = did_stop (threads ! 1);
          r = (if instruction_counter self < instruction_count_param self \<and> \<not> done0 then Some 0
            else if \<not> done1 then Some 1
            else if \<not> done0 then Some 0
            else None)
      in (r, self\<lparr>instruction_counter := instruction_counter self + 1\<rparr>))"

text \<open>\<open>LOCK\<close> is the static variable that the threads under test change.\<close>

definition aba_check :: "nat \<Rightarrow> LabPolicyAba \<Rightarrow> LabPolicyAba" where
  "aba_check LOCK self = (if LOCK > 1 then self\<lparr>is_ok := False\<rparr> else self)"

definition aba_result :: "LabPolicyAba \<Rightarrow> bool" where
  "aba_result self = is_ok self"

section \<open>Switching threads\<close>

definition sched_wf :: "('h, 'p) InterleaveScheduler \<Rightarrow> bool" where
  "sched_wf self \<longleftrightarrow> length (sch_threads self) = 2 \<and> current_thread self < 2 \<and> sch_policy self \<noteq> None
    \<and> (\<forall>t \<in> set (sch_threads self). length (ts_registers t) = 16 \<and> ts_hash t \<noteq> None)"

text \<open>The registers of each thread, wherever they are: those of the current one in the processor, the others saved.\<close>

definition ctx_of :: "('h, 'p) InterleaveScheduler \<Rightarrow> UserCtx \<Rightarrow> nat \<Rightarrow> UserCtx" where
  "ctx_of self cpu j = (if j = current_thread self then cpu else load_ctx (sch_threads self ! j))"

definition stopped :: "('h, 'p) InterleaveScheduler \<Rightarrow> nat \<Rightarrow> bool" where
  "stopped self j \<longleftrightarrow> did_stop (sch_threads self ! j)"

lemma saved_registers:
  assumes "length regs = 16" and "length xs = 13"
  shows "(blit regs 0 xs)[13 := a, 14 := b, 15 := c] = xs @ [a, b, c]"
proof (rule nth_equalityI)
  show "length ((blit regs 0 xs)[13 := a, 14 := b, 15 := c]) = length (xs @ [a, b, c])"
    using assms by (simp add: length_blit)
  fix i assume "i < length ((blit regs 0 xs)[13 := a, 14 := b, 15 := c])"
  then have i: "i < 16"
    using assms by (simp add: length_blit)
  then consider "i < 13" | "i = 13" | "i = 14" | "i = 15"
    by linarith
  then show "(blit regs 0 xs)[13 := a, 14 := b, 15 := c] ! i = (xs @ [a, b, c]) ! i"
    using assms by cases (simp_all add: blit_def nth_append)
qed

locale policy =
  fixes next_thread :: "'p \<Rightarrow> nat \<Rightarrow> 'h ThreadState list \<Rightarrow> nat option \<times> 'p"
    and check :: "'p \<Rightarrow> 'p"
  assumes next_thread_exists: "length ts = 2 \<Longrightarrow> fst (next_thread p prev ts) = Some j \<Longrightarrow> j < 2"
begin

lemma next_instruction_ok:
  assumes wf: "sched_wf self" and cpu: "length (uc_regs cpu) = 13"
  obtains self' cpu' where "next_instruction next_thread check hash_upd stop cpu self = Some (self', cpu', uc_pc cpu')" "sched_wf self'"
    "length (uc_regs cpu') = 13" "\<forall>j < 2. ctx_of self' cpu' j = ctx_of self cpu j"
    "\<forall>j < 2. stopped self' j = (stopped self j \<or> j = current_thread self \<and> uc_pc cpu = stop)"
    "\<exists>p ts. sch_policy self = Some p \<and> length ts = 2 \<and> (\<forall>j < 2. did_stop (ts ! j) = stopped self' j)
      \<and> sch_policy self' = Some (check (snd (next_thread p (current_thread self) ts)))
      \<and> current_thread self' = (case fst (next_thread p (current_thread self) ts) of Some j \<Rightarrow> j | None \<Rightarrow> 0)"
proof -
  define c where "c = current_thread self"
  define t where "t = sch_threads self ! c"
  obtain p where p: "sch_policy self = Some p"
    using wf by (auto simp: sched_wf_def)
  have c: "c < 2" and len: "length (sch_threads self) = 2"
    using wf by (auto simp: sched_wf_def c_def)
  have "t \<in> set (sch_threads self)"
    using c len by (simp add: t_def)
  then obtain h where regs: "length (ts_registers t) = 16" and h: "ts_hash t = Some h"
    using wf by (auto simp: sched_wf_def)
  define regs where "regs = uc_regs cpu @ [uc_r13 cpu, uc_r14 cpu, uc_pc cpu]"
  define h' where "h' = hash_upd (hash_upd h (concat (map u32_to_le_bytes regs))) (u32_to_le_bytes (uc_spsr cpu))"
  define t' where "t' = \<lparr>ts_registers = regs, ts_spsr = uc_spsr cpu, did_stop = (did_stop t \<or> uc_pc cpu = stop), ts_hash = Some h'\<rparr>"
  define ts where "ts = (sch_threads self)[c := t']"
  define r where "r = next_thread p c ts"
  define j where "j = (case fst r of Some j \<Rightarrow> j | None \<Rightarrow> 0)"
  define self' where "self' = \<lparr>sch_policy = Some (check (snd r)), current_thread = j, sch_threads = ts\<rparr>"
  have ts: "length ts = 2" "ts ! c = t'"
    using c len by (simp_all add: ts_def)
  have j: "j < 2"
    using next_thread_exists [OF ts(1)] by (auto simp: j_def r_def split: option.splits)
  have load: "load_ctx t' = cpu"
    using cpu by (simp add: load_ctx_def t'_def regs_def nth_append)
  have run: "next_instruction next_thread check hash_upd stop cpu self = Some (self', load_ctx (ts ! j), uc_pc (load_ctx (ts ! j)))"
  proof -
    have "copy_into (ts_registers t) 0 (uc_regs cpu) = Some (blit (ts_registers t) 0 (uc_regs cpu))"
      using regs cpu by simp
    moreover have "length (blit (ts_registers t) 0 (uc_regs cpu)) = 16"
      using regs cpu by (simp add: length_blit)
    moreover note saved_registers [OF regs cpu, of "uc_r13 cpu" "uc_r14 cpu" "uc_pc cpu"]
    moreover have "idx (sch_threads self) c = Some t" "idx ts j = Some (ts ! j)"
      using c len ts(1) j by (simp_all add: t_def)
    moreover have "(if uc_pc cpu = stop then t\<lparr>ts_registers := regs, ts_spsr := uc_spsr cpu, ts_hash := Some h', did_stop := True\<rparr>
        else t\<lparr>ts_registers := regs, ts_spsr := uc_spsr cpu, ts_hash := Some h'\<rparr>) = t'"
      by (simp add: t'_def)
    ultimately show ?thesis
      unfolding next_instruction_def c_def [symmetric] using h p
      by (simp add: Let_def regs_def [symmetric] h'_def [symmetric] ts_def [symmetric] r_def [symmetric] j_def [symmetric] self'_def [symmetric] case_prod_beta
        cong: if_cong)
  qed
  show ?thesis
  proof (rule that [OF run])
    show "sched_wf self'"
      using wf j ts(1) c len cpu by (auto simp: sched_wf_def self'_def ts_def t'_def regs_def set_update_subset_insert [THEN subsetD] dest!: set_update_subset_insert [THEN subsetD])
    have "ts ! j \<in> set ts"
      using j ts(1) by simp
    with \<open>sched_wf self'\<close> show "length (uc_regs (load_ctx (ts ! j))) = 13"
      by (simp add: sched_wf_def self'_def load_ctx_def)
    show "\<forall>i < 2. ctx_of self' (load_ctx (ts ! j)) i = ctx_of self cpu i"
      using load ts(2) by (auto simp: ctx_of_def self'_def c_def [symmetric] ts_def)
    show "\<forall>i < 2. stopped self' i = (stopped self i \<or> i = current_thread self \<and> uc_pc cpu = stop)"
      using len c by (auto simp: stopped_def self'_def ts_def t'_def t_def c_def nth_list_update)
    show "\<exists>p ts. sch_policy self = Some p \<and> length ts = 2 \<and> (\<forall>j < 2. did_stop (ts ! j) = stopped self' j)
      \<and> sch_policy self' = Some (check (snd (next_thread p (current_thread self) ts)))
      \<and> current_thread self' = (case fst (next_thread p (current_thread self) ts) of Some j \<Rightarrow> j | None \<Rightarrow> 0)"
      using p ts(1) by (intro exI [of _ p] exI [of _ ts]) (simp add: stopped_def self'_def r_def j_def c_def)
  qed
qed

end

interpretation aba: policy aba_next_thread "aba_check LOCK" for LOCK
  by unfold_locales (auto simp: aba_next_thread_def Let_def split: if_splits)

section \<open>Checking one schedule\<close>

text \<open>A run: at each abort the processor has some registers of the current thread, and \<open>LOCK\<close> some value. The trace is the
  thread that each abort resumes.\<close>

fun aba_run :: "('h \<Rightarrow> u8 list \<Rightarrow> 'h) \<Rightarrow> u32 \<Rightarrow> (UserCtx \<times> nat) list \<Rightarrow> ('h, LabPolicyAba) InterleaveScheduler
    \<Rightarrow> (('h, LabPolicyAba) InterleaveScheduler \<times> nat list) option" where
  "aba_run hash_upd stop [] self = Some (self, [])"
| "aba_run hash_upd stop ((cpu, LOCK) # aborts) self = do {
     (self, cpu, bvr) \<leftarrow> next_instruction aba_next_thread (aba_check LOCK) hash_upd stop cpu self;
     (self', trace) \<leftarrow> aba_run hash_upd stop aborts self;
     Some (self', current_thread self # trace)
   }"

definition aba_choice :: "LabPolicyAba \<Rightarrow> bool \<Rightarrow> bool \<Rightarrow> nat" where
  "aba_choice p done0 done1 = (if instruction_counter p < instruction_count_param p \<and> \<not> done0 then 0 else if \<not> done1 then 1 else 0)"

lemma aba_step:
  fixes self :: "('h, LabPolicyAba) InterleaveScheduler"
  assumes "sched_wf self" and "length (uc_regs cpu) = 13" and "sch_policy self = Some p"
  obtains self' cpu' where "next_instruction aba_next_thread (aba_check LOCK) hash_upd stop cpu self = Some (self', cpu', uc_pc cpu')"
    "sched_wf self'" "sch_policy self' = Some (aba_check LOCK (p\<lparr>instruction_counter := instruction_counter p + 1\<rparr>))"
    "current_thread self' = aba_choice p (stopped self' 0) (stopped self' 1)" "\<forall>j < 2. stopped self j \<longrightarrow> stopped self' j"
proof -
  obtain self' cpu' where ni0: "next_instruction aba_next_thread (aba_check LOCK) hash_upd stop cpu self = Some (self', cpu', uc_pc cpu')" "sched_wf self'"
    "length (uc_regs cpu') = 13" "\<forall>j < 2. ctx_of self' cpu' j = ctx_of self cpu j"
    "\<forall>j < 2. stopped self' j = (stopped self j \<or> j = current_thread self \<and> uc_pc cpu = stop)"
    "\<exists>p (ts :: 'h ThreadState list). sch_policy self = Some p \<and> length ts = 2 \<and> (\<forall>j < 2. did_stop (ts ! j) = stopped self' j)
      \<and> sch_policy self' = Some (aba_check LOCK (snd (aba_next_thread p (current_thread self) ts)))
      \<and> current_thread self' = (case fst (aba_next_thread p (current_thread self) ts) of Some j \<Rightarrow> j | None \<Rightarrow> 0)"
    by (rule aba.next_instruction_ok [where LOCK = LOCK and hash_upd = hash_upd and stop = stop, OF assms(1,2)])
  note ni = ni0(1,2,5,6)
  obtain ts :: "'h ThreadState list" where ts: "\<forall>j < 2. did_stop (ts ! j) = stopped self' j"
      "sch_policy self' = Some (aba_check LOCK (snd (aba_next_thread p (current_thread self) ts)))"
      "current_thread self' = (case fst (aba_next_thread p (current_thread self) ts) of Some j \<Rightarrow> j | None \<Rightarrow> 0)"
    using ni(4) assms(3) by auto
  have d: "did_stop (ts ! 0) = stopped self' 0" "did_stop (ts ! Suc 0) = stopped self' 1"
    using ts(1) by auto
  have "current_thread self' = aba_choice p (stopped self' 0) (stopped self' 1)"
    unfolding ts(3) by (simp add: aba_next_thread_def aba_choice_def Let_def d)
  moreover have "sch_policy self' = Some (aba_check LOCK (p\<lparr>instruction_counter := instruction_counter p + 1\<rparr>))"
    unfolding ts(2) by (simp add: aba_next_thread_def Let_def)
  ultimately show ?thesis
    using that ni(1-3) by blast
qed

lemma aba_check_fields [simp]:
  "instruction_counter (aba_check LOCK p) = instruction_counter p" "instruction_count_param (aba_check LOCK p) = instruction_count_param p"
  "is_ok (aba_check LOCK p) = (is_ok p \<and> LOCK \<le> 1)"
  by (simp_all add: aba_check_def)

text \<open>The shape of a trace: \<open>a\<close> times thread 0, at most as often as the parameter allows, \<open>b\<close> times thread 1, \<open>c\<close> times thread 0.\<close>

definition aba_shape :: "nat \<Rightarrow> ('h, 'p) InterleaveScheduler \<Rightarrow> nat list \<Rightarrow> bool" where
  "aba_shape left self' trace \<longleftrightarrow> (\<exists>a b c. trace = replicate a 0 @ replicate b 1 @ replicate c 0 \<and> a \<le> left
    \<and> (b + c > 0 \<longrightarrow> a = left \<or> stopped self' 0) \<and> (c > 0 \<longrightarrow> stopped self' 1))"

lemma aba_shape_zero: "stopped self' 1 \<Longrightarrow> left = 0 \<or> stopped self' 0 \<Longrightarrow> aba_shape left self' (replicate c 0)"
  unfolding aba_shape_def by (intro exI [of _ 0] exI [of _ c]) auto

lemma aba_shape_one:
  assumes "aba_shape 0 self' trace" and "left = 0 \<or> stopped self' 0"
  shows "aba_shape left self' (1 # trace)"
proof -
  obtain b c where "trace = replicate b 1 @ replicate c 0" "c > 0 \<longrightarrow> stopped self' 1"
    using assms(1) by (auto simp: aba_shape_def)
  then show ?thesis
    unfolding aba_shape_def using assms(2) by (intro exI [of _ 0] exI [of _ "Suc b"] exI [of _ c]) auto
qed

lemma aba_shape_more:
  assumes "aba_shape left self' trace"
  shows "aba_shape (Suc left) self' (0 # trace)"
proof -
  obtain a b c where "trace = replicate a 0 @ replicate b 1 @ replicate c 0" "a \<le> left" "b + c > 0 \<longrightarrow> a = left \<or> stopped self' 0"
      "c > 0 \<longrightarrow> stopped self' 1"
    using assms by (auto simp: aba_shape_def)
  then show ?thesis
    unfolding aba_shape_def by (intro exI [of _ "Suc a"] exI [of _ b] exI [of _ c]) auto
qed

definition aba_left :: "('h, 'p) InterleaveScheduler \<Rightarrow> LabPolicyAba \<Rightarrow> nat" where
  "aba_left self p = (if stopped self 0 then 0 else instruction_count_param p - instruction_counter p)"

lemma aba_run_ok:
  assumes "sched_wf self" and "sch_policy self = Some p" and "\<forall>(cpu, LOCK) \<in> set aborts. length (uc_regs cpu) = 13"
  shows "\<exists>self' trace p'. aba_run hash_upd stop aborts self = Some (self', trace) \<and> length trace = length aborts
    \<and> sch_policy self' = Some p' \<and> is_ok p' = (is_ok p \<and> (\<forall>(cpu, LOCK) \<in> set aborts. LOCK \<le> 1))
    \<and> (\<forall>j < 2. stopped self j \<longrightarrow> stopped self' j) \<and> aba_shape (aba_left self p) self' trace
    \<and> (stopped self 1 \<longrightarrow> trace = replicate (length aborts) 0)"
  using assms
proof (induction aborts arbitrary: self p)
  case Nil
  then show ?case
    by (auto simp: aba_shape_def)
next
  case (Cons ab aborts)
  obtain cpu LOCK where ab: "ab = (cpu, LOCK)"
    by (cases ab)
  define p1 where "p1 = aba_check LOCK (p\<lparr>instruction_counter := instruction_counter p + 1\<rparr>)"
  have len: "length (uc_regs cpu) = 13"
    using Cons.prems(3) ab by auto
  obtain s1 cpu1 where s1: "next_instruction aba_next_thread (aba_check LOCK) hash_upd stop cpu self = Some (s1, cpu1, uc_pc cpu1)"
    "sched_wf s1" "sch_policy s1 = Some p1" "current_thread s1 = aba_choice p (stopped s1 0) (stopped s1 1)" "\<forall>j < 2. stopped self j \<longrightarrow> stopped s1 j"
    unfolding p1_def by (rule aba_step [where LOCK = LOCK and hash_upd = hash_upd and stop = stop, OF Cons.prems(1) len Cons.prems(2)])
  have "\<forall>(cpu, LOCK) \<in> set aborts. length (uc_regs cpu) = 13"
    using Cons.prems(3) by simp
  from Cons.IH [OF s1(2,3) this] obtain self' trace p' where IH: "aba_run hash_upd stop aborts s1 = Some (self', trace)" "length trace = length aborts" "sch_policy self' = Some p'"
      "is_ok p' = (is_ok p1 \<and> (\<forall>(cpu, LOCK) \<in> set aborts. LOCK \<le> 1))" "\<forall>j < 2. stopped s1 j \<longrightarrow> stopped self' j"
      "aba_shape (aba_left s1 p1) self' trace" "stopped s1 1 \<longrightarrow> trace = replicate (length aborts) 0"
    by (elim exE conjE) (rule that)
  have mono: "stopped self 0 \<Longrightarrow> stopped s1 0" "stopped self 1 \<Longrightarrow> stopped s1 1" "stopped s1 0 \<Longrightarrow> stopped self' 0" "stopped s1 1 \<Longrightarrow> stopped self' 1"
    using s1(5) IH(5) by auto
  have zero: "trace = replicate (length aborts) 0" if "stopped self 1"
    using that mono(2) IH(7) by blast
  have "aba_shape (aba_left self p) self' (current_thread s1 # trace)"
  proof (cases "instruction_counter p < instruction_count_param p \<and> \<not> stopped s1 0")
    case True
    then have "aba_left self p = Suc (aba_left s1 p1)" "current_thread s1 = 0"
      using mono(1) s1(4) by (auto simp: aba_left_def p1_def aba_choice_def)
    then show ?thesis
      using aba_shape_more [OF IH(6)] by simp
  next
    case False
    then have left: "aba_left self p = 0 \<or> stopped self' 0" "aba_left s1 p1 = 0"
      using mono(3) by (auto simp: aba_left_def p1_def)
    show ?thesis
    proof (cases "stopped s1 1")
      case True
      then have "current_thread s1 # trace = replicate (Suc (length aborts)) 0"
        using IH(7) s1(4) by (simp add: aba_choice_def)
      then show ?thesis
        using aba_shape_zero [OF mono(4) [OF True] left(1)] by metis
    next
      case f: False
      then have "current_thread s1 = 1"
        using False s1(4) by (auto simp: aba_choice_def)
      then show ?thesis
        using aba_shape_one [OF _ left(1), of trace] IH(6) left(2) by simp
    qed
  qed
  moreover have "current_thread s1 # trace = replicate (length (ab # aborts)) 0" if "stopped self 1"
    using zero [OF that] mono(2) [OF that] s1(4) by (simp add: aba_choice_def)
  moreover have "aba_run hash_upd stop (ab # aborts) self = Some (self', current_thread s1 # trace)"
    using s1(1) IH(1) by (simp add: ab)
  moreover have "is_ok p' = (is_ok p \<and> (\<forall>(cpu, LOCK) \<in> set (ab # aborts). LOCK \<le> 1))"
    using IH(4) by (auto simp: ab p1_def)
  moreover have "\<forall>j < 2. stopped self j \<longrightarrow> stopped self' j"
    using s1(5) IH(5) by blast
  ultimately show ?case
    using IH(2,3) by (intro exI [of _ self'] exI [of _ "current_thread s1 # trace"] exI [of _ p']) auto
qed

lemma run_setup_wf: "sched_wf (run_setup hasher_new a b wrap back cpsr p)" "sch_policy (run_setup hasher_new a b wrap back cpsr p) = Some p"
    "\<not> stopped (run_setup hasher_new a b wrap back cpsr p) 0"
  by (auto simp: run_setup_def ts_empty_def sched_wf_def stopped_def Let_def less_2_cases_iff)

text \<open>
  C23. The checker runs the schedule it is asked for: whatever the threads do, after the set-up every abort is handled
  without a panic, and with the parameter \<open>n\<close> the threads that are resumed are thread 0 for \<open>n\<close> instructions, or fewer if it
  stops, then only thread 1 until it stops, then only thread 0; and the result is good exactly when the lock was held
  at most once at every abort.\<close>

theorem checker_runs_aba:
  assumes "\<forall>(cpu, LOCK) \<in> set aborts. length (uc_regs cpu) = 13"
  shows "\<exists>self' trace p' a' b' c. aba_run hash_upd stop aborts (run_setup hasher_new a b wrap back cpsr (aba_new n)) = Some (self', trace)
    \<and> trace = replicate a' 0 @ replicate b' 1 @ replicate c 0 \<and> length trace = length aborts \<and> a' \<le> n
    \<and> (b' + c > 0 \<longrightarrow> a' = n \<or> stopped self' 0) \<and> (c > 0 \<longrightarrow> stopped self' 1)
    \<and> sch_policy self' = Some p' \<and> aba_result p' = (\<forall>(cpu, LOCK) \<in> set aborts. LOCK \<le> 1)"
proof -
  let ?s = "run_setup hasher_new a b wrap back cpsr (aba_new n)"
  from aba_run_ok [where hash_upd = hash_upd and stop = stop and self = ?s and p = "aba_new n", OF run_setup_wf(1,2) assms] obtain self' trace p' where run: "aba_run hash_upd stop aborts ?s = Some (self', trace)" "length trace = length aborts" "sch_policy self' = Some p'"
      "is_ok p' = (is_ok (aba_new n) \<and> (\<forall>(cpu, LOCK) \<in> set aborts. LOCK \<le> 1))" and shape: "aba_shape (aba_left ?s (aba_new n)) self' trace"
    by (elim exE conjE) (rule that)
  have "aba_left ?s (aba_new n) = n"
    by (simp add: aba_left_def aba_new_def run_setup_wf(3))
  with shape obtain a' b' c where "trace = replicate a' 0 @ replicate b' 1 @ replicate c 0" "a' \<le> n"
      "b' + c > 0 \<longrightarrow> a' = n \<or> stopped self' 0" "c > 0 \<longrightarrow> stopped self' 1"
    by (auto simp: aba_shape_def)
  moreover have "aba_result p' = (\<forall>(cpu, LOCK) \<in> set aborts. LOCK \<le> 1)"
    using run(4) by (simp add: aba_result_def aba_new_def)
  ultimately show ?thesis
    using run(1-3) by (intro exI conjI)
qed

theorem checker_runs_aba_witness:
  "\<exists>self' trace. aba_run (\<lambda>h _. h) 0x100 (replicate 3 (\<lparr>uc_regs = replicate 13 0, uc_r13 = 0, uc_r14 = 0, uc_spsr = 0x10, uc_pc = 0x80\<rparr>, 0))
    (run_setup () 0x80 0x90 0x70 0x60 0x1d3 (aba_new 1)) = Some (self', trace) \<and> length trace = 3"
proof -
  let ?aborts = "replicate 3 (\<lparr>uc_regs = replicate 13 0, uc_r13 = 0, uc_r14 = 0, uc_spsr = 0x10, uc_pc = 0x80\<rparr>, 0 :: nat)"
  have "\<forall>(cpu, LOCK) \<in> set ?aborts. length (uc_regs cpu) = 13"
    by simp
  from checker_runs_aba [OF this, of "\<lambda>h _. h" "0x100" "()" "0x80" "0x90" "0x70" "0x60" "0x1d3" 1] show ?thesis
    by auto
qed

text \<open>An abort is invisible to both threads: their registers, wherever they are kept, do not change, and the breakpoint is set
  to the address at which the resumed thread continues.\<close>

lemma abort_is_invisible:
  assumes "sched_wf self" and "length (uc_regs cpu) = 13"
  shows "\<exists>self' cpu'. next_instruction aba_next_thread (aba_check LOCK) hash_upd stop cpu self = Some (self', cpu', uc_pc cpu')
    \<and> cpu' = ctx_of self cpu (current_thread self') \<and> (\<forall>j < 2. ctx_of self' cpu' j = ctx_of self cpu j)"
proof -
  obtain self' cpu' where "next_instruction aba_next_thread (aba_check LOCK) hash_upd stop cpu self = Some (self', cpu', uc_pc cpu')" "sched_wf self'"
      "\<forall>j < 2. ctx_of self' cpu' j = ctx_of self cpu j"
    by (rule aba.next_instruction_ok [where LOCK = LOCK and hash_upd = hash_upd and stop = stop, OF assms])
  moreover from this have "cpu' = ctx_of self cpu (current_thread self')"
    by (auto simp: sched_wf_def ctx_of_def [of self' cpu'] dest!: spec [of _ "current_thread self'"])
  ultimately show ?thesis
    by blast
qed

end
