(* ===== verification/Spec2Isabelle.thy ===== *)
theory Spec2Isabelle
  imports Exchange Host_Suboot Ppp_Run_Correct Ticket_Lock Once_Lock Pmm_Alloc Vectors Mmu Interleave
begin

text \<open>
  A verification of okeanos: a boot loader for the Raspberry Pi (\<open>device/okboot\<close>), the program on
  the host that sends it a kernel over a serial line (\<open>host/okdude\<close>), what the two share
  (\<open>common/okboot-common\<close>), the network stack of the kernel \<open>device/antimony\<close>, the memory manager, locks and
  timing of the hardware library \<open>device/quartz\<close>, and the interrupts, exceptions and arguments of the kernel
  \<open>device/bismuth\<close>.

  \<^bold>\<open>The program.\<close> The device waits for bytes on a UART. It speaks an old protocol (SU-BOOT: command
  words, an unprotected transfer) and a new one: frames with a preamble, a length and a checksum,
  whose body is encoded by COBS so that one byte value can only end a frame. In the new protocol a
  handshake chooses a version and a faster rate; then the device asks for metadata, for the chunks
  of a compressed image one by one, and for the permission to boot; it decompresses the chunks as
  they come, puts the image into memory, parts of it behind itself where it would overwrite the
  boot loader, and jumps to a small stub that moves these parts to their place and enters the image.
  One image is antimony, which speaks PPP over the same UART: an interrupt handler unstuffs bytes
  into a ring of frame buffers, a task checks the frames and negotiates LCP and IPCP, then passes IP
  packets to a TCP/IP library.

  \<^bold>\<open>Conventions.\<close> Machine integers are words of their width; \<open>usize\<close> of the device, where it indexes
  buffers, is \<open>nat\<close> with the wrap-around of the one wrapping subtraction written out. Other arithmetic
  that overflows panics, as in a build with overflow checks, or wraps where the theory says so. \<open>None\<close> is a
  panic of the device or of a function of the host, or a loop that does not end; a function of the
  host that does not return to its caller has a result of type \<open>run\<close>. \<open>Result\<close> is a sum with the
  error on the left. Timer readings, UART status and what reads return are arguments. The
  serialization of the messages (postcard), the checksum (crc32fast, with CRC-32 as an instance in
  \<open>Crc\<close>), the decompressor and the compressor (miniz\_oxide), the ELF parser and the formatting of
  texts are parameters; what is assumed of them is a named predicate in the statements
  (\<open>crc_stream\<close>, \<open>inflates\<close>, \<open>ser_ok\<close>, \<open>agree\<close>), with concrete instances in the witnesses.

  \<^bold>\<open>Shared code.\<close>
  \<^item> \<open>Prelude\<close>: slices, byte orders, words. \<open>Crc\<close>: the interface of a streaming checksum and CRC-32.
  \<^item> \<open>Message\<close> (\<open>lib.rs\<close>, \<open>host.rs\<close>, \<open>device.rs\<close>): message types, codes, the list of versions.
  \<^item> \<open>Cobs\<close> (\<open>frame/encode.rs\<close>, \<open>frame/decode.rs\<close>): encoder and decoder; they are inverse, the
    delimiter occurs once, the overhead is bounded.
  \<^item> \<open>Frame\<close>, \<open>Frame_Correct\<close> (\<open>frame/decode.rs\<close>): the receive state machine; it reads back what the
    host's builder writes, reports only intact frames and never panics.

  \<^bold>\<open>Device.\<close>
  \<^item> \<open>Txbuf\<close>, \<open>Frame_Sink\<close> (\<open>buf.rs\<close>): the transmit ring buffer refines a bounded queue, checkpoints
    roll it back; messages and texts are queued whole or not at all.
  \<^item> \<open>Machine\<close> (\<open>legacy/uart1.rs\<close>, \<open>legacy/fmt.rs\<close>): memory, blocking output, the format buffer.
  \<^item> \<open>Timing\<close> (\<open>timeouts.rs\<close>, quartz \<open>timing.rs\<close>): timeouts as line times.
  \<^item> \<open>Relocation\<close> (\<open>stub.rs\<close>, \<open>legacy/staging.rs\<close>, \<open>extern/stub.S\<close>): layout, writes, verification
    and the copy loops of the stub; the image ends up at its address.
  \<^item> \<open>Loader\<close>, \<open>V2_Device\<close>, \<open>V2_Correct\<close> (\<open>protocol/v2.rs\<close>): loaders, every handler, the inflate loop,
    the heartbeat; chunks in any order are counted and stored, a complete download boots.
  \<^item> \<open>Legacy\<close> (\<open>legacy.rs\<close>): the old download, from the first word to the jump.
  \<^item> \<open>Device_Run\<close>, \<open>Device_Run_Correct\<close>, \<open>Session\<close> (\<open>protocol.rs\<close>, \<open>protocol/handshake.rs\<close>): one
    iteration of the main loop as a step function, its invariant, and whole sessions of bytes.

  \<^bold>\<open>Host.\<close>
  \<^item> \<open>Host_Upload\<close> (\<open>upload.rs\<close>, \<open>tty.rs\<close>): the line, the handshake, the choice of the protocol.
  \<^item> \<open>Host_V2\<close>, \<open>Host_V2_Correct\<close> (\<open>v2.rs\<close>): the decoder, the answers, and the two threads as a step
    relation over their channels, with an invariant of all interleavings.
  \<^item> \<open>Args\<close> (\<open>v2.rs\<close>, bismuth \<open>lib.rs\<close>): program arguments, written by the host, read by the kernel.
  \<^item> \<open>Host_Suboot\<close> (\<open>suboot.rs\<close>): the old upload, and its conversation with \<open>Legacy\<close>.
  \<^item> \<open>Exchange\<close>: host and device together, from the metadata to the running image.

  \<^bold>\<open>Network stack of antimony.\<close>
  \<^item> \<open>Ppp_Frame\<close> (\<open>net.rs\<close>, \<open>net/hdlc.rs\<close>): frame buffers and the check sequence, table-driven and bit by bit.
  \<^item> \<open>Ppp_Channel\<close>, \<open>Ppp_Link\<close> (\<open>net/phy.rs\<close>): byte stuffing out of the transmit queue and into the receive
    ring; what one side sends the other side reads.
  \<^item> \<open>Ppp_Control\<close>, \<open>Ppp_Control_Correct\<close>, \<open>Ppp_Negotiation\<close> (\<open>net/control.rs\<close>, \<open>net/lcp.rs\<close>, \<open>net/ipcp.rs\<close>): options and the
    negotiation automaton behind one interface for both protocols; it opens only after both acknowledgements.
  \<^item> \<open>Ppp_Run\<close>, \<open>Ppp_Run_Correct\<close> (\<open>net.rs\<close>): the turns of the network task; the link comes up.

  \<^bold>\<open>Hardware library and bismuth.\<close>
  \<^item> \<open>Ticket_Lock\<close> (\<open>arch/arm1176/sync/ticket.rs\<close>), \<open>Once_Lock\<close> (\<open>sync/once.rs\<close>): atomic steps of any number of threads
    in any interleaving; mutual exclusion and progress, initialisation once.
  \<^item> \<open>Pmm\<close>, \<open>Pmm_Correct\<close>, \<open>Pmm_Alloc\<close> (\<open>arch/arm1176/pmm.rs\<close>): the tree of regions; initialisation reserves what is
    used, supersections are handed out correctly, smaller regions are not.
  \<^item> \<open>Vectors\<close> (bismuth \<open>int.rs\<close>, \<open>exceptions.rs\<close>, \<open>lib.rs\<close>): interrupt masks, stacks, critical sections, the exception
    vector and the branches in it.
  \<^item> \<open>Mmu\<close> (\<open>arch/arm1176/mmu.rs\<close>): the translation table and the registers; the mapping is the identity.
  \<^item> \<open>Interleave\<close> (bismuth \<open>app/debug.rs\<close>): the single-step scheduler, for any policy with an interface of its own, and
    the policy of the kernel; aborts are invisible to the threads, the schedule is the one asked for.

  \<^bold>\<open>Loops.\<close> The loops over given input are structural or have the length of the remaining input as
  their measure. The inflate loop is a \<open>partial_function\<close> into \<open>option\<close>; that it ends is part of the
  theorems on chunks. So is the loop over the options of a Configure-Nak, which ends for well-formed
  options and for some malformed ones does not. The copy loop of the stub takes fuel: the length of the copy is enough for
  whole words, and for other lengths no fuel is. The main loop is a sequence of given iterations.

  \<^bold>\<open>Not modelled.\<close> Boot code, assembly other than the relocation stub and the lock instructions, register
  set-up and panic handlers; the terminal attributes and the device search of the host (operating
  system calls), its command line, echo mode and log texts; the build helper \<open>xtask\<close>; of quartz the texts
  of the CPU identification; of antimony the start-up and the calls of the TCP/IP library; of bismuth the
  trampolines, the default handlers, the console and the functions that its checker tests.
\<close>

end
